(* ===== verification/Sce_Prelude.thy ===== *)
theory Sce_Prelude
  imports "HOL-Library.Word" "HOL-Library.Monad_Syntax"
begin

text \<open>
  What every component of the development shares: the machine types of the C code, the
  constants of \<^verbatim>\<open>src/sce.h\<close> and \<^verbatim>\<open>src/sce_internal.h\<close>, and the way a C function is
  modelled.

  A C function that can stop the kernel is modelled by a function into \<open>'a option\<close>, written
  in do-notation. The value \<open>None\<close> means that the call does not return normally: a
  \<^verbatim>\<open>BUG_ON\<close> fires, a NULL pointer is dereferenced, an array is accessed outside its bounds,
  or a loop runs forever. \<open>Some (r, s)\<close> is a normal return with result \<open>r\<close> and new
  state \<open>s\<close>; the C error codes are ordinary results of type \<open>rc\<close>. \<open>returns m P\<close>
  says that \<open>m\<close> returns normally with a value that satisfies \<open>P\<close> (total correctness), and the
  collection \<open>wp\<close> holds the rules that compute it.
\<close>

unbundle bit_operations_syntax

section \<open>Machine types and constants\<close>

type_synonym u8 = "8 word"
type_synonym u16 = "16 word"
type_synonym u32 = "32 word"
type_synonym u64 = "64 word"

text \<open>\<^verbatim>\<open>sector_t\<close> is 64 bits wide; a context pointer is only compared, 0 is NULL.\<close>

type_synonym sector_t = u64
type_synonym ptr = u64
type_synonym pfid_t = u32
type_synonym fragdesc_t = u32

text \<open>The codes of the engine, and the one kernel code that \<^verbatim>\<open>_lun_init\<close> returns.\<close>

datatype rc = SCE_SUCCESS | SCE_ERROR | ENOMEM

abbreviation (input) SCE_BITS4DEV :: nat where "SCE_BITS4DEV \<equiv> 4"
abbreviation (input) SCE_MAXCDEV :: nat where "SCE_MAXCDEV \<equiv> 16"
abbreviation (input) SCE_MAXLUN :: nat where "SCE_MAXLUN \<equiv> 256"
abbreviation (input) SCE_CACHEMISSLOGSIZE :: nat where "SCE_CACHEMISSLOGSIZE \<equiv> 1024"
abbreviation (input) SCE_MISSWINDOW :: nat where "SCE_MISSWINDOW \<equiv> 100"
abbreviation (input) SCE_REFCEILING :: "'a::numeral" where "SCE_REFCEILING \<equiv> 4"
abbreviation (input) SCE_SCTRPERFRAG :: "'a::numeral" where "SCE_SCTRPERFRAG \<equiv> 2048"
abbreviation (input) SCE_PAGEPERFRAG :: "'a::numeral" where "SCE_PAGEPERFRAG \<equiv> 256"
abbreviation (input) SCE_SCTRPERPAGE :: "'a::numeral" where "SCE_SCTRPERPAGE \<equiv> 8"
abbreviation (input) BITMAPENT_SIZE :: "'a::numeral" where "BITMAPENT_SIZE \<equiv> 32"
abbreviation (input) BITMAPARRAYSIZE :: nat where "BITMAPARRAYSIZE \<equiv> 8"

definition FRAGDESC_MAPPED :: u32 where "FRAGDESC_MAPPED = push_bit 31 1"
definition FRAGDESC_VALID :: u32 where "FRAGDESC_VALID = push_bit 30 1"
definition FRAGDESC_RESERVED :: u32 where "FRAGDESC_RESERVED = push_bit 28 3"
definition FRAGDESC_FLAGMASK :: u32 where
  "FRAGDESC_FLAGMASK = FRAGDESC_MAPPED OR FRAGDESC_VALID OR FRAGDESC_RESERVED"
definition FRAGDESC_DATAMASK :: u32 where "FRAGDESC_DATAMASK = NOT FRAGDESC_FLAGMASK"
definition FRAGDESC_DATA :: "u32 \<Rightarrow> u32" where "FRAGDESC_DATA d = d AND FRAGDESC_DATAMASK"
definition FRAGDESC_INC :: "u32 \<Rightarrow> u32" where
  "FRAGDESC_INC d = (d AND FRAGDESC_FLAGMASK) OR ((FRAGDESC_DATA d + 1) AND FRAGDESC_DATAMASK)"

definition FRAGNUM_WITHINFREELIST :: u32 where "FRAGNUM_WITHINFREELIST = 0xffffffff"
definition FRAGNUM_FREE :: u32 where "FRAGNUM_FREE = 0xfffffffe"

text \<open>A physical fragment id is a device number (4 bits) above an offset (24 bits).\<close>

abbreviation (input) PFID_BITS4OFF :: nat where "PFID_BITS4OFF \<equiv> 24"
definition PFID_DEVMASK :: u32 where "PFID_DEVMASK = push_bit 4 1 - 1"
definition PFID_OFFMASK :: u32 where "PFID_OFFMASK = push_bit 24 1 - 1"
definition SCE_PFIDDEV :: "pfid_t \<Rightarrow> u32" where
  "SCE_PFIDDEV pf = drop_bit PFID_BITS4OFF pf AND PFID_DEVMASK"
definition SCE_PFIDOFF :: "pfid_t \<Rightarrow> u32" where
  "SCE_PFIDOFF pf = pf AND PFID_OFFMASK"
definition SCE_PFID :: "u32 \<Rightarrow> u32 \<Rightarrow> pfid_t" where
  "SCE_PFID dv off = push_bit PFID_BITS4OFF (dv AND PFID_DEVMASK) OR (off AND PFID_OFFMASK)"

section \<open>Partial operations and total correctness\<close>

named_theorems wp \<open>rules that compute \<open>returns\<close> over a model function\<close>

definition bug_on :: "bool \<Rightarrow> unit option" where
  "bug_on c = (if c then None else Some ())"

definition rd :: "'a list \<Rightarrow> nat \<Rightarrow> 'a option" where
  "rd xs i = (if i < length xs then Some (xs ! i) else None)"

definition returns :: "'a option \<Rightarrow> ('a \<Rightarrow> bool) \<Rightarrow> bool" where
  "returns m P = (case m of None \<Rightarrow> False | Some x \<Rightarrow> P x)"

lemma returns_Some [wp, simp]: "returns (Some x) P = P x"
  by (simp add: returns_def)

lemma returns_None [wp, simp]: "returns None P = False"
  by (simp add: returns_def)

lemma returns_bind [wp]: "returns (Option.bind m f) P = returns m (\<lambda>x. returns (f x) P)"
  by (cases m) simp_all

lemma returns_bug_on [wp]: "returns (bug_on c) P \<longleftrightarrow> \<not> c \<and> P ()"
  by (simp add: bug_on_def)

lemma returns_rd [wp]: "returns (rd xs i) P \<longleftrightarrow> i < length xs \<and> P (xs ! i)"
  by (simp add: rd_def)

lemma returns_if [wp]:
  "returns (if c then a else b) P \<longleftrightarrow> (c \<longrightarrow> returns a P) \<and> (\<not> c \<longrightarrow> returns b P)"
  by simp

lemma returns_iff: "returns m P \<longleftrightarrow> (\<exists>x. m = Some x \<and> P x)"
  by (cases m) simp_all

lemma returnsI: "m = Some x \<Longrightarrow> P x \<Longrightarrow> returns m P"
  by simp

lemma returnsE:
  assumes "returns m P" obtains x where "m = Some x" "P x"
  using assms by (auto simp: returns_iff)

lemma returns_mono: "returns m P \<Longrightarrow> (\<And>x. P x \<Longrightarrow> Q x) \<Longrightarrow> returns m Q"
  by (auto simp: returns_iff)

lemma returns_conj: "returns m P \<Longrightarrow> returns m Q \<Longrightarrow> returns m (\<lambda>x. P x \<and> Q x)"
  by (auto simp: returns_iff)

lemma returns_bindI:
  "returns m P \<Longrightarrow> (\<And>x. P x \<Longrightarrow> returns (f x) Q) \<Longrightarrow> returns (Option.bind m f) Q"
  by (auto simp: returns_iff)

lemma rd_Some [simp]: "i < length xs \<Longrightarrow> rd xs i = Some (xs ! i)"
  by (simp add: rd_def)

lemma rd_eq_Some: "rd xs i = Some x \<longleftrightarrow> i < length xs \<and> x = xs ! i"
  by (auto simp: rd_def)

text \<open>A C loop whose index runs over known values, each run of the body returning normally.\<close>

fun for_each :: "'a list \<Rightarrow> ('a \<Rightarrow> 's \<Rightarrow> 's option) \<Rightarrow> 's \<Rightarrow> 's option" where
  "for_each [] f s = Some s"
| "for_each (x # xs) f s = do { s' \<leftarrow> f x s; for_each xs f s' }"

lemma for_each_append:
  "for_each (xs @ ys) f s = do { s' \<leftarrow> for_each xs f s; for_each ys f s' }"
  by (induction xs arbitrary: s) (auto split: Option.bind_splits)

text \<open>The loop rule: an invariant indexed by the values still to come.\<close>

lemma for_each_returns:
  assumes "I xs s"
    and "\<And>x ys s. I (x # ys) s \<Longrightarrow> x \<in> set xs \<Longrightarrow> returns (f x s) (I ys)"
  shows "returns (for_each xs f s) (I [])"
  using assms
proof (induction xs arbitrary: s)
  case Nil
  then show ?case by simp
next
  case (Cons x xs)
  have "returns (f x s) (I xs)"
    using Cons.prems by simp
  then obtain s' where s': "f x s = Some s'" "I xs s'"
    by (auto simp: returns_iff)
  have "returns (for_each xs f s') (I [])"
    by (rule Cons.IH [OF s'(2)]) (auto intro: Cons.prems(2))
  then show ?case by (simp add: s'(1))
qed

section \<open>Words\<close>

lemma unat_dec: "(n :: 'a::len word) \<noteq> 0 \<Longrightarrow> unat (n - 1) = unat n - 1"
  by (rule unat_minus_one)

lemma unat_inc:
  "unat (n :: 'a::len word) + 1 < 2 ^ LENGTH('a) \<Longrightarrow> unat (n + 1) = unat n + 1"
  by (simp add: unat_word_ariths)

lemma word_pos_unat: "0 < (n :: 'a::len word) \<longleftrightarrow> 0 < unat n"
  by (simp add: word_less_nat_alt)

lemma unat_ucast_mod: "unat (ucast (w :: 'a::len word) :: 'b::len word) = unat w mod 2 ^ LENGTH('b)"
  by (simp add: unsigned_ucast_eq take_bit_eq_mod)

lemma unat_ucast_64 [simp]: "unat (ucast (w :: u32) :: u64) = unat w"
proof -
  have "unat w < 2 ^ LENGTH(32)" by (rule unsigned_less)
  then show ?thesis by (simp add: unat_ucast_mod)
qed

lemma bit_one_shl: "bit (push_bit n 1 :: 'a::len word) i \<longleftrightarrow> i = n \<and> n < LENGTH('a)"
  by (auto simp only: bit_push_bit_iff bit_1_iff possible_bit_word)

lemma and_shl_eq_0: "(w :: 'a::len word) AND push_bit n 1 = 0 \<longleftrightarrow> \<not> bit w n"
  by (simp add: push_bit_eq_mult and_exp_eq_0_iff_not_bit)

lemma bit_mask_word: "bit (push_bit n 1 - 1 :: 'a::len word) i \<longleftrightarrow> i < n \<and> i < LENGTH('a)"
  by (simp only: push_bit_eq_mult mult_1 mult_1_right bit_mask_iff possible_bit_word conj_commute
      flip: mask_eq_exp_minus_1)

section \<open>Fragment descriptors and physical fragment ids, bit by bit\<close>

lemma bit_MAPPED [simp]: "bit FRAGDESC_MAPPED i \<longleftrightarrow> i = 31"
  by (simp only: FRAGDESC_MAPPED_def bit_one_shl) simp

lemma bit_VALID [simp]: "bit FRAGDESC_VALID i \<longleftrightarrow> i = 30"
  by (simp only: FRAGDESC_VALID_def bit_one_shl) simp

lemma bit_RESERVED [simp]: "bit FRAGDESC_RESERVED i \<longleftrightarrow> i = 28 \<or> i = 29"
proof -
  have "(3 :: u32) = mask 2"
    by (simp add: mask_eq_exp_minus_1)
  then show ?thesis
    by (simp only: FRAGDESC_RESERVED_def bit_push_bit_iff bit_mask_iff possible_bit_word) auto
qed

lemma bit_FLAGMASK [simp]: "bit FRAGDESC_FLAGMASK i \<longleftrightarrow> 28 \<le> i \<and> i < 32"
  by (auto simp: FRAGDESC_FLAGMASK_def bit_or_iff)

lemma bit_DATAMASK [simp]: "bit FRAGDESC_DATAMASK i \<longleftrightarrow> i < 28"
  by (auto simp: FRAGDESC_DATAMASK_def bit_not_iff)

lemma bit_DEVMASK [simp]: "bit PFID_DEVMASK i \<longleftrightarrow> i < 4"
  by (simp only: PFID_DEVMASK_def bit_mask_word) auto

lemma bit_OFFMASK [simp]: "bit PFID_OFFMASK i \<longleftrightarrow> i < 24"
  by (simp only: PFID_OFFMASK_def bit_mask_word) auto

definition is_mapped :: "fragdesc_t \<Rightarrow> bool" where
  "is_mapped d \<longleftrightarrow> d AND FRAGDESC_MAPPED \<noteq> 0"

definition is_valid :: "fragdesc_t \<Rightarrow> bool" where
  "is_valid d \<longleftrightarrow> d AND FRAGDESC_VALID \<noteq> 0"

lemma is_mapped_bit: "is_mapped d \<longleftrightarrow> bit d 31"
  by (simp only: is_mapped_def FRAGDESC_MAPPED_def and_shl_eq_0 not_not)

lemma is_valid_bit: "is_valid d \<longleftrightarrow> bit d 30"
  by (simp only: is_valid_def FRAGDESC_VALID_def and_shl_eq_0 not_not)

text \<open>The place a physical fragment id (or a mapped descriptor) names: device and offset.\<close>

type_synonym floc = "nat \<times> nat"

definition loc_of :: "pfid_t \<Rightarrow> floc" where
  "loc_of p = (unat (SCE_PFIDDEV p), unat (SCE_PFIDOFF p))"

lemma SCE_PFIDDEV_take: "SCE_PFIDDEV p = take_bit 4 (drop_bit 24 p)"
  by (rule bit_word_eqI) (auto simp: SCE_PFIDDEV_def bit_simps)

lemma SCE_PFIDOFF_take: "SCE_PFIDOFF p = take_bit 24 p"
  by (rule bit_word_eqI) (auto simp: SCE_PFIDOFF_def bit_simps)

lemma unat_PFIDDEV_less [simp]: "unat (SCE_PFIDDEV p) < 16"
  by (simp add: SCE_PFIDDEV_take unsigned_take_bit_eq take_bit_nat_less_exp [where n = 4, simplified])

lemma unat_PFIDOFF_less [simp]: "unat (SCE_PFIDOFF p) < 2 ^ 24"
  by (simp add: SCE_PFIDOFF_take unsigned_take_bit_eq take_bit_nat_less_exp [where n = 24, simplified])

text \<open>Only the 28 data bits of an id matter for the place it names.\<close>

lemma loc_of_cong:
  assumes "\<And>i. i < 28 \<Longrightarrow> bit p i = bit q i" shows "loc_of p = loc_of q"
proof -
  have "SCE_PFIDDEV p = SCE_PFIDDEV q"
    by (rule bit_word_eqI) (auto simp: SCE_PFIDDEV_def bit_and_iff bit_drop_bit_eq assms)
  moreover have "SCE_PFIDOFF p = SCE_PFIDOFF q"
    by (rule bit_word_eqI) (auto simp: SCE_PFIDOFF_def bit_and_iff assms)
  ultimately show ?thesis by (simp add: loc_of_def)
qed

lemma loc_of_or_MAPPED [simp]: "loc_of (p OR FRAGDESC_MAPPED) = loc_of p"
  by (rule loc_of_cong) (simp add: bit_or_iff)

lemma loc_of_MAPPED_or [simp]: "loc_of (FRAGDESC_MAPPED OR p) = loc_of p"
  by (rule loc_of_cong) (simp add: bit_or_iff)

lemma loc_of_or_VALID [simp]: "loc_of (p OR FRAGDESC_VALID) = loc_of p"
  by (rule loc_of_cong) (simp add: bit_or_iff)

lemma loc_of_and_DATAMASK [simp]: "loc_of (p AND FRAGDESC_DATAMASK) = loc_of p"
  by (rule loc_of_cong) (simp add: bit_and_iff)

text \<open>Packing a device number and an offset within their widths, and reading them back.\<close>

lemma bit_less_two_power: "(w :: 'a::len word) < 2 ^ n \<Longrightarrow> bit w i \<Longrightarrow> i < n"
  by (metis bit_take_bit_iff less_mask_eq take_bit_eq_mask)

lemma PFIDDEV_PFID: "d < 16 \<Longrightarrow> SCE_PFIDDEV (SCE_PFID d off) = d"
  using bit_less_two_power [of d 4]
  by (intro bit_word_eqI)
    (fastforce simp: SCE_PFIDDEV_def SCE_PFID_def bit_and_iff bit_or_iff bit_drop_bit_eq bit_push_bit_iff)

lemma PFIDOFF_PFID: "off < 2 ^ 24 \<Longrightarrow> SCE_PFIDOFF (SCE_PFID d off) = off"
  using bit_less_two_power [of off 24]
  by (intro bit_word_eqI)
    (auto simp: SCE_PFIDOFF_def SCE_PFID_def bit_and_iff bit_or_iff bit_push_bit_iff)

lemma loc_of_PFID:
  assumes "d < 16" "off < 2 ^ 24" shows "loc_of (SCE_PFID (of_nat d) (of_nat off)) = (d, off)"
proof -
  have "(of_nat d :: u32) < 16" "(of_nat off :: u32) < 2 ^ 24"
    using assms by (simp_all add: word_less_nat_alt unat_of_nat)
  then show ?thesis
    using assms by (simp add: loc_of_def PFIDDEV_PFID PFIDOFF_PFID unat_of_nat)
qed

section \<open>Properties\<close>

text \<open>
  A device number below 16 and an offset below 2^24 can be read back from the physical
  fragment id made of them.
\<close>

lemma PFID_roundtrip:
  assumes "unat dv < 16" "unat off < 2 ^ 24"
  shows "SCE_PFIDDEV (SCE_PFID dv off) = dv \<and> SCE_PFIDOFF (SCE_PFID dv off) = off"
  using assms by (simp add: PFIDDEV_PFID PFIDOFF_PFID word_less_nat_alt)

lemma PFID_roundtrip_witness:
  "SCE_PFIDDEV (SCE_PFID 15 0xfffffe) = 15 \<and> SCE_PFIDOFF (SCE_PFID 15 0xfffffe) = 0xfffffe"
  by (rule PFID_roundtrip) simp_all

text \<open>
  Counting a miss in a fragment descriptor adds one to its 28 data bits, wrapping at 2^28,
  and leaves the four flag bits alone.
\<close>

lemma FRAGDESC_INC_counts:
  "unat (FRAGDESC_DATA (FRAGDESC_INC d)) = (unat (FRAGDESC_DATA d) + 1) mod 2 ^ 28
   \<and> FRAGDESC_INC d AND FRAGDESC_FLAGMASK = d AND FRAGDESC_FLAGMASK"
proof
  have data: "FRAGDESC_DATA w = take_bit 28 w" for w
    by (rule bit_word_eqI) (auto simp: FRAGDESC_DATA_def bit_simps)
  have "FRAGDESC_DATA (FRAGDESC_INC d) = take_bit 28 (FRAGDESC_DATA d + 1)" (is "?l = take_bit 28 ?w")
    by (rule bit_word_eqI) (auto simp: FRAGDESC_DATA_def FRAGDESC_INC_def bit_and_iff bit_or_iff bit_take_bit_iff)
  then have "unat ?l = take_bit 28 (unat ?w)"
    by (simp only: unsigned_take_bit_eq)
  then have "unat ?l = unat ?w mod 2 ^ 28"
    by (simp only: take_bit_eq_mod)
  moreover have "unat (FRAGDESC_DATA d) < 2 ^ 28"
    by (simp only: data unsigned_take_bit_eq take_bit_nat_less_exp)
  then have "unat (FRAGDESC_DATA d + 1) = unat (FRAGDESC_DATA d) + 1"
    by (simp add: unat_word_ariths)
  ultimately show "unat (FRAGDESC_DATA (FRAGDESC_INC d)) = (unat (FRAGDESC_DATA d) + 1) mod 2 ^ 28" by simp
  show "FRAGDESC_INC d AND FRAGDESC_FLAGMASK = d AND FRAGDESC_FLAGMASK"
    by (rule bit_word_eqI) (auto simp: FRAGDESC_INC_def bit_and_iff bit_or_iff)
qed

end
