(* ===== verification/Sce_Types.thy ===== *)
theory Sce_Types
  imports Sce_Prelude
begin

text \<open>
  The data of the cache engine, after \<^verbatim>\<open>src/sce.h\<close> and \<^verbatim>\<open>src/sce_internal.h\<close>: fragment
  descriptors, cache devices, LUNs and the engine itself, with the places of the two kinds of
  dynamically allocated tables (fragment tables and fragment maps) and the reads and writes the
  components make through pointers into them.

  The arrays embedded in \<^verbatim>\<open>sce_t\<close> (\<^verbatim>\<open>cdevtbl\<close>, \<^verbatim>\<open>luntbl\<close>, the miss log) are
  functions from the index; an access outside their fixed bounds is written as \<open>None\<close> where the
  code could make one. A table obtained from \<^verbatim>\<open>vmalloc\<close> is a list of its allocated length, and
  \<open>None\<close> while its pointer is NULL. A \<^verbatim>\<open>frag_t *\<close> is the place \<open>(device, offset)\<close> it points
  to, a \<^verbatim>\<open>lun_t *\<close> the index into \<^verbatim>\<open>luntbl\<close>. The spin locks carry no data.
\<close>

section \<open>Records\<close>

record frag =
  f_lunidx :: u16
  f_fragnum :: u32
  f_bitmap :: "u32 list"
  f_nr_valid :: u16
  f_nr_service :: u16
  f_nr_hit :: u32
  f_nr_miss :: u32
  f_nr_ref :: u8
  f_next :: pfid_t

record lun_stats =
  alloc_sctrs :: u64
  valid_sctrs :: u64
  populations :: u64
  reads :: u64
  read_sctrs :: u64
  read_hits :: u64
  writes :: u64
  write_sctrs :: u64
  write_hits :: u64

record cdev =
  c_scehndl :: bool
  c_cdevctx :: ptr
  c_nr_frag :: u32
  c_fragtbl :: "frag list option"

record lun =
  l_scehndl :: bool
  l_fragmap :: "fragdesc_t list option"
  l_lunctx :: ptr
  l_nr_sctr :: sector_t
  l_nr_frag :: u32
  l_nr_service :: u32
  l_waiting4deletion :: bool
  l_stats :: lun_stats

type_synonym ctbl = "nat \<Rightarrow> cdev"
type_synonym ltbl = "nat \<Rightarrow> lun"

record sce =
  nr_cdev :: u32
  cdevtbl :: ctbl
  nr_lun :: u32
  luntbl :: ltbl
  nr_frag :: u32
  nr_freefrag :: u32
  freefraglist :: pfid_t
  nr_hit :: u32
  nr_miss :: u32
  nr_eviction :: u32
  arm :: pfid_t
  misslog_fragnum :: "nat \<Rightarrow> u32"
  misslog_lunidx :: "nat \<Rightarrow> u16"
  misslog_head :: u32
  misslog_size :: u32

record sce_status_t =
  st_nr_hit :: u32
  st_nr_miss :: u32
  st_nr_freefrag :: u32
  st_nr_totfrag :: u32
  st_nr_eviction :: u32

record sce_poptask_t =
  pt_lunctx :: ptr
  pt_cdevctx :: ptr
  pt_lun_fragnum :: u32
  pt_cdev_fragnum :: u32

record sce_fmap_t =
  fmap_cdevctx :: ptr
  fmap_fragnum :: u32

text \<open>Memory cleared with \<^verbatim>\<open>memset(p, 0, n)\<close>.\<close>

definition frag_zero :: frag where
  "frag_zero = \<lparr>f_lunidx = 0, f_fragnum = 0, f_bitmap = replicate BITMAPARRAYSIZE 0,
     f_nr_valid = 0, f_nr_service = 0, f_nr_hit = 0, f_nr_miss = 0, f_nr_ref = 0, f_next = 0\<rparr>"

definition stats_zero :: lun_stats where
  "stats_zero = \<lparr>alloc_sctrs = 0, valid_sctrs = 0, populations = 0, reads = 0, read_sctrs = 0,
     read_hits = 0, writes = 0, write_sctrs = 0, write_hits = 0\<rparr>"

definition cdev_zero :: cdev where
  "cdev_zero = \<lparr>c_scehndl = False, c_cdevctx = 0, c_nr_frag = 0, c_fragtbl = None\<rparr>"

definition lun_zero :: lun where
  "lun_zero = \<lparr>l_scehndl = False, l_fragmap = None, l_lunctx = 0, l_nr_sctr = 0, l_nr_frag = 0,
     l_nr_service = 0, l_waiting4deletion = False, l_stats = stats_zero\<rparr>"

text \<open>Memory filled with \<^verbatim>\<open>memset(p, 85, n)\<close>: every byte is \<^verbatim>\<open>0x55\<close>.\<close>

definition frag_fill85 :: frag where
  "frag_fill85 = \<lparr>f_lunidx = 0x5555, f_fragnum = 0x55555555,
     f_bitmap = replicate BITMAPARRAYSIZE 0x55555555, f_nr_valid = 0x5555,
     f_nr_service = 0x5555, f_nr_hit = 0x55555555, f_nr_miss = 0x55555555, f_nr_ref = 0x55,
     f_next = 0x55555555\<rparr>"

definition fragdesc_fill85 :: fragdesc_t where
  "fragdesc_fill85 = 0x55555555"

lemma frag_zero_simps [simp]:
  "f_bitmap frag_zero = replicate 8 0" "f_nr_service frag_zero = 0" "f_next frag_zero = 0"
  "f_nr_ref frag_zero = 0" "f_nr_miss frag_zero = 0"
  by (simp_all add: frag_zero_def)

lemma cdev_zero_simps [simp]:
  "c_fragtbl cdev_zero = None" "c_nr_frag cdev_zero = 0" "c_cdevctx cdev_zero = 0"
  "c_scehndl cdev_zero = False"
  by (simp_all add: cdev_zero_def)

lemma lun_zero_simps [simp]:
  "l_fragmap lun_zero = None" "l_nr_frag lun_zero = 0" "l_lunctx lun_zero = 0"
  "l_scehndl lun_zero = False" "l_nr_service lun_zero = 0" "l_waiting4deletion lun_zero = False"
  "l_nr_sctr lun_zero = 0"
  by (simp_all add: lun_zero_def)

lemma frag_fill85_simps [simp]:
  "f_fragnum frag_fill85 = 0x55555555" "f_next frag_fill85 = 0x55555555"
  by (simp_all add: frag_fill85_def)

lemma not_mapped_fill85 [simp]: "\<not> is_mapped fragdesc_fill85"
  by (simp add: is_mapped_def FRAGDESC_MAPPED_def fragdesc_fill85_def)

section \<open>Fragment tables\<close>

definition flocs :: "ctbl \<Rightarrow> floc set" where
  "flocs ct = {(d, k). d < SCE_MAXCDEV \<and>
     (case c_fragtbl (ct d) of None \<Rightarrow> False | Some t \<Rightarrow> k < length t)}"

fun frag_at :: "ctbl \<Rightarrow> floc \<Rightarrow> frag" where
  "frag_at ct (d, k) = the (c_fragtbl (ct d)) ! k"

text \<open>Reading and writing \<^verbatim>\<open>*frag\<close>; reading outside the table is \<open>None\<close>.\<close>

fun get_frag :: "ctbl \<Rightarrow> floc \<Rightarrow> frag option" where
  "get_frag ct (d, k) =
     (if d < SCE_MAXCDEV then do { t \<leftarrow> c_fragtbl (ct d); rd t k } else None)"

fun put_frag :: "ctbl \<Rightarrow> floc \<Rightarrow> frag \<Rightarrow> ctbl" where
  "put_frag ct (d, k) f = ct(d := (ct d)\<lparr>c_fragtbl := map_option (\<lambda>t. t[k := f]) (c_fragtbl (ct d))\<rparr>)"

lemma get_frag_flocs [simp]: "l \<in> flocs ct \<Longrightarrow> get_frag ct l = Some (frag_at ct l)"
  by (auto simp: flocs_def split: option.splits)

lemma get_frag_eq_Some: "get_frag ct l = Some f \<longleftrightarrow> l \<in> flocs ct \<and> f = frag_at ct l"
  by (cases l) (auto simp: flocs_def rd_eq_Some split: option.splits Option.bind_splits if_splits)

lemma returns_get_frag [wp]: "returns (get_frag ct l) P \<longleftrightarrow> l \<in> flocs ct \<and> P (frag_at ct l)"
  by (auto simp: returns_iff get_frag_eq_Some)

lemma flocs_put_frag [simp]: "flocs (put_frag ct l f) = flocs ct"
  by (cases l) (auto simp: flocs_def split: option.splits if_splits)

lemma frag_at_put_frag [simp]:
  "l \<in> flocs ct \<Longrightarrow> frag_at (put_frag ct l f) l' = (if l' = l then f else frag_at ct l')"
  by (cases l; cases l') (auto simp: flocs_def nth_list_update split: option.splits)

lemma c_fields_put_frag [simp]:
  "c_scehndl (put_frag ct l f d) = c_scehndl (ct d)"
  "c_cdevctx (put_frag ct l f d) = c_cdevctx (ct d)"
  "c_nr_frag (put_frag ct l f d) = c_nr_frag (ct d)"
  "(c_fragtbl (put_frag ct l f d) = None) = (c_fragtbl (ct d) = None)"
  by (cases l; simp)+

lemma length_fragtbl_put_frag [simp]:
  "map_option length (c_fragtbl (put_frag ct l f d)) = map_option length (c_fragtbl (ct d))"
  by (cases l; cases "c_fragtbl (ct d)") auto

lemma put_frag_put_frag [simp]: "put_frag (put_frag ct l f) l g = put_frag ct l g"
  by (cases l; cases "c_fragtbl (ct (fst l))") (auto simp: fun_eq_iff)

lemma flocs_eq_Sigma:
  "flocs ct = (SIGMA d : {..<16}. {..<(case c_fragtbl (ct d) of None \<Rightarrow> 0 | Some t \<Rightarrow> length t)})"
  by (auto simp: flocs_def split: option.splits)

lemma finite_flocs [simp]: "finite (flocs ct)"
  by (simp add: flocs_eq_Sigma)

declare split_paired_All [simp del] split_paired_Ex [simp del]

declare frag_at.simps [simp del] get_frag.simps [simp del] put_frag.simps [simp del]

section \<open>Fragment maps\<close>

definition fdesc_at :: "ltbl \<Rightarrow> nat \<Rightarrow> nat \<Rightarrow> fragdesc_t option" where
  "fdesc_at lt i n = do { m \<leftarrow> l_fragmap (lt i); rd m n }"

definition upd_lun :: "ltbl \<Rightarrow> nat \<Rightarrow> (lun \<Rightarrow> lun) \<Rightarrow> ltbl" where
  "upd_lun lt i g = lt(i := g (lt i))"

definition set_fdesc :: "ltbl \<Rightarrow> nat \<Rightarrow> nat \<Rightarrow> fragdesc_t \<Rightarrow> ltbl" where
  "set_fdesc lt i n v = upd_lun lt i (l_fragmap_update (map_option (\<lambda>m. m[n := v])))"

lemma upd_lun_apply [simp]: "upd_lun lt i g j = (if j = i then g (lt i) else lt j)"
  by (simp add: upd_lun_def)

lemma fdesc_at_set_fdesc [simp]:
  "fdesc_at (set_fdesc lt i n v) j k =
     (if j = i \<and> k = n \<and> fdesc_at lt i n \<noteq> None then Some v else fdesc_at lt j k)"
  by (cases "l_fragmap (lt i)") (auto simp: fdesc_at_def set_fdesc_def rd_def nth_list_update)

lemma l_fields_set_fdesc [simp]:
  "l_scehndl (set_fdesc lt i n v j) = l_scehndl (lt j)"
  "l_lunctx (set_fdesc lt i n v j) = l_lunctx (lt j)"
  "l_nr_sctr (set_fdesc lt i n v j) = l_nr_sctr (lt j)"
  "l_nr_frag (set_fdesc lt i n v j) = l_nr_frag (lt j)"
  "l_nr_service (set_fdesc lt i n v j) = l_nr_service (lt j)"
  "l_waiting4deletion (set_fdesc lt i n v j) = l_waiting4deletion (lt j)"
  "l_stats (set_fdesc lt i n v j) = l_stats (lt j)"
  "(l_fragmap (set_fdesc lt i n v j) = None) = (l_fragmap (lt j) = None)"
  by (simp_all add: set_fdesc_def)

lemma fdesc_at_upd_lun:
  "(\<And>l. l_fragmap (g l) = l_fragmap l) \<Longrightarrow> fdesc_at (upd_lun lt i g) j k = fdesc_at lt j k"
  by (simp add: fdesc_at_def)

lemma fdesc_at_eq_Some:
  "fdesc_at lt i n = Some d \<longleftrightarrow>
     (\<exists>m. l_fragmap (lt i) = Some m \<and> n < length m \<and> d = m ! n)"
  by (auto simp: fdesc_at_def rd_eq_Some split: Option.bind_splits)

lemma length_fragmap_set_fdesc [simp]:
  "map_option length (l_fragmap (set_fdesc lt i n v j)) = map_option length (l_fragmap (lt j))"
  by (cases "l_fragmap (lt j)") (auto simp: set_fdesc_def)

lemma upd_lun_set_fdesc:
  "(\<And>h l. g (l_fragmap_update h l) = l_fragmap_update h (g l)) \<Longrightarrow>
    upd_lun (set_fdesc lt i n v) i g = set_fdesc (upd_lun lt i g) i n v"
  by (simp add: set_fdesc_def upd_lun_def)

text \<open>The LUN index kept in a fragment: \<^verbatim>\<open>GET_LUNIDX\<close>.\<close>

definition GET_LUNIDX :: "nat \<Rightarrow> u16" where
  "GET_LUNIDX li = of_nat li"

lemma unat_GET_LUNIDX [simp]: "li < 256 \<Longrightarrow> unat (GET_LUNIDX li) = li"
  by (simp add: GET_LUNIDX_def unat_of_nat)

end
