(* ===== verification/Sce_Fragment.thy ===== *)
theory Sce_Fragment
  imports Sce_Types
begin

text \<open>
  \<^verbatim>\<open>src/sce_fragment.c\<close> in the default build (without \<^verbatim>\<open>SCE_AWT\<close>): the page bitmap of a
  fragment (bit 1: the page is invalid), kept in eight 32-bit words, and the number of valid
  pages. The bitmap loops walk a word bit by bit and the array word by word; \<open>pagebit\<close> reads the
  bitmap as one set of page numbers, and the locale \<open>bitmap_walk\<close> proves once what the setting
  and the clearing loop do to that set.
\<close>

section \<open>The code\<close>

definition frag_init :: "frag \<Rightarrow> frag" where
  "frag_init fr = frag_zero\<lparr>f_nr_valid := SCE_PAGEPERFRAG\<rparr>"

function set_bits :: "u32 \<Rightarrow> u32 \<Rightarrow> u32 \<Rightarrow> int \<Rightarrow> u32 \<times> u32 \<times> int" where
  "set_bits b msk pgcnt nr_set =
     (if 0 < msk \<and> 0 < pgcnt
      then if b AND msk = 0
           then set_bits (b OR msk) (push_bit 1 msk) (pgcnt - 1) (nr_set + 1)
           else set_bits b (push_bit 1 msk) (pgcnt - 1) nr_set
      else (b, pgcnt, nr_set))"
  by pat_completeness auto
termination
  by (relation "measure (\<lambda>(b, msk, pgcnt, nr). unat pgcnt)") (auto simp: measure_unat)

function set_entries :: "u32 list \<Rightarrow> nat \<Rightarrow> u32 \<Rightarrow> u32 \<Rightarrow> int \<Rightarrow> (int \<times> u32 list) option" where
  "set_entries bitmap i msk pgcnt nr_set =
     (if 0 < pgcnt
      then case rd bitmap i of
             None \<Rightarrow> None
           | Some w \<Rightarrow>
               (case set_bits w msk pgcnt nr_set of
                  (b, pgcnt', nr_set') \<Rightarrow> set_entries (bitmap[i := b]) (i + 1) 1 pgcnt' nr_set')
      else Some (nr_set, bitmap))"
  by pat_completeness auto
termination
  by (relation "measure (\<lambda>(bitmap, i, msk, pgcnt, nr). length bitmap - i)") (auto simp: rd_eq_Some)

definition set_bitmap :: "u32 list \<Rightarrow> u32 \<Rightarrow> u32 \<Rightarrow> (int \<times> u32 list) option" where
  "set_bitmap bitmap pgnum pgcnt =
     set_entries bitmap (unat (pgnum div BITMAPENT_SIZE))
       (push_bit (unat (pgnum mod BITMAPENT_SIZE)) 1) pgcnt 0"

function reset_bits :: "u32 \<Rightarrow> u32 \<Rightarrow> u32 \<Rightarrow> int \<Rightarrow> u32 \<times> u32 \<times> int" where
  "reset_bits b msk pgcnt nr_reset =
     (if 0 < msk \<and> 0 < pgcnt
      then if b AND msk \<noteq> 0
           then reset_bits (b AND NOT msk) (push_bit 1 msk) (pgcnt - 1) (nr_reset + 1)
           else reset_bits b (push_bit 1 msk) (pgcnt - 1) nr_reset
      else (b, pgcnt, nr_reset))"
  by pat_completeness auto
termination
  by (relation "measure (\<lambda>(b, msk, pgcnt, nr). unat pgcnt)") (auto simp: measure_unat)

function reset_entries :: "u32 list \<Rightarrow> nat \<Rightarrow> u32 \<Rightarrow> u32 \<Rightarrow> int \<Rightarrow> (int \<times> u32 list) option" where
  "reset_entries bitmap i msk pgcnt nr_reset =
     (if 0 < pgcnt
      then case rd bitmap i of
             None \<Rightarrow> None
           | Some w \<Rightarrow>
               (case reset_bits w msk pgcnt nr_reset of
                  (b, pgcnt', nr_reset') \<Rightarrow>
                    reset_entries (bitmap[i := b]) (i + 1) 1 pgcnt' nr_reset')
      else Some (nr_reset, bitmap))"
  by pat_completeness auto
termination
  by (relation "measure (\<lambda>(bitmap, i, msk, pgcnt, nr). length bitmap - i)") (auto simp: rd_eq_Some)

definition reset_bitmap :: "u32 list \<Rightarrow> u32 \<Rightarrow> u32 \<Rightarrow> (int \<times> u32 list) option" where
  "reset_bitmap bitmap pgnum pgcnt =
     reset_entries bitmap (unat (pgnum div BITMAPENT_SIZE))
       (push_bit (unat (pgnum mod BITMAPENT_SIZE)) 1) pgcnt 0"

text \<open>The whole words of a page range, tested against a mask each.\<close>

function check_entries :: "u32 list \<Rightarrow> nat \<Rightarrow> u32 \<Rightarrow> u32 \<Rightarrow> rc option" where
  "check_entries bitmap i offset pgcnt =
     (if 0 < pgcnt
      then let nr_chk = BITMAPENT_SIZE - offset;
               m = (if pgcnt < nr_chk then drop_bit (unat (BITMAPENT_SIZE - pgcnt)) (-1) else -1);
               nr_chk' = (if pgcnt < nr_chk then pgcnt else nr_chk);
               msk = push_bit (unat offset) m
           in case rd bitmap i of
                None \<Rightarrow> None
              | Some w \<Rightarrow> if w AND msk \<noteq> 0 then Some SCE_ERROR
                          else check_entries bitmap (i + 1) 0 (pgcnt - nr_chk')
      else Some SCE_SUCCESS)"
  by pat_completeness auto
termination
  by (relation "measure (\<lambda>(bitmap, i, offset, pgcnt). length bitmap - i)") (auto simp: rd_eq_Some)

definition check_bitmap :: "u32 list \<Rightarrow> u32 \<Rightarrow> u32 \<Rightarrow> rc option" where
  "check_bitmap bitmap pgnum pgcnt =
     (let i = unat (pgnum div BITMAPENT_SIZE); offset = pgnum mod BITMAPENT_SIZE
      in if pgcnt = 1
         then do {
           w \<leftarrow> rd bitmap i;
           Some (if w AND push_bit (unat offset) 1 \<noteq> 0 then SCE_ERROR else SCE_SUCCESS)
         }
         else check_entries bitmap i offset pgcnt)"

text \<open>\<^verbatim>\<open>_frag_invalidate\<close>: the page count returned is the number of pages newly invalidated.\<close>

definition frag_invalidate :: "frag \<Rightarrow> u32 \<Rightarrow> u32 \<Rightarrow> (int \<times> frag) option" where
  "frag_invalidate fr pgnum pgcnt = do {
     bug_on (pgcnt = 0);
     bug_on (pgnum + pgcnt > SCE_PAGEPERFRAG);
     (n, bm) \<leftarrow> set_bitmap (f_bitmap fr) pgnum pgcnt;
     bug_on (uint (f_nr_valid fr) < n);
     Some (n, fr\<lparr>f_bitmap := bm, f_nr_valid := f_nr_valid fr - word_of_int n\<rparr>)
   }"

definition frag_isvalid :: "frag \<Rightarrow> u32 \<Rightarrow> u32 \<Rightarrow> rc option" where
  "frag_isvalid fr pgnum pgcnt = do {
     bug_on (pgcnt = 0);
     bug_on (pgnum + pgcnt > SCE_PAGEPERFRAG);
     check_bitmap (f_bitmap fr) pgnum pgcnt
   }"

declare set_bits.simps [simp del] set_entries.simps [simp del]
  reset_bits.simps [simp del] reset_entries.simps [simp del] check_entries.simps [simp del]

section \<open>The bitmap as a set of pages\<close>

definition pagebit :: "u32 list \<Rightarrow> nat \<Rightarrow> bool" where
  "pagebit bm p = bit (bm ! (p div 32)) (p mod 32)"

lemma pagebit_update:
  "i < length bm \<Longrightarrow> pagebit (bm[i := b]) p = (if p div 32 = i then bit b (p mod 32) else pagebit bm p)"
  by (auto simp: pagebit_def nth_list_update)

lemma pagebit_zero [simp]: "p < 32 * n \<Longrightarrow> \<not> pagebit (replicate n 0) p"
  by (simp add: pagebit_def)

lemma div_mod_add: "(k :: nat) < 32 \<Longrightarrow> (32 * i + k) div 32 = i \<and> (32 * i + k) mod 32 = k"
  by simp

section \<open>The walk over a page range\<close>

text \<open>How many of the \<open>n\<close> bits from \<open>a\<close> on differ from \<open>v\<close>.\<close>

definition changed :: "bool \<Rightarrow> (nat \<Rightarrow> bool) \<Rightarrow> nat \<Rightarrow> nat \<Rightarrow> nat" where
  "changed v P a n = length (filter (\<lambda>j. P j \<noteq> v) [a..<a + n])"

lemma changed_Suc: "changed v P a (Suc n) = of_bool (P a \<noteq> v) + changed v P (Suc a) n"
  by (simp add: changed_def upt_conv_Cons del: upt_Suc)

lemma changed_add: "changed v P a (m + n) = changed v P a m + changed v P (a + m) n"
  using upt_add_eq_append [of a "a + m" n] by (simp add: changed_def add.assoc)

lemma changed_cong: "(\<And>j. a \<le> j \<Longrightarrow> j < a + n \<Longrightarrow> P j = Q j) \<Longrightarrow> changed v P a n = changed v Q a n"
  by (auto simp: changed_def intro!: arg_cong [where f = length] filter_cong)

lemma changed_card: "changed v P a n = card {j. a \<le> j \<and> j < a + n \<and> P j \<noteq> v}"
proof -
  have "changed v P a n = card (set (filter (\<lambda>j. P j \<noteq> v) [a..<a + n]))"
    unfolding changed_def by (rule distinct_card [symmetric]) simp
  also have "set (filter (\<lambda>j. P j \<noteq> v) [a..<a + n]) = {j. a \<le> j \<and> j < a + n \<and> P j \<noteq> v}"
    by auto
  finally show ?thesis .
qed


text \<open>
  What the setting loop (\<open>v = True\<close>) and the clearing loop (\<open>v = False\<close>) have in common: the
  inner loop writes \<open>v\<close> into the bits of one word from the mask up and counts those that held
  the other value, the outer loop goes on with the next word.
\<close>

locale bitmap_walk =
  fixes walk_bits :: "u32 \<Rightarrow> u32 \<Rightarrow> u32 \<Rightarrow> int \<Rightarrow> u32 \<times> u32 \<times> int"
    and walk :: "u32 list \<Rightarrow> nat \<Rightarrow> u32 \<Rightarrow> u32 \<Rightarrow> int \<Rightarrow> (int \<times> u32 list) option"
    and v :: bool
  assumes walk_bits_step: "walk_bits b msk n r =
      (if 0 < msk \<and> 0 < n
       then if (b AND msk \<noteq> 0) = v
            then walk_bits b (push_bit 1 msk) (n - 1) r
            else walk_bits (if v then b OR msk else b AND NOT msk) (push_bit 1 msk) (n - 1) (r + 1)
       else (b, n, r))"
    and walk_step: "walk bm i msk n r =
      (if 0 < n
       then case rd bm i of None \<Rightarrow> None
            | Some w \<Rightarrow> (case walk_bits w msk n r of
                (b, n', r') \<Rightarrow> walk (bm[i := b]) (i + 1) 1 n' r')
       else Some (r, bm))"
begin

lemma walk_bits_correct:
  assumes "k \<le> 32" and "walk_bits b (push_bit k 1) n r = (b', n', r')"
  shows "(\<forall>j < 32. bit b' j = (if k \<le> j \<and> j < k + min (32 - k) (unat n) then v else bit b j))
    \<and> unat n' = unat n - min (32 - k) (unat n)
    \<and> r' = r + int (changed v (bit b) k (min (32 - k) (unat n)))"
  using assms
proof (induction "32 - k" arbitrary: k b n r)
  case 0
  then have "push_bit k (1 :: u32) = 0" by (simp add: push_bit_eq_mult)
  with 0 show ?case by (subst (asm) walk_bits_step) (simp add: changed_def)
next
  case (Suc x)
  then have k: "k < 32" by simp
  have pos: "push_bit k (1 :: u32) > 0"
  proof -
    have "bit (push_bit k 1 :: u32) k" using k by (simp only: bit_one_shl) simp
    then have "push_bit k (1 :: u32) \<noteq> 0" by (metis bit_0_eq bot_apply bot_bool_def)
    then show ?thesis by (simp only: word_gt_0)
  qed
  have shift: "push_bit 1 (push_bit k (1 :: u32)) = push_bit (Suc k) 1"
    by (simp only: push_bit_push_bit) simp
  show ?case
  proof (cases "n = 0")
    case True
    with Suc.prems(2) show ?thesis
      by (subst (asm) walk_bits_step) (auto simp: changed_def)
  next
    case False
    define b1 where "b1 = (if bit b k = v then b
        else if v then b OR push_bit k 1 else b AND NOT (push_bit k 1))"
    have b1: "bit b1 j = (if j = k then v else bit b j)" if "j < 32" for j
      using that unfolding b1_def
      by (simp only: bit_or_iff bit_and_iff bit_not_iff bit_one_shl split: if_splits) auto
    have n: "unat n = Suc (unat (n - 1))"
      using False by (simp add: unat_dec unat_gt_0)
    have step: "walk_bits b1 (push_bit (Suc k) 1) (n - 1) (r + int (of_bool (bit b k \<noteq> v))) = (b', n', r')"
      using Suc.prems(2) pos False
      by (subst (asm) walk_bits_step)
        (simp only: shift and_shl_eq_0 b1_def word_gt_0 not_not simp_thms if_True split: if_splits, simp_all)
    have IH: "(\<forall>j < 32. bit b' j = (if Suc k \<le> j \<and> j < Suc k + min (32 - Suc k) (unat (n - 1)) then v else bit b1 j))
      \<and> unat n' = unat (n - 1) - min (32 - Suc k) (unat (n - 1))
      \<and> r' = r + int (of_bool (bit b k \<noteq> v)) + int (changed v (bit b1) (Suc k) (min (32 - Suc k) (unat (n - 1))))"
      by (rule Suc.hyps(1) [OF _ _ step]) (use Suc.hyps(2) k in auto)
    have m: "min (32 - k) (unat n) = Suc (min (32 - Suc k) (unat (n - 1)))"
      using n k by simp
    have c: "changed v (bit b1) (Suc k) (min (32 - Suc k) (unat (n - 1)))
        = changed v (bit b) (Suc k) (min (32 - Suc k) (unat (n - 1)))"
      using k by (intro changed_cong) (auto simp: b1)
    from IH show ?thesis
      unfolding m changed_Suc c using n b1 k by (auto simp: min_def)
  qed
qed

lemma walk_correct:
  assumes "k < 32" and "32 * i + k + unat n \<le> 32 * length bm"
  shows "\<exists>bm'. walk bm i (push_bit k 1) n r = Some (r + int (changed v (pagebit bm) (32 * i + k) (unat n)), bm')
    \<and> length bm' = length bm
    \<and> (\<forall>p < 32 * length bm. pagebit bm' p =
         (if 32 * i + k \<le> p \<and> p < 32 * i + k + unat n then v else pagebit bm p))"
  using assms
proof (induction "unat n" arbitrary: bm i k n r rule: less_induct)
  case less
  show ?case
  proof (cases "n = 0")
    case True
    then show ?thesis by (subst walk_step) (auto simp: changed_def)
  next
    case False
    define m where "m = min (32 - k) (unat n)"
    have n: "0 < unat n" using False by (simp add: unat_gt_0)
    then have m: "0 < m" "m \<le> unat n" "k + m \<le> 32" using less.prems(1) by (auto simp: m_def)
    have i: "i < length bm" using less.prems n by linarith
    obtain b n' r' where wb: "walk_bits (bm ! i) (push_bit k 1) n r = (b, n', r')"
      by (cases "walk_bits (bm ! i) (push_bit k 1) n r") auto
    from walk_bits_correct [OF _ wb] less.prems(1)
    have b: "\<And>j. j < 32 \<Longrightarrow> bit b j = (if k \<le> j \<and> j < k + m then v else bit (bm ! i) j)"
      and n': "unat n' = unat n - m"
      and r': "r' = r + int (changed v (bit (bm ! i)) k m)"
      by (auto simp: m_def)
    let ?bm = "bm[i := b]" and ?a = "32 * i + k"
    have pb: "pagebit ?bm p = (if ?a \<le> p \<and> p < ?a + m then v else pagebit bm p)"
      if "p < 32 * length bm" for p
    proof (cases "p div 32 = i")
      case True
      then have p: "p = 32 * i + p mod 32" by (metis mult_div_mod_eq)
      have "pagebit ?bm p = bit b (p mod 32)" using True i by (simp add: pagebit_update)
      then show ?thesis using b [of "p mod 32"] p True by (auto simp: pagebit_def)
    next
      case False
      then have "\<not> (?a \<le> p \<and> p < ?a + m)"
        using m(3) by (auto simp: div_nat_eqI)
      then show ?thesis using False i by (auto simp: pagebit_update)
    qed
    have c: "changed v (bit (bm ! i)) k m = changed v (pagebit bm) ?a m"
    proof -
      have "[?a..<?a + m] = map (\<lambda>j. 32 * i + j) [k..<k + m]"
        by (rule nth_equalityI) simp_all
      then have "length (filter (\<lambda>j. pagebit bm j \<noteq> v) [?a..<?a + m])
          = length (filter (\<lambda>j. pagebit bm j \<noteq> v) (map (\<lambda>j. 32 * i + j) [k..<k + m]))"
        by simp
      also have "\<dots> = length (filter (\<lambda>j. bit (bm ! i) j \<noteq> v) [k..<k + m])"
        using m(3) by (auto simp: filter_map o_def pagebit_def intro!: arg_cong [where f = length] filter_cong)
      finally show ?thesis by (simp add: changed_def)
    qed
    show ?thesis
    proof (cases "n' = 0")
      case True
      then have "m = unat n" using n' m(2) by simp
      then show ?thesis
        using wb False i r' c pb True
        by (subst walk_step) (auto simp: word_gt_0 intro!: exI [of _ ?bm] simp: walk_step [of _ _ 1 0])
    next
      case False
      then have "0 < unat n'" by (simp add: unat_gt_0)
      then have e: "m = 32 - k" using n' m_def by auto
      have less': "unat n' < unat n" using n' m n by linarith
      have fit: "32 * (i + 1) + 0 + unat n' \<le> 32 * length ?bm"
        using less.prems n' e m(2) by simp
      from less.hyps [OF less' _ fit, of r']
      obtain bm' where W: "walk ?bm (i + 1) 1 n' r' =
            Some (r' + int (changed v (pagebit ?bm) (?a + m) (unat n')), bm')"
        and L: "length bm' = length bm"
        and P: "\<And>p. p < 32 * length bm \<Longrightarrow> pagebit bm' p =
            (if ?a + m \<le> p \<and> p < ?a + m + unat n' then v else pagebit ?bm p)"
        using e less.prems(1) by (auto simp: algebra_simps)
      have "changed v (pagebit ?bm) (?a + m) (unat n') = changed v (pagebit bm) (?a + m) (unat n')"
        using less.prems(2) n' m by (intro changed_cong) (auto simp: pb)
      moreover have "changed v (pagebit bm) ?a (unat n)
          = changed v (pagebit bm) ?a m + changed v (pagebit bm) (?a + m) (unat n')"
        using changed_add [of v "pagebit bm" ?a m "unat n'"] n' m(2) by simp
      ultimately have "walk bm i (push_bit k 1) n r =
          Some (r + int (changed v (pagebit bm) ?a (unat n)), bm')"
        using wb \<open>n \<noteq> 0\<close> i r' c W by (subst walk_step) (simp add: word_gt_0)
      then show ?thesis using L P pb n' m(2) by (auto intro!: exI [of _ bm'])
    qed
  qed
qed

end

interpretation setw: bitmap_walk set_bits set_entries True
  by unfold_locales (subst set_bits.simps set_entries.simps, auto)+

interpretation resetw: bitmap_walk reset_bits reset_entries False
  by unfold_locales (subst reset_bits.simps reset_entries.simps, auto)+

section \<open>What the bitmap operations do\<close>

lemma unat_div_mod_32 [simp]:
  "unat ((w :: u32) div 32) = unat w div 32" "unat ((w :: u32) mod 32) = unat w mod 32"
  by (simp_all add: unat_div_distrib unat_mod_distrib)

abbreviation (input) in_pages :: "nat \<Rightarrow> nat \<Rightarrow> nat \<Rightarrow> bool" where
  "in_pages a n p \<equiv> a \<le> p \<and> p < a + n"

lemma set_bitmap_correct:
  assumes "length bm = 8" "unat pgnum + unat pgcnt \<le> 256"
  shows "\<exists>bm'. set_bitmap bm pgnum pgcnt
      = Some (int (card {p. in_pages (unat pgnum) (unat pgcnt) p \<and> \<not> pagebit bm p}), bm')
    \<and> length bm' = 8
    \<and> (\<forall>p < 256. pagebit bm' p \<longleftrightarrow> pagebit bm p \<or> in_pages (unat pgnum) (unat pgcnt) p)"
  using setw.walk_correct [of "unat pgnum mod 32" "unat pgnum div 32" pgcnt bm 0] assms
  by (auto simp: set_bitmap_def changed_card conj_assoc)

lemma reset_bitmap_correct:
  assumes "length bm = 8" "unat pgnum + unat pgcnt \<le> 256"
  shows "\<exists>bm'. reset_bitmap bm pgnum pgcnt
      = Some (int (card {p. in_pages (unat pgnum) (unat pgcnt) p \<and> pagebit bm p}), bm')
    \<and> length bm' = 8
    \<and> (\<forall>p < 256. pagebit bm' p \<longleftrightarrow> pagebit bm p \<and> \<not> in_pages (unat pgnum) (unat pgcnt) p)"
  using resetw.walk_correct [of "unat pgnum mod 32" "unat pgnum div 32" pgcnt bm 0] assms
  by (auto simp: reset_bitmap_def changed_card conj_assoc)

text \<open>The mask of one step of the check selects the bits of the range within the word.\<close>

lemma bit_check_mask:
  fixes off n :: u32
  assumes "unat off < 32" "0 < n" "j < 32"
  shows "bit (push_bit (unat off)
      (if n < 32 - off then drop_bit (unat (32 - n)) (-1) else (-1 :: u32))) j
    \<longleftrightarrow> unat off \<le> j \<and> j < unat off + unat n"
proof -
  have off: "unat (32 - off) = 32 - unat off"
    using assms(1) by (subst unat_sub) (simp_all add: word_le_nat_alt)
  show ?thesis
  proof (cases "n < 32 - off")
    case True
    then have n: "unat n < 32 - unat off" by (simp add: word_less_nat_alt off)
    then have "unat (32 - n) = 32 - unat n"
      by (subst unat_sub) (simp_all add: word_le_nat_alt)
    then show ?thesis
      using True n assms
      by (auto simp: bit_push_bit_iff bit_drop_bit_eq bit_minus_1_iff possible_bit_word bit_mask_iff)
  next
    case False
    then have "32 - unat off \<le> unat n" by (simp add: word_less_nat_alt off)
    then show ?thesis
      using False assms
      by (auto simp: bit_push_bit_iff bit_minus_1_iff possible_bit_word bit_not_iff bit_mask_iff)
  qed
qed

lemma and_eq_0_bit: "(w :: u32) AND m = 0 \<longleftrightarrow> (\<forall>j < 32. \<not> (bit w j \<and> bit m j))"
proof -
  have "w AND m = 0 \<longleftrightarrow> (\<forall>j < 32. \<not> bit (w AND m) j)"
    by (auto intro!: bit_word_eqI)
  then show ?thesis by (simp add: bit_and_iff)
qed

lemma check_entries_correct:
  assumes "unat off < 32" "32 * i + unat off + unat n \<le> 32 * length bm"
  shows "check_entries bm i off n = Some
    (if \<forall>p. in_pages (32 * i + unat off) (unat n) p \<longrightarrow> \<not> pagebit bm p then SCE_SUCCESS else SCE_ERROR)"
  using assms
proof (induction "unat n" arbitrary: i off n rule: less_induct)
  case less
  show ?case
  proof (cases "n = 0")
    case True
    then show ?thesis by (subst check_entries.simps) simp
  next
    case False
    then have n: "0 < n" "0 < unat n" by (simp_all add: word_gt_0 unat_gt_0)
    have i: "i < length bm" using less.prems n by linarith
    let ?m = "push_bit (unat off) (if n < 32 - off then drop_bit (unat (32 - n)) (-1) else (-1 :: u32))"
    let ?a = "32 * i + unat off"
    define k where "k = min (unat n) (32 - unat off)"
    have k: "0 < k" "k \<le> unat n" "unat off + k \<le> 32" using n less.prems(1) by (auto simp: k_def)
    have off: "unat (32 - off) = 32 - unat off"
      using less.prems(1) by (subst unat_sub) (simp_all add: word_le_nat_alt)
    have chk: "unat (if n < 32 - off then n else 32 - off) = k"
      by (auto simp: k_def word_less_nat_alt off)
    have w: "bm ! i AND ?m = 0 \<longleftrightarrow> (\<forall>p. in_pages ?a k p \<longrightarrow> \<not> pagebit bm p)"
    proof -
      have "bm ! i AND ?m = 0 \<longleftrightarrow>
          (\<forall>j < 32. in_pages (unat off) k j \<longrightarrow> \<not> bit (bm ! i) j)"
        unfolding and_eq_0_bit using bit_check_mask [OF less.prems(1) n(1)] by (auto simp: k_def)
      also have "\<dots> \<longleftrightarrow> (\<forall>p. in_pages ?a k p \<longrightarrow> \<not> pagebit bm p)"
      proof safe
        fix p assume *: "\<forall>j < 32. in_pages (unat off) k j \<longrightarrow> \<not> bit (bm ! i) j"
          and p: "?a \<le> p" "p < ?a + k" "pagebit bm p"
        then have "p div 32 = i"
          using k(3) by (auto simp: div_nat_eqI)
        moreover from this have "p mod 32 = p - 32 * i"
          by (simp flip: minus_mult_div_eq_mod)
        moreover from this have "p mod 32 < 32" "in_pages (unat off) k (p mod 32)"
          using p by simp_all linarith+
        ultimately show False using spec [OF *, of "p mod 32"] p(3) by (simp add: pagebit_def)
      next
        fix j assume *: "\<forall>p. in_pages ?a k p \<longrightarrow> \<not> pagebit bm p"
          and j: "j < 32" "unat off \<le> j" "j < unat off + k" "bit (bm ! i) j"
        then show False using spec [OF *, of "32 * i + j"] by (simp add: pagebit_def)
      qed
      finally show ?thesis .
    qed
    have n': "unat (n - (if n < 32 - off then n else 32 - off)) = unat n - k"
      using k(2) chk by (subst unat_sub) (simp_all add: word_le_nat_alt)
    show ?thesis
    proof (cases "bm ! i AND ?m = 0")
      case False
      then show ?thesis
        using n i w k by (subst check_entries.simps) (auto simp: Let_def)
    next
      case True
      have IH: "check_entries bm (i + 1) 0 (n - (if n < 32 - off then n else 32 - off)) = Some
          (if \<forall>p. in_pages (32 * (i + 1)) (unat n - k) p \<longrightarrow> \<not> pagebit bm p
           then SCE_SUCCESS else SCE_ERROR)"
      proof (cases "k = unat n")
        case True
        then have "n - (if n < 32 - off then n else 32 - off) = 0"
          using n' by (simp only: unat_eq_zero [symmetric])
        then show ?thesis using True by (subst check_entries.simps) auto
      next
        case False
        then have "32 * (i + 1) + (unat n - k) \<le> 32 * length bm"
          using less.prems k_def by auto
        then show ?thesis
          using less.hyps [of "n - (if n < 32 - off then n else 32 - off)" 0 "i + 1"] n' k n by simp
      qed
      have split: "in_pages ?a (unat n) p \<longleftrightarrow> in_pages ?a k p \<or> in_pages (32 * (i + 1)) (unat n - k) p"
        for p
        using k by (auto simp: k_def min_def split: if_splits)
      from True w have "\<forall>p. in_pages ?a k p \<longrightarrow> \<not> pagebit bm p" by blast
      then have "(\<forall>p. in_pages ?a (unat n) p \<longrightarrow> \<not> pagebit bm p)
          \<longleftrightarrow> (\<forall>p. in_pages (32 * (i + 1)) (unat n - k) p \<longrightarrow> \<not> pagebit bm p)"
        using split by blast
      then show ?thesis
        using True n i IH by (subst check_entries.simps) (simp add: Let_def)
    qed
  qed
qed

lemma check_bitmap_correct:
  assumes "length bm = 8" "unat pgnum + unat pgcnt \<le> 256"
  shows "check_bitmap bm pgnum pgcnt = Some
    (if \<forall>p. in_pages (unat pgnum) (unat pgcnt) p \<longrightarrow> \<not> pagebit bm p then SCE_SUCCESS else SCE_ERROR)"
proof (cases "pgcnt = 1")
  case True
  then have "bm ! (unat pgnum div 32) AND push_bit (unat pgnum mod 32) 1 = 0 \<longleftrightarrow> \<not> pagebit bm (unat pgnum)"
    by (simp only: and_shl_eq_0 pagebit_def)
  moreover have "(\<forall>p. in_pages (unat pgnum) 1 p \<longrightarrow> \<not> pagebit bm p) \<longleftrightarrow> \<not> pagebit bm (unat pgnum)"
    by (auto simp: le_less_Suc_eq)
  ultimately show ?thesis
    using True assms by (simp add: check_bitmap_def)
next
  case False
  then show ?thesis
    using check_entries_correct [of "pgnum mod 32" "unat pgnum div 32" pgcnt bm] assms
    by (simp add: check_bitmap_def)
qed

section \<open>Fragments\<close>

text \<open>The page bookkeeping of a mapped fragment: the counter is the number of clear bits.\<close>

definition pages_ok :: "frag \<Rightarrow> bool" where
  "pages_ok f \<longleftrightarrow> length (f_bitmap f) = 8
     \<and> unat (f_nr_valid f) = card {p. p < 256 \<and> \<not> pagebit (f_bitmap f) p}"

definition page_valid :: "frag \<Rightarrow> nat \<Rightarrow> bool" where
  "page_valid f p \<longleftrightarrow> \<not> pagebit (f_bitmap f) p"

lemma pages_ok_init: "pages_ok (frag_init fr)"
proof -
  have "{p. p < 256 \<and> \<not> pagebit (replicate 8 0) p} = {..<256}"
    using pagebit_zero [where n = 8] by auto
  then show ?thesis by (simp add: pages_ok_def frag_init_def)
qed

lemma page_valid_init [simp]: "p < 256 \<Longrightarrow> page_valid (frag_init fr) p"
  using pagebit_zero [of p 8] by (simp add: page_valid_def frag_init_def)

lemma unat_pgsum:
  "unat (pgnum :: u32) + unat pgcnt \<le> 256 \<Longrightarrow> \<not> pgnum + pgcnt > 256"
  by (simp add: word_less_nat_alt unat_word_ariths)

text \<open>
  \<open>_frag_invalidate\<close> on a well-formed fragment: no \<^verbatim>\<open>BUG_ON\<close> fires, exactly the pages of
  the range become invalid, and the count returned is the number of pages that were valid.
\<close>

lemma frag_invalidate_correct:
  assumes "pages_ok f" "0 < pgcnt" "unat pgnum + unat pgcnt \<le> 256"
  shows "\<exists>bm n. frag_invalidate f pgnum pgcnt = Some (int n, f\<lparr>f_bitmap := bm, f_nr_valid := f_nr_valid f - of_nat n\<rparr>)
    \<and> n = card {p. in_pages (unat pgnum) (unat pgcnt) p \<and> page_valid f p}
    \<and> n \<le> unat (f_nr_valid f)
    \<and> pages_ok (f\<lparr>f_bitmap := bm, f_nr_valid := f_nr_valid f - of_nat n\<rparr>)
    \<and> (\<forall>p < 256. pagebit bm p \<longleftrightarrow> pagebit (f_bitmap f) p \<or> in_pages (unat pgnum) (unat pgcnt) p)"
proof -
  let ?R = "{p. in_pages (unat pgnum) (unat pgcnt) p \<and> \<not> pagebit (f_bitmap f) p}"
  let ?V = "{p. p < 256 \<and> \<not> pagebit (f_bitmap f) p}"
  obtain bm where bm: "set_bitmap (f_bitmap f) pgnum pgcnt = Some (int (card ?R), bm)"
      "length bm = 8"
      "\<forall>p < 256. pagebit bm p \<longleftrightarrow> pagebit (f_bitmap f) p \<or> in_pages (unat pgnum) (unat pgcnt) p"
    using set_bitmap_correct [of "f_bitmap f" pgnum pgcnt] assms by (auto simp: pages_ok_def)
  have sub: "?R \<subseteq> ?V" using assms(3) by auto
  have le: "card ?R \<le> unat (f_nr_valid f)"
    using card_mono [OF _ sub] assms(1) by (simp add: pages_ok_def)
  have "{p. p < 256 \<and> \<not> pagebit bm p} = ?V - ?R" using bm(3) by auto
  then have "card {p. p < 256 \<and> \<not> pagebit bm p} = card ?V - card ?R"
    using card_Diff_subset [OF _ sub] finite_subset [OF sub] by simp
  also have "\<dots> = unat (f_nr_valid f - of_nat (card ?R))"
  proof -
    have "unat (f_nr_valid f) < 2 ^ LENGTH(16)" by (rule unsigned_less)
    then have "card ?R < 2 ^ 16" using le by simp
    then have "unat (of_nat (card ?R) :: u16) = card ?R" by (simp add: unat_of_nat)
    then show ?thesis
      using le assms(1) by (subst unat_sub) (simp_all add: word_le_nat_alt pages_ok_def)
  qed
  finally have ok: "pages_ok (f\<lparr>f_bitmap := bm, f_nr_valid := f_nr_valid f - of_nat (card ?R)\<rparr>)"
    using bm(2) by (simp add: pages_ok_def)
  have nobug: "\<not> uint (f_nr_valid f) < int (card ?R)"
    using le by (metis not_less of_nat_le_iff uint_nat)
  have run: "frag_invalidate f pgnum pgcnt
      = Some (int (card ?R), f\<lparr>f_bitmap := bm, f_nr_valid := f_nr_valid f - of_nat (card ?R)\<rparr>)"
    using nobug assms(2) unat_pgsum [OF assms(3)]
    by (simp add: frag_invalidate_def bug_on_def bm(1) word_gt_0)
  show ?thesis
    unfolding page_valid_def
    by (intro exI conjI) (rule run, rule refl, rule le, rule ok, rule bm(3))
qed

lemma frag_isvalid_correct:
  assumes "pages_ok f" "0 < pgcnt" "unat pgnum + unat pgcnt \<le> 256"
  shows "frag_isvalid f pgnum pgcnt = Some
    (if \<forall>p. in_pages (unat pgnum) (unat pgcnt) p \<longrightarrow> page_valid f p then SCE_SUCCESS else SCE_ERROR)"
  using check_bitmap_correct [of "f_bitmap f" pgnum pgcnt] assms unat_pgsum [OF assms(3)]
  by (auto simp: frag_isvalid_def bug_on_def pages_ok_def page_valid_def word_gt_0)

section \<open>Properties\<close>

text \<open>
  Invalidating a page range of a fragment whose page count is right stops at no \<^verbatim>\<open>BUG_ON\<close>;
  exactly the pages of the range become invalid, the page count stays right, and the result is
  the number of pages that were valid before.
\<close>

lemma frag_invalidate_pages:
  assumes "pages_ok f" "0 < pgcnt" "unat pgnum + unat pgcnt \<le> 256"
  shows "returns (frag_invalidate f pgnum pgcnt) (\<lambda>(n, f'). pages_ok f'
    \<and> n = int (card {p. in_pages (unat pgnum) (unat pgcnt) p \<and> page_valid f p})
    \<and> (\<forall>p < 256. page_valid f' p \<longleftrightarrow> page_valid f p \<and> \<not> in_pages (unat pgnum) (unat pgcnt) p))"
  using frag_invalidate_correct [OF assms] by (auto simp: page_valid_def)

lemma frag_invalidate_pages_witness:
  "returns (frag_invalidate (frag_init frag_zero) 30 5) (\<lambda>(n, f'). pages_ok f'
    \<and> n = int (card {p. in_pages (unat (30 :: u32)) (unat (5 :: u32)) p \<and> page_valid (frag_init frag_zero) p})
    \<and> (\<forall>p < 256. page_valid f' p \<longleftrightarrow>
         page_valid (frag_init frag_zero) p \<and> \<not> in_pages (unat (30 :: u32)) (unat (5 :: u32)) p))"
  by (rule frag_invalidate_pages) (simp_all add: pages_ok_init)

text \<open>
  C40: the word-wise check of a page range with its masks decides what a search for an invalid
  page in the range decides.
\<close>

lemma check_bitmap_searches:
  assumes "length bm = 8" "unat pgnum + unat pgcnt \<le> 256"
  shows "check_bitmap bm pgnum pgcnt = Some
    (case List.find (pagebit bm) [unat pgnum..<unat pgnum + unat pgcnt] of
       None \<Rightarrow> SCE_SUCCESS | Some _ \<Rightarrow> SCE_ERROR)"
proof -
  have "(List.find (pagebit bm) [unat pgnum..<unat pgnum + unat pgcnt] = None)
      \<longleftrightarrow> (\<forall>p. in_pages (unat pgnum) (unat pgcnt) p \<longrightarrow> \<not> pagebit bm p)"
    by (auto simp: find_None_iff)
  then show ?thesis using check_bitmap_correct [OF assms] by (auto split: option.splits)
qed

lemma check_bitmap_searches_witness:
  "check_bitmap (replicate 8 0x10) 3 200 = Some
    (case List.find (pagebit (replicate 8 0x10)) [unat (3 :: u32)..<unat (3 :: u32) + unat (200 :: u32)] of
       None \<Rightarrow> SCE_SUCCESS | Some _ \<Rightarrow> SCE_ERROR)"
  by (rule check_bitmap_searches) simp_all

text \<open>
  Clearing a page range gives back the bitmap from before the range was set, when its pages
  were clear, and both count the whole range.
\<close>

lemma set_reset_bitmap:
  assumes "length bm = 8" "unat pgnum + unat pgcnt \<le> 256"
    and "\<forall>p. in_pages (unat pgnum) (unat pgcnt) p \<longrightarrow> \<not> pagebit bm p"
  shows "returns (set_bitmap bm pgnum pgcnt) (\<lambda>(n, bm1).
    n = int (unat pgcnt) \<and> reset_bitmap bm1 pgnum pgcnt = Some (n, bm))"
proof -
  have card: "card {p. in_pages (unat pgnum) (unat pgcnt) p} = unat pgcnt"
  proof -
    have "{p. in_pages (unat pgnum) (unat pgcnt) p} = {unat pgnum..<unat pgnum + unat pgcnt}" by auto
    then show ?thesis by simp
  qed
  obtain bm1 where 1: "set_bitmap bm pgnum pgcnt
      = Some (int (card {p. in_pages (unat pgnum) (unat pgcnt) p \<and> \<not> pagebit bm p}), bm1)" "length bm1 = 8"
      "\<forall>p < 256. pagebit bm1 p \<longleftrightarrow> pagebit bm p \<or> in_pages (unat pgnum) (unat pgcnt) p"
    using set_bitmap_correct [OF assms(1,2)] by blast
  obtain bm2 where 2: "reset_bitmap bm1 pgnum pgcnt
      = Some (int (card {p. in_pages (unat pgnum) (unat pgcnt) p \<and> pagebit bm1 p}), bm2)" "length bm2 = 8"
      "\<forall>p < 256. pagebit bm2 p \<longleftrightarrow> pagebit bm1 p \<and> \<not> in_pages (unat pgnum) (unat pgcnt) p"
    using reset_bitmap_correct [OF 1(2) assms(2)] by blast
  have "bm2 = bm"
  proof (rule nth_equalityI)
    show "length bm2 = length bm" using 2(2) assms(1) by simp
    fix i assume i: "i < length bm2"
    show "bm2 ! i = bm ! i"
    proof (rule bit_word_eqI)
      fix j assume j: "j < LENGTH(32)"
      then have "pagebit bm2 (32 * i + j) = pagebit bm (32 * i + j)"
        using 1(3) 2(2,3) assms(3) i by auto
      then show "bit (bm2 ! i) j = bit (bm ! i) j" using j by (simp add: pagebit_def)
    qed
  qed
  moreover have "{p. in_pages (unat pgnum) (unat pgcnt) p \<and> \<not> pagebit bm p} = {p. in_pages (unat pgnum) (unat pgcnt) p}"
    "{p. in_pages (unat pgnum) (unat pgcnt) p \<and> pagebit bm1 p} = {p. in_pages (unat pgnum) (unat pgcnt) p}"
    using assms(2,3) 1(3) by auto
  ultimately show ?thesis using 1(1) 2(1) card by simp
qed

lemma set_reset_bitmap_witness:
  "returns (set_bitmap (replicate 8 0) 60 10) (\<lambda>(n, bm1).
    n = int (unat (10 :: u32)) \<and> reset_bitmap bm1 60 10 = Some (n, replicate 8 0))"
  by (rule set_reset_bitmap) (simp_all add: pagebit_zero)

end
