(* ===== verification/Sce_Util.thy ===== *)
theory Sce_Util
  imports Sce_Fragment
begin

text \<open>
  \<^verbatim>\<open>src/sce_util.c\<close>: finding the fragment structure a physical fragment id names. \<open>dev_inv\<close>
  states what every slot of the device table looks like: an empty slot is all zero, an occupied one
  has a table of exactly \<^verbatim>\<open>nr_frag\<close> fragments, at most \<open>2 ^ 24\<close> (the 16 TB an id can address).
\<close>

section \<open>The code\<close>

definition pfid2frag :: "ctbl \<Rightarrow> pfid_t \<Rightarrow> floc option" where
  "pfid2frag ct pfid =
     (let devnum = SCE_PFIDDEV pfid; fragn = SCE_PFIDOFF pfid
      in if unat devnum < SCE_MAXCDEV
         then case c_fragtbl (ct (unat devnum)) of
                None \<Rightarrow> None
              | Some t \<Rightarrow> if fragn < c_nr_frag (ct (unat devnum))
                          then Some (unat devnum, unat fragn) else None
         else None)"

text \<open>What \<^verbatim>\<open>_pfid2frag\<close> stores through a non-NULL \<^verbatim>\<open>out_fmap\<close>.\<close>

definition pfid2fmap :: "ctbl \<Rightarrow> pfid_t \<Rightarrow> sce_fmap_t \<Rightarrow> sce_fmap_t" where
  "pfid2fmap ct pfid out =
     (case pfid2frag ct pfid of
        None \<Rightarrow> out
      | Some fl \<Rightarrow> \<lparr>fmap_cdevctx = c_cdevctx (ct (fst fl)), fmap_fragnum = SCE_PFIDOFF pfid\<rparr>)"

definition isvalidpfid :: "ctbl \<Rightarrow> pfid_t \<Rightarrow> rc" where
  "isvalidpfid ct pfid =
     (let devnum = SCE_PFIDDEV pfid; fragn = SCE_PFIDOFF pfid
      in if unat devnum < SCE_MAXCDEV \<and> c_fragtbl (ct (unat devnum)) \<noteq> None
            \<and> c_nr_frag (ct (unat devnum)) > fragn
         then SCE_SUCCESS else SCE_ERROR)"

section \<open>The device table\<close>

definition dev_ok :: "cdev \<Rightarrow> bool" where
  "dev_ok c = (case c_fragtbl c of
       None \<Rightarrow> c = cdev_zero
     | Some t \<Rightarrow> length t = unat (c_nr_frag c) \<and> 0 < length t \<and> length t \<le> 2 ^ 24 \<and> c_scehndl c)"

definition dev_inv :: "ctbl \<Rightarrow> bool" where
  "dev_inv ct \<longleftrightarrow> (\<forall>d < SCE_MAXCDEV. dev_ok (ct d))"

text \<open>Two device tables with the same devices, which may differ in what their fragments hold.\<close>

definition same_devs :: "ctbl \<Rightarrow> ctbl \<Rightarrow> bool" where
  "same_devs ct ct' \<longleftrightarrow> (\<forall>d. c_scehndl (ct' d) = c_scehndl (ct d)
     \<and> c_cdevctx (ct' d) = c_cdevctx (ct d) \<and> c_nr_frag (ct' d) = c_nr_frag (ct d)
     \<and> map_option length (c_fragtbl (ct' d)) = map_option length (c_fragtbl (ct d)))"

lemma same_devs_refl [simp]: "same_devs ct ct"
  by (simp add: same_devs_def)

lemma same_devs_trans: "same_devs a b \<Longrightarrow> same_devs b c \<Longrightarrow> same_devs a c"
  by (simp add: same_devs_def)

lemma same_devs_put_frag [simp]: "same_devs ct (put_frag ct l f)"
  by (simp add: same_devs_def)

lemma same_devs_None: "same_devs ct ct' \<Longrightarrow> (c_fragtbl (ct' d) = None) = (c_fragtbl (ct d) = None)"
  unfolding same_devs_def by (metis option.map_disc_iff)

lemma same_devs_flocs: "same_devs ct ct' \<Longrightarrow> flocs ct' = flocs ct"
proof -
  assume *: "same_devs ct ct'"
  have "(case c_fragtbl (ct' d) of None \<Rightarrow> False | Some t \<Rightarrow> k < length t)
      = (case c_fragtbl (ct d) of None \<Rightarrow> False | Some t \<Rightarrow> k < length t)" for d k
  proof -
    have "map_option length (c_fragtbl (ct' d)) = map_option length (c_fragtbl (ct d))"
      using * by (simp add: same_devs_def)
    then show ?thesis by (auto split: option.splits)
  qed
  then show ?thesis by (simp add: flocs_def)
qed

lemma same_devs_dev_inv: "same_devs ct ct' \<Longrightarrow> dev_inv ct \<Longrightarrow> dev_inv ct'"
proof -
  assume *: "same_devs ct ct'" "dev_inv ct"
  have "dev_ok (ct' d)" if "d < 16" for d
  proof -
    have o: "dev_ok (ct d)" using * that by (simp add: dev_inv_def)
    have s: "map_option length (c_fragtbl (ct' d)) = map_option length (c_fragtbl (ct d))"
        "c_scehndl (ct' d) = c_scehndl (ct d)" "c_cdevctx (ct' d) = c_cdevctx (ct d)"
        "c_nr_frag (ct' d) = c_nr_frag (ct d)"
      using * by (simp_all add: same_devs_def)
    show ?thesis
    proof (cases "c_fragtbl (ct d)")
      case None
      then have "ct d = cdev_zero" "c_fragtbl (ct' d) = None"
        using o s(1) by (simp_all add: dev_ok_def)
      then have "ct' d = cdev_zero" using s by (cases "ct' d") (simp add: cdev_zero_def)
      then show ?thesis by (simp add: dev_ok_def)
    next
      case (Some t)
      with o s show ?thesis by (auto simp: dev_ok_def simp flip: length_greater_0_conv)
    qed
  qed
  then show ?thesis by (simp add: dev_inv_def)
qed

lemma pfid2frag_loc:
  assumes "dev_inv ct"
  shows "pfid2frag ct p = (if loc_of p \<in> flocs ct then Some (loc_of p) else None)"
proof -
  have "dev_ok (ct (unat (SCE_PFIDDEV p)))" using assms by (simp add: dev_inv_def)
  then show ?thesis
    by (auto simp: pfid2frag_def loc_of_def flocs_def dev_ok_def Let_def word_less_nat_alt
        split: option.splits)
qed

lemma isvalidpfid_loc:
  "dev_inv ct \<Longrightarrow> isvalidpfid ct p = (if loc_of p \<in> flocs ct then SCE_SUCCESS else SCE_ERROR)"
  using pfid2frag_loc [of ct p]
  by (auto simp: isvalidpfid_def pfid2frag_def Let_def split: option.splits if_splits)

lemma flocs_bounds: "dev_inv ct \<Longrightarrow> l \<in> flocs ct \<Longrightarrow> fst l < 16 \<and> snd l < 2 ^ 24"
  by (cases l) (fastforce simp: flocs_def dev_inv_def dev_ok_def split: option.splits)

lemma card_flocs: "card (flocs ct) = (\<Sum>d<16. case c_fragtbl (ct d) of None \<Rightarrow> 0 | Some t \<Rightarrow> length t)"
  by (simp add: flocs_eq_Sigma)

lemma card_flocs_bound: "dev_inv ct \<Longrightarrow> card (flocs ct) \<le> 2 ^ 28"
proof -
  assume "dev_inv ct"
  then have "(\<Sum>d<16. case c_fragtbl (ct d) of None \<Rightarrow> 0 | Some t \<Rightarrow> length t) \<le> (\<Sum>d<(16::nat). 2 ^ 24)"
    by (intro sum_mono) (auto simp: dev_inv_def dev_ok_def split: option.splits)
  then show ?thesis by (simp add: card_flocs)
qed

end
