(* ===== verification/Sce_Freelist.thy ===== *)
theory Sce_Freelist
  imports Sce_Util
begin

text \<open>
  \<^verbatim>\<open>src/sce_freefraglist.c\<close>: the free fragment list, linked through the \<^verbatim>\<open>next\<close> fields of the
  fragment structures by physical fragment ids; 0 ends it, and the flag \<^verbatim>\<open>FRAGDESC_MAPPED\<close> keeps
  the id of fragment 0 of device 0 apart from 0. \<open>chain\<close> relates a head id to the list of places
  it leads through.
\<close>

section \<open>The code\<close>

definition freefraglist_put :: "sce \<Rightarrow> pfid_t \<Rightarrow> (rc \<times> sce) option" where
  "freefraglist_put s pfid =
     (case pfid2frag (cdevtbl s) pfid of
        None \<Rightarrow> Some (SCE_ERROR, s)
      | Some fl \<Rightarrow> do {
          fr \<leftarrow> get_frag (cdevtbl s) fl;
          if f_fragnum fr \<noteq> FRAGNUM_WITHINFREELIST
          then do {
            let s1 = s\<lparr>cdevtbl := put_frag (cdevtbl s) fl
                         (fr\<lparr>f_fragnum := FRAGNUM_WITHINFREELIST, f_next := freefraglist s\<rparr>),
                       freefraglist := pfid OR FRAGDESC_MAPPED,
                       nr_freefrag := nr_freefrag s + 1\<rparr>;
            bug_on (nr_freefrag s1 > nr_frag s1);
            Some (SCE_SUCCESS, s1)
          }
          else Some (SCE_ERROR, s)
        })"

text \<open>The second result is what the caller's \<^verbatim>\<open>*out_pfid\<close> holds after the call.\<close>

definition freefraglist_get :: "sce \<Rightarrow> pfid_t \<Rightarrow> (rc \<times> pfid_t \<times> sce) option" where
  "freefraglist_get s out_pfid =
     (let pfid = freefraglist s
      in if pfid \<noteq> 0
         then case pfid2frag (cdevtbl s) pfid of
                None \<Rightarrow> None
              | Some fl \<Rightarrow> do {
                  fr \<leftarrow> get_frag (cdevtbl s) fl;
                  bug_on (nr_freefrag s = 0);
                  Some (SCE_SUCCESS, pfid,
                    s\<lparr>freefraglist := f_next fr,
                      cdevtbl := put_frag (cdevtbl s) fl (fr\<lparr>f_next := 0, f_fragnum := FRAGNUM_FREE\<rparr>),
                      nr_freefrag := nr_freefrag s - 1\<rparr>)
                }
         else Some (SCE_ERROR, out_pfid, s))"

partial_function (option) rmcdev_loop :: "sce \<Rightarrow> u32 \<Rightarrow> floc option \<Rightarrow> pfid_t \<Rightarrow> sce option" where
  [code]: "rmcdev_loop s devnum parent pfid =
     (if pfid > 0
      then do {
        child \<leftarrow> pfid2frag (cdevtbl s) pfid;
        cf \<leftarrow> get_frag (cdevtbl s) child;
        if SCE_PFIDDEV pfid = devnum
        then do {
          s1 \<leftarrow> (case parent of
                   Some p \<Rightarrow> do {
                     pf \<leftarrow> get_frag (cdevtbl s) p;
                     Some (s\<lparr>cdevtbl := put_frag (cdevtbl s) p (pf\<lparr>f_next := f_next cf\<rparr>)\<rparr>)
                   }
                 | None \<Rightarrow> Some (s\<lparr>freefraglist := f_next cf\<rparr>));
          let s2 = s1\<lparr>nr_freefrag := nr_freefrag s1 - 1\<rparr>;
          cf2 \<leftarrow> get_frag (cdevtbl s2) child;
          rmcdev_loop s2 devnum parent (f_next cf2)
        }
        else rmcdev_loop s devnum (Some child) (f_next cf)
      }
      else Some s)"

definition freefraglist_rmcdev :: "sce \<Rightarrow> u32 \<Rightarrow> (rc \<times> sce) option" where
  "freefraglist_rmcdev s devnum =
     (if unat devnum < SCE_MAXCDEV
      then do { s1 \<leftarrow> rmcdev_loop s devnum None (freefraglist s); Some (SCE_SUCCESS, s1) }
      else Some (SCE_ERROR, s))"

section \<open>Chains of ids\<close>

primrec chain :: "(floc \<Rightarrow> pfid_t) \<Rightarrow> pfid_t \<Rightarrow> floc list \<Rightarrow> bool" where
  "chain nx p [] \<longleftrightarrow> p = 0"
| "chain nx p (l # ls) \<longleftrightarrow> p \<noteq> 0 \<and> loc_of p = l \<and> chain nx (nx l) ls"

abbreviation (input) nexts :: "ctbl \<Rightarrow> floc \<Rightarrow> pfid_t" where
  "nexts ct \<equiv> (\<lambda>l. f_next (frag_at ct l))"

lemma chain_0 [simp]: "chain nx 0 ls \<longleftrightarrow> ls = []"
  by (cases ls) simp_all

lemma chain_cong: "(\<And>l. l \<in> set ls \<Longrightarrow> nx l = nx' l) \<Longrightarrow> chain nx p ls = chain nx' p ls"
  by (induction ls arbitrary: p) simp_all

lemma chain_unique: "chain nx p ls \<Longrightarrow> chain nx p ls' \<Longrightarrow> ls = ls'"
proof (induction ls arbitrary: p ls')
  case Nil
  then show ?case by simp
next
  case (Cons l ls)
  then show ?case by (cases ls') auto
qed

text \<open>Unlinking an element behind a prefix, by redirecting the last element of the prefix.\<close>

lemma chain_unlink:
  assumes "chain nx p (ks @ l # rest)" "distinct (ks @ l # rest)" "ks \<noteq> []"
    and "nx' (last ks) = nx l" "\<And>x. x \<noteq> last ks \<Longrightarrow> nx' x = nx x"
  shows "chain nx' p (ks @ rest)"
  using assms
proof (induction ks arbitrary: p)
  case Nil
  then show ?case by simp
next
  case (Cons k ks)
  show ?case
  proof (cases "ks = []")
    case True
    have "chain nx' (nx l) rest = chain nx (nx l) rest"
      using Cons.prems(2,5) True
      by (intro chain_cong) (metis append_Cons append_Nil distinct.simps(2) last_ConsL list.set_intros(2))
    then show ?thesis using Cons.prems True by auto
  next
    case False
    then have "chain nx' (nx k) (ks @ rest)"
      using Cons.prems by (intro Cons.IH) auto
    moreover have "k \<noteq> last ks" using Cons.prems(2) False by auto
    ultimately show ?thesis using Cons.prems False by simp
  qed
qed

lemma chain_split: "chain nx p (ks @ rest) \<Longrightarrow>
    chain nx (if ks = [] then p else nx (last ks)) rest"
  by (induction ks arbitrary: p) auto

section \<open>Unlinking a device\<close>

text \<open>Two tables whose fragments differ at most in their links, and only at the given places.\<close>

definition unlink :: "frag \<Rightarrow> frag" where
  "unlink f = f\<lparr>f_next := 0\<rparr>"

definition links_only :: "floc set \<Rightarrow> ctbl \<Rightarrow> ctbl \<Rightarrow> bool" where
  "links_only L ct ct' \<longleftrightarrow> same_devs ct ct' \<and>
     (\<forall>l. unlink (frag_at ct' l) = unlink (frag_at ct l)) \<and>
     (\<forall>l. l \<notin> L \<longrightarrow> frag_at ct' l = frag_at ct l)"

lemma unlink_fields:
  assumes "unlink f = unlink g"
  shows "f_lunidx f = f_lunidx g" "f_fragnum f = f_fragnum g" "f_nr_service f = f_nr_service g"
    "f_bitmap f = f_bitmap g" "f_nr_valid f = f_nr_valid g" "f_nr_miss f = f_nr_miss g"
    "f_nr_ref f = f_nr_ref g"
  using assms by (cases f; cases g; simp add: unlink_def)+

lemma unlink_next [simp]: "unlink (f\<lparr>f_next := nx\<rparr>) = unlink f"
  by (simp add: unlink_def)

lemma links_only_refl [simp]: "links_only L ct ct"
  by (simp add: links_only_def)

lemma links_only_put:
  "l \<in> flocs ct \<Longrightarrow> l \<in> L \<Longrightarrow> links_only L ct (put_frag ct l ((frag_at ct l)\<lparr>f_next := nx\<rparr>))"
  by (auto simp: links_only_def)

lemma links_only_trans: "links_only L a b \<Longrightarrow> links_only L b c \<Longrightarrow> links_only L a c"
  by (auto simp: links_only_def intro: same_devs_trans)

lemma links_only_mono: "links_only L a b \<Longrightarrow> L \<subseteq> M \<Longrightarrow> links_only M a b"
  by (auto simp: links_only_def)

lemma rmcdev_loop_correct:
  assumes "dev_inv (cdevtbl s)"
    and "chain (nexts (cdevtbl s)) (freefraglist s) (ks @ rest)" "distinct (ks @ rest)"
    and "set (ks @ rest) \<subseteq> flocs (cdevtbl s)"
    and "parent = (if ks = [] then None else Some (last ks))"
    and "pfid = (if ks = [] then freefraglist s else f_next (frag_at (cdevtbl s) (last ks)))"
  shows "\<exists>ct' h'. rmcdev_loop s dv parent pfid = Some (s\<lparr>cdevtbl := ct', freefraglist := h',
        nr_freefrag := nr_freefrag s - of_nat (length (filter (\<lambda>l. fst l = unat dv) rest))\<rparr>)
    \<and> links_only (set (ks @ rest)) (cdevtbl s) ct'
    \<and> chain (nexts ct') h' (ks @ filter (\<lambda>l. fst l \<noteq> unat dv) rest)"
  using assms
proof (induction rest arbitrary: s ks parent pfid)
  case Nil
  then have "pfid = 0" using chain_split [of _ _ ks "[]"] by auto
  then show ?case
    using Nil.prems
    by (subst rmcdev_loop.simps) (auto intro!: exI [of _ "cdevtbl s"] exI [of _ "freefraglist s"])
next
  case (Cons l rest)
  let ?ct = "cdevtbl s" and ?nx = "f_next (frag_at (cdevtbl s) l)"
  have tail: "chain (nexts ?ct) pfid (l # rest)"
    using chain_split [OF Cons.prems(2)] Cons.prems(6) by (auto split: if_splits)
  then have p: "pfid \<noteq> 0" "loc_of pfid = l" and nxt: "chain (nexts ?ct) ?nx rest" by auto
  have l: "l \<in> flocs ?ct" using Cons.prems(4) by auto
  have child: "pfid2frag ?ct pfid = Some l"
    using Cons.prems(1) l p by (simp add: pfid2frag_loc)
  have dv: "SCE_PFIDDEV pfid = dv \<longleftrightarrow> fst l = unat dv"
    using p(2) by (auto simp: loc_of_def word_unat_eq_iff)
  show ?case
  proof (cases "fst l = unat dv")
    case False
    have "\<exists>ct' h'. rmcdev_loop s dv (Some l) ?nx = Some (s\<lparr>cdevtbl := ct', freefraglist := h',
        nr_freefrag := nr_freefrag s - of_nat (length (filter (\<lambda>l. fst l = unat dv) rest))\<rparr>)
      \<and> links_only (set ((ks @ [l]) @ rest)) ?ct ct'
      \<and> chain (nexts ct') h' ((ks @ [l]) @ filter (\<lambda>l. fst l \<noteq> unat dv) rest)"
      using Cons.prems by (intro Cons.IH) auto
    then show ?thesis
      using False p l child dv
      by (subst rmcdev_loop.simps) (simp add: word_gt_0)
  next
    case True
    define s1 where "s1 = (if ks = [] then s\<lparr>freefraglist := ?nx\<rparr>
        else s\<lparr>cdevtbl := put_frag ?ct (last ks) ((frag_at ?ct (last ks))\<lparr>f_next := ?nx\<rparr>)\<rparr>)"
    define s2 where "s2 = s1\<lparr>nr_freefrag := nr_freefrag s1 - 1\<rparr>"
    have lk: "ks \<noteq> [] \<Longrightarrow> last ks \<in> flocs ?ct \<and> last ks \<noteq> l \<and> last ks \<in> set ks"
      using Cons.prems(3,4) by auto
    have c2: "cdevtbl s2 = cdevtbl s1" by (simp add: s2_def)
    have nl: "f_next (frag_at (cdevtbl s2) l) = ?nx"
      using lk by (auto simp: s2_def s1_def)
    have fl: "flocs (cdevtbl s2) = flocs ?ct"
      by (auto simp: s2_def s1_def)
    have lo: "links_only (set (ks @ l # rest)) ?ct (cdevtbl s2)"
      using lk by (auto simp: s2_def s1_def intro: links_only_put)
    have dev2: "dev_inv (cdevtbl s2)"
      using Cons.prems(1) by (auto simp: s2_def s1_def intro: same_devs_dev_inv [OF same_devs_put_frag])
    have ch: "chain (nexts (cdevtbl s2)) (freefraglist s2) (ks @ rest)"
    proof (cases "ks = []")
      case True
      then show ?thesis using nxt by (simp add: s2_def s1_def)
    next
      case False
      note lk = lk [OF this]
      have "freefraglist s2 = freefraglist s" using False by (simp add: s2_def s1_def)
      then show ?thesis
        by (simp only:) (rule chain_unlink [OF Cons.prems(2,3) False], use False lk in \<open>simp_all add: s2_def s1_def\<close>)
    qed
    have pf: "?nx = (if ks = [] then freefraglist s2 else f_next (frag_at (cdevtbl s2) (last ks)))"
      using lk by (auto simp: s2_def s1_def)
    obtain ct' h' where IH: "rmcdev_loop s2 dv parent ?nx = Some (s2\<lparr>cdevtbl := ct', freefraglist := h',
        nr_freefrag := nr_freefrag s2 - of_nat (length (filter (\<lambda>l. fst l = unat dv) rest))\<rparr>)"
      "links_only (set (ks @ rest)) (cdevtbl s2) ct'"
      "chain (nexts ct') h' (ks @ filter (\<lambda>l. fst l \<noteq> unat dv) rest)"
      using Cons.IH [OF dev2 ch _ _ Cons.prems(5) pf] Cons.prems(3,4) fl by auto
    have up: "(case parent of
                 Some p \<Rightarrow> Option.bind (get_frag ?ct p)
                     (\<lambda>pf. Some (s\<lparr>cdevtbl := put_frag ?ct p (pf\<lparr>f_next := ?nx\<rparr>)\<rparr>))
               | None \<Rightarrow> Some (s\<lparr>freefraglist := ?nx\<rparr>)) = Some s1"
      using Cons.prems(5) lk by (auto simp: s1_def)
    have "rmcdev_loop s dv parent pfid = rmcdev_loop s2 dv parent ?nx"
      using p l child dv True fl [unfolded c2] nl [unfolded c2]
      by (subst rmcdev_loop.simps) (simp add: word_gt_0 up flip: s2_def)
    moreover have "links_only (set (ks @ l # rest)) ?ct ct'"
      by (rule links_only_trans [OF lo links_only_mono [OF IH(2)]]) auto
    moreover have "s2\<lparr>cdevtbl := ct', freefraglist := h',
        nr_freefrag := nr_freefrag s2 - of_nat (length (filter (\<lambda>l. fst l = unat dv) rest))\<rparr>
      = s\<lparr>cdevtbl := ct', freefraglist := h',
        nr_freefrag := nr_freefrag s - of_nat (length (filter (\<lambda>l. fst l = unat dv) (l # rest)))\<rparr>"
      using True by (simp add: s2_def s1_def algebra_simps)
    ultimately show ?thesis using IH True by auto
  qed
qed

section \<open>Properties\<close>

text \<open>
  Removing a device from the free list keeps the order of the fragments of the other
  devices: on the chain of ids the code does what \<open>filter\<close> does on the list of fragments, and
  the free count drops by the number of those removed.
\<close>

lemma freefraglist_rmcdev_filters:
  assumes "dev_inv (cdevtbl s)" "chain (nexts (cdevtbl s)) (freefraglist s) ls" "distinct ls"
    and "set ls \<subseteq> flocs (cdevtbl s)" "unat dv < 16"
  shows "returns (freefraglist_rmcdev s dv) (\<lambda>(r, s'). r = SCE_SUCCESS
    \<and> chain (nexts (cdevtbl s')) (freefraglist s') (filter (\<lambda>l. fst l \<noteq> unat dv) ls)
    \<and> nr_freefrag s' = nr_freefrag s - of_nat (length (filter (\<lambda>l. fst l = unat dv) ls))
    \<and> links_only (set ls) (cdevtbl s) (cdevtbl s'))"
  using rmcdev_loop_correct [of s "[]" ls None "freefraglist s" dv] assms
  by (auto simp: freefraglist_rmcdev_def)

text \<open>A table of two devices with two fragments and one, all three on the free list.\<close>

definition three_free :: sce where
  "three_free = \<lparr>nr_cdev = 2, cdevtbl = (\<lambda>_. cdev_zero)
       (0 := \<lparr>c_scehndl = True, c_cdevctx = 7, c_nr_frag = 2,
          c_fragtbl = Some [frag_zero\<lparr>f_fragnum := FRAGNUM_WITHINFREELIST, f_next := FRAGDESC_MAPPED OR 0x1000000\<rparr>,
            frag_zero\<lparr>f_fragnum := FRAGNUM_WITHINFREELIST, f_next := 0\<rparr>]\<rparr>,
        1 := \<lparr>c_scehndl = True, c_cdevctx = 8, c_nr_frag = 1,
          c_fragtbl = Some [frag_zero\<lparr>f_fragnum := FRAGNUM_WITHINFREELIST, f_next := FRAGDESC_MAPPED OR 1\<rparr>]\<rparr>),
     nr_lun = 0, luntbl = \<lambda>_. lun_zero, nr_frag = 3, nr_freefrag = 3, freefraglist = FRAGDESC_MAPPED,
     nr_hit = 0, nr_miss = 0, nr_eviction = 0, arm = 0,
     misslog_fragnum = \<lambda>_. 0, misslog_lunidx = \<lambda>_. 0, misslog_head = 0, misslog_size = 0\<rparr>"

lemma three_free_locs:
  "loc_of FRAGDESC_MAPPED = (0, 0)" "loc_of 0x1000000 = (1, 0)" "loc_of 1 = (0, 1)"
  "FRAGDESC_MAPPED \<noteq> 0" "FRAGDESC_MAPPED OR 0x1000000 \<noteq> 0" "FRAGDESC_MAPPED OR 1 \<noteq> 0"
proof -
  show "loc_of FRAGDESC_MAPPED = (0, 0)"
    by (simp add: loc_of_def SCE_PFIDDEV_def SCE_PFIDOFF_def FRAGDESC_MAPPED_def PFID_DEVMASK_def PFID_OFFMASK_def)
  show "loc_of 0x1000000 = (1, 0)"
    by (simp add: loc_of_def SCE_PFIDDEV_def SCE_PFIDOFF_def PFID_DEVMASK_def PFID_OFFMASK_def)
  show "loc_of 1 = (0, 1)"
    by (simp add: loc_of_def SCE_PFIDDEV_def SCE_PFIDOFF_def PFID_DEVMASK_def PFID_OFFMASK_def)
qed (simp_all add: FRAGDESC_MAPPED_def)

lemma three_free_dev: "dev_inv (cdevtbl three_free)"
  by (simp add: three_free_def dev_inv_def dev_ok_def)

lemma three_free_flocs: "flocs (cdevtbl three_free) = {(0, 0), (0, 1), (1, 0)}"
  by (auto simp: three_free_def flocs_def less_Suc_eq numeral_2_eq_2 split: option.splits if_splits)

lemma three_free_chain: "chain (nexts (cdevtbl three_free)) (freefraglist three_free) [(0, 0), (1, 0), (0, 1)]"
  by (simp add: three_free_def three_free_locs frag_at.simps)

lemma freefraglist_rmcdev_filters_witness:
  "returns (freefraglist_rmcdev three_free 0) (\<lambda>(r, s'). r = SCE_SUCCESS
    \<and> chain (nexts (cdevtbl s')) (freefraglist s') (filter (\<lambda>l. fst l \<noteq> unat (0 :: u32)) [(0, 0), (1, 0), (0, 1)])
    \<and> nr_freefrag s' = nr_freefrag three_free - of_nat (length (filter (\<lambda>l. fst l = unat (0 :: u32)) [(0, 0), (1, 0), (0, 1 :: nat)]))
    \<and> links_only (set [(0, 0), (1, 0), (0, 1)]) (cdevtbl three_free) (cdevtbl s'))"
  by (rule freefraglist_rmcdev_filters [OF three_free_dev three_free_chain]) (simp_all add: three_free_flocs)

text \<open>
  A fragment put on the free list is the next one taken from it; then the list, the count
  and the fragment maps are what they were, and the fragment is marked as taken.
\<close>

lemma freefraglist_put_get:
  assumes "dev_inv (cdevtbl s)" "loc_of p \<in> flocs (cdevtbl s)"
    and "f_fragnum (frag_at (cdevtbl s) (loc_of p)) \<noteq> FRAGNUM_WITHINFREELIST" "nr_freefrag s < nr_frag s"
  shows "returns (do { (r, s1) \<leftarrow> freefraglist_put s p; freefraglist_get s1 out })
    (\<lambda>(r, q, s'). r = SCE_SUCCESS \<and> loc_of q = loc_of p \<and> freefraglist s' = freefraglist s
      \<and> nr_freefrag s' = nr_freefrag s \<and> f_fragnum (frag_at (cdevtbl s') (loc_of p)) = FRAGNUM_FREE
      \<and> luntbl s' = luntbl s)"
proof -
  have ne: "p OR FRAGDESC_MAPPED \<noteq> 0"
  proof
    assume "p OR FRAGDESC_MAPPED = 0"
    then have "bit (p OR FRAGDESC_MAPPED) 31 = bit (0 :: u32) 31" by simp
    then show False by (simp add: bit_or_iff)
  qed
  have cnt: "\<not> nr_freefrag s + 1 > nr_frag s" "nr_freefrag s + 1 \<noteq> 0"
  proof -
    have "unat (nr_freefrag s + 1) = unat (nr_freefrag s) + 1"
      using assms(4) unsigned_less [of "nr_frag s", where ?'a = nat] by (simp add: unat_word_ariths word_less_nat_alt)
    then show "\<not> nr_freefrag s + 1 > nr_frag s" "nr_freefrag s + 1 \<noteq> 0"
      using assms(4) by (auto simp: word_less_nat_alt)
  qed
  show ?thesis
    using assms ne cnt
    by (simp add: freefraglist_put_def freefraglist_get_def pfid2frag_loc Let_def bug_on_def
        same_devs_dev_inv [OF same_devs_put_frag] returns_bind)
qed

text \<open>The same table with the first fragment taken off the list.\<close>

definition two_free :: sce where
  "two_free = three_free\<lparr>cdevtbl := put_frag (cdevtbl three_free) (0, 0) frag_zero,
     freefraglist := FRAGDESC_MAPPED OR 0x1000000, nr_freefrag := 2\<rparr>"

lemma freefraglist_put_get_witness:
  "returns (do { (r, s1) \<leftarrow> freefraglist_put two_free 0; freefraglist_get s1 5 })
    (\<lambda>(r, q, s'). r = SCE_SUCCESS \<and> loc_of q = loc_of 0 \<and> freefraglist s' = freefraglist two_free
      \<and> nr_freefrag s' = nr_freefrag two_free \<and> f_fragnum (frag_at (cdevtbl s') (loc_of 0)) = FRAGNUM_FREE
      \<and> luntbl s' = luntbl two_free)"
proof (rule freefraglist_put_get)
  have l: "loc_of 0 = (0, 0)" by (simp add: loc_of_def SCE_PFIDDEV_def SCE_PFIDOFF_def)
  show "dev_inv (cdevtbl two_free)"
    using same_devs_dev_inv [OF same_devs_put_frag three_free_dev] by (simp add: two_free_def)
  show "loc_of 0 \<in> flocs (cdevtbl two_free)" by (simp add: two_free_def three_free_flocs l)
  show "f_fragnum (frag_at (cdevtbl two_free) (loc_of 0)) \<noteq> FRAGNUM_WITHINFREELIST"
    by (simp add: two_free_def three_free_flocs l frag_zero_def FRAGNUM_WITHINFREELIST_def)
  show "nr_freefrag two_free < nr_frag two_free" by (simp add: two_free_def three_free_def)
qed

end
