(* ===== verification/Sce_Invariant.thy ===== *)
theory Sce_Invariant
  imports Sce_Freelist
begin

text \<open>
  The invariant of the cache engine, and how the elementary state changes of the components
  affect it.

  \<open>sce_inv X s\<close> relates the device table, the fragment maps, the free list, the service counters
  and the miss log. The fragments in \<open>X\<close> are in transit: taken off the free list and not yet
  mapped, freshly created, or being removed; between two calls of the interface \<open>X\<close> is empty.
  \<open>sce_wf\<close> is the invariant between calls.
\<close>

section \<open>The invariant\<close>

definition in_use :: "frag \<Rightarrow> bool" where
  "in_use f \<longleftrightarrow> f_fragnum f \<noteq> FRAGNUM_WITHINFREELIST"

text \<open>The descriptor a fragment in use is mapped by.\<close>

definition desc_of :: "ltbl \<Rightarrow> frag \<Rightarrow> fragdesc_t option" where
  "desc_of lt f = fdesc_at lt (unat (f_lunidx f)) (unat (f_fragnum f))"

text \<open>The free list holds exactly the fragments marked as free, once each, and is counted.\<close>

definition free_inv :: "floc set \<Rightarrow> ctbl \<Rightarrow> pfid_t \<Rightarrow> u32 \<Rightarrow> bool" where
  "free_inv X ct h n \<longleftrightarrow> (\<exists>ls. chain (nexts ct) h ls \<and> distinct ls
     \<and> set ls = {l \<in> flocs ct - X. \<not> in_use (frag_at ct l)} \<and> length ls = unat n)"

text \<open>
  Mapped descriptors and fragments in use point at each other: no two descriptors share a
  fragment, and no fragment is lost.
\<close>

definition map_fwd :: "ctbl \<Rightarrow> ltbl \<Rightarrow> bool" where
  "map_fwd ct lt \<longleftrightarrow> (\<forall>i n d. i < SCE_MAXLUN \<longrightarrow> fdesc_at lt i n = Some d \<longrightarrow> is_mapped d \<longrightarrow>
     loc_of d \<in> flocs ct \<and> unat (f_lunidx (frag_at ct (loc_of d))) = i
     \<and> unat (f_fragnum (frag_at ct (loc_of d))) = n)"

definition map_bwd :: "floc set \<Rightarrow> ctbl \<Rightarrow> ltbl \<Rightarrow> bool" where
  "map_bwd X ct lt \<longleftrightarrow> (\<forall>l \<in> flocs ct - X. in_use (frag_at ct l) \<longrightarrow>
     unat (f_lunidx (frag_at ct l)) < SCE_MAXLUN
     \<and> (\<exists>d. desc_of lt (frag_at ct l) = Some d \<and> is_mapped d \<and> loc_of d = l))"

text \<open>
  A mapped fragment: its page bookkeeping is right, it is on no list, its reference count is
  within the ceiling, and while its descriptor is not valid its population holds the one
  service reference.
\<close>

definition frag_ok :: "ltbl \<Rightarrow> frag \<Rightarrow> bool" where
  "frag_ok lt f \<longleftrightarrow> pages_ok f \<and> f_next f = 0 \<and> unat (f_nr_ref f) \<le> SCE_REFCEILING
     \<and> (\<forall>d. desc_of lt f = Some d \<longrightarrow> \<not> is_valid d \<longrightarrow> f_nr_service f = 1)"

lemma frag_ok_cong: "desc_of lt' f = desc_of lt f \<Longrightarrow> frag_ok lt' f = frag_ok lt f"
  by (simp add: frag_ok_def)

definition frag_inv :: "floc set \<Rightarrow> ctbl \<Rightarrow> ltbl \<Rightarrow> bool" where
  "frag_inv X ct lt \<longleftrightarrow> (\<forall>l \<in> flocs ct - X. in_use (frag_at ct l) \<longrightarrow> frag_ok lt (frag_at ct l))"

text \<open>The service counter of a LUN covers the service references of its fragments.\<close>

definition owned :: "floc set \<Rightarrow> ctbl \<Rightarrow> nat \<Rightarrow> floc set" where
  "owned X ct i = {l \<in> flocs ct - X. in_use (frag_at ct l) \<and> unat (f_lunidx (frag_at ct l)) = i}"

definition srv_sum :: "floc set \<Rightarrow> ctbl \<Rightarrow> nat \<Rightarrow> nat" where
  "srv_sum X ct i = (\<Sum>l \<in> owned X ct i. unat (f_nr_service (frag_at ct l)))"

definition srv_inv :: "floc set \<Rightarrow> ctbl \<Rightarrow> ltbl \<Rightarrow> bool" where
  "srv_inv X ct lt \<longleftrightarrow> (\<forall>i < SCE_MAXLUN. srv_sum X ct i \<le> unat (l_nr_service (lt i)))"

text \<open>A LUN slot: empty, or with a fragment map of the length its size in sectors needs.\<close>

definition lun_ok :: "lun \<Rightarrow> bool" where
  "lun_ok lu = (case l_fragmap lu of
       None \<Rightarrow> l_nr_service lu = 0 \<and> \<not> l_waiting4deletion lu
     | Some m \<Rightarrow> length m = unat (l_nr_frag lu) \<and> l_scehndl lu \<and> length m \<le> 2 ^ 32 - 2
         \<and> unat (l_nr_sctr lu) \<le> 2048 * length m \<and> 2048 * length m < unat (l_nr_sctr lu) + 2048)"

definition lun_inv :: "ltbl \<Rightarrow> bool" where
  "lun_inv lt \<longleftrightarrow> (\<forall>i < SCE_MAXLUN. lun_ok (lt i))"

definition cnt_inv :: "u32 \<Rightarrow> u32 \<Rightarrow> u32 \<Rightarrow> ctbl \<Rightarrow> ltbl \<Rightarrow> bool" where
  "cnt_inv ncdev nfrag nlun ct lt \<longleftrightarrow>
     unat ncdev = card {d. d < SCE_MAXCDEV \<and> c_fragtbl (ct d) \<noteq> None}
     \<and> unat nfrag = card (flocs ct)
     \<and> unat nlun = card {i. i < SCE_MAXLUN \<and> l_fragmap (lt i) \<noteq> None}"

text \<open>
  The miss log is a ring of 1024 entries; an entry recorded for a LUN that still has a fragment
  map lies within that map.
\<close>

definition log_inv :: "(nat \<Rightarrow> u16) \<Rightarrow> (nat \<Rightarrow> u32) \<Rightarrow> u32 \<Rightarrow> u32 \<Rightarrow> ltbl \<Rightarrow> bool" where
  "log_inv li fn h sz lt \<longleftrightarrow>
     unat h < SCE_CACHEMISSLOGSIZE \<and> unat sz \<le> SCE_CACHEMISSLOGSIZE
     \<and> (unat sz < SCE_CACHEMISSLOGSIZE \<longrightarrow> h = sz)
     \<and> (\<forall>k < unat sz. unat (li k) < SCE_MAXLUN \<longrightarrow>
          (\<forall>m. l_fragmap (lt (unat (li k))) = Some m \<longrightarrow> unat (fn k) < length m))"

definition sce_inv :: "floc set \<Rightarrow> sce \<Rightarrow> bool" where
  "sce_inv X s \<longleftrightarrow> dev_inv (cdevtbl s) \<and> lun_inv (luntbl s)
     \<and> cnt_inv (nr_cdev s) (nr_frag s) (nr_lun s) (cdevtbl s) (luntbl s)
     \<and> free_inv X (cdevtbl s) (freefraglist s) (nr_freefrag s)
     \<and> map_fwd (cdevtbl s) (luntbl s) \<and> map_bwd X (cdevtbl s) (luntbl s)
     \<and> frag_inv X (cdevtbl s) (luntbl s) \<and> srv_inv X (cdevtbl s) (luntbl s)
     \<and> log_inv (misslog_lunidx s) (misslog_fragnum s) (misslog_head s) (misslog_size s) (luntbl s)"

text \<open>A LUN that waits for its deletion still has requests in service.\<close>

definition wait_inv :: "ltbl \<Rightarrow> bool" where
  "wait_inv lt \<longleftrightarrow> (\<forall>i < SCE_MAXLUN. l_waiting4deletion (lt i) \<longrightarrow> 0 < unat (l_nr_service (lt i)))"

definition sce_wf :: "sce \<Rightarrow> bool" where
  "sce_wf s \<longleftrightarrow> sce_inv {} s \<and> wait_inv (luntbl s)"

section \<open>Reading the invariant\<close>

lemma sce_inv_parts:
  assumes "sce_inv X s"
  shows sce_inv_dev: "dev_inv (cdevtbl s)" and sce_inv_lun: "lun_inv (luntbl s)"
    and sce_inv_cnt: "cnt_inv (nr_cdev s) (nr_frag s) (nr_lun s) (cdevtbl s) (luntbl s)"
    and sce_inv_free: "free_inv X (cdevtbl s) (freefraglist s) (nr_freefrag s)"
    and sce_inv_fwd: "map_fwd (cdevtbl s) (luntbl s)" and sce_inv_bwd: "map_bwd X (cdevtbl s) (luntbl s)"
    and sce_inv_frag: "frag_inv X (cdevtbl s) (luntbl s)"
    and sce_inv_srv: "srv_inv X (cdevtbl s) (luntbl s)"
    and sce_inv_log: "log_inv (misslog_lunidx s) (misslog_fragnum s) (misslog_head s) (misslog_size s) (luntbl s)"
  using assms by (simp_all add: sce_inv_def)

lemma sce_wf_inv: "sce_wf s \<Longrightarrow> sce_inv {} s"
  by (simp add: sce_wf_def)

lemma sce_inv_irrelevant [simp]:
  "sce_inv X (s\<lparr>nr_hit := a\<rparr>) = sce_inv X s" "sce_inv X (s\<lparr>nr_miss := a\<rparr>) = sce_inv X s"
  "sce_inv X (s\<lparr>nr_eviction := a\<rparr>) = sce_inv X s" "sce_inv X (s\<lparr>arm := a\<rparr>) = sce_inv X s"
  by (simp_all add: sce_inv_def)

lemma sce_wf_irrelevant [simp]:
  "sce_wf (s\<lparr>nr_hit := a\<rparr>) = sce_wf s" "sce_wf (s\<lparr>nr_miss := a\<rparr>) = sce_wf s"
  "sce_wf (s\<lparr>nr_eviction := a\<rparr>) = sce_wf s" "sce_wf (s\<lparr>arm := a\<rparr>) = sce_wf s"
  by (simp_all add: sce_wf_def)

lemma lun_ok_length: "lun_ok lu \<Longrightarrow> l_fragmap lu = Some m \<Longrightarrow> unat (l_nr_frag lu) = length m"
  by (simp add: lun_ok_def)

lemma fdesc_at_in_map: "fdesc_at lt i n = Some d \<Longrightarrow> \<exists>m. l_fragmap (lt i) = Some m \<and> n < length m"
  by (auto simp: fdesc_at_eq_Some)

lemma fdesc_at_bound:
  assumes "lun_inv lt" "i < 256" "fdesc_at lt i n = Some d"
  shows "n < unat (l_nr_frag (lt i))" "n < unat FRAGNUM_FREE" "of_nat n \<noteq> FRAGNUM_WITHINFREELIST"
    "unat (of_nat n :: u32) = n"
proof -
  obtain m where m: "l_fragmap (lt i) = Some m" "n < length m"
    using assms(3) by (auto simp: fdesc_at_eq_Some)
  have "lun_ok (lt i)" using assms by (simp add: lun_inv_def)
  then have *: "length m = unat (l_nr_frag (lt i))" "length m \<le> 2 ^ 32 - 2"
    using m by (simp_all add: lun_ok_def)
  show "n < unat (l_nr_frag (lt i))" using m * by simp
  show "n < unat FRAGNUM_FREE" using m * by (simp add: FRAGNUM_FREE_def)
  show u: "unat (of_nat n :: u32) = n" using m * by (simp add: unat_of_nat)
  show "of_nat n \<noteq> FRAGNUM_WITHINFREELIST"
  proof
    assume "of_nat n = FRAGNUM_WITHINFREELIST"
    then have "unat (of_nat n :: u32) = 0xffffffff" by (simp add: FRAGNUM_WITHINFREELIST_def)
    then show False using u m * by simp
  qed
qed

text \<open>A mapped descriptor and its fragment.\<close>

lemma mapped_frag:
  assumes "sce_inv X s" "i < 256" "fdesc_at (luntbl s) i n = Some d" "is_mapped d"
  shows "loc_of d \<in> flocs (cdevtbl s)" "pfid2frag (cdevtbl s) d = Some (loc_of d)"
    "in_use (frag_at (cdevtbl s) (loc_of d))"
    "unat (f_lunidx (frag_at (cdevtbl s) (loc_of d))) = i"
    "unat (f_fragnum (frag_at (cdevtbl s) (loc_of d))) = n"
    "desc_of (luntbl s) (frag_at (cdevtbl s) (loc_of d)) = Some d"
proof -
  show l: "loc_of d \<in> flocs (cdevtbl s)" and i: "unat (f_lunidx (frag_at (cdevtbl s) (loc_of d))) = i"
    and n: "unat (f_fragnum (frag_at (cdevtbl s) (loc_of d))) = n"
    using sce_inv_fwd [OF assms(1)] assms(2-4) by (simp_all add: map_fwd_def)
  show "pfid2frag (cdevtbl s) d = Some (loc_of d)"
    using pfid2frag_loc [OF sce_inv_dev [OF assms(1)]] l by simp
  show "desc_of (luntbl s) (frag_at (cdevtbl s) (loc_of d)) = Some d"
    using i n assms(3) by (simp add: desc_of_def)
  have "of_nat n \<noteq> FRAGNUM_WITHINFREELIST"
    using fdesc_at_bound(3) [OF sce_inv_lun [OF assms(1)] assms(2,3)] .
  moreover have "f_fragnum (frag_at (cdevtbl s) (loc_of d)) = of_nat n"
    by (simp flip: n)
  ultimately show "in_use (frag_at (cdevtbl s) (loc_of d))" by (simp add: in_use_def)
qed

lemma used_frag:
  assumes "sce_inv X s" "l \<in> flocs (cdevtbl s)" "l \<notin> X" "in_use (frag_at (cdevtbl s) l)"
  obtains d where "unat (f_lunidx (frag_at (cdevtbl s) l)) < 256"
    "desc_of (luntbl s) (frag_at (cdevtbl s) l) = Some d" "is_mapped d" "loc_of d = l"
    "frag_ok (luntbl s) (frag_at (cdevtbl s) l)"
  using assms sce_inv_bwd [OF assms(1)] sce_inv_frag [OF assms(1)]
  by (fastforce simp: map_bwd_def frag_inv_def)

lemma finite_owned [simp]: "finite (owned X ct i)"
  by (simp add: owned_def)

lemma srv_sum_member: "l \<in> owned X ct i \<Longrightarrow> unat (f_nr_service (frag_at ct l)) \<le> srv_sum X ct i"
  unfolding srv_sum_def by (rule member_le_sum) simp_all

lemma srv_sum_insert:
  assumes "l \<in> owned X ct i"
  shows "srv_sum X ct i = unat (f_nr_service (frag_at ct l)) + srv_sum (insert l X) ct i"
proof -
  have "owned (insert l X) ct i = owned X ct i - {l}" by (auto simp: owned_def)
  then show ?thesis unfolding srv_sum_def using assms by (simp add: sum.remove)
qed

lemma srv_sum_not_owned: "l \<notin> owned X ct i \<Longrightarrow> srv_sum (insert l X) ct i = srv_sum X ct i"
proof -
  assume "l \<notin> owned X ct i"
  then have "owned (insert l X) ct i = owned X ct i" by (auto simp: owned_def)
  then show ?thesis by (simp add: srv_sum_def)
qed

lemma srv_sum_mono: "X \<subseteq> Y \<Longrightarrow> srv_sum Y ct i \<le> srv_sum X ct i"
  unfolding srv_sum_def by (rule sum_mono2) (auto simp: owned_def)

section \<open>Elementary changes\<close>

text \<open>
  Changing a fragment in use together with the header of its LUN, when the service counter of
  the LUN moves at least as far up as that of the fragment.
\<close>

definition keeps_map :: "(lun \<Rightarrow> lun) \<Rightarrow> lun \<Rightarrow> bool" where
  "keeps_map g lu \<longleftrightarrow> l_fragmap (g lu) = l_fragmap lu \<and> l_scehndl (g lu) = l_scehndl lu
     \<and> l_nr_sctr (g lu) = l_nr_sctr lu \<and> l_nr_frag (g lu) = l_nr_frag lu"

lemma keeps_map_fdesc: "keeps_map g (lt i) \<Longrightarrow> fdesc_at (upd_lun lt i g) j k = fdesc_at lt j k"
  by (simp add: keeps_map_def fdesc_at_def)

lemma keeps_map_desc_of: "keeps_map g (lt i) \<Longrightarrow> desc_of (upd_lun lt i g) f = desc_of lt f"
  by (simp add: desc_of_def keeps_map_fdesc)

lemma keeps_map_fragmap: "keeps_map g (lt i) \<Longrightarrow> l_fragmap (upd_lun lt i g j) = l_fragmap (lt j)"
  by (simp add: keeps_map_def)

lemma lun_inv_upd:
  "lun_inv lt \<Longrightarrow> keeps_map g (lt i) \<Longrightarrow>
    (l_fragmap (lt i) = None \<Longrightarrow> l_nr_service (g (lt i)) = 0 \<and> \<not> l_waiting4deletion (g (lt i))) \<Longrightarrow>
    lun_inv (upd_lun lt i g)"
  by (auto simp: lun_inv_def lun_ok_def keeps_map_def split: option.splits)

lemma cnt_inv_upd:
  "cnt_inv a b c ct lt \<Longrightarrow> same_devs ct ct' \<Longrightarrow> (\<And>i. (l_fragmap (lt' i) = None) = (l_fragmap (lt i) = None)) \<Longrightarrow>
    cnt_inv a b c ct' lt'"
  by (simp add: cnt_inv_def same_devs_None same_devs_flocs)

lemma log_inv_upd:
  assumes "log_inv li fn h sz lt"
    and "\<And>i. map_option length (l_fragmap (lt' i)) = map_option length (l_fragmap (lt i))"
  shows "log_inv li fn h sz lt'"
proof -
  have "unat (fn k) < length m"
    if "k < unat sz" "unat (li k) < 256" "l_fragmap (lt' (unat (li k))) = Some m" for k m
  proof -
    have "map_option length (l_fragmap (lt (unat (li k)))) = Some (length m)"
      using assms(2) [of "unat (li k)"] that by simp
    then obtain m' where "l_fragmap (lt (unat (li k))) = Some m'" "length m' = length m" by auto
    moreover have "unat (fn k) < length m'"
      using assms(1) that calculation by (auto simp: log_inv_def)
    ultimately show ?thesis by simp
  qed
  then show ?thesis using assms(1) by (simp add: log_inv_def)
qed

lemma free_inv_cong:
  assumes "free_inv X ct h n" "flocs ct' = flocs ct"
    and "\<And>l. l \<in> flocs ct \<Longrightarrow> l \<notin> X \<Longrightarrow> in_use (frag_at ct' l) = in_use (frag_at ct l)"
    and "\<And>l. l \<in> flocs ct \<Longrightarrow> l \<notin> X \<Longrightarrow> \<not> in_use (frag_at ct l) \<Longrightarrow>
      f_next (frag_at ct' l) = f_next (frag_at ct l)"
  shows "free_inv X ct' h n"
proof -
  obtain ls where ls: "chain (nexts ct) h ls" "distinct ls"
      "set ls = {l \<in> flocs ct - X. \<not> in_use (frag_at ct l)}" "length ls = unat n"
    using assms(1) by (auto simp: free_inv_def)
  have "chain (nexts ct') h ls"
    using ls(1) by (rule chain_cong [THEN iffD1, rotated]) (use ls(3) assms(4) in auto)
  moreover have "set ls = {l \<in> flocs ct' - X. \<not> in_use (frag_at ct' l)}"
    using ls(3) assms(2,3) by auto
  ultimately show ?thesis using ls by (auto simp: free_inv_def)
qed

lemma inv_update_used:
  assumes inv: "sce_inv X s"
    and l: "l \<in> flocs (cdevtbl s)" "l \<notin> X" "in_use (frag_at (cdevtbl s) l)"
    and i: "i = unat (f_lunidx (frag_at (cdevtbl s) l))"
    and f': "f_lunidx f' = f_lunidx (frag_at (cdevtbl s) l)" "f_fragnum f' = f_fragnum (frag_at (cdevtbl s) l)"
      "frag_ok (luntbl s) f'"
    and g: "keeps_map g (luntbl s i)"
    and srv: "unat (l_nr_service (luntbl s i)) + unat (f_nr_service f')
      \<le> unat (l_nr_service (g (luntbl s i))) + unat (f_nr_service (frag_at (cdevtbl s) l))"
  shows "sce_inv X (s\<lparr>cdevtbl := put_frag (cdevtbl s) l f', luntbl := upd_lun (luntbl s) i g\<rparr>)"
proof -
  let ?ct = "cdevtbl s" and ?lt = "luntbl s"
  let ?ct' = "put_frag ?ct l f'" and ?lt' = "upd_lun ?lt i g"
  note fd = keeps_map_fdesc [of g ?lt i, OF g] keeps_map_desc_of [of g ?lt i, OF g]
    keeps_map_fragmap [of g ?lt i, OF g]
  have at: "frag_at ?ct' k = (if k = l then f' else frag_at ?ct k)" for k using l(1) by simp
  have used: "in_use (frag_at ?ct' k) = in_use (frag_at ?ct k)" for k
    using f'(2) by (simp add: at in_use_def)
  have lx: "f_lunidx (frag_at ?ct' k) = f_lunidx (frag_at ?ct k)"
      "f_fragnum (frag_at ?ct' k) = f_fragnum (frag_at ?ct k)" for k
    using f'(1,2) by (simp_all add: at)
  have desc: "desc_of ?lt' (frag_at ?ct' k) = desc_of ?lt (frag_at ?ct k)" for k
    by (simp add: fd desc_of_def lx)
  have i256: "i < 256" and some: "l_fragmap (?lt i) \<noteq> None"
    using used_frag [OF inv l] i by (metis, metis desc_of_def fdesc_at_in_map option.distinct(1))
  have own: "owned X ?ct' j = owned X ?ct j" for j
    using f'(1) used by (auto simp: owned_def at)
  have sum: "srv_sum X ?ct' j \<le> unat (l_nr_service (?lt' j))" if "j < 256" for j
  proof (cases "j = i")
    case False
    have "srv_sum X ?ct' j = srv_sum X ?ct j"
      unfolding srv_sum_def own using False i by (intro sum.cong) (auto simp: at owned_def)
    then show ?thesis using sce_inv_srv [OF inv] that False by (simp add: srv_inv_def)
  next
    case True
    have lo: "l \<in> owned X ?ct i" using l i by (simp add: owned_def)
    have "srv_sum (insert l X) ?ct' i = srv_sum (insert l X) ?ct i"
      unfolding srv_sum_def by (intro sum.cong) (auto simp: at owned_def used)
    then have "srv_sum X ?ct' i + unat (f_nr_service (frag_at ?ct l))
        = srv_sum X ?ct i + unat (f_nr_service f')"
      using srv_sum_insert [OF lo] srv_sum_insert [of l X ?ct' i] lo by (simp add: own at)
    moreover have "srv_sum X ?ct i \<le> unat (l_nr_service (?lt i))"
      using sce_inv_srv [OF inv] i256 by (simp add: srv_inv_def)
    ultimately show ?thesis using srv True by simp
  qed
  have "free_inv X ?ct' (freefraglist s) (nr_freefrag s)"
    by (rule free_inv_cong [OF sce_inv_free [OF inv]]) (use used l in \<open>auto simp: at\<close>)
  moreover have "map_fwd ?ct' ?lt'"
    using sce_inv_fwd [OF inv] by (simp add: map_fwd_def lx fd)
  moreover have "map_bwd X ?ct' ?lt'"
    using sce_inv_bwd [OF inv] by (simp add: map_bwd_def used desc lx)
  moreover have "frag_inv X ?ct' ?lt'"
    using sce_inv_frag [OF inv] f'(3) by (simp add: frag_inv_def used) (simp add: at frag_ok_def fd)
  moreover have "srv_inv X ?ct' ?lt'" using sum by (simp add: srv_inv_def)
  moreover have "lun_inv ?lt'"
    by (rule lun_inv_upd [OF sce_inv_lun [OF inv] g]) (use some in simp)
  moreover have "cnt_inv (nr_cdev s) (nr_frag s) (nr_lun s) ?ct' ?lt'"
    by (rule cnt_inv_upd [OF sce_inv_cnt [OF inv] same_devs_put_frag]) (simp only: fd)
  moreover have "log_inv (misslog_lunidx s) (misslog_fragnum s) (misslog_head s) (misslog_size s) ?lt'"
    by (rule log_inv_upd [OF sce_inv_log [OF inv]]) (simp only: fd)
  ultimately show ?thesis
    using same_devs_dev_inv [OF same_devs_put_frag sce_inv_dev [OF inv]] by (simp add: sce_inv_def)
qed

text \<open>Changing the header of a LUN alone.\<close>

lemma inv_update_lun:
  assumes inv: "sce_inv X s" and g: "keeps_map g (luntbl s i)"
    and none: "l_fragmap (luntbl s i) = None \<Longrightarrow>
      l_nr_service (g (luntbl s i)) = 0 \<and> \<not> l_waiting4deletion (g (luntbl s i))"
    and srv: "i < 256 \<Longrightarrow> srv_sum X (cdevtbl s) i \<le> unat (l_nr_service (g (luntbl s i)))"
  shows "sce_inv X (s\<lparr>luntbl := upd_lun (luntbl s) i g\<rparr>)"
proof -
  let ?lt = "luntbl s" let ?lt' = "upd_lun ?lt i g"
  note fd = keeps_map_fdesc [of g ?lt i, OF g] keeps_map_desc_of [of g ?lt i, OF g]
    keeps_map_fragmap [of g ?lt i, OF g]
  have "map_fwd (cdevtbl s) ?lt'"
    using sce_inv_fwd [OF inv] by (simp add: map_fwd_def fd)
  moreover have "map_bwd X (cdevtbl s) ?lt'"
    using sce_inv_bwd [OF inv] by (simp add: map_bwd_def fd)
  moreover have "frag_inv X (cdevtbl s) ?lt'"
    using sce_inv_frag [OF inv] by (simp add: frag_inv_def frag_ok_def fd)
  moreover have "srv_inv X (cdevtbl s) ?lt'"
    using sce_inv_srv [OF inv] srv by (simp add: srv_inv_def)
  moreover have "lun_inv ?lt'"
    by (rule lun_inv_upd [OF sce_inv_lun [OF inv] g]) (rule none)
  moreover have "cnt_inv (nr_cdev s) (nr_frag s) (nr_lun s) (cdevtbl s) ?lt'"
    by (rule cnt_inv_upd [OF sce_inv_cnt [OF inv] same_devs_refl]) (simp only: fd)
  moreover have "log_inv (misslog_lunidx s) (misslog_fragnum s) (misslog_head s) (misslog_size s) ?lt'"
    by (rule log_inv_upd [OF sce_inv_log [OF inv]]) (simp only: fd)
  ultimately show ?thesis using inv by (simp add: sce_inv_def)
qed

text \<open>Rewriting a descriptor without changing what it is mapped to.\<close>

lemma lun_inv_set_fdesc: "lun_inv lt \<Longrightarrow> lun_inv (set_fdesc lt i n v)"
proof -
  assume *: "lun_inv lt"
  have "lun_ok (set_fdesc lt i n v j)" if "j < 256" for j
  proof -
    have "lun_ok (lt j)" using * that by (simp add: lun_inv_def)
    then show ?thesis
      by (cases "l_fragmap (lt j)") (auto simp: lun_ok_def set_fdesc_def)
  qed
  then show ?thesis by (simp add: lun_inv_def)
qed

lemma srv_inv_mono:
  "srv_inv X ct lt \<Longrightarrow> X \<subseteq> Y \<Longrightarrow> (\<And>j. l_nr_service (lt' j) = l_nr_service (lt j)) \<Longrightarrow> srv_inv Y ct lt'"
  unfolding srv_inv_def by (metis order_trans srv_sum_mono)

lemma inv_set_fdesc:
  assumes inv: "sce_inv X s" and i: "i < 256"
    and d: "fdesc_at (luntbl s) i n = Some d"
    and v: "is_mapped v = is_mapped d" "is_mapped d \<Longrightarrow> loc_of v = loc_of d"
      "is_mapped d \<Longrightarrow> is_valid d \<Longrightarrow> is_valid v"
  shows "sce_inv X (s\<lparr>luntbl := set_fdesc (luntbl s) i n v\<rparr>)"
proof -
  let ?ct = "cdevtbl s" and ?lt = "luntbl s" let ?lt' = "set_fdesc ?lt i n v"
  have fwd: "loc_of e \<in> flocs ?ct \<and> unat (f_lunidx (frag_at ?ct (loc_of e))) = j
      \<and> unat (f_fragnum (frag_at ?ct (loc_of e))) = k"
    if "j < 256" "fdesc_at ?lt' j k = Some e" "is_mapped e" for j k e
  proof (cases "j = i \<and> k = n")
    case True
    then have "e = v" using that d by simp
    then show ?thesis using mapped_frag [OF inv i d] v that True by simp
  next
    case False
    then show ?thesis using mapped_frag [OF inv that(1) _ that(3)] that(2) by (simp split: if_splits)
  qed
  have desc: "\<exists>e'. desc_of ?lt' f = Some e' \<and> is_mapped e' \<and> loc_of e' = loc_of e \<and> (is_valid e \<longrightarrow> is_valid e')"
    if "desc_of ?lt f = Some e" "is_mapped e" for f e
    using that v d by (auto simp: desc_of_def)
  have "map_fwd ?ct ?lt'" using fwd by (simp add: map_fwd_def)
  moreover have "map_bwd X ?ct ?lt'"
    using sce_inv_bwd [OF inv] desc by (fastforce simp: map_bwd_def)
  moreover have "frag_inv X ?ct ?lt'"
    using used_frag [OF inv] desc unfolding frag_inv_def frag_ok_def
    by (metis DiffE option.inject)
  moreover have "srv_inv X ?ct ?lt'"
    by (rule srv_inv_mono [OF sce_inv_srv [OF inv]]) simp_all
  moreover have "cnt_inv (nr_cdev s) (nr_frag s) (nr_lun s) ?ct ?lt'"
    by (rule cnt_inv_upd [OF sce_inv_cnt [OF inv]]) simp_all
  moreover have "log_inv (misslog_lunidx s) (misslog_fragnum s) (misslog_head s) (misslog_size s) ?lt'"
    by (rule log_inv_upd [OF sce_inv_log [OF inv]]) simp
  ultimately show ?thesis
    using inv lun_inv_set_fdesc [OF sce_inv_lun [OF inv]] by (simp add: sce_inv_def)
qed

text \<open>Unmapping a descriptor: its fragment is in transit.\<close>

lemma inv_release:
  assumes inv: "sce_inv X s" and i: "i < 256"
    and d: "fdesc_at (luntbl s) i n = Some d" "is_mapped d" and v: "\<not> is_mapped v"
  shows "sce_inv (insert (loc_of d) X) (s\<lparr>luntbl := set_fdesc (luntbl s) i n v\<rparr>)"
proof -
  let ?ct = "cdevtbl s" and ?lt = "luntbl s" let ?lt' = "set_fdesc ?lt i n v"
  let ?l = "loc_of d" let ?X = "insert ?l X"
  note mf = mapped_frag [OF inv i d]
  have other: "desc_of ?lt' (frag_at ?ct l) = desc_of ?lt (frag_at ?ct l)"
    if l: "l \<in> flocs ?ct - ?X" "in_use (frag_at ?ct l)" for l
  proof -
    obtain e where "desc_of ?lt (frag_at ?ct l) = Some e" "loc_of e = l"
      by (rule used_frag [OF inv, of l]) (use l in auto)
    then have "\<not> (unat (f_lunidx (frag_at ?ct l)) = i \<and> unat (f_fragnum (frag_at ?ct l)) = n)"
      using d l by (auto simp: desc_of_def)
    then show ?thesis by (auto simp: desc_of_def)
  qed
  have "map_fwd ?ct ?lt'"
    using sce_inv_fwd [OF inv] v by (simp add: map_fwd_def)
  moreover have "map_bwd ?X ?ct ?lt'"
    using sce_inv_bwd [OF inv] other by (simp add: map_bwd_def)
  moreover have "frag_inv ?X ?ct ?lt'"
    unfolding frag_inv_def
  proof (intro ballI impI)
    fix k assume k: "k \<in> flocs ?ct - ?X" "in_use (frag_at ?ct k)"
    then have "frag_ok ?lt (frag_at ?ct k)" using sce_inv_frag [OF inv] by (simp add: frag_inv_def)
    then show "frag_ok ?lt' (frag_at ?ct k)" using frag_ok_cong [OF other [OF k]] by simp
  qed
  moreover have "srv_inv ?X ?ct ?lt'"
    by (rule srv_inv_mono [OF sce_inv_srv [OF inv]]) auto
  moreover have "free_inv ?X ?ct (freefraglist s) (nr_freefrag s)"
  proof -
    have "l \<in> flocs ?ct - ?X \<and> \<not> in_use (frag_at ?ct l) \<longleftrightarrow> l \<in> flocs ?ct - X \<and> \<not> in_use (frag_at ?ct l)" for l
      using mf(3) by (cases "l = ?l") simp_all
    then have "{l \<in> flocs ?ct - ?X. \<not> in_use (frag_at ?ct l)} = {l \<in> flocs ?ct - X. \<not> in_use (frag_at ?ct l)}"
      by (intro Collect_cong)
    then show ?thesis using sce_inv_free [OF inv] by (simp add: free_inv_def)
  qed
  moreover have "cnt_inv (nr_cdev s) (nr_frag s) (nr_lun s) ?ct ?lt'"
    by (rule cnt_inv_upd [OF sce_inv_cnt [OF inv]]) simp_all
  moreover have "log_inv (misslog_lunidx s) (misslog_fragnum s) (misslog_head s) (misslog_size s) ?lt'"
    by (rule log_inv_upd [OF sce_inv_log [OF inv]]) simp
  ultimately show ?thesis
    using inv lun_inv_set_fdesc [OF sce_inv_lun [OF inv]] by (simp add: sce_inv_def)
qed

section \<open>The free list\<close>

lemma card_in_transit:
  assumes "free_inv X ct h n" "l \<in> flocs ct" "l \<in> X"
  shows "unat n < card (flocs ct)"
proof -
  obtain ls where ls: "distinct ls" "set ls \<subseteq> flocs ct - X" "length ls = unat n"
    using assms(1) by (auto simp: free_inv_def)
  have "card (set ls) < card (flocs ct)"
    using ls(2) assms(2,3) by (intro psubset_card_mono) auto
  then show ?thesis using ls by (simp add: distinct_card)
qed

lemma inv_freefraglist_put:
  assumes inv: "sce_inv X s" and l: "loc_of p \<in> flocs (cdevtbl s)" "loc_of p \<in> X"
    and use: "in_use (frag_at (cdevtbl s) (loc_of p))"
    and maps: "\<And>i n d. i < 256 \<Longrightarrow> fdesc_at (luntbl s) i n = Some d \<Longrightarrow> is_mapped d \<Longrightarrow> loc_of d \<noteq> loc_of p"
  obtains s' where "freefraglist_put s p = Some (SCE_SUCCESS, s')" "sce_inv (X - {loc_of p}) s'"
    "s' = s\<lparr>cdevtbl := put_frag (cdevtbl s) (loc_of p) ((frag_at (cdevtbl s) (loc_of p))
        \<lparr>f_fragnum := FRAGNUM_WITHINFREELIST, f_next := freefraglist s\<rparr>),
      freefraglist := p OR FRAGDESC_MAPPED, nr_freefrag := nr_freefrag s + 1\<rparr>"
proof -
  let ?ct = "cdevtbl s" and ?lt = "luntbl s" and ?l = "loc_of p" and ?X = "X - {loc_of p}"
  let ?f' = "(frag_at ?ct ?l)\<lparr>f_fragnum := FRAGNUM_WITHINFREELIST, f_next := freefraglist s\<rparr>"
  let ?ct' = "put_frag ?ct ?l ?f'"
  let ?s' = "s\<lparr>cdevtbl := ?ct', freefraglist := p OR FRAGDESC_MAPPED, nr_freefrag := nr_freefrag s + 1\<rparr>"
  have at: "frag_at ?ct' k = (if k = ?l then ?f' else frag_at ?ct k)" for k using l(1) by simp
  have un: "\<not> in_use ?f'" by (simp add: in_use_def)
  have lt: "unat (nr_freefrag s) < card (flocs ?ct)"
    by (rule card_in_transit [OF sce_inv_free [OF inv] l])
  have nf: "unat (nr_frag s) = card (flocs ?ct)"
    using sce_inv_cnt [OF inv] by (simp add: cnt_inv_def)
  have n1: "unat (nr_freefrag s + 1) = unat (nr_freefrag s) + 1"
  proof (rule unat_inc)
    have "unat (nr_frag s) < 2 ^ LENGTH(32)" by (rule unsigned_less)
    then show "unat (nr_freefrag s) + 1 < 2 ^ LENGTH(32)" using lt nf by simp
  qed
  have run: "freefraglist_put s p = Some (SCE_SUCCESS, ?s')"
    using use l(1) lt nf n1
    by (simp add: freefraglist_put_def pfid2frag_loc [OF sce_inv_dev [OF inv]] bug_on_def in_use_def
        word_less_nat_alt)
  have rest: "l \<in> flocs ?ct - X \<Longrightarrow> frag_at ?ct' l = frag_at ?ct l" for l using l(2) by (auto simp: at)
  have X': "flocs ?ct - ?X = insert ?l (flocs ?ct - X)" using l by auto
  have free: "free_inv ?X ?ct' (p OR FRAGDESC_MAPPED) (nr_freefrag s + 1)"
  proof -
    obtain ls where ls: "chain (nexts ?ct) (freefraglist s) ls" "distinct ls"
      "set ls = {l \<in> flocs ?ct - X. \<not> in_use (frag_at ?ct l)}" "length ls = unat (nr_freefrag s)"
      using sce_inv_free [OF inv] by (auto simp: free_inv_def)
    have nl: "?l \<notin> set ls" using ls(3) l(2) by auto
    have "chain (nexts ?ct') (freefraglist s) ls"
      by (rule chain_cong [THEN iffD1, OF _ ls(1)]) (use nl in \<open>auto simp: at\<close>)
    moreover have "p OR FRAGDESC_MAPPED \<noteq> 0"
    proof
      assume "p OR FRAGDESC_MAPPED = 0"
      then have "bit (p OR FRAGDESC_MAPPED) 31 = bit (0 :: u32) 31" by simp
      then show False by (simp add: bit_or_iff)
    qed
    ultimately have "chain (nexts ?ct') (p OR FRAGDESC_MAPPED) (?l # ls)" by (simp add: at)
    moreover have "set (?l # ls) = {l \<in> flocs ?ct' - ?X. \<not> in_use (frag_at ?ct' l)}"
      unfolding flocs_put_frag X' using ls(3) rest un by (auto simp: at in_use_def)
    ultimately show ?thesis
      using nl ls n1 unfolding free_inv_def by (intro exI [of _ "?l # ls"]) auto
  qed
  have neq: "loc_of d \<noteq> ?l" if "i < 256" "fdesc_at ?lt i n = Some d" "is_mapped d" for i n d
    using maps that by blast
  have fwd: "map_fwd ?ct' ?lt"
    using sce_inv_fwd [OF inv] neq by (simp add: map_fwd_def at)
  have bwd: "map_bwd ?X ?ct' ?lt"
    unfolding map_bwd_def flocs_put_frag X'
    using sce_inv_bwd [OF inv] un rest by (simp add: map_bwd_def at in_use_def)
  have frag: "frag_inv ?X ?ct' ?lt"
    unfolding frag_inv_def flocs_put_frag X'
    using sce_inv_frag [OF inv] un rest by (simp add: frag_inv_def at in_use_def)
  have own: "owned ?X ?ct' i = owned X ?ct i" for i
    unfolding owned_def flocs_put_frag X' using l(2) un by (auto simp: at in_use_def)
  have "srv_sum ?X ?ct' i = srv_sum X ?ct i" for i
    unfolding srv_sum_def own using rest by (intro sum.cong) (auto simp: owned_def)
  then have srv: "srv_inv ?X ?ct' ?lt"
    using sce_inv_srv [OF inv] by (simp add: srv_inv_def)
  have cnt: "cnt_inv (nr_cdev s) (nr_frag s) (nr_lun s) ?ct' ?lt"
    by (rule cnt_inv_upd [OF sce_inv_cnt [OF inv]]) simp_all
  have "sce_inv ?X ?s'"
    using inv free fwd bwd frag srv cnt same_devs_dev_inv [OF same_devs_put_frag sce_inv_dev [OF inv]]
    by (simp add: sce_inv_def)
  then show thesis by (rule that [OF run]) simp
qed

text \<open>An id of a fragment that is free already is refused, and nothing changes.\<close>

lemma freefraglist_put_free:
  assumes "dev_inv (cdevtbl s)" "loc_of p \<in> flocs (cdevtbl s)" "\<not> in_use (frag_at (cdevtbl s) (loc_of p))"
  shows "freefraglist_put s p = Some (SCE_ERROR, s)"
  using assms by (simp add: freefraglist_put_def pfid2frag_loc in_use_def)

lemma freefraglist_get_empty: "freefraglist s = 0 \<Longrightarrow> freefraglist_get s out = Some (SCE_ERROR, out, s)"
  by (simp add: freefraglist_get_def)

lemma inv_freefraglist_get:
  assumes inv: "sce_inv X s" and ne: "freefraglist s \<noteq> 0"
  obtains l s' where "freefraglist_get s out = Some (SCE_SUCCESS, freefraglist s, s')"
    "l = loc_of (freefraglist s)" "l \<in> flocs (cdevtbl s)" "l \<notin> X" "\<not> in_use (frag_at (cdevtbl s) l)"
    "sce_inv (insert l X) s'"
    "s' = s\<lparr>freefraglist := f_next (frag_at (cdevtbl s) l),
       cdevtbl := put_frag (cdevtbl s) l ((frag_at (cdevtbl s) l)\<lparr>f_next := 0, f_fragnum := FRAGNUM_FREE\<rparr>),
       nr_freefrag := nr_freefrag s - 1\<rparr>"
proof -
  let ?ct = "cdevtbl s" and ?lt = "luntbl s"
  define l where "l = loc_of (freefraglist s)"
  let ?f' = "(frag_at ?ct l)\<lparr>f_next := 0, f_fragnum := FRAGNUM_FREE\<rparr>"
  let ?ct' = "put_frag ?ct l ?f'" and ?X = "insert l X"
  let ?s' = "s\<lparr>freefraglist := f_next (frag_at ?ct l), cdevtbl := ?ct', nr_freefrag := nr_freefrag s - 1\<rparr>"
  obtain ls where ls: "chain (nexts ?ct) (freefraglist s) ls" "distinct ls"
    "set ls = {l \<in> flocs ?ct - X. \<not> in_use (frag_at ?ct l)}" "length ls = unat (nr_freefrag s)"
    using sce_inv_free [OF inv] by (auto simp: free_inv_def)
  obtain ls' where ls': "ls = l # ls'" "chain (nexts ?ct) (f_next (frag_at ?ct l)) ls'"
    using ls(1) ne by (cases ls) (auto simp: l_def)
  have l: "l \<in> flocs ?ct" "l \<notin> X" "\<not> in_use (frag_at ?ct l)" using ls(3) ls'(1) by auto
  have at: "frag_at ?ct' k = (if k = l then ?f' else frag_at ?ct k)" for k using l(1) by simp
  have n: "nr_freefrag s \<noteq> 0" using ls(4) ls'(1) by auto
  have run: "freefraglist_get s out = Some (SCE_SUCCESS, freefraglist s, ?s')"
    using ne l n
    by (simp add: freefraglist_get_def pfid2frag_loc [OF sce_inv_dev [OF inv]] bug_on_def flip: l_def)
  have rest: "k \<in> flocs ?ct - ?X \<Longrightarrow> frag_at ?ct' k = frag_at ?ct k" for k by (auto simp: at)
  have free: "free_inv ?X ?ct' (f_next (frag_at ?ct l)) (nr_freefrag s - 1)"
  proof -
    have nl: "l \<notin> set ls'" using ls(2) ls'(1) by auto
    have "chain (nexts ?ct') (f_next (frag_at ?ct l)) ls'"
      by (rule chain_cong [THEN iffD1, OF _ ls'(2)]) (use nl in \<open>auto simp: at\<close>)
    moreover have "set ls' = {l \<in> flocs ?ct' - ?X. \<not> in_use (frag_at ?ct' l)}"
    proof -
      have "set ls' = set ls - {l}" using ls'(1) nl by auto
      then show ?thesis unfolding flocs_put_frag ls(3) using rest by (auto simp: at)
    qed
    ultimately show ?thesis
      using ls ls'(1) unat_dec [OF n] unfolding free_inv_def by (intro exI [of _ ls']) auto
  qed
  have neq: "loc_of d \<noteq> l" if "i < 256" "fdesc_at ?lt i n = Some d" "is_mapped d" for i n d
    using mapped_frag(3) [OF inv that] l(3) by auto
  have fwd: "map_fwd ?ct' ?lt"
    using sce_inv_fwd [OF inv] neq by (simp add: map_fwd_def at)
  have sub: "k \<in> flocs ?ct - ?X \<Longrightarrow> k \<in> flocs ?ct - X" for k by auto
  have bwd: "map_bwd ?X ?ct' ?lt"
    using sce_inv_bwd [OF inv] rest unfolding map_bwd_def flocs_put_frag by (metis sub)
  have frag: "frag_inv ?X ?ct' ?lt"
    using sce_inv_frag [OF inv] rest unfolding frag_inv_def flocs_put_frag by (metis sub)
  have own: "owned ?X ?ct' i = owned X ?ct i" for i
    unfolding owned_def flocs_put_frag using l(3) by (auto simp: at)
  have "srv_sum ?X ?ct' i = srv_sum X ?ct i" for i
    unfolding srv_sum_def own using l(3) by (intro sum.cong) (auto simp: owned_def at)
  then have srv: "srv_inv ?X ?ct' ?lt"
    using sce_inv_srv [OF inv] by (simp add: srv_inv_def)
  have cnt: "cnt_inv (nr_cdev s) (nr_frag s) (nr_lun s) ?ct' ?lt"
    by (rule cnt_inv_upd [OF sce_inv_cnt [OF inv]]) simp_all
  have "sce_inv ?X ?s'"
    using inv free fwd bwd frag srv cnt same_devs_dev_inv [OF same_devs_put_frag sce_inv_dev [OF inv]]
    by (simp add: sce_inv_def)
  then show thesis by (rule that [OF run l_def l]) simp
qed

section \<open>Mapping a fragment in transit\<close>

lemma not_mapped_to:
  assumes inv: "sce_inv X s" and d: "i < 256" "fdesc_at (luntbl s) i n = Some d" "is_mapped d"
    and l: "unat FRAGNUM_FREE \<le> unat (f_fragnum (frag_at (cdevtbl s) l))"
  shows "loc_of d \<noteq> l"
  using mapped_frag(5) [OF inv d] fdesc_at_bound(2) [OF sce_inv_lun [OF inv] d(1,2)] l by auto

lemma inv_claim:
  assumes inv: "sce_inv X s" and l: "l \<in> flocs (cdevtbl s)" "l \<in> X"
    and maps: "\<And>i n d. i < 256 \<Longrightarrow> fdesc_at (luntbl s) i n = Some d \<Longrightarrow> is_mapped d \<Longrightarrow> loc_of d \<noteq> l"
    and i: "i < 256" "fdesc_at (luntbl s) i n = Some d" "\<not> is_mapped d"
    and v: "is_mapped v" "loc_of v = l"
    and f': "unat (f_lunidx f') = i" "unat (f_fragnum f') = n"
      "frag_ok (set_fdesc (luntbl s) i n v) f'"
    and srv: "srv_sum X (cdevtbl s) i + unat (f_nr_service f') \<le> unat (l_nr_service (luntbl s i))"
  shows "sce_inv (X - {l}) (s\<lparr>cdevtbl := put_frag (cdevtbl s) l f', luntbl := set_fdesc (luntbl s) i n v\<rparr>)"
proof -
  let ?ct = "cdevtbl s" and ?lt = "luntbl s"
  let ?ct' = "put_frag ?ct l f'" and ?lt' = "set_fdesc ?lt i n v" and ?X = "X - {l}"
  have at: "frag_at ?ct' k = (if k = l then f' else frag_at ?ct k)" for k using l(1) by simp
  have use: "in_use f'"
    using fdesc_at_bound(2) [OF sce_inv_lun [OF inv] i(1,2)] f'(2)
    by (auto simp: in_use_def FRAGNUM_FREE_def FRAGNUM_WITHINFREELIST_def)
  have rest: "k \<in> flocs ?ct - X \<Longrightarrow> k \<noteq> l" for k using l(2) by auto
  have X': "flocs ?ct - ?X = insert l (flocs ?ct - X)" using l by auto
  have desc_f': "desc_of ?lt' f' = Some v" using f'(1,2) i by (simp add: desc_of_def)
  have other: "desc_of ?lt' (frag_at ?ct k) = desc_of ?lt (frag_at ?ct k)"
    if k: "k \<in> flocs ?ct - X" "in_use (frag_at ?ct k)" for k
  proof -
    obtain e where "desc_of ?lt (frag_at ?ct k) = Some e" "is_mapped e"
      by (rule used_frag [OF inv, of k]) (use k in auto)
    then have "\<not> (unat (f_lunidx (frag_at ?ct k)) = i \<and> unat (f_fragnum (frag_at ?ct k)) = n)"
      using i by (auto simp: desc_of_def)
    then show ?thesis by (auto simp: desc_of_def)
  qed
  have fwd: "map_fwd ?ct' ?lt'"
  proof -
    have "loc_of e \<in> flocs ?ct \<and> unat (f_lunidx (frag_at ?ct' (loc_of e))) = j
        \<and> unat (f_fragnum (frag_at ?ct' (loc_of e))) = k"
      if "j < 256" "fdesc_at ?lt' j k = Some e" "is_mapped e" for j k e
    proof (cases "j = i \<and> k = n")
      case True
      then show ?thesis using that i v l f' by (simp add: at)
    next
      case False
      then have e: "fdesc_at ?lt j k = Some e" using that(2) by (auto split: if_splits)
      then show ?thesis using mapped_frag [OF inv that(1) e that(3)] maps [OF that(1) e that(3)] by (simp add: at)
    qed
    then show ?thesis by (simp add: map_fwd_def)
  qed
  have bwd: "map_bwd ?X ?ct' ?lt'"
    unfolding map_bwd_def flocs_put_frag X'
    using sce_inv_bwd [OF inv] desc_f' f' v i rest other by (simp add: map_bwd_def at)
  have frag: "frag_inv ?X ?ct' ?lt'"
    unfolding frag_inv_def flocs_put_frag X'
    using sce_inv_frag [OF inv] f'(3) rest other by (simp add: frag_inv_def at frag_ok_def)
  have free: "free_inv ?X ?ct' (freefraglist s) (nr_freefrag s)"
  proof -
    obtain ls where ls: "chain (nexts ?ct) (freefraglist s) ls" "distinct ls"
      "set ls = {l \<in> flocs ?ct - X. \<not> in_use (frag_at ?ct l)}" "length ls = unat (nr_freefrag s)"
      using sce_inv_free [OF inv] by (auto simp: free_inv_def)
    have "chain (nexts ?ct') (freefraglist s) ls"
      by (rule chain_cong [THEN iffD1, OF _ ls(1)]) (use ls(3) rest in \<open>auto simp: at\<close>)
    moreover have "set ls = {l \<in> flocs ?ct' - ?X. \<not> in_use (frag_at ?ct' l)}"
      unfolding flocs_put_frag X' ls(3) using rest use by (auto simp: at)
    ultimately show ?thesis using ls(2,4) by (auto simp: free_inv_def)
  qed
  have sum: "srv_sum ?X ?ct' j = srv_sum X ?ct j + (if j = i then unat (f_nr_service f') else 0)" for j
  proof -
    have own: "owned ?X ?ct' j = (if j = i then insert l (owned X ?ct j) else owned X ?ct j)"
      unfolding owned_def flocs_put_frag X' using rest use f'(1) by (auto simp: at)
    have "l \<notin> owned X ?ct j" using l(2) by (simp add: owned_def)
    moreover have "(\<Sum>k\<in>owned X ?ct j. unat (f_nr_service (frag_at ?ct' k))) = srv_sum X ?ct j"
      unfolding srv_sum_def using l(2) by (intro sum.cong) (auto simp: at owned_def)
    moreover have "frag_at ?ct' l = f'" by (simp add: at)
    ultimately show ?thesis by (auto simp: srv_sum_def [of ?X] own simp del: frag_at_put_frag)
  qed
  have srv': "srv_inv ?X ?ct' ?lt'"
    using sce_inv_srv [OF inv] srv by (simp add: srv_inv_def sum)
  have "cnt_inv (nr_cdev s) (nr_frag s) (nr_lun s) ?ct' ?lt'"
    by (rule cnt_inv_upd [OF sce_inv_cnt [OF inv]]) simp_all
  moreover have "log_inv (misslog_lunidx s) (misslog_fragnum s) (misslog_head s) (misslog_size s) ?lt'"
    by (rule log_inv_upd [OF sce_inv_log [OF inv]]) simp
  ultimately show ?thesis
    using inv lun_inv_set_fdesc [OF sce_inv_lun [OF inv]] fwd bwd frag free srv'
      same_devs_dev_inv [OF same_devs_put_frag sce_inv_dev [OF inv]] by (simp add: sce_inv_def)
qed

section \<open>Adding and removing devices\<close>

text \<open>Only the fragments outside \<open>X\<close> matter for most of the invariant.\<close>

lemma inv_frame:
  assumes "flocs ct' - X' = flocs ct - X"
    and "\<And>l. l \<in> flocs ct - X \<Longrightarrow> frag_at ct' l = frag_at ct l"
  shows "free_inv X ct h n \<Longrightarrow> free_inv X' ct' h n" and "map_bwd X ct lt \<Longrightarrow> map_bwd X' ct' lt"
    and "frag_inv X ct lt \<Longrightarrow> frag_inv X' ct' lt" and "srv_inv X ct lt \<Longrightarrow> srv_inv X' ct' lt"
proof -
  show "free_inv X' ct' h n" if free: "free_inv X ct h n"
  proof -
    obtain ls where ls: "chain (nexts ct) h ls" "distinct ls"
      "set ls = {l \<in> flocs ct - X. \<not> in_use (frag_at ct l)}" "length ls = unat n"
      using free by (auto simp: free_inv_def)
    have "chain (nexts ct') h ls"
      by (rule chain_cong [THEN iffD1, OF _ ls(1)]) (use ls(3) assms(2) in simp)
    moreover have "set ls = {l \<in> flocs ct' - X'. \<not> in_use (frag_at ct' l)}"
      unfolding ls(3) assms(1) by (rule Collect_cong) (use assms(2) in auto)
    ultimately show ?thesis using ls(2,4) by (auto simp: free_inv_def)
  qed
  show "map_bwd X' ct' lt" if "map_bwd X ct lt"
    using that assms(2) unfolding map_bwd_def assms(1) by simp
  show "frag_inv X' ct' lt" if "frag_inv X ct lt"
    using that assms(2) unfolding frag_inv_def assms(1) by simp
  have own: "owned X' ct' i = owned X ct i" for i
    unfolding owned_def assms(1) by (rule Collect_cong) (use assms(2) in auto)
  have "srv_sum X' ct' i = srv_sum X ct i" for i
    unfolding srv_sum_def own using assms(2) by (intro sum.cong) (auto simp: owned_def)
  then show "srv_inv X' ct' lt" if "srv_inv X ct lt" using that by (simp add: srv_inv_def)
qed

text \<open>A fragment in transit that no descriptor is mapped to may change freely.\<close>

lemma inv_put_transit:
  assumes inv: "sce_inv X s" and l: "l \<in> flocs (cdevtbl s)" "l \<in> X"
    and maps: "\<And>i n d. i < 256 \<Longrightarrow> fdesc_at (luntbl s) i n = Some d \<Longrightarrow> is_mapped d \<Longrightarrow> loc_of d \<noteq> l"
  shows "sce_inv X (s\<lparr>cdevtbl := put_frag (cdevtbl s) l f\<rparr>)"
proof -
  let ?ct' = "put_frag (cdevtbl s) l f"
  have fl: "flocs ?ct' - X = flocs (cdevtbl s) - X" by simp
  have at: "k \<in> flocs (cdevtbl s) - X \<Longrightarrow> frag_at ?ct' k = frag_at (cdevtbl s) k" for k
    using l by auto
  have fwd: "map_fwd ?ct' (luntbl s)"
    using sce_inv_fwd [OF inv] maps l(1) by (simp add: map_fwd_def)
  have cnt: "cnt_inv (nr_cdev s) (nr_frag s) (nr_lun s) ?ct' (luntbl s)"
    by (rule cnt_inv_upd [OF sce_inv_cnt [OF inv]]) simp_all
  show ?thesis
    using inv fwd cnt inv_frame [OF fl at] same_devs_dev_inv [OF same_devs_put_frag sce_inv_dev [OF inv]]
    by (simp add: sce_inv_def)
qed

definition dev_locs :: "ctbl \<Rightarrow> nat \<Rightarrow> floc set" where
  "dev_locs ct dn = {l \<in> flocs ct. fst l = dn}"

lemma dev_locs_Times: "dn < 16 \<Longrightarrow> c_fragtbl (ct dn) = Some t \<Longrightarrow> dev_locs ct dn = {dn} \<times> {..<length t}"
  by (auto simp: dev_locs_def flocs_def)

lemma flocs_upd_zero: "flocs (ct(dn := cdev_zero)) = flocs ct - dev_locs ct dn"
  by (auto simp: flocs_def dev_locs_def split: option.splits if_splits)

lemma flocs_upd_new:
  "dn < 16 \<Longrightarrow> c_fragtbl c = Some t \<Longrightarrow> flocs (ct(dn := c)) = (flocs ct - dev_locs ct dn) \<union> {dn} \<times> {..<length t}"
  by (auto simp: flocs_def dev_locs_def split: option.splits if_splits)

lemma inv_desc_cong:
  assumes "\<And>l. l \<in> flocs ct - X \<Longrightarrow> in_use (frag_at ct l) \<Longrightarrow> desc_of lt' (frag_at ct l) = desc_of lt (frag_at ct l)"
  shows "map_bwd X ct lt \<Longrightarrow> map_bwd X ct lt'" and "frag_inv X ct lt \<Longrightarrow> frag_inv X ct lt'"
proof -
  show "map_bwd X ct lt'" if "map_bwd X ct lt"
    using that assms unfolding map_bwd_def by metis
  show "frag_inv X ct lt'" if "frag_inv X ct lt"
    using that frag_ok_cong [OF assms] unfolding frag_inv_def by blast
qed

lemma frag_at_upd_other: "fst l \<noteq> dn \<Longrightarrow> frag_at (ct(dn := c)) l = frag_at ct l"
  by (cases l) (simp add: frag_at.simps)

lemma inv_drop_dev:
  assumes inv: "sce_inv X s" and dn: "dn < 16" "c_fragtbl (cdevtbl s dn) \<noteq> None"
    and D: "dev_locs (cdevtbl s) dn \<subseteq> X"
    and maps: "\<And>i n d. i < 256 \<Longrightarrow> fdesc_at (luntbl s) i n = Some d \<Longrightarrow> is_mapped d \<Longrightarrow> fst (loc_of d) \<noteq> dn"
  shows "sce_inv (X - dev_locs (cdevtbl s) dn) (s\<lparr>nr_cdev := nr_cdev s - 1,
      nr_frag := nr_frag s - c_nr_frag (cdevtbl s dn), cdevtbl := (cdevtbl s)(dn := cdev_zero)\<rparr>)"
proof -
  let ?ct = "cdevtbl s" and ?lt = "luntbl s" let ?ct' = "?ct(dn := cdev_zero)"
  let ?D = "dev_locs ?ct dn" let ?X = "X - ?D"
  obtain t where t: "c_fragtbl (?ct dn) = Some t" using dn by auto
  have dk: "length t = unat (c_nr_frag (?ct dn))"
    using sce_inv_dev [OF inv] dn(1) t by (fastforce simp: dev_inv_def dev_ok_def)
  have X': "flocs ?ct' - ?X = flocs ?ct - X" unfolding flocs_upd_zero using D by auto
  have at: "frag_at ?ct' l = frag_at ?ct l" if "l \<in> flocs ?ct - X" for l
    by (rule frag_at_upd_other) (use that D in \<open>auto simp: dev_locs_def\<close>)
  have fwd: "map_fwd ?ct' ?lt"
    unfolding map_fwd_def flocs_upd_zero
    using sce_inv_fwd [OF inv] maps by (simp add: map_fwd_def dev_locs_def frag_at_upd_other)
  have devs: "{d. d < 16 \<and> c_fragtbl (?ct' d) \<noteq> None} = {d. d < 16 \<and> c_fragtbl (?ct d) \<noteq> None} - {dn}"
    by auto
  have c: "unat (nr_cdev s) = card {d. d < 16 \<and> c_fragtbl (?ct d) \<noteq> None}" "unat (nr_frag s) = card (flocs ?ct)"
    using sce_inv_cnt [OF inv] by (simp_all add: cnt_inv_def)
  have mem: "dn \<in> {d. d < 16 \<and> c_fragtbl (?ct d) \<noteq> None}" using dn by simp
  then have "0 < unat (nr_cdev s)" unfolding c(1) by (subst card_gt_0_iff) auto
  then have "nr_cdev s \<noteq> 0" by (simp add: unat_gt_0)
  then have nc: "unat (nr_cdev s - 1) = card {d. d < 16 \<and> c_fragtbl (?ct' d) \<noteq> None}"
    unfolding devs using c(1) mem by (simp add: unat_dec)
  have D': "?D \<subseteq> flocs ?ct" "card ?D = unat (c_nr_frag (?ct dn))"
    using dk by (simp_all add: dev_locs_Times [of dn ?ct t, OF dn(1) t]) (auto simp: flocs_def dn t)
  then have "unat (c_nr_frag (?ct dn)) \<le> unat (nr_frag s)" using c(2) card_mono [OF finite_flocs D'(1)] by simp
  then have nf: "unat (nr_frag s - c_nr_frag (?ct dn)) = card (flocs ?ct')"
    unfolding flocs_upd_zero using c(2) D' card_Diff_subset [OF finite_subset [OF D'(1) finite_flocs] D'(1)]
    by (simp add: unat_sub word_le_nat_alt)
  have cnt: "cnt_inv (nr_cdev s - 1) (nr_frag s - c_nr_frag (?ct dn)) (nr_lun s) ?ct' ?lt"
    using sce_inv_cnt [OF inv] nc nf by (simp add: cnt_inv_def)
  have dev: "dev_inv ?ct'"
    using sce_inv_dev [OF inv] by (simp add: dev_inv_def dev_ok_def [of cdev_zero])
  show ?thesis
    using inv fwd cnt dev inv_frame [OF X' at] by (simp add: sce_inv_def)
qed

lemma inv_new_dev:
  assumes inv: "sce_inv X s" and dn: "dn < 16" "c_fragtbl (cdevtbl s dn) = None"
    and c: "c_fragtbl c = Some t" "dev_ok c"
  shows "sce_inv (X \<union> {dn} \<times> {..<length t}) (s\<lparr>cdevtbl := (cdevtbl s)(dn := c),
      nr_cdev := nr_cdev s + 1, nr_frag := nr_frag s + c_nr_frag c\<rparr>)"
proof -
  let ?ct = "cdevtbl s" and ?lt = "luntbl s" let ?ct' = "?ct(dn := c)"
  let ?N = "{dn} \<times> {..<length t}" let ?X = "X \<union> ?N"
  have none: "dev_locs ?ct dn = {}" using dn by (auto simp: dev_locs_def flocs_def)
  have fl: "flocs ?ct' = flocs ?ct \<union> ?N" using flocs_upd_new [OF dn(1) c(1), of ?ct] none by simp
  have off: "l \<in> flocs ?ct \<Longrightarrow> fst l \<noteq> dn" for l using none by (auto simp: dev_locs_def)
  have nb: "(dn, b) \<notin> flocs ?ct" for b using off [of "(dn, b)"] by auto
  then have X': "flocs ?ct' - ?X = flocs ?ct - X" unfolding fl by auto
  have at: "frag_at ?ct' l = frag_at ?ct l" if "l \<in> flocs ?ct - X" for l
    by (rule frag_at_upd_other) (use that off in simp)
  have fwd: "map_fwd ?ct' ?lt"
    unfolding map_fwd_def fl
    using sce_inv_fwd [OF inv] off by (simp add: map_fwd_def frag_at_upd_other)
  have dev: "dev_inv ?ct'"
    using sce_inv_dev [OF inv] c(2) by (simp add: dev_inv_def)
  have devs: "{d. d < 16 \<and> c_fragtbl (?ct' d) \<noteq> None} = insert dn {d. d < 16 \<and> c_fragtbl (?ct d) \<noteq> None}"
    using dn(1) c(1) by auto
  have k: "unat (nr_cdev s) = card {d. d < 16 \<and> c_fragtbl (?ct d) \<noteq> None}" "unat (nr_frag s) = card (flocs ?ct)"
    using sce_inv_cnt [OF inv] by (simp_all add: cnt_inv_def)
  have "card {d. d < 16 \<and> c_fragtbl (?ct d) \<noteq> None} \<le> card {..<16::nat}"
    by (intro card_mono) auto
  then have nc: "unat (nr_cdev s + 1) = card {d. d < 16 \<and> c_fragtbl (?ct' d) \<noteq> None}"
    unfolding devs using k(1) dn by (subst unat_inc) simp_all
  have lt: "length t = unat (c_nr_frag c)" using c by (simp add: dev_ok_def)
  have disj: "flocs ?ct \<inter> ?N = {}" using nb by auto
  have sum: "card (flocs ?ct') = unat (nr_frag s) + unat (c_nr_frag c)"
    unfolding fl using card_Un_disjoint [OF finite_flocs _ disj] k(2) lt by simp
  then have "unat (nr_frag s) + unat (c_nr_frag c) < 2 ^ LENGTH(32)"
    using card_flocs_bound [OF dev] by simp
  then have nf: "unat (nr_frag s + c_nr_frag c) = card (flocs ?ct')"
    using sum by (simp add: unat_word_ariths)
  have cnt: "cnt_inv (nr_cdev s + 1) (nr_frag s + c_nr_frag c) (nr_lun s) ?ct' ?lt"
    using sce_inv_cnt [OF inv] nc nf by (simp add: cnt_inv_def)
  show ?thesis
    using inv fwd cnt dev inv_frame [OF X' at] by (simp add: sce_inv_def)
qed

section \<open>Adding and removing LUNs\<close>

lemma fdesc_at_None: "l_fragmap (lt i) = None \<Longrightarrow> fdesc_at lt i n = None"
  by (simp add: fdesc_at_def)

text \<open>Replacing a LUN that has no mapped descriptor by one that has none either.\<close>

lemma inv_replace_lun:
  assumes inv: "sce_inv X s" and i: "i < 256"
    and old: "\<And>n d. fdesc_at (luntbl s) i n = Some d \<Longrightarrow> \<not> is_mapped d"
    and new: "\<And>n d. fdesc_at lt' i n = Some d \<Longrightarrow> \<not> is_mapped d"
    and lt': "\<And>j. j \<noteq> i \<Longrightarrow> lt' j = luntbl s j" and ok: "lun_ok (lt' i)"
    and cnt: "unat nl = card {i. i < SCE_MAXLUN \<and> l_fragmap (lt' i) \<noteq> None}"
    and log: "\<And>k m. k < unat (misslog_size s) \<Longrightarrow> unat (misslog_lunidx s k) = i \<Longrightarrow> l_fragmap (lt' i) = Some m
      \<Longrightarrow> unat (misslog_fragnum s k) < length m"
  shows "sce_inv X (s\<lparr>luntbl := lt', nr_lun := nl\<rparr>)"
proof -
  let ?ct = "cdevtbl s" and ?lt = "luntbl s"
  have fd: "j \<noteq> i \<Longrightarrow> fdesc_at lt' j n = fdesc_at ?lt j n" for j n by (simp add: fdesc_at_def lt')
  have other: "unat (f_lunidx (frag_at ?ct l)) \<noteq> i" if l: "l \<in> flocs ?ct - X" "in_use (frag_at ?ct l)" for l
  proof
    assume *: "unat (f_lunidx (frag_at ?ct l)) = i"
    obtain d where "desc_of ?lt (frag_at ?ct l) = Some d" "is_mapped d"
      by (rule used_frag [OF inv, of l]) (use l in auto)
    then show False using old * by (auto simp: desc_of_def)
  qed
  have desc: "desc_of lt' (frag_at ?ct l) = desc_of ?lt (frag_at ?ct l)"
    if "l \<in> flocs ?ct - X" "in_use (frag_at ?ct l)" for l
    using fd other [OF that] by (simp add: desc_of_def)
  have fwd: "map_fwd ?ct lt'"
  proof -
    have "fdesc_at ?lt j n = Some d" if "fdesc_at lt' j n = Some d" "is_mapped d" for j n d
      using that new fd by (cases "j = i") auto
    then show ?thesis using sce_inv_fwd [OF inv] unfolding map_fwd_def by blast
  qed
  have bwd: "map_bwd X ?ct lt'" and frag: "frag_inv X ?ct lt'"
    using inv_desc_cong [OF desc] sce_inv_bwd [OF inv] sce_inv_frag [OF inv] by blast+
  have "owned X ?ct i = {}" using other by (auto simp: owned_def)
  then have srv: "srv_inv X ?ct lt'"
    using sce_inv_srv [OF inv] lt' unfolding srv_inv_def srv_sum_def
    by (metis le0 sum.empty)
  have lun: "lun_inv lt'"
    using sce_inv_lun [OF inv] ok lt' unfolding lun_inv_def by metis
  have log': "log_inv (misslog_lunidx s) (misslog_fragnum s) (misslog_head s) (misslog_size s) lt'"
  proof -
    have "unat (misslog_fragnum s k) < length m"
      if "k < unat (misslog_size s)" "unat (misslog_lunidx s k) < 256"
        "l_fragmap (lt' (unat (misslog_lunidx s k))) = Some m" for k m
    proof (cases "unat (misslog_lunidx s k) = i")
      case True
      then show ?thesis using log that by simp
    next
      case False
      then show ?thesis using sce_inv_log [OF inv] that by (simp add: log_inv_def lt')
    qed
    then show ?thesis using sce_inv_log [OF inv] by (simp add: log_inv_def)
  qed
  show ?thesis
    using inv fwd bwd frag srv lun log' cnt by (simp add: sce_inv_def cnt_inv_def)
qed

lemma nr_lun_add:
  assumes "sce_inv X s" "i < 256" "l_fragmap (luntbl s i) = None" "l_fragmap l \<noteq> None"
  shows "unat (nr_lun s + 1) = card {j. j < SCE_MAXLUN \<and> l_fragmap (((luntbl s)(i := l)) j) \<noteq> None}"
proof -
  let ?S = "{j. j < 256 \<and> l_fragmap (luntbl s j) \<noteq> None}"
  have "{j. j < 256 \<and> l_fragmap (((luntbl s)(i := l)) j) \<noteq> None} = insert i ?S"
    using assms by auto
  moreover have "card ?S \<le> card {..<256::nat}" by (intro card_mono) auto
  moreover have "unat (nr_lun s) = card ?S"
    using sce_inv_cnt [OF assms(1)] by (simp add: cnt_inv_def)
  ultimately show ?thesis using assms(3) by (subst unat_inc) simp_all
qed

lemma nr_lun_pos:
  assumes "sce_inv X s" "i < 256" "l_fragmap (luntbl s i) \<noteq> None" shows "nr_lun s \<noteq> 0"
proof -
  let ?S = "{j. j < 256 \<and> l_fragmap (luntbl s j) \<noteq> None}"
  have "i \<in> ?S" "finite ?S" using assms by simp_all
  then have "0 < card ?S" using card_gt_0_iff [of ?S] by blast
  moreover have "unat (nr_lun s) = card ?S"
    using sce_inv_cnt [OF assms(1)] by (simp add: cnt_inv_def)
  ultimately show ?thesis by (simp flip: unat_gt_0)
qed

lemma nr_lun_remove:
  assumes "sce_inv X s" "i < 256" "l_fragmap (luntbl s i) \<noteq> None" "l_fragmap l = None"
  shows "unat (nr_lun s - 1) = card {j. j < SCE_MAXLUN \<and> l_fragmap (((luntbl s)(i := l)) j) \<noteq> None}"
proof -
  let ?S = "{j. j < 256 \<and> l_fragmap (luntbl s j) \<noteq> None}"
  have "{j. j < 256 \<and> l_fragmap (((luntbl s)(i := l)) j) \<noteq> None} = ?S - {i}"
    using assms by auto
  moreover have "i \<in> ?S" "finite ?S" using assms by simp_all
  moreover have "unat (nr_lun s) = card ?S"
    using sce_inv_cnt [OF assms(1)] by (simp add: cnt_inv_def)
  ultimately show ?thesis using unat_dec [OF nr_lun_pos [OF assms(1-3)]] by simp
qed

end
