(* ===== verification/Sce_Example.thy ===== *)
theory Sce_Example
  imports Sce_Invariant
begin

text \<open>
  A concrete engine, to apply the theorems to: one device of two fragments, of which one is
  mapped to fragment 1 of the only LUN and one is free; fragment 0 of the LUN is not mapped, has
  five misses and is the last miss logged. The parameters say whether the mapped fragment is valid
  or still being populated, and how many requests it has in service.
\<close>

definition example_dev :: "u16 \<Rightarrow> cdev" where
  "example_dev k = \<lparr>c_scehndl = True, c_cdevctx = 7, c_nr_frag = 2,
     c_fragtbl = Some
       [frag_zero\<lparr>f_lunidx := 0, f_fragnum := 1, f_nr_valid := 256, f_nr_service := k, f_nr_miss := 3\<rparr>,
        frag_zero\<lparr>f_fragnum := FRAGNUM_WITHINFREELIST\<rparr>]\<rparr>"

definition example_lun :: "bool \<Rightarrow> u16 \<Rightarrow> lun" where
  "example_lun v k = \<lparr>l_scehndl = True,
     l_fragmap = Some [5, if v then FRAGDESC_MAPPED OR FRAGDESC_VALID else FRAGDESC_MAPPED],
     l_lunctx = 9, l_nr_sctr = 4096, l_nr_frag = 2, l_nr_service = ucast k,
     l_waiting4deletion = False, l_stats = stats_zero\<rparr>"

definition example :: "bool \<Rightarrow> u16 \<Rightarrow> sce" where
  "example v k = \<lparr>nr_cdev = 1, cdevtbl = (\<lambda>_. cdev_zero)(0 := example_dev k),
     nr_lun = 1, luntbl = (\<lambda>_. lun_zero)(0 := example_lun v k),
     nr_frag = 2, nr_freefrag = 1, freefraglist = FRAGDESC_MAPPED OR 1,
     nr_hit = 0, nr_miss = 1, nr_eviction = 0, arm = 0,
     misslog_fragnum = \<lambda>_. 0, misslog_lunidx = \<lambda>_. 0, misslog_head = 1, misslog_size = 1\<rparr>"

lemma example_devs [simp]:
  "cdevtbl (example v k) = (\<lambda>_. cdev_zero)(0 := example_dev k)"
  "c_fragtbl (example_dev k) = Some
     [frag_zero\<lparr>f_lunidx := 0, f_fragnum := 1, f_nr_valid := 256, f_nr_service := k, f_nr_miss := 3\<rparr>,
      frag_zero\<lparr>f_fragnum := FRAGNUM_WITHINFREELIST\<rparr>]"
  "c_cdevctx (example_dev k) = 7" "c_nr_frag (example_dev k) = 2"
  by (simp_all add: example_def example_dev_def)

lemma example_luns [simp]:
  "luntbl (example v k) = (\<lambda>_. lun_zero)(0 := example_lun v k)"
  "l_scehndl (example_lun v k)"
  "l_fragmap (example_lun v k) = Some [5, if v then FRAGDESC_MAPPED OR FRAGDESC_VALID else FRAGDESC_MAPPED]"
  "l_lunctx (example_lun v k) = 9" "l_nr_sctr (example_lun v k) = 4096" "l_nr_frag (example_lun v k) = 2"
  "l_nr_service (example_lun v k) = ucast k" "\<not> l_waiting4deletion (example_lun v k)"
  by (simp_all add: example_def example_lun_def)

lemma example_scalars [simp]:
  "nr_cdev (example v k) = 1" "nr_lun (example v k) = 1" "nr_frag (example v k) = 2"
  "nr_freefrag (example v k) = 1" "freefraglist (example v k) = FRAGDESC_MAPPED OR 1"
  "misslog_fragnum (example v k) i = 0" "misslog_lunidx (example v k) i = 0"
  "misslog_head (example v k) = 1" "misslog_size (example v k) = 1" "arm (example v k) = 0"
  by (simp_all add: example_def)

lemma example_flocs [simp]: "flocs ((\<lambda>_. cdev_zero)(0 := example_dev k)) = {(0, 0), (0, 1)}"
  by (auto simp: flocs_def less_Suc_eq numeral_2_eq_2 split: option.splits if_splits)

lemma example_frag [simp]:
  "frag_at ((\<lambda>_. cdev_zero)(0 := example_dev k)) (0, 0)
     = frag_zero\<lparr>f_lunidx := 0, f_fragnum := 1, f_nr_valid := 256, f_nr_service := k, f_nr_miss := 3\<rparr>"
  "frag_at ((\<lambda>_. cdev_zero)(0 := example_dev k)) (0, Suc 0) = frag_zero\<lparr>f_fragnum := FRAGNUM_WITHINFREELIST\<rparr>"
  by (simp_all add: frag_at.simps)

lemma loc_of_1 [simp]: "loc_of 1 = (0, Suc 0)" and loc_of_0 [simp]: "loc_of 0 = (0, 0)"
  by (simp_all add: loc_of_def SCE_PFIDDEV_def SCE_PFIDOFF_def PFID_DEVMASK_def PFID_OFFMASK_def)

lemma loc_of_MAPPED [simp]: "loc_of FRAGDESC_MAPPED = (0, 0)"
  using loc_of_or_MAPPED [of 0] by simp

lemma example_fdesc [simp]:
  "fdesc_at ((\<lambda>_. lun_zero)(0 := example_lun v k)) i n =
    (if i = 0 then if n = 0 then Some 5
       else if n = Suc 0 then Some (if v then FRAGDESC_MAPPED OR FRAGDESC_VALID else FRAGDESC_MAPPED)
       else None else None)"
  by (auto simp: fdesc_at_def rd_def less_Suc_eq nth_Cons')

lemma example_desc [simp]:
  "\<not> is_mapped 5" "is_mapped FRAGDESC_MAPPED" "is_mapped (FRAGDESC_MAPPED OR FRAGDESC_VALID)"
  "\<not> is_valid FRAGDESC_MAPPED" "is_valid (FRAGDESC_MAPPED OR FRAGDESC_VALID)"
  by (simp_all add: is_mapped_def is_valid_def FRAGDESC_MAPPED_def FRAGDESC_VALID_def)

lemma example_nonzero [simp]: "FRAGDESC_MAPPED OR 1 \<noteq> 0"
  by (simp add: FRAGDESC_MAPPED_def)

lemma example_wf:
  assumes "v \<or> k = 1" shows "sce_wf (example v k)"
proof -
  let ?s = "example v k"
  let ?ct = "(\<lambda>_. cdev_zero)(0 := example_dev k) :: ctbl"
    and ?lt = "(\<lambda>_. lun_zero)(0 := example_lun v k) :: ltbl"
  have use: "in_use (frag_at ?ct (0, 0))" "\<not> in_use (frag_at ?ct (0, Suc 0))"
    by (simp_all add: in_use_def FRAGNUM_WITHINFREELIST_def)
  have "dev_inv ?ct" by (simp add: dev_inv_def dev_ok_def example_dev_def)
  moreover have "lun_inv ?lt" by (simp add: lun_inv_def lun_ok_def)
  moreover have "cnt_inv 1 2 1 ?ct ?lt"
  proof -
    have "{d. d < 16 \<and> c_fragtbl (?ct d) \<noteq> None} = {0}" "{i. i < 256 \<and> l_fragmap (?lt i) \<noteq> None} = {0}"
      by auto
    then show ?thesis by (simp add: cnt_inv_def)
  qed
  moreover have "free_inv {} ?ct (FRAGDESC_MAPPED OR 1) 1"
    unfolding free_inv_def by (rule exI [of _ "[(0, Suc 0)]"]) (use use in auto)
  moreover have "map_fwd ?ct ?lt"
    by (auto simp: map_fwd_def split: if_splits)
  moreover have "map_bwd {} ?ct ?lt"
    using use by (auto simp: map_bwd_def desc_of_def)
  moreover have "pages_ok (frag_at ?ct (0, 0))"
  proof -
    have "{p. p < 256 \<and> \<not> pagebit (replicate 8 0) p} = {..<256}" using pagebit_zero [where n = 8] by auto
    then show ?thesis by (simp add: pages_ok_def)
  qed
  then have "frag_inv {} ?ct ?lt"
    using use assms by (auto simp: frag_inv_def frag_ok_def desc_of_def pages_ok_def)
  moreover have "srv_inv {} ?ct ?lt"
  proof -
    have u: "unat (ucast k :: u32) = unat k"
      using unsigned_less [of k, where ?'a = nat] by (simp add: unat_ucast_mod)
    have "owned {} ?ct i = (if i = 0 then {(0, 0)} else {})" for i
      using use by (auto simp: owned_def)
    then have "srv_sum {} ?ct i \<le> unat (l_nr_service (?lt i))" for i
      using u by (cases "i = 0") (simp_all add: srv_sum_def)
    then show ?thesis unfolding srv_inv_def by blast
  qed
  moreover have "log_inv (\<lambda>_. 0) (\<lambda>_. 0) 1 1 ?lt" by (simp add: log_inv_def)
  moreover have "misslog_lunidx ?s = (\<lambda>_. 0)" "misslog_fragnum ?s = (\<lambda>_. 0)" by (simp_all add: example_def)
  ultimately have "sce_inv {} ?s" by (simp add: sce_inv_def)
  moreover have "wait_inv ?lt" by (simp add: wait_inv_def)
  ultimately show ?thesis by (simp add: sce_wf_def)
qed

end
