(* ===== verification/Sce_Mapping.thy ===== *)
theory Sce_Mapping
  imports Sce_Example
begin

text \<open>
  \<^verbatim>\<open>src/sce_mapping.c\<close>: connecting a fragment of a LUN with a physical fragment of a cache
  device, and disconnecting it again. While a fragment is not mapped its descriptor holds the
  number of misses (its heat).
\<close>

section \<open>The code\<close>

text \<open>The pages of the last fragment that lie beyond the end of the LUN are marked invalid.\<close>

definition cut_last :: "lun \<Rightarrow> u32 \<Rightarrow> frag \<Rightarrow> frag option" where
  "cut_last lun fragn fr =
     (if fragn = l_nr_frag lun - 1
      then let nr_sctr = ucast (l_nr_frag lun * SCE_SCTRPERFRAG) :: sector_t
           in if l_nr_sctr lun < nr_sctr
              then let pagecnt = (ucast (nr_sctr - l_nr_sctr lun + SCE_SCTRPERPAGE - 1) :: u32)
                         div SCE_SCTRPERPAGE;
                       pagenum = SCE_PAGEPERFRAG - pagecnt
                   in map_option snd (frag_invalidate fr pagenum pagecnt)
              else Some fr
      else Some fr)"

definition map_frag :: "sce \<Rightarrow> nat \<Rightarrow> u32 \<Rightarrow> pfid_t \<Rightarrow> (rc \<times> sce) option" where
  "map_frag s li fragn pfid =
     (let lun = luntbl s li
      in case l_fragmap lun of
           None \<Rightarrow> Some (SCE_ERROR, s)
         | Some m \<Rightarrow>
             if fragn \<ge> l_nr_frag lun then Some (SCE_ERROR, s)
             else if \<not> l_scehndl lun then Some (SCE_ERROR, s)
             else if isvalidpfid (cdevtbl s) pfid \<noteq> SCE_SUCCESS then Some (SCE_ERROR, s)
             else do {
               fdesc \<leftarrow> rd m (unat fragn);
               if fdesc AND FRAGDESC_MAPPED \<noteq> 0 then Some (SCE_ERROR, s)
               else case pfid2frag (cdevtbl s) pfid of
                      None \<Rightarrow> Some (SCE_ERROR, s)
                    | Some fl \<Rightarrow> do {
                        fr0 \<leftarrow> get_frag (cdevtbl s) fl;
                        let fr = frag_init fr0;
                        fr1 \<leftarrow> cut_last lun fragn fr;
                        let fr2 = fr1\<lparr>f_lunidx := GET_LUNIDX li, f_fragnum := fragn\<rparr>;
                        Some (SCE_SUCCESS,
                          s\<lparr>cdevtbl := put_frag (cdevtbl s) fl fr2,
                            luntbl := set_fdesc (luntbl s) li (unat fragn)
                              (FRAGDESC_MAPPED OR (pfid AND FRAGDESC_DATAMASK))\<rparr>)
                      }
             })"

definition unmap_frag :: "sce \<Rightarrow> nat \<Rightarrow> u32 \<Rightarrow> (rc \<times> sce) option" where
  "unmap_frag s li fragn =
     (let lun = luntbl s li
      in case l_fragmap lun of
           None \<Rightarrow> Some (SCE_ERROR, s)
         | Some m \<Rightarrow>
             if fragn \<ge> l_nr_frag lun then Some (SCE_ERROR, s)
             else if \<not> l_scehndl lun then Some (SCE_ERROR, s)
             else do {
               fdesc \<leftarrow> rd m (unat fragn);
               if fdesc AND FRAGDESC_MAPPED = 0 then Some (SCE_ERROR, s)
               else case pfid2frag (cdevtbl s) fdesc of
                      None \<Rightarrow> Some (SCE_ERROR, s)
                    | Some fl \<Rightarrow> do {
                        fr \<leftarrow> get_frag (cdevtbl s) fl;
                        if f_nr_service fr > 0 then Some (SCE_ERROR, s)
                        else do {
                          let nr_miss = f_nr_miss fr;
                          (r, s1) \<leftarrow> freefraglist_put s fdesc;
                          if r \<noteq> SCE_SUCCESS then Some (SCE_ERROR, s1)
                          else Some (SCE_SUCCESS,
                            s1\<lparr>luntbl := set_fdesc (luntbl s1) li (unat fragn) (nr_miss AND FRAGDESC_DATAMASK)\<rparr>)
                        }
                      }
             })"

section \<open>New descriptors\<close>

lemma new_desc [simp]:
  "is_mapped (FRAGDESC_MAPPED OR (p AND FRAGDESC_DATAMASK))"
  "\<not> is_valid (FRAGDESC_MAPPED OR (p AND FRAGDESC_DATAMASK))"
  "\<not> is_mapped (h AND FRAGDESC_DATAMASK)"
  "is_mapped (d OR FRAGDESC_VALID) = is_mapped d" "is_valid (d OR FRAGDESC_VALID)"
  by (simp_all add: is_mapped_bit is_valid_bit bit_or_iff bit_and_iff)

lemma is_mapped_INC [simp]: "is_mapped (FRAGDESC_INC d) = is_mapped d"
  by (simp add: is_mapped_bit FRAGDESC_INC_def bit_or_iff bit_and_iff)

section \<open>The last fragment of a LUN\<close>

text \<open>
  The pages of the last fragment that do not lie within the LUN as a whole. The product of the
  code is a 32-bit one; it is exact for a LUN below \<open>2 ^ 32\<close> sectors.
\<close>

lemma last_frag_pages:
  fixes nf :: u32 and ns :: u64
  assumes ns: "unat ns \<le> 2048 * unat nf" "2048 * unat nf < unat ns + 2048"
    and lt: "ns < ucast (nf * 2048)"
  defines "pc \<equiv> (ucast ((ucast (nf * 2048) :: u64) - ns + 8 - 1) :: u32) div 8"
  shows "0 < pc" "unat (256 - pc) + unat pc = 256" "unat pc = (2048 * unat nf - unat ns + 7) div 8"
proof -
  define k where "k = 2048 * unat nf - unat ns"
  have ns32: "unat ns < 2 ^ 32"
  proof -
    have "unat ns < unat (nf * 2048)"
      using lt by (simp add: word_less_nat_alt)
    also have "\<dots> < 2 ^ LENGTH(32)" by (rule unsigned_less)
    finally show ?thesis by simp
  qed
  have "unat (nf * 2048) = 2048 * unat nf"
  proof (cases "unat nf < 2 ^ 21")
    case True
    then show ?thesis by (simp add: unat_word_ariths)
  next
    case False
    then have "2048 * unat nf = 2 ^ 32" using ns ns32 by (auto dest: le_neq_implies_less)
    then have "unat (nf * 2048) = 0" by (simp add: unat_word_ariths mult.commute)
    then show ?thesis using lt by (simp add: word_less_nat_alt)
  qed
  then have u: "unat (ucast (nf * 2048) :: u64) = 2048 * unat nf"
    by simp
  have k: "0 < k" "k < 2048" using ns lt u by (auto simp: k_def word_less_nat_alt)
  have d: "unat ((ucast (nf * 2048) :: u64) - ns) = k"
    using u ns(1) by (simp add: unat_sub word_le_nat_alt k_def)
  have e: "unat ((ucast (nf * 2048) :: u64) - ns + 8 - 1) = k + 7"
  proof -
    have "(ucast (nf * 2048) :: u64) - ns + 8 - 1 = ucast (nf * 2048) - ns + 7" by simp
    also have "unat \<dots> = k + 7" using k d by (simp add: unat_word_ariths)
    finally show ?thesis .
  qed
  have pc: "unat pc = (k + 7) div 8"
    unfolding pc_def using k e by (simp add: unat_div_distrib unat_ucast_mod)
  then have r: "0 < unat pc" "unat pc \<le> 256" using k by auto
  show "0 < pc" using r(1) by (simp add: word_pos_unat)
  show "unat (256 - pc) + unat pc = 256" using r(2) by (simp add: unat_sub word_le_nat_alt)
  show "unat pc = (2048 * unat nf - unat ns + 7) div 8" using pc by (simp add: k_def)
qed

text \<open>Which pages of a newly mapped fragment are valid.\<close>

definition lun_page :: "lun \<Rightarrow> nat \<Rightarrow> nat \<Rightarrow> bool" where
  "lun_page lu n p \<longleftrightarrow> 2048 * n + 8 * (p + 1) \<le> unat (l_nr_sctr lu)"

definition fresh_frag :: "nat \<Rightarrow> u32 \<Rightarrow> frag \<Rightarrow> bool" where
  "fresh_frag li n f \<longleftrightarrow> f_lunidx f = GET_LUNIDX li \<and> f_fragnum f = n \<and> pages_ok f \<and> f_next f = 0
     \<and> f_nr_ref f = 0 \<and> f_nr_service f = 0 \<and> f_nr_miss f = 0"

lemma pages_ok_ids [simp]: "pages_ok (f\<lparr>f_lunidx := a, f_fragnum := b\<rparr>) = pages_ok f"
  by (simp add: pages_ok_def)

lemma frag_init_fields [simp]:
  "f_next (frag_init f) = 0" "f_nr_ref (frag_init f) = 0" "f_nr_service (frag_init f) = 0"
  "f_nr_miss (frag_init f) = 0"
  by (simp_all add: frag_init_def)

lemma map_frag_effect:
  assumes dev: "dev_inv (cdevtbl s)" and ok: "lun_ok (luntbl s li)"
    and d: "fdesc_at (luntbl s) li (unat n) = Some d" "\<not> is_mapped d"
    and l: "loc_of p \<in> flocs (cdevtbl s)"
  obtains f where "map_frag s li n p = Some (SCE_SUCCESS,
      s\<lparr>cdevtbl := put_frag (cdevtbl s) (loc_of p) f,
        luntbl := set_fdesc (luntbl s) li (unat n) (FRAGDESC_MAPPED OR (p AND FRAGDESC_DATAMASK))\<rparr>)"
    "fresh_frag li n f"
    "\<And>k. k < 256 \<Longrightarrow> unat (l_nr_sctr (luntbl s li)) < 2 ^ 32 - 2048 \<Longrightarrow>
       page_valid f k \<longleftrightarrow> lun_page (luntbl s li) (unat n) k"
proof -
  let ?lu = "luntbl s li" and ?f0 = "frag_init (frag_at (cdevtbl s) (loc_of p))"
  obtain m where m: "l_fragmap ?lu = Some m" "unat n < length m" "d = m ! unat n"
    using d(1) by (auto simp: fdesc_at_eq_Some)
  have lm: "length m = unat (l_nr_frag ?lu)" "l_scehndl ?lu"
      "unat (l_nr_sctr ?lu) \<le> 2048 * unat (l_nr_frag ?lu)"
      "2048 * unat (l_nr_frag ?lu) < unat (l_nr_sctr ?lu) + 2048"
    using ok m(1) by (simp_all add: lun_ok_def)
  have nlt: "\<not> l_nr_frag ?lu \<le> n" using m(2) lm(1) by (simp add: word_le_nat_alt)
  let ?ns = "ucast (l_nr_frag ?lu * 2048) :: u64"
  let ?pc = "(ucast (?ns - l_nr_sctr ?lu + 8 - 1) :: u32) div 8"
  let ?tail = "n = l_nr_frag ?lu - 1 \<and> l_nr_sctr ?lu < ?ns"
  let ?cut = "cut_last ?lu n ?f0"
  have nl1: "n = l_nr_frag ?lu - 1 \<longleftrightarrow> unat n + 1 = unat (l_nr_frag ?lu)"
  proof -
    have "l_nr_frag ?lu \<noteq> 0" using m(2) lm(1) by (auto simp: unat_eq_zero)
    then show ?thesis using unat_dec [of "l_nr_frag ?lu"] m(2) lm(1) by (auto simp: word_unat_eq_iff)
  qed
  obtain f1 where f1: "?cut = Some f1" "pages_ok f1" "f_next f1 = 0" "f_nr_ref f1 = 0"
      "f_nr_service f1 = 0" "f_nr_miss f1 = 0"
      "\<And>k. k < 256 \<Longrightarrow> unat (l_nr_sctr ?lu) < 2 ^ 32 - 2048 \<Longrightarrow> page_valid f1 k \<longleftrightarrow> lun_page ?lu (unat n) k"
  proof (cases ?tail)
    case True
    define pc where "pc = ?pc"
    note pc = last_frag_pages [OF lm(3,4) conjunct2 [OF True], folded pc_def]
    have le: "unat (256 - pc) + unat pc \<le> 256" using pc(2) by simp
    obtain bm k where i: "frag_invalidate ?f0 (256 - pc) pc
          = Some (int k, ?f0\<lparr>f_bitmap := bm, f_nr_valid := f_nr_valid ?f0 - of_nat k\<rparr>)"
        "pages_ok (?f0\<lparr>f_bitmap := bm, f_nr_valid := f_nr_valid ?f0 - of_nat k\<rparr>)"
        "\<forall>j < 256. pagebit bm j \<longleftrightarrow> pagebit (f_bitmap ?f0) j \<or> in_pages (unat (256 - pc)) (unat pc) j"
      using frag_invalidate_correct [OF pages_ok_init pc(1) le] by blast
    have valid: "page_valid (?f0\<lparr>f_bitmap := bm, f_nr_valid := f_nr_valid ?f0 - of_nat k\<rparr>) j
        \<longleftrightarrow> lun_page ?lu (unat n) j" if j: "j < 256" for j
    proof -
      have "\<not> pagebit (f_bitmap ?f0) j" using page_valid_init [OF j] by (simp add: page_valid_def)
      then have "pagebit bm j \<longleftrightarrow> 256 - unat pc \<le> j" using i(3) j pc(2) by auto
      also have "\<dots> \<longleftrightarrow> \<not> lun_page ?lu (unat n) j"
        using pc(3) nl1 True lm(3,4) by (auto simp: lun_page_def)
      finally show ?thesis by (simp add: page_valid_def)
    qed
    have "?cut = map_option snd (frag_invalidate ?f0 (256 - pc) pc)"
      unfolding pc_def cut_last_def Let_def
      by (subst if_P [OF conjunct1 [OF True]], subst if_P [OF conjunct2 [OF True]], rule refl)
    then have cut: "?cut = Some (?f0\<lparr>f_bitmap := bm, f_nr_valid := f_nr_valid ?f0 - of_nat k\<rparr>)"
      by (simp only: i(1) option.map snd_conv)
    show ?thesis
      by (rule that [of "?f0\<lparr>f_bitmap := bm, f_nr_valid := f_nr_valid ?f0 - of_nat k\<rparr>"])
        (use cut in \<open>simp only:\<close>, use i(2) valid in simp_all)
  next
    case False
    have all: "lun_page ?lu (unat n) k" if k: "k < 256" and ns: "unat (l_nr_sctr ?lu) < 2 ^ 32 - 2048" for k
    proof (cases "unat n + 1 = unat (l_nr_frag ?lu)")
      case True
      have "unat (l_nr_frag ?lu * 2048) = unat (l_nr_frag ?lu) * 2048"
        using lm(4) ns by (simp add: unat_word_ariths)
      then show ?thesis using False True nl1 lm(3) k by (auto simp: lun_page_def word_less_nat_alt)
    next
      case False
      then have "unat n + 2 \<le> unat (l_nr_frag ?lu)" using m(2) lm(1) by simp
      then show ?thesis using k lm(4) by (simp add: lun_page_def)
    qed
    show ?thesis by (rule that [of ?f0]) (use False all pages_ok_init in \<open>auto simp: cut_last_def\<close>)
  qed
  let ?f = "f1\<lparr>f_lunidx := GET_LUNIDX li, f_fragnum := n\<rparr>"
  have "map_frag s li n p = Some (SCE_SUCCESS,
      s\<lparr>cdevtbl := put_frag (cdevtbl s) (loc_of p) ?f,
        luntbl := set_fdesc (luntbl s) li (unat n) (FRAGDESC_MAPPED OR (p AND FRAGDESC_DATAMASK))\<rparr>)"
    using m nlt lm(2) d(2) l f1(1)
    by (simp add: map_frag_def Let_def pfid2frag_loc [OF dev] isvalidpfid_loc [OF dev] is_mapped_def)
  moreover have "fresh_frag li n ?f" using f1 by (simp add: fresh_frag_def)
  moreover have "page_valid ?f k = page_valid f1 k" for k by (simp add: page_valid_def)
  ultimately show thesis using f1(7) by (intro that [of ?f]) auto
qed

text \<open>Every reason to refuse leaves the state alone.\<close>

lemma map_frag_error:
  assumes dev: "dev_inv (cdevtbl s)" and ok: "lun_ok (luntbl s li)"
    and "\<not> (loc_of p \<in> flocs (cdevtbl s) \<and> (\<exists>d. fdesc_at (luntbl s) li (unat n) = Some d \<and> \<not> is_mapped d))"
  shows "map_frag s li n p = Some (SCE_ERROR, s)"
proof (cases "l_fragmap (luntbl s li)")
  case None
  then show ?thesis by (simp add: map_frag_def)
next
  case (Some m)
  then have "unat (l_nr_frag (luntbl s li)) = length m" "l_scehndl (luntbl s li)"
    using ok by (simp_all add: lun_ok_def)
  then show ?thesis
    using assms(3) Some
    by (auto simp: map_frag_def Let_def isvalidpfid_loc [OF dev] fdesc_at_eq_Some word_le_nat_alt is_mapped_def)
qed

section \<open>Unmapping\<close>

lemma freefraglist_put_luntbl:
  "freefraglist_put (s\<lparr>luntbl := lt\<rparr>) p = map_option (\<lambda>(r, s'). (r, s'\<lparr>luntbl := lt\<rparr>)) (freefraglist_put s p)"
  by (auto simp: freefraglist_put_def bug_on_def split: option.splits Option.bind_splits if_splits)

lemma unmap_frag_unmapped:
  assumes "lun_ok (luntbl s li)"
    and "\<And>d. fdesc_at (luntbl s) li (unat n) = Some d \<Longrightarrow> \<not> is_mapped d"
  shows "unmap_frag s li n = Some (SCE_ERROR, s)"
proof (cases "l_fragmap (luntbl s li)")
  case None
  then show ?thesis by (simp add: unmap_frag_def)
next
  case (Some m)
  then have "unat (l_nr_frag (luntbl s li)) = length m" "l_scehndl (luntbl s li)"
    using assms(1) by (simp_all add: lun_ok_def)
  then show ?thesis
    using assms(2) Some
    by (auto simp: unmap_frag_def Let_def fdesc_at_eq_Some word_le_nat_alt is_mapped_def)
qed

lemma unmap_frag_busy:
  assumes inv: "sce_inv X s" and li: "li < 256"
    and d: "fdesc_at (luntbl s) li (unat n) = Some d" "is_mapped d"
    and busy: "f_nr_service (frag_at (cdevtbl s) (loc_of d)) \<noteq> 0"
  shows "unmap_frag s li n = Some (SCE_ERROR, s)"
proof -
  obtain m where m: "l_fragmap (luntbl s li) = Some m" "unat n < length m" "d = m ! unat n"
    using d(1) by (auto simp: fdesc_at_eq_Some)
  have "lun_ok (luntbl s li)" using sce_inv_lun [OF inv] li by (simp add: lun_inv_def)
  then have "unat (l_nr_frag (luntbl s li)) = length m" "l_scehndl (luntbl s li)"
    using m by (simp_all add: lun_ok_def)
  then show ?thesis
    using m d(2) busy mapped_frag(1,2) [OF inv li d]
    by (simp add: unmap_frag_def Let_def word_le_nat_alt is_mapped_def word_gt_0)
qed

text \<open>
  The general case asks for the invariant only of the state in which the descriptor is cleared
  already and the fragment is in transit.
\<close>

lemma unmap_frag_transit:
  assumes dev: "dev_inv (cdevtbl s)" and lun: "lun_ok (luntbl s li)"
    and d: "fdesc_at (luntbl s) li (unat n) = Some d" "is_mapped d"
    and l: "loc_of d \<in> flocs (cdevtbl s)" "loc_of d \<notin> X" "in_use (frag_at (cdevtbl s) (loc_of d))"
    and idle: "f_nr_service (frag_at (cdevtbl s) (loc_of d)) = 0"
    and inv1: "sce_inv (insert (loc_of d) X) (s\<lparr>luntbl := set_fdesc (luntbl s) li (unat n)
      (f_nr_miss (frag_at (cdevtbl s) (loc_of d)) AND FRAGDESC_DATAMASK)\<rparr>)"
    and maps: "\<And>j k e. j < 256 \<Longrightarrow> fdesc_at (luntbl s) j k = Some e \<Longrightarrow> is_mapped e \<Longrightarrow> loc_of e = loc_of d \<Longrightarrow>
      j = li \<and> k = unat n"
  obtains s' where "unmap_frag s li n = Some (SCE_SUCCESS, s')" "sce_inv X s'"
    "s' = s\<lparr>cdevtbl := put_frag (cdevtbl s) (loc_of d) ((frag_at (cdevtbl s) (loc_of d))
          \<lparr>f_fragnum := FRAGNUM_WITHINFREELIST, f_next := freefraglist s\<rparr>),
        freefraglist := d OR FRAGDESC_MAPPED, nr_freefrag := nr_freefrag s + 1,
        luntbl := set_fdesc (luntbl s) li (unat n)
          (f_nr_miss (frag_at (cdevtbl s) (loc_of d)) AND FRAGDESC_DATAMASK)\<rparr>"
proof -
  let ?f = "frag_at (cdevtbl s) (loc_of d)"
  let ?lt' = "set_fdesc (luntbl s) li (unat n) (f_nr_miss ?f AND FRAGDESC_DATAMASK)"
  obtain m where m: "l_fragmap (luntbl s li) = Some m" "unat n < length m" "d = m ! unat n"
    using d(1) by (auto simp: fdesc_at_eq_Some)
  have lm: "unat (l_nr_frag (luntbl s li)) = length m" "l_scehndl (luntbl s li)"
    using m lun by (simp_all add: lun_ok_def)
  have maps': "loc_of e \<noteq> loc_of d" if "j < 256" "fdesc_at ?lt' j k = Some e" "is_mapped e" for j k e
  proof (cases "j = li \<and> k = unat n")
    case True
    then show ?thesis using that d(1) by auto
  next
    case False
    then have "fdesc_at (luntbl s) j k = Some e" using that(2) by (auto split: if_splits)
    then show ?thesis using maps [OF that(1) _ that(3)] False by blast
  qed
  obtain s2 where s2: "freefraglist_put (s\<lparr>luntbl := ?lt'\<rparr>) d = Some (SCE_SUCCESS, s2)"
      "sce_inv (insert (loc_of d) X - {loc_of d}) s2"
      "s2 = s\<lparr>luntbl := ?lt', cdevtbl := put_frag (cdevtbl s) (loc_of d)
          (?f\<lparr>f_fragnum := FRAGNUM_WITHINFREELIST, f_next := freefraglist s\<rparr>),
        freefraglist := d OR FRAGDESC_MAPPED, nr_freefrag := nr_freefrag s + 1\<rparr>"
    by (rule inv_freefraglist_put [OF inv1, of d]) (use l maps' in auto)
  obtain s1 where s1: "freefraglist_put s d = Some (SCE_SUCCESS, s1)" "s2 = s1\<lparr>luntbl := ?lt'\<rparr>"
    using s2(1) by (auto simp: freefraglist_put_luntbl)
  have keep: "luntbl s1 = luntbl s"
    using s1(1) by (auto simp: freefraglist_put_def bug_on_def split: option.splits Option.bind_splits if_splits)
  have "unmap_frag s li n = Some (SCE_SUCCESS, s2)"
    using m lm d(2) l idle s1 keep
    by (simp add: unmap_frag_def Let_def word_le_nat_alt is_mapped_def pfid2frag_loc [OF dev])
  moreover have "insert (loc_of d) X - {loc_of d} = X" using l by simp
  ultimately show thesis using s2 by (intro that [of s2]) simp_all
qed

lemma mapped_distinct:
  assumes "sce_inv X s" "i < 256" "fdesc_at (luntbl s) i n = Some d" "is_mapped d"
    "j < 256" "fdesc_at (luntbl s) j k = Some e" "is_mapped e" "loc_of e = loc_of d"
  shows "j = i \<and> k = n"
  using mapped_frag(4,5) [OF assms(1-4)] mapped_frag(4,5) [OF assms(1,5-7)] assms(8) by simp

lemma unmap_frag_mapped:
  assumes inv: "sce_inv X s" and li: "li < 256"
    and d: "fdesc_at (luntbl s) li (unat n) = Some d" "is_mapped d"
    and l: "loc_of d \<notin> X" and idle: "f_nr_service (frag_at (cdevtbl s) (loc_of d)) = 0"
  obtains s' where "unmap_frag s li n = Some (SCE_SUCCESS, s')" "sce_inv X s'"
    "s' = s\<lparr>cdevtbl := put_frag (cdevtbl s) (loc_of d) ((frag_at (cdevtbl s) (loc_of d))
          \<lparr>f_fragnum := FRAGNUM_WITHINFREELIST, f_next := freefraglist s\<rparr>),
        freefraglist := d OR FRAGDESC_MAPPED, nr_freefrag := nr_freefrag s + 1,
        luntbl := set_fdesc (luntbl s) li (unat n)
          (f_nr_miss (frag_at (cdevtbl s) (loc_of d)) AND FRAGDESC_DATAMASK)\<rparr>"
proof -
  have ok: "lun_ok (luntbl s li)" using sce_inv_lun [OF inv] li by (simp add: lun_inv_def)
  note mf = mapped_frag [OF inv li d]
  show thesis
    by (rule unmap_frag_transit [OF sce_inv_dev [OF inv] ok d mf(1) l mf(3) idle inv_release [OF inv li d]])
      (simp, use mapped_distinct [OF inv li d] in blast, use that in blast)
qed

section \<open>Properties\<close>

text \<open>
  Mapping a fragment of a LUN that is not mapped to a fragment of a device succeeds; the
  descriptor then leads to that fragment and is not valid, and of the pages of the new fragment
  exactly those are valid that lie within the LUN as a whole (on a LUN below 2^32 - 2048 sectors,
  where the 32-bit product of the code is exact).
\<close>

lemma map_frag_maps:
  assumes "dev_inv (cdevtbl s)" "lun_ok (luntbl s li)" "fdesc_at (luntbl s) li (unat n) = Some d" "\<not> is_mapped d"
    and "loc_of p \<in> flocs (cdevtbl s)" "unat (l_nr_sctr (luntbl s li)) < 2 ^ 32 - 2048"
  shows "returns (map_frag s li n p) (\<lambda>(r, s'). r = SCE_SUCCESS
    \<and> (\<exists>d'. fdesc_at (luntbl s') li (unat n) = Some d' \<and> is_mapped d' \<and> \<not> is_valid d' \<and> loc_of d' = loc_of p)
    \<and> f_lunidx (frag_at (cdevtbl s') (loc_of p)) = GET_LUNIDX li
    \<and> f_fragnum (frag_at (cdevtbl s') (loc_of p)) = n
    \<and> (\<forall>k < 256. page_valid (frag_at (cdevtbl s') (loc_of p)) k
         \<longleftrightarrow> 2048 * unat n + 8 * (k + 1) \<le> unat (l_nr_sctr (luntbl s li))))"
proof -
  obtain f where "map_frag s li n p = Some (SCE_SUCCESS,
      s\<lparr>cdevtbl := put_frag (cdevtbl s) (loc_of p) f,
        luntbl := set_fdesc (luntbl s) li (unat n) (FRAGDESC_MAPPED OR (p AND FRAGDESC_DATAMASK))\<rparr>)"
    "fresh_frag li n f"
    "\<And>k. k < 256 \<Longrightarrow> unat (l_nr_sctr (luntbl s li)) < 2 ^ 32 - 2048 \<Longrightarrow>
       page_valid f k \<longleftrightarrow> lun_page (luntbl s li) (unat n) k"
    by (rule map_frag_effect [OF assms(1-5)]) blast
  then show ?thesis using assms(3,5,6) by (simp add: fresh_frag_def lun_page_def)
qed

lemma map_frag_maps_witness:
  "returns (map_frag (example True 0) 0 0 1) (\<lambda>(r, s'). r = SCE_SUCCESS
    \<and> (\<exists>d'. fdesc_at (luntbl s') 0 (unat (0 :: u32)) = Some d' \<and> is_mapped d' \<and> \<not> is_valid d' \<and> loc_of d' = loc_of 1)
    \<and> f_lunidx (frag_at (cdevtbl s') (loc_of 1)) = GET_LUNIDX 0
    \<and> f_fragnum (frag_at (cdevtbl s') (loc_of 1)) = 0
    \<and> (\<forall>k < 256. page_valid (frag_at (cdevtbl s') (loc_of 1)) k
         \<longleftrightarrow> 2048 * unat (0 :: u32) + 8 * (k + 1) \<le> unat (l_nr_sctr (luntbl (example True 0) 0))))"
proof (rule map_frag_maps)
  have inv: "sce_inv {} (example True 0)" by (rule sce_wf_inv [OF example_wf]) simp
  show "dev_inv (cdevtbl (example True 0))" by (rule sce_inv_dev [OF inv])
  show "lun_ok (luntbl (example True 0) 0)"
    using sce_inv_lun [OF inv] unfolding lun_inv_def by (rule allE [of _ 0]) simp
  show "fdesc_at (luntbl (example True 0)) 0 (unat (0 :: u32)) = Some 5" "\<not> is_mapped 5" by simp_all
qed simp_all

text \<open>
  Unmapping a fragment that serves nothing keeps the invariant and puts the fragment on the
  free list; the descriptor keeps the miss count of the fragment as its heat.
\<close>

lemma unmap_frag_frees:
  assumes "sce_inv {} s" "li < 256" "fdesc_at (luntbl s) li (unat n) = Some d" "is_mapped d"
    and "f_nr_service (frag_at (cdevtbl s) (loc_of d)) = 0"
  shows "returns (unmap_frag s li n) (\<lambda>(r, s'). r = SCE_SUCCESS \<and> sce_inv {} s'
    \<and> fdesc_at (luntbl s') li (unat n) = Some (FRAGDESC_DATA (f_nr_miss (frag_at (cdevtbl s) (loc_of d))))
    \<and> loc_of (freefraglist s') = loc_of d \<and> nr_freefrag s' = nr_freefrag s + 1)"
proof -
  have l: "loc_of d \<notin> {}" by simp
  obtain s' where "unmap_frag s li n = Some (SCE_SUCCESS, s')" "sce_inv {} s'"
    "s' = s\<lparr>cdevtbl := put_frag (cdevtbl s) (loc_of d) ((frag_at (cdevtbl s) (loc_of d))
          \<lparr>f_fragnum := FRAGNUM_WITHINFREELIST, f_next := freefraglist s\<rparr>),
        freefraglist := d OR FRAGDESC_MAPPED, nr_freefrag := nr_freefrag s + 1,
        luntbl := set_fdesc (luntbl s) li (unat n)
          (f_nr_miss (frag_at (cdevtbl s) (loc_of d)) AND FRAGDESC_DATAMASK)\<rparr>"
    by (rule unmap_frag_mapped [OF assms(1-4) l assms(5)])
  then show ?thesis using assms(3) by (simp add: FRAGDESC_DATA_def)
qed

lemma unmap_frag_frees_witness:
  "returns (unmap_frag (example True 0) 0 1) (\<lambda>(r, s'). r = SCE_SUCCESS \<and> sce_inv {} s'
    \<and> fdesc_at (luntbl s') 0 (unat (1 :: u32))
        = Some (FRAGDESC_DATA (f_nr_miss (frag_at (cdevtbl (example True 0)) (loc_of (FRAGDESC_MAPPED OR FRAGDESC_VALID)))))
    \<and> loc_of (freefraglist s') = loc_of (FRAGDESC_MAPPED OR FRAGDESC_VALID)
    \<and> nr_freefrag s' = nr_freefrag (example True 0) + 1)"
  by (rule unmap_frag_frees [OF sce_wf_inv [OF example_wf]]) simp_all

end
