(* ===== verification/Sce_Contents.thy ===== *)
theory Sce_Contents
  imports Sce_Mapping
begin

text \<open>
  What the engine promises its clients, as an abstract state. \<open>view s (i, n)\<close> is \<open>None\<close> while
  fragment \<open>n\<close> of LUN \<open>i\<close> is not mapped; otherwise it tells whether its population is complete,
  where it is mapped to, and which of its pages are valid. The pages of complete fragments are those that a read may be
  served from the cache (\<open>contents s\<close>), those of the others will be once their population is
  complete (\<open>incoming s\<close>). The elementary changes of the invariant are followed here on this view.
\<close>

section \<open>The abstract state\<close>

definition pages_of :: "frag \<Rightarrow> nat set" where
  "pages_of f = {p. p < 256 \<and> page_valid f p}"

fun view :: "sce \<Rightarrow> nat \<times> nat \<Rightarrow> (bool \<times> floc \<times> nat set) option" where
  "view s (i, n) = (if i < SCE_MAXLUN
     then do {
       d \<leftarrow> fdesc_at (luntbl s) i n;
       if is_mapped d then Some (is_valid d, loc_of d, pages_of (frag_at (cdevtbl s) (loc_of d))) else None
     }
     else None)"

declare view.simps [simp del]

text \<open>The pages of a fragment that is complete (\<open>v = True\<close>) or being populated (\<open>v = False\<close>).\<close>

definition cell :: "sce \<Rightarrow> bool \<Rightarrow> nat \<times> nat \<Rightarrow> nat set" where
  "cell s v x = (case view s x of None \<Rightarrow> {} | Some (w, l, V) \<Rightarrow> if w = v then V else {})"

definition contents :: "sce \<Rightarrow> (nat \<times> nat) set" where
  "contents s = {(i, p). p mod 256 \<in> cell s True (i, p div 256)}"

definition incoming :: "sce \<Rightarrow> (nat \<times> nat) set" where
  "incoming s = {(i, p). p mod 256 \<in> cell s False (i, p div 256)}"

lemma mem_contents: "(i, p) \<in> contents s \<longleftrightarrow> p mod 256 \<in> cell s True (i, p div 256)"
  by (simp add: contents_def)

lemma mem_incoming: "(i, p) \<in> incoming s \<longleftrightarrow> p mod 256 \<in> cell s False (i, p div 256)"
  by (simp add: incoming_def)

lemma cell_view [simp]:
  "view s x = Some (w, l, V) \<Longrightarrow> cell s v x = (if w = v then V else {})" "view s x = None \<Longrightarrow> cell s v x = {}"
  by (simp_all add: cell_def)

lemma cell_view_cong: "view s' = view s \<Longrightarrow> cell s' = cell s"
  by (simp add: cell_def fun_eq_iff)

lemma cell_cong: "view s' x = view s x \<Longrightarrow> cell s' v x = cell s v x"
  by (simp add: cell_def)

lemma view_cong: "cdevtbl s' = cdevtbl s \<Longrightarrow> luntbl s' = luntbl s \<Longrightarrow> view s' = view s"
proof (rule ext)
  fix x :: "nat \<times> nat" obtain i n where x: "x = (i, n)" by (cases x)
  assume "cdevtbl s' = cdevtbl s" "luntbl s' = luntbl s"
  then show "view s' x = view s x" by (simp add: x view.simps cong: if_cong)
qed

lemma view_fields [simp]:
  "view (s\<lparr>nr_hit := a\<rparr>) = view s" "view (s\<lparr>nr_miss := a\<rparr>) = view s"
  "view (s\<lparr>nr_eviction := a\<rparr>) = view s" "view (s\<lparr>arm := a\<rparr>) = view s"
  "view (s\<lparr>nr_freefrag := a\<rparr>) = view s" "view (s\<lparr>freefraglist := b\<rparr>) = view s"
  "view (s\<lparr>nr_cdev := a\<rparr>) = view s" "view (s\<lparr>nr_lun := a\<rparr>) = view s" "view (s\<lparr>nr_frag := a\<rparr>) = view s"
  "view (s\<lparr>misslog_head := a\<rparr>) = view s" "view (s\<lparr>misslog_size := a\<rparr>) = view s"
  "view (s\<lparr>misslog_fragnum := fn\<rparr>) = view s" "view (s\<lparr>misslog_lunidx := ln\<rparr>) = view s"
  by (rule view_cong; simp)+

lemma view_eq_Some:
  "view s (i, n) = Some (v, l, V) \<longleftrightarrow> i < 256 \<and> (\<exists>d. fdesc_at (luntbl s) i n = Some d \<and> is_mapped d
     \<and> v = is_valid d \<and> l = loc_of d \<and> V = pages_of (frag_at (cdevtbl s) (loc_of d)))"
  by (auto simp: view.simps split: Option.bind_splits if_splits)

text \<open>Every fragment that is mapped was so before, at the same place and in the same state.\<close>

definition places_le :: "sce \<Rightarrow> sce \<Rightarrow> bool" where
  "places_le s' s \<longleftrightarrow> (\<forall>x v l V. view s' x = Some (v, l, V) \<longrightarrow> (\<exists>V'. view s x = Some (v, l, V')))"

lemma places_le_view: "view s' = view s \<Longrightarrow> places_le s' s"
  by (simp add: places_le_def)

lemma places_le_refl [simp]: "places_le s s"
  by (simp add: places_le_def)

lemma places_le_drop: "(\<And>x. view s' x = view s x \<or> view s' x = None) \<Longrightarrow> places_le s' s"
  unfolding places_le_def by (metis option.distinct(1))

lemma places_le_trans: "places_le c b \<Longrightarrow> places_le b a \<Longrightarrow> places_le c a"
  unfolding places_le_def by blast

section \<open>One descriptor, one fragment\<close>

text \<open>Changing the fragment that one descriptor is mapped to.\<close>

lemma view_put_mapped:
  assumes "sce_inv X s" "li < 256" "fdesc_at (luntbl s) li n = Some d" "is_mapped d"
  shows "view (s\<lparr>cdevtbl := put_frag (cdevtbl s) (loc_of d) f\<rparr>) =
    (view s)((li, n) := Some (is_valid d, loc_of d, pages_of f))"
proof (rule ext)
  fix x :: "nat \<times> nat" obtain i k where x: "x = (i, k)" by (cases x)
  have l: "loc_of d \<in> flocs (cdevtbl s)" using mapped_frag [OF assms] by simp
  show "view (s\<lparr>cdevtbl := put_frag (cdevtbl s) (loc_of d) f\<rparr>) x =
    ((view s)((li, n) := Some (is_valid d, loc_of d, pages_of f))) x"
  proof (cases "i < 256 \<and> (\<exists>e. fdesc_at (luntbl s) i k = Some e \<and> is_mapped e)")
    case True
    then obtain e where e: "fdesc_at (luntbl s) i k = Some e" "is_mapped e" and i: "i < 256" by auto
    show ?thesis
    proof (cases "loc_of e = loc_of d")
      case True
      then have "i = li \<and> k = n" using mapped_distinct [OF assms i e] by simp
      then show ?thesis using e l assms by (simp add: x view.simps)
    next
      case False
      then have "\<not> (i = li \<and> k = n)" using e assms by auto
      then show ?thesis using False e l i by (auto simp: x view.simps)
    qed
  next
    case False
    then show ?thesis using assms by (auto simp: x view.simps split: Option.bind_splits)
  qed
qed

lemma view_put_same:
  assumes "sce_inv X s" "li < 256" "fdesc_at (luntbl s) li n = Some d" "is_mapped d"
    "pages_of f = pages_of (frag_at (cdevtbl s) (loc_of d))"
  shows "view (s\<lparr>cdevtbl := put_frag (cdevtbl s) (loc_of d) f\<rparr>) = view s"
proof -
  have "view s (li, n) = Some (is_valid d, loc_of d, pages_of f)" using assms by (simp add: view.simps)
  then show ?thesis using view_put_mapped [OF assms(1-4)] by (simp add: fun_upd_idem)
qed

text \<open>Changing a fragment that no descriptor is mapped to.\<close>

lemma view_put_other:
  assumes "\<And>i n d. i < 256 \<Longrightarrow> fdesc_at (luntbl s) i n = Some d \<Longrightarrow> is_mapped d \<Longrightarrow> loc_of d \<noteq> l"
    and "l \<in> flocs (cdevtbl s)"
  shows "view (s\<lparr>cdevtbl := put_frag (cdevtbl s) l f\<rparr>) = view s"
proof (rule ext)
  fix x :: "nat \<times> nat" obtain i k where x: "x = (i, k)" by (cases x)
  show "view (s\<lparr>cdevtbl := put_frag (cdevtbl s) l f\<rparr>) x = view s x"
    using assms by (auto simp: x view.simps split: Option.bind_splits)
qed

lemma view_keeps_map:
  assumes "keeps_map g (luntbl s li)"
  shows "view (s\<lparr>luntbl := upd_lun (luntbl s) li g\<rparr>) = view s"
proof (rule ext)
  fix x :: "nat \<times> nat" obtain i k where x: "x = (i, k)" by (cases x)
  show "view (s\<lparr>luntbl := upd_lun (luntbl s) li g\<rparr>) x = view s x"
    using keeps_map_fdesc [of g "luntbl s" li, OF assms] by (simp add: x view.simps cong: if_cong)
qed

lemma view_set_fdesc:
  assumes "fdesc_at (luntbl s) li n \<noteq> None" "li < 256"
  shows "view (s\<lparr>luntbl := set_fdesc (luntbl s) li n v\<rparr>) =
    (view s)((li, n) := if is_mapped v
       then Some (is_valid v, loc_of v, pages_of (frag_at (cdevtbl s) (loc_of v))) else None)"
proof (rule ext)
  fix x :: "nat \<times> nat" obtain i k where x: "x = (i, k)" by (cases x)
  show "view (s\<lparr>luntbl := set_fdesc (luntbl s) li n v\<rparr>) x =
    ((view s)((li, n) := if is_mapped v
       then Some (is_valid v, loc_of v, pages_of (frag_at (cdevtbl s) (loc_of v))) else None)) x"
    using assms by (auto simp: x view.simps split: Option.bind_splits)
qed

lemma pages_of_ids [simp]:
  "pages_of (f\<lparr>f_nr_hit := a\<rparr>) = pages_of f" "pages_of (f\<lparr>f_nr_miss := a\<rparr>) = pages_of f"
  "pages_of (f\<lparr>f_nr_service := b\<rparr>) = pages_of f" "pages_of (f\<lparr>f_nr_ref := c\<rparr>) = pages_of f"
  "pages_of (f\<lparr>f_next := a\<rparr>) = pages_of f" "pages_of (f\<lparr>f_fragnum := a\<rparr>) = pages_of f"
  by (simp_all add: pages_of_def page_valid_def)

lemma pages_of_nr_valid: "pages_ok f \<Longrightarrow> pages_of f = {} \<longleftrightarrow> f_nr_valid f = 0"
proof -
  assume "pages_ok f"
  then have "unat (f_nr_valid f) = card (pages_of f)"
    by (simp add: pages_ok_def pages_of_def page_valid_def)
  moreover have "finite (pages_of f)" by (simp add: pages_of_def)
  ultimately show ?thesis by (metis card_0_eq unat_eq_zero)
qed

section \<open>The books of a LUN\<close>

text \<open>
  The references of a LUN that are not references of its fragments, and the fragments whose
  population is under way. Only these matter for what requests that are still out may do.
\<close>

definition slack :: "sce \<Rightarrow> nat \<Rightarrow> nat" where
  "slack s i = unat (l_nr_service (luntbl s i)) - srv_sum {} (cdevtbl s) i"

definition pend :: "sce \<Rightarrow> nat \<Rightarrow> nat set" where
  "pend s i = {n. \<exists>d. fdesc_at (luntbl s) i n = Some d \<and> is_mapped d \<and> \<not> is_valid d}"

lemma pend_view: "i < 256 \<Longrightarrow> pend s i = {n. \<exists>l V. view s (i, n) = Some (False, l, V)}"
  by (auto simp: pend_def view_eq_Some)

definition books :: "sce \<Rightarrow> sce \<Rightarrow> nat \<Rightarrow> bool" where
  "books s s' i \<longleftrightarrow> pend s' i = pend s i \<and> slack s i \<le> slack s' i"

lemma books_refl [simp]: "books s s i"
  by (simp add: books_def)

lemma books_all_refl [simp]: "books s s = (\<lambda>_. True)"
  by (rule ext) simp

lemma pend_books: "books s s' i \<Longrightarrow> pend s' i = pend s i"
  by (simp add: books_def)

lemma books_trans: "books a b i \<Longrightarrow> books b c i \<Longrightarrow> books a c i"
  by (auto simp: books_def)

lemma slack_cong:
  "cdevtbl s' = cdevtbl s \<Longrightarrow> luntbl s' = luntbl s \<Longrightarrow> slack s' = slack s"
  "luntbl s' = luntbl s \<Longrightarrow> pend s' = pend s"
  by (intro ext; simp add: slack_def pend_def)+

lemma books_cong: "cdevtbl s' = cdevtbl s \<Longrightarrow> luntbl s' = luntbl s \<Longrightarrow> books s s' i"
  using slack_cong [of s' s] by (simp add: books_def)

lemma srv_sum_freed:
  assumes "l \<in> flocs ct" "\<not> in_use f"
  shows "srv_sum X (put_frag ct l f) i = srv_sum (insert l X) ct i"
proof -
  have "k \<in> owned X (put_frag ct l f) i \<longleftrightarrow> k \<in> owned (insert l X) ct i" for k
    using assms by (cases "k = l") (simp_all add: owned_def)
  then have "owned X (put_frag ct l f) i = owned (insert l X) ct i" by (rule set_eqI)
  then show ?thesis
    unfolding srv_sum_def using assms(1) by (intro sum.cong) (auto simp: owned_def)
qed

lemma srv_sum_put_outside:
  assumes "l \<in> flocs ct" "l \<in> X"
  shows "srv_sum X (put_frag ct l f) i = srv_sum X ct i"
proof -
  have "k \<in> owned X (put_frag ct l f) i \<longleftrightarrow> k \<in> owned X ct i" for k
    using assms by (cases "k = l") (simp_all add: owned_def)
  then have "owned X (put_frag ct l f) i = owned X ct i" by (rule set_eqI)
  then show ?thesis
    unfolding srv_sum_def using assms by (intro sum.cong) (auto simp: owned_def)
qed

lemma srv_sum_claimed:
  assumes "l \<in> flocs ct" "in_use f"
  shows "srv_sum {} (put_frag ct l f) i
    = srv_sum {l} ct i + (if i = unat (f_lunidx f) then unat (f_nr_service f) else 0)"
proof (cases "i = unat (f_lunidx f)")
  case True
  then have "l \<in> owned {} (put_frag ct l f) i" using assms by (simp add: owned_def)
  then show ?thesis
    using True assms(1) srv_sum_insert [of l "{}"] by (simp add: srv_sum_put_outside)
next
  case False
  then have "l \<notin> owned {} (put_frag ct l f) i" using assms by (simp add: owned_def)
  then show ?thesis
    using False assms(1) srv_sum_not_owned [of l "{}" "put_frag ct l f" i] by (simp add: srv_sum_put_outside)
qed

lemma srv_sum_put_used:
  assumes "l \<in> flocs ct" "in_use (frag_at ct l)"
    and "f_lunidx f = f_lunidx (frag_at ct l)" "f_fragnum f = f_fragnum (frag_at ct l)"
  shows "if i = unat (f_lunidx (frag_at ct l))
    then srv_sum {} (put_frag ct l f) i + unat (f_nr_service (frag_at ct l)) = srv_sum {} ct i + unat (f_nr_service f)
    else srv_sum {} (put_frag ct l f) i = srv_sum {} ct i"
proof -
  let ?ct' = "put_frag ct l f"
  have "in_use f" using assms(2,4) by (simp add: in_use_def)
  then have "k \<in> owned {} ?ct' i \<longleftrightarrow> k \<in> owned {} ct i" for k
    using assms by (cases "k = l") (simp_all add: owned_def)
  then have own: "owned {} ?ct' i = owned {} ct i" by (rule set_eqI)
  show ?thesis
  proof (cases "i = unat (f_lunidx (frag_at ct l))")
    case False
    then have "l \<notin> owned {} ct i" by (simp add: owned_def)
    then have "srv_sum {} ?ct' i = srv_sum {} ct i"
      unfolding srv_sum_def own using assms(1) by (intro sum.cong refl) (metis frag_at_put_frag)
    then show ?thesis using False by simp
  next
    case True
    then have m: "l \<in> owned {} ct i" "l \<in> owned {} ?ct' i" using assms own by (auto simp: owned_def)
    have "owned {l} ?ct' i = owned {} ?ct' i - {l}" "owned {l} ct i = owned {} ct i - {l}"
      by (auto simp: owned_def)
    then have "srv_sum {l} ?ct' i = srv_sum {l} ct i"
      unfolding srv_sum_def own using assms(1) by (intro sum.cong) auto
    then show ?thesis
      using srv_sum_insert [OF m(1)] srv_sum_insert [OF m(2)] True assms(1) by simp
  qed
qed

section \<open>Unmapping\<close>

text \<open>What unmapping may change: the fragment tables, one fragment map and the free list.\<close>

definition hdr :: "lun \<Rightarrow> lun" where
  "hdr lu = lu\<lparr>l_fragmap := None\<rparr>"

definition rest :: "sce \<Rightarrow> sce" where
  "rest s = s\<lparr>cdevtbl := \<lambda>_. cdev_zero, luntbl := \<lambda>_. lun_zero, freefraglist := 0, nr_freefrag := 0\<rparr>"

definition unmaps :: "nat \<Rightarrow> sce \<Rightarrow> sce \<Rightarrow> bool" where
  "unmaps li s s' \<longleftrightarrow>
     rest s' = rest s \<and> same_devs (cdevtbl s) (cdevtbl s') \<and> (\<forall>j. j \<noteq> li \<longrightarrow> luntbl s' j = luntbl s j)
     \<and> hdr (luntbl s' li) = hdr (luntbl s li)
     \<and> map_option length (l_fragmap (luntbl s' li)) = map_option length (l_fragmap (luntbl s li))"

lemma hdr_fields:
  assumes "hdr a = hdr b"
  shows "l_nr_frag a = l_nr_frag b" "l_nr_service a = l_nr_service b" "l_scehndl a = l_scehndl b"
    "l_waiting4deletion a = l_waiting4deletion b" "l_nr_sctr a = l_nr_sctr b" "l_lunctx a = l_lunctx b"
    "l_stats a = l_stats b"
  using assms by (cases a; cases b; simp add: hdr_def)+

lemma hdr_fragmap [simp]: "hdr (lu\<lparr>l_fragmap := m\<rparr>) = hdr lu"
  by (simp add: hdr_def)

lemma unmaps_refl [simp]: "unmaps li s s"
  by (simp add: unmaps_def)

lemma unmaps_trans: "unmaps li a b \<Longrightarrow> unmaps li b c \<Longrightarrow> unmaps li a c"
  by (auto simp: unmaps_def intro: same_devs_trans)

lemma unmaps_scalars:
  assumes "unmaps li s s'"
  shows "nr_cdev s' = nr_cdev s" "nr_lun s' = nr_lun s" "nr_frag s' = nr_frag s" "nr_hit s' = nr_hit s"
    "nr_miss s' = nr_miss s" "nr_eviction s' = nr_eviction s" "arm s' = arm s"
    "misslog_fragnum s' = misslog_fragnum s" "misslog_lunidx s' = misslog_lunidx s"
    "misslog_head s' = misslog_head s" "misslog_size s' = misslog_size s"
  using assms unfolding unmaps_def by (cases s; cases s'; simp add: rest_def)+

lemma unmap_frag_view:
  assumes inv: "sce_inv {} s" and li: "li < 256"
    and d: "fdesc_at (luntbl s) li (unat n) = Some d" "is_mapped d"
    and idle: "f_nr_service (frag_at (cdevtbl s) (loc_of d)) = 0"
  obtains s' where "unmap_frag s li n = Some (SCE_SUCCESS, s')" "sce_inv {} s'" "unmaps li s s'"
    "view s' = (view s)((li, unat n) := None)" "nr_freefrag s' = nr_freefrag s + 1"
    "freefraglist s' \<noteq> 0" "\<And>i. books s s' i"
    "\<And>k. fdesc_at (luntbl s') li k = (if k = unat n
       then Some (f_nr_miss (frag_at (cdevtbl s) (loc_of d)) AND FRAGDESC_DATAMASK) else fdesc_at (luntbl s) li k)"
    "\<And>l. l \<noteq> loc_of d \<Longrightarrow> frag_at (cdevtbl s') l = frag_at (cdevtbl s) l"
    "\<not> in_use (frag_at (cdevtbl s') (loc_of d))"
proof -
  let ?f = "frag_at (cdevtbl s) (loc_of d)" and ?v = "f_nr_miss (frag_at (cdevtbl s) (loc_of d)) AND FRAGDESC_DATAMASK"
  let ?f' = "?f\<lparr>f_fragnum := FRAGNUM_WITHINFREELIST, f_next := freefraglist s\<rparr>"
  let ?s1 = "s\<lparr>cdevtbl := put_frag (cdevtbl s) (loc_of d) ?f'\<rparr>"
  have l: "loc_of d \<notin> {}" by simp
  obtain s' where s': "unmap_frag s li n = Some (SCE_SUCCESS, s')" "sce_inv {} s'"
    "s' = s\<lparr>cdevtbl := put_frag (cdevtbl s) (loc_of d) ?f', freefraglist := d OR FRAGDESC_MAPPED,
       nr_freefrag := nr_freefrag s + 1, luntbl := set_fdesc (luntbl s) li (unat n) ?v\<rparr>"
    by (rule unmap_frag_mapped [OF inv li d l idle])
  have v1: "view ?s1 = view s" by (rule view_put_same [OF inv li d]) simp
  have "view (?s1\<lparr>luntbl := set_fdesc (luntbl ?s1) li (unat n) ?v\<rparr>) = (view ?s1)((li, unat n) := None)"
    using d li by (subst view_set_fdesc) simp_all
  moreover have "view s' = view (?s1\<lparr>luntbl := set_fdesc (luntbl ?s1) li (unat n) ?v\<rparr>)"
    by (rule view_cong) (simp_all add: s'(3))
  ultimately have view: "view s' = (view s)((li, unat n) := None)" using v1 by simp
  have um: "unmaps li s s'"
    by (simp add: unmaps_def s'(3) rest_def) (simp add: hdr_def set_fdesc_def option.map_comp o_def)
  have ne: "d OR FRAGDESC_MAPPED \<noteq> 0"
  proof
    assume "d OR FRAGDESC_MAPPED = 0"
    then have "bit (d OR FRAGDESC_MAPPED) 31 = bit (0 :: u32) 31" by simp
    then show False by (simp add: bit_or_iff)
  qed
  note mf = mapped_frag [OF inv li d]
  have "frag_ok (luntbl s) ?f" by (rule used_frag [OF inv mf(1) _ mf(3)]) simp_all
  then have val: "is_valid d" using mf(6) idle by (auto simp: frag_ok_def)
  have pend: "pend s' i = pend s i" for i
    using d val by (auto simp: pend_def s'(3))
  have sum: "srv_sum {} (cdevtbl s') i = srv_sum {} (cdevtbl s) i" for i
  proof -
    have "srv_sum {} (cdevtbl s') i = srv_sum {loc_of d} (cdevtbl s) i"
      using srv_sum_freed [OF mf(1), of ?f' "{}" i] by (simp add: s'(3) in_use_def)
    also have "\<dots> = srv_sum {} (cdevtbl s) i"
      using srv_sum_insert [of "loc_of d" "{}" "cdevtbl s" i] srv_sum_not_owned [of "loc_of d" "{}" "cdevtbl s" i] idle
      by (cases "loc_of d \<in> owned {} (cdevtbl s) i") simp_all
    finally show ?thesis .
  qed
  have bk: "books s s' i" for i
    using pend sum [of i] by (simp add: books_def slack_def) (simp add: s'(3))
  show thesis
    by (rule that [OF s'(1,2) um view _ _ bk]) (use d ne mf(1) in \<open>simp_all add: s'(3) in_use_def\<close>)
qed

end
