(* ===== verification/Sce_Cachedev.thy ===== *)
theory Sce_Cachedev
  imports Sce_Contents
begin

text \<open>
  \<^verbatim>\<open>src/sce_cachedev.c\<close>: the slots of the device table. A new table of fragments is filled with
  the byte 85, which makes every fragment look in use, so that putting it on the free list is
  accepted once. That \<^verbatim>\<open>vmalloc\<close> returns memory is an argument; it returns NULL for size 0.
\<close>

definition cdev_search :: "sce \<Rightarrow> ptr \<Rightarrow> nat option" where
  "cdev_search s ctx = List.find (\<lambda>i. c_cdevctx (cdevtbl s i) = ctx) [0..<SCE_MAXCDEV]"

definition cdev_destroy :: "cdev \<Rightarrow> rc \<times> cdev" where
  "cdev_destroy cd = (SCE_SUCCESS, cdev_zero)"

definition cdev_init :: "bool \<Rightarrow> cdev \<Rightarrow> sector_t \<Rightarrow> rc \<times> cdev" where
  "cdev_init vmalloc_ok cd nr_sctr =
     (if nr_sctr < SCE_SCTRPERFRAG then (SCE_ERROR, cd)
      else let nr = ucast (nr_sctr div SCE_SCTRPERFRAG) :: u32;
               cd1 = cdev_zero\<lparr>c_scehndl := True, c_nr_frag := nr\<rparr>
           in if vmalloc_ok \<and> nr \<noteq> 0
              then (SCE_SUCCESS, cd1\<lparr>c_fragtbl := Some (replicate (unat nr) frag_fill85)\<rparr>)
              else (SCE_ERROR, snd (cdev_destroy cd1)))"

lemma cdev_search_Some: "cdev_search s ctx = Some i \<Longrightarrow> i < 16 \<and> c_cdevctx (cdevtbl s i) = ctx"
  by (auto simp: cdev_search_def find_Some_iff)

lemma cdev_search_None: "cdev_search s ctx = None \<Longrightarrow> i < 16 \<Longrightarrow> c_cdevctx (cdevtbl s i) \<noteq> ctx"
  by (auto simp: cdev_search_def find_None_iff)

text \<open>The fragments of a device, at most \<open>2 ^ 24\<close> as an id can address.\<close>

lemma cdev_init_ok:
  assumes "2048 \<le> ns" "unat ns < 2048 * (2 ^ 24 + 1)"
  shows "cdev_init True cd ns = (SCE_SUCCESS, \<lparr>c_scehndl = True, c_cdevctx = 0, c_nr_frag = of_nat (unat ns div 2048),
      c_fragtbl = Some (replicate (unat ns div 2048) frag_fill85)\<rparr>)"
    and "0 < unat ns div 2048" "unat ns div 2048 \<le> 2 ^ 24"
proof -
  have le: "2048 \<le> unat ns" using assms(1) by (simp add: word_le_nat_alt)
  show "0 < unat ns div 2048" using le by (simp add: div_greater_zero_iff)
  show le24: "unat ns div 2048 \<le> 2 ^ 24" using assms(2) by simp
  have u: "unat (ucast (ns div 2048) :: u32) = unat ns div 2048"
    using le24 by (simp add: unat_ucast_mod unat_div_distrib)
  then have "ucast (ns div 2048) = (of_nat (unat ns div 2048) :: u32)"
    by (simp flip: u)
  moreover have "(ucast (ns div 2048) :: u32) \<noteq> 0"
    using u \<open>0 < unat ns div 2048\<close> by (auto simp flip: unat_gt_0)
  moreover have "\<not> ns < 2048" using assms(1) by simp
  ultimately show "cdev_init True cd ns = (SCE_SUCCESS, \<lparr>c_scehndl = True, c_cdevctx = 0,
      c_nr_frag = of_nat (unat ns div 2048), c_fragtbl = Some (replicate (unat ns div 2048) frag_fill85)\<rparr>)"
    using u by (simp add: cdev_init_def Let_def cdev_zero_def)
qed

lemma cdev_init_small: "ns < 2048 \<Longrightarrow> cdev_init ok cd ns = (SCE_ERROR, cd)"
  by (simp add: cdev_init_def)

lemma cdev_init_fail: "\<not> ns < 2048 \<Longrightarrow> cdev_init False cd ns = (SCE_ERROR, cdev_zero)"
  by (simp add: cdev_init_def Let_def cdev_destroy_def)

end
