(* ===== verification/Sce_Lun.thy ===== *)
theory Sce_Lun
  imports Sce_Contents
begin

text \<open>
  \<^verbatim>\<open>src/sce_lun.c\<close>: LUN slots. Setting up and clearing a slot, searching, garbage collection of
  fragments and of LUNs that wait for their deletion, and removing the fragments of one device
  from a LUN. That \<^verbatim>\<open>vmalloc\<close> returns memory is an argument; it returns NULL for size 0.
\<close>

section \<open>The code\<close>

definition lun_destroy :: "lun \<Rightarrow> lun" where
  "lun_destroy lun = lun\<lparr>l_fragmap := None, l_scehndl := False, l_lunctx := 0, l_nr_sctr := 0,
     l_nr_frag := 0, l_nr_service := 0, l_waiting4deletion := False\<rparr>"

definition lun_search :: "sce \<Rightarrow> ptr \<Rightarrow> nat option" where
  "lun_search s ctx = List.find (\<lambda>i. l_lunctx (luntbl s i) = ctx) [0..<SCE_MAXLUN]"

definition nr_frag_of :: "sector_t \<Rightarrow> u32" where
  "nr_frag_of nr_sctr = ucast ((nr_sctr + SCE_SCTRPERFRAG - 1) div SCE_SCTRPERFRAG)"

definition lun_init :: "bool \<Rightarrow> lun \<Rightarrow> sector_t \<Rightarrow> rc \<times> lun" where
  "lun_init vmalloc_ok lun nr_sctr =
     (let lun1 = lun\<lparr>l_scehndl := True, l_nr_sctr := nr_sctr, l_nr_frag := nr_frag_of nr_sctr\<rparr>
      in if vmalloc_ok \<and> nr_frag_of nr_sctr \<noteq> 0
         then (SCE_SUCCESS, lun1\<lparr>l_fragmap := Some (replicate (unat (nr_frag_of nr_sctr)) fragdesc_fill85),
                                 l_stats := stats_zero\<rparr>)
         else (ENOMEM, lun1\<lparr>l_fragmap := None\<rparr>))"

definition lun_is_serviceable :: "lun \<Rightarrow> rc" where
  "lun_is_serviceable lun = (if l_waiting4deletion lun then SCE_ERROR else SCE_SUCCESS)"

definition lun_purge :: "sce \<Rightarrow> nat \<Rightarrow> (rc \<times> sce) option" where
  "lun_purge s li =
     (if l_nr_service (luntbl s li) = 0 \<and> l_scehndl (luntbl s li) \<and> nr_lun s \<noteq> 0
      then do {
        s1 \<leftarrow> for_each (map of_nat [0..<unat (l_nr_frag (luntbl s li))])
                (\<lambda>fragn s. map_option snd (unmap_frag s li fragn)) s;
        Some (SCE_SUCCESS, s1\<lparr>luntbl := upd_lun (luntbl s1) li lun_destroy, nr_lun := nr_lun s1 - 1\<rparr>)
      }
      else Some (SCE_ERROR, s))"

definition lun_gc :: "sce \<Rightarrow> nat \<Rightarrow> floc \<Rightarrow> (rc \<times> sce) option" where
  "lun_gc s li fl = do {
     fr \<leftarrow> get_frag (cdevtbl s) fl;
     s1 \<leftarrow> (if f_nr_service fr = 0 \<and> f_nr_valid fr = 0
            then map_option snd (unmap_frag s li (f_fragnum fr)) else Some s);
     s2 \<leftarrow> (if l_waiting4deletion (luntbl s1 li) \<and> l_nr_service (luntbl s1 li) = 0
            then map_option snd (lun_purge s1 li) else Some s1);
     Some (SCE_SUCCESS, s2)
   }"

definition lun_isvalididx :: "ltbl \<Rightarrow> u16 \<Rightarrow> rc" where
  "lun_isvalididx lt lunidx =
     (if unat lunidx < SCE_MAXLUN
      then if l_fragmap (lt (unat lunidx)) \<noteq> None \<and> \<not> l_waiting4deletion (lt (unat lunidx))
           then SCE_SUCCESS else SCE_ERROR
      else SCE_ERROR)"

definition lun_rmcdev_frag :: "nat \<Rightarrow> u32 \<Rightarrow> u32 \<Rightarrow> sce \<Rightarrow> sce option" where
  "lun_rmcdev_frag li devnum fragn s = do {
     m \<leftarrow> l_fragmap (luntbl s li);
     fdesc \<leftarrow> rd m (unat fragn);
     if fdesc AND FRAGDESC_MAPPED = 0 then Some s
     else if devnum \<noteq> SCE_PFIDDEV fdesc then Some s
     else case pfid2frag (cdevtbl s) fdesc of
            None \<Rightarrow> Some s
          | Some fl \<Rightarrow> do {
              fr \<leftarrow> get_frag (cdevtbl s) fl;
              let lt1 = set_fdesc (luntbl s) li (unat fragn) (f_nr_miss fr AND FRAGDESC_DATAMASK);
              Some (s\<lparr>luntbl := upd_lun lt1 li (\<lambda>lun. lun\<lparr>l_stats := (l_stats lun)
                \<lparr>alloc_sctrs := alloc_sctrs (l_stats lun) - 1,
                 valid_sctrs := valid_sctrs (l_stats lun) - ucast (f_nr_valid fr) * SCE_SCTRPERPAGE\<rparr>\<rparr>)\<rparr>)
            }
   }"

definition lun_rmcdev :: "sce \<Rightarrow> nat \<Rightarrow> u32 \<Rightarrow> (rc \<times> sce) option" where
  "lun_rmcdev s li devnum =
     (if l_fragmap (luntbl s li) \<noteq> None \<and> unat devnum < SCE_MAXCDEV
      then do {
        s1 \<leftarrow> for_each (map of_nat [0..<unat (l_nr_frag (luntbl s li))]) (lun_rmcdev_frag li devnum) s;
        Some (SCE_SUCCESS, s1)
      }
      else Some (SCE_ERROR, s))"

section \<open>Slots\<close>

lemma lun_destroy_fields [simp]:
  "l_fragmap (lun_destroy l) = None" "l_nr_service (lun_destroy l) = 0" "\<not> l_waiting4deletion (lun_destroy l)"
  "\<not> l_scehndl (lun_destroy l)" "l_lunctx (lun_destroy l) = 0"
  by (simp_all add: lun_destroy_def)

lemma lun_ok_destroy [simp]: "lun_ok (lun_destroy l)"
  by (simp add: lun_ok_def)

lemma lun_search_Some: "lun_search s ctx = Some i \<Longrightarrow> i < 256 \<and> l_lunctx (luntbl s i) = ctx"
  by (auto simp: lun_search_def find_Some_iff)

lemma lun_search_None: "lun_search s ctx = None \<Longrightarrow> i < 256 \<Longrightarrow> l_lunctx (luntbl s i) \<noteq> ctx"
  by (auto simp: lun_search_def find_None_iff)

lemma lun_search_unique:
  assumes "i < 256" "l_lunctx (luntbl s i) = ctx" "\<And>j. j < i \<Longrightarrow> l_lunctx (luntbl s j) \<noteq> ctx"
  shows "lun_search s ctx = Some i"
  using assms by (auto simp: lun_search_def find_Some_iff)

lemma nr_frag_of_unat:
  assumes "unat ns \<le> 2048 * (2 ^ 32 - 1)"
  shows "unat (nr_frag_of ns) = (unat ns + 2047) div 2048"
proof -
  have "ns + 2048 - 1 = ns + 2047" by simp
  then have "unat (ns + 2048 - 1) = unat ns + 2047"
    using assms by (simp add: unat_word_ariths)
  then show ?thesis using assms by (simp add: nr_frag_of_def unat_ucast_mod unat_div_distrib)
qed

lemma lun_init_ok:
  assumes "0 < ns" "unat ns \<le> 2048 * (2 ^ 32 - 2)"
  shows "\<exists>lu. lun_init True lun ns = (SCE_SUCCESS, lu) \<and> lun_ok lu
    \<and> l_fragmap lu = Some (replicate (unat (nr_frag_of ns)) fragdesc_fill85)
    \<and> l_nr_service lu = l_nr_service lun \<and> l_waiting4deletion lu = l_waiting4deletion lun
    \<and> l_nr_sctr lu = ns \<and> l_lunctx lu = l_lunctx lun \<and> l_stats lu = stats_zero"
proof -
  have n: "unat (nr_frag_of ns) = (unat ns + 2047) div 2048"
    using nr_frag_of_unat assms(2) by simp
  moreover have "0 < unat ns" using assms(1) by (simp add: word_pos_unat)
  ultimately have pos: "nr_frag_of ns \<noteq> 0" by (auto simp flip: unat_gt_0)
  have "unat ns \<le> 2048 * ((unat ns + 2047) div 2048)" "2048 * ((unat ns + 2047) div 2048) < unat ns + 2048"
    using mult_div_mod_eq [of 2048 "unat ns + 2047"] mod_less_divisor [of 2048 "unat ns + 2047"] by linarith+
  then show ?thesis
    using pos n assms(2) by (simp add: lun_init_def Let_def lun_ok_def)
qed

lemma lun_init_fail [simp]:
  "lun_init False lun ns = (ENOMEM, lun\<lparr>l_scehndl := True, l_nr_sctr := ns, l_nr_frag := nr_frag_of ns,
     l_fragmap := None\<rparr>)"
  by (simp add: lun_init_def Let_def)

lemma lun_isvalididx_iff:
  "lun_isvalididx lt i = SCE_SUCCESS \<longleftrightarrow>
     unat i < 256 \<and> l_fragmap (lt (unat i)) \<noteq> None \<and> \<not> l_waiting4deletion (lt (unat i))"
  by (simp add: lun_isvalididx_def)

section \<open>Purging a LUN\<close>

lemma srv_zero:
  assumes inv: "sce_inv X s" and li: "li < 256" and srv: "l_nr_service (luntbl s li) = 0"
    and d: "fdesc_at (luntbl s) li n = Some d" "is_mapped d" "loc_of d \<notin> X"
  shows "f_nr_service (frag_at (cdevtbl s) (loc_of d)) = 0"
proof -
  have "srv_sum X (cdevtbl s) li \<le> unat (l_nr_service (luntbl s li))"
    using sce_inv_srv [OF inv] li by (simp add: srv_inv_def)
  then have "srv_sum X (cdevtbl s) li = 0" using srv by simp
  moreover have "loc_of d \<in> owned X (cdevtbl s) li"
    using mapped_frag [OF inv li d(1,2)] d(3) by (simp add: owned_def)
  ultimately show ?thesis
    using srv_sum_member [of "loc_of d" X "cdevtbl s" li] by (simp add: unat_eq_zero)
qed

text \<open>The state while the fragments of \<open>ns\<close> are still to be released.\<close>

definition purging :: "sce \<Rightarrow> nat \<Rightarrow> u32 list \<Rightarrow> sce \<Rightarrow> bool" where
  "purging s0 li ns s \<longleftrightarrow> sce_inv {} s \<and> unmaps li s0 s
     \<and> (\<forall>n d. fdesc_at (luntbl s) li n = Some d \<longrightarrow> of_nat n \<notin> set ns \<longrightarrow> \<not> is_mapped d)
     \<and> (\<forall>x. fst x \<noteq> li \<longrightarrow> view s x = view s0 x) \<and> (\<forall>i. books s0 s i)"

lemma purge_step:
  assumes p: "purging s0 li (n # ns) s" and li: "li < 256" and srv: "l_nr_service (luntbl s0 li) = 0"
  shows "returns (map_option snd (unmap_frag s li n)) (purging s0 li ns)"
proof -
  have inv: "sce_inv {} s" and um: "unmaps li s0 s"
    and un: "\<And>k d. fdesc_at (luntbl s) li k = Some d \<Longrightarrow> of_nat k \<notin> set (n # ns) \<Longrightarrow> \<not> is_mapped d"
    and vw: "\<And>x. fst x \<noteq> li \<Longrightarrow> view s x = view s0 x" and bk: "\<And>i. books s0 s i"
    using p by (simp_all add: purging_def)
  have ok: "lun_ok (luntbl s li)" using sce_inv_lun [OF inv] li by (simp add: lun_inv_def)
  have s0: "l_nr_service (luntbl s li) = 0" using um srv hdr_fields(2) [of "luntbl s li" "luntbl s0 li"] by (simp add: unmaps_def)
  show ?thesis
  proof (cases "\<exists>d. fdesc_at (luntbl s) li (unat n) = Some d \<and> is_mapped d")
    case True
    then obtain d where d: "fdesc_at (luntbl s) li (unat n) = Some d" "is_mapped d" by auto
    have idle: "f_nr_service (frag_at (cdevtbl s) (loc_of d)) = 0"
      by (rule srv_zero [OF inv li s0 d]) simp
    obtain s' where s': "unmap_frag s li n = Some (SCE_SUCCESS, s')" "sce_inv {} s'" "unmaps li s s'"
      "view s' = (view s)((li, unat n) := None)" "\<And>i. books s s' i"
      "\<And>k. fdesc_at (luntbl s') li k = (if k = unat n
         then Some (f_nr_miss (frag_at (cdevtbl s) (loc_of d)) AND FRAGDESC_DATAMASK) else fdesc_at (luntbl s) li k)"
      by (rule unmap_frag_view [OF inv li d idle]) blast
    have "\<not> is_mapped e" if "fdesc_at (luntbl s') li k = Some e" "of_nat k \<notin> set ns" for k e
    proof (cases "k = unat n")
      case True
      then show ?thesis using that s'(6) by auto
    next
      case False
      then have e: "fdesc_at (luntbl s) li k = Some e" using that s'(6) by simp
      then have "unat (of_nat k :: u32) = k"
        using fdesc_at_bound(4) [OF sce_inv_lun [OF inv] li] by simp
      then have "of_nat k \<noteq> n" using False by auto
      then show ?thesis using un [OF e] that(2) by simp
    qed
    then have "purging s0 li ns s'"
      using s' unmaps_trans [OF um s'(3)] vw books_trans [OF bk s'(5)] by (auto simp: purging_def)
    then show ?thesis using s'(1) by simp
  next
    case False
    then have e: "unmap_frag s li n = Some (SCE_ERROR, s)"
      by (intro unmap_frag_unmapped [OF ok]) auto
    have "\<not> is_mapped d" if "fdesc_at (luntbl s) li k = Some d" "of_nat k \<notin> set ns" for k d
    proof (cases "of_nat k = n")
      case True
      then have "unat n = k" using fdesc_at_bound(4) [OF sce_inv_lun [OF inv] li that(1)] by auto
      then show ?thesis using False that by auto
    next
      case False
      then show ?thesis using un [OF that(1)] that(2) by simp
    qed
    then show ?thesis using e inv um vw bk by (simp add: purging_def)
  qed
qed

lemma lun_purge_correct:
  assumes inv: "sce_inv {} s" and li: "li < 256" and m: "l_fragmap (luntbl s li) \<noteq> None"
    and srv: "l_nr_service (luntbl s li) = 0"
  obtains s' where "lun_purge s li = Some (SCE_SUCCESS, s')" "sce_inv {} s'"
    "luntbl s' li = lun_destroy (luntbl s li)" "\<And>j. j \<noteq> li \<Longrightarrow> luntbl s' j = luntbl s j"
    "same_devs (cdevtbl s) (cdevtbl s')" "rest s' = (rest s)\<lparr>nr_lun := nr_lun s - 1\<rparr>"
    "\<And>x. view s' x = (if fst x = li then None else view s x)"
    "\<And>i. i \<noteq> li \<Longrightarrow> books s s' i" "pend s' li = {}"
proof -
  have ok: "lun_ok (luntbl s li)" using sce_inv_lun [OF inv] li by (simp add: lun_inv_def)
  then have h: "l_scehndl (luntbl s li)" "nr_lun s \<noteq> 0"
    using m nr_lun_pos [OF inv li m] by (auto simp: lun_ok_def)
  let ?ns = "map of_nat [0..<unat (l_nr_frag (luntbl s li))] :: u32 list"
  have all: "of_nat n \<in> set ?ns" if "fdesc_at (luntbl s) li n = Some d" for n d
    using fdesc_at_bound(1) [OF sce_inv_lun [OF inv] li that] by auto
  then have "purging s li ?ns s"
    unfolding purging_def using inv by (metis unmaps_refl books_refl)
  then have "returns (for_each ?ns (\<lambda>fragn s. map_option snd (unmap_frag s li fragn)) s) (purging s li [])"
    by (rule for_each_returns) (rule purge_step [OF _ li srv])
  then obtain s1 where s1: "for_each ?ns (\<lambda>fragn s. map_option snd (unmap_frag s li fragn)) s = Some s1"
      and p: "purging s li [] s1"
    by (auto simp: returns_iff)
  have inv1: "sce_inv {} s1" and um: "unmaps li s s1" and un: "\<And>n d. fdesc_at (luntbl s1) li n = Some d \<Longrightarrow> \<not> is_mapped d"
    and vw: "\<And>x. fst x \<noteq> li \<Longrightarrow> view s1 x = view s x" and bk: "\<And>i. books s s1 i"
    using p by (simp_all add: purging_def)
  note sc = unmaps_scalars [OF um]
  let ?s' = "s1\<lparr>luntbl := upd_lun (luntbl s1) li lun_destroy, nr_lun := nr_lun s1 - 1\<rparr>"
  have m1: "l_fragmap (luntbl s1 li) \<noteq> None" using um m by (metis option.map_disc_iff unmaps_def)
  have run: "lun_purge s li = Some (SCE_SUCCESS, ?s')"
    using srv h s1 by (simp add: lun_purge_def)
  have lt: "upd_lun (luntbl s1) li lun_destroy = (luntbl s1)(li := lun_destroy (luntbl s1 li))"
    by (simp add: upd_lun_def)
  have inv': "sce_inv {} ?s'"
    by (rule inv_replace_lun [OF inv1 li un])
      (use nr_lun_remove [OF inv1 li m1, of "lun_destroy (luntbl s1 li)"]
        in \<open>simp_all add: fdesc_at_None lt del: fun_upd_apply, auto simp: fdesc_at_None\<close>)
  have d: "lun_destroy (luntbl s1 li) = lun_destroy (luntbl s li)"
    using um by (cases "luntbl s1 li"; cases "luntbl s li") (simp add: unmaps_def lun_destroy_def hdr_def)
  have view: "view ?s' x = (if fst x = li then None else view s x)" for x
  proof (cases x)
    case (Pair i n)
    have "view ?s' (i, n) = (if i = li then None else view s1 (i, n))"
      by (auto simp: view.simps fdesc_at_def cong: if_cong)
    then show ?thesis using vw [of x] Pair by simp
  qed
  have "rest ?s' = (rest s)\<lparr>nr_lun := nr_lun s - 1\<rparr>"
    using um sc(2) by (cases s; cases s1) (simp add: unmaps_def rest_def)
  moreover have "books s ?s' i" if "i \<noteq> li" for i
    using bk [of i] that
    by (simp add: books_def slack_def pend_def fdesc_at_def)
  moreover have "pend ?s' li = {}" by (simp add: pend_def fdesc_at_None)
  ultimately show thesis
    by (intro that [OF run inv' _ _ _ _ view]) (use um d in \<open>simp_all add: unmaps_def\<close>)
qed

section \<open>Garbage collection\<close>

text \<open>
  After the collection the invariant holds. A fragment without valid pages that nobody uses is
  gone, which changes nothing that can be read; a LUN that waited for its deletion and has no
  request left is gone.
\<close>

definition purges :: "lun \<Rightarrow> bool" where
  "purges lu \<longleftrightarrow> l_waiting4deletion lu \<and> l_nr_service lu = 0"

definition collected :: "nat \<Rightarrow> sce \<Rightarrow> sce \<Rightarrow> bool" where
  "collected li s s' \<longleftrightarrow> sce_inv {} s' \<and> (\<forall>j. j \<noteq> li \<longrightarrow> luntbl s' j = luntbl s j)
     \<and> \<not> purges (luntbl s' li) \<and> same_devs (cdevtbl s) (cdevtbl s') \<and> places_le s' s
     \<and> (if purges (luntbl s li)
        then luntbl s' li = lun_destroy (luntbl s li) \<and> rest s' = (rest s)\<lparr>nr_lun := nr_lun s - 1\<rparr>
             \<and> (\<forall>v x. cell s' v x = (if fst x = li then {} else cell s v x))
             \<and> (\<forall>i. i \<noteq> li \<longrightarrow> books s s' i) \<and> pend s' li = {}
        else cell s' = cell s \<and> unmaps li s s' \<and> (\<forall>i. books s s' i))"

lemma purges_destroy [simp]: "\<not> purges (lun_destroy lu)"
  by (simp add: purges_def)

lemma purges_hdr: "hdr a = hdr b \<Longrightarrow> purges a = purges b"
  using hdr_fields [of a b] by (simp add: purges_def)

text \<open>The second half of the collection, behind a first half that at most unmaps.\<close>

lemma gc_purge:
  assumes inv1: "sce_inv {} s1" and um: "unmaps li s s1" and vw: "cell s1 = cell s"
    and bk: "\<forall>i. books s s1 i" and li: "li < 256" and pl: "places_le s1 s"
    and m: "l_fragmap (luntbl s li) \<noteq> None"
  shows "returns (if l_waiting4deletion (luntbl s1 li) \<and> l_nr_service (luntbl s1 li) = 0
            then map_option snd (lun_purge s1 li) else Some s1) (collected li s)"
proof -
  have hd: "hdr (luntbl s1 li) = hdr (luntbl s li)" using um by (simp add: unmaps_def)
  have sd: "same_devs (cdevtbl s) (cdevtbl s1)" using um by (simp add: unmaps_def)
  have other: "j \<noteq> li \<Longrightarrow> luntbl s1 j = luntbl s j" for j using um by (simp add: unmaps_def)
  show ?thesis
  proof (cases "purges (luntbl s li)")
    case False
    then have no: "\<not> purges (luntbl s1 li)" using purges_hdr [OF hd] by simp
    have "collected li s s1" unfolding collected_def using False no inv1 um vw sd other bk pl by simp
    then show ?thesis using no by (auto simp: purges_def)
  next
    case True
    then have yes: "purges (luntbl s1 li)" using purges_hdr [OF hd] by simp
    have m1: "l_fragmap (luntbl s1 li) \<noteq> None"
      using um m by (metis option.map_disc_iff unmaps_def)
    obtain s2 where s2: "lun_purge s1 li = Some (SCE_SUCCESS, s2)" "sce_inv {} s2"
      "luntbl s2 li = lun_destroy (luntbl s1 li)" "\<And>j. j \<noteq> li \<Longrightarrow> luntbl s2 j = luntbl s1 j"
      "same_devs (cdevtbl s1) (cdevtbl s2)" "rest s2 = (rest s1)\<lparr>nr_lun := nr_lun s1 - 1\<rparr>"
      "\<And>x. view s2 x = (if fst x = li then None else view s1 x)"
      "\<And>i. i \<noteq> li \<Longrightarrow> books s1 s2 i" "pend s2 li = {}"
      by (rule lun_purge_correct [OF inv1 li m1]) (use yes in \<open>simp add: purges_def, blast\<close>)
    have "lun_destroy (luntbl s1 li) = lun_destroy (luntbl s li)"
      using hd by (cases "luntbl s1 li"; cases "luntbl s li") (simp add: lun_destroy_def hdr_def)
    moreover have "same_devs (cdevtbl s) (cdevtbl s2)" by (rule same_devs_trans [OF sd s2(5)])
    moreover have "rest s2 = (rest s)\<lparr>nr_lun := nr_lun s - 1\<rparr>"
      using s2(6) um unmaps_scalars(2) [OF um] by (simp add: unmaps_def)
    moreover have "cell s2 v x = (if fst x = li then {} else cell s v x)" for v x
      using s2(7) [of x] fun_cong [OF fun_cong [OF vw], of v x] by (simp add: cell_def split: if_splits)
    moreover have "i \<noteq> li \<Longrightarrow> books s s2 i" for i using books_trans bk s2(8) by blast
    moreover have "places_le s2 s"
      using s2(7) by (intro places_le_trans [OF places_le_drop pl]) simp
    ultimately have "collected li s s2"
      unfolding collected_def using s2(2-4,9) True other by simp
    then show ?thesis using yes s2(1) by (simp add: purges_def)
  qed
qed

lemma lun_gc_correct:
  assumes inv: "sce_inv {} s" and li: "li < 256"
    and d: "fdesc_at (luntbl s) li n = Some d" "is_mapped d"
  shows "returns (lun_gc s li (loc_of d)) (\<lambda>(r, s'). r = SCE_SUCCESS \<and> collected li s s')"
proof -
  let ?f = "frag_at (cdevtbl s) (loc_of d)"
  note mf = mapped_frag [OF inv li d]
  have fn: "unat (f_fragnum ?f) = n" by (rule mf(5))
  have fok: "frag_ok (luntbl s) ?f"
    by (rule used_frag [OF inv mf(1) _ mf(3)]) simp_all
  have m: "l_fragmap (luntbl s li) \<noteq> None" using d by (auto simp: fdesc_at_eq_Some)
  obtain s1 where s1: "(if f_nr_service ?f = 0 \<and> f_nr_valid ?f = 0
        then map_option snd (unmap_frag s li (f_fragnum ?f)) else Some s) = Some s1"
      and 1: "sce_inv {} s1" "unmaps li s s1" "cell s1 = cell s" "\<forall>i. books s s1 i" "places_le s1 s"
  proof (cases "f_nr_service ?f = 0 \<and> f_nr_valid ?f = 0")
    case True
    have d': "fdesc_at (luntbl s) li (unat (f_fragnum ?f)) = Some d" using d fn by simp
    obtain s1 where *: "unmap_frag s li (f_fragnum ?f) = Some (SCE_SUCCESS, s1)" "sce_inv {} s1"
        "unmaps li s s1" "view s1 = (view s)((li, unat (f_fragnum ?f)) := None)" "\<And>i. books s s1 i"
      by (rule unmap_frag_view [OF inv li d' d(2)]) (use True in \<open>simp, blast\<close>)
    have "is_valid d" using fok mf(6) True by (auto simp: frag_ok_def)
    then have "view s (li, n) = Some (True, loc_of d, {})"
      using d li True pages_of_nr_valid [of ?f] fok by (simp add: view.simps frag_ok_def)
    then have "cell s1 v x = cell s v x" for v x using *(4) fn by (cases "x = (li, n)") (simp_all add: cell_def)
    then have "cell s1 = cell s" by (intro ext)
    moreover have "places_le s1 s" using *(4) by (intro places_le_drop) simp
    ultimately show ?thesis by (intro that [of s1]) (use * True in simp_all)
  next
    case False
    show ?thesis by (rule that [of s]) (use False inv in auto)
  qed
  show ?thesis
    using gc_purge [OF 1(1-4) li 1(5) m] mf(1) s1 by (simp add: lun_gc_def returns_bind)
qed

text \<open>The collection for a fragment that has gone to the free list already.\<close>

lemma lun_gc_free:
  assumes inv: "sce_inv {} s" and li: "li < 256" and m: "l_fragmap (luntbl s li) \<noteq> None"
    and fl: "fl \<in> flocs (cdevtbl s)" "\<not> in_use (frag_at (cdevtbl s) fl)"
  shows "returns (lun_gc s li fl) (\<lambda>(r, s'). r = SCE_SUCCESS \<and> collected li s s')"
proof -
  have ok: "lun_ok (luntbl s li)" using sce_inv_lun [OF inv] li by (simp add: lun_inv_def)
  have "fdesc_at (luntbl s) li (unat FRAGNUM_WITHINFREELIST) = None"
  proof (rule ccontr)
    assume "fdesc_at (luntbl s) li (unat FRAGNUM_WITHINFREELIST) \<noteq> None"
    then obtain d where "fdesc_at (luntbl s) li (unat FRAGNUM_WITHINFREELIST) = Some d" by blast
    from fdesc_at_bound(2) [OF sce_inv_lun [OF inv] li this] show False
      by (simp add: FRAGNUM_FREE_def FRAGNUM_WITHINFREELIST_def)
  qed
  then have "unmap_frag s li FRAGNUM_WITHINFREELIST = Some (SCE_ERROR, s)"
    by (intro unmap_frag_unmapped [OF ok]) simp
  then show ?thesis
    using gc_purge [OF inv unmaps_refl refl _ li places_le_refl m] fl
    by (auto simp: lun_gc_def returns_bind in_use_def)
qed

section \<open>Removing a device from a LUN\<close>

text \<open>
  One step releases the fragment of the device that the descriptor is mapped to: the descriptor
  keeps its heat, the fragment is left in transit.
\<close>

definition lost_dev :: "nat \<Rightarrow> sce \<Rightarrow> sce \<Rightarrow> bool" where
  "lost_dev dn s s' \<longleftrightarrow>
     rest s' = rest s \<and> cdevtbl s' = cdevtbl s \<and> freefraglist s' = freefraglist s \<and> nr_freefrag s' = nr_freefrag s
     \<and> (\<forall>j. l_stats_update (\<lambda>_. stats_zero) (hdr (luntbl s' j)) = l_stats_update (\<lambda>_. stats_zero) (hdr (luntbl s j))
          \<and> map_option length (l_fragmap (luntbl s' j)) = map_option length (l_fragmap (luntbl s j)))
     \<and> (\<forall>i n d. fdesc_at (luntbl s) i n = Some d \<longrightarrow> \<not> (is_mapped d \<and> fst (loc_of d) = dn) \<longrightarrow>
          fdesc_at (luntbl s') i n = Some d)
     \<and> (\<forall>i n d. fdesc_at (luntbl s') i n = Some d \<longrightarrow> is_mapped d \<longrightarrow> fdesc_at (luntbl s) i n = Some d)"

lemma lost_dev_refl [simp]: "lost_dev dn s s"
  by (simp add: lost_dev_def)

lemma lost_dev_trans: "lost_dev dn a b \<Longrightarrow> lost_dev dn b c \<Longrightarrow> lost_dev dn a c"
  unfolding lost_dev_def by metis

lemma lost_dev_mapped:
  "lost_dev dn s s' \<Longrightarrow> fdesc_at (luntbl s') i n = Some d \<Longrightarrow> is_mapped d \<Longrightarrow> fdesc_at (luntbl s) i n = Some d"
  unfolding lost_dev_def by blast

lemma lost_dev_other:
  "lost_dev dn s s' \<Longrightarrow> fdesc_at (luntbl s) i n = Some d \<Longrightarrow> fst (loc_of d) \<noteq> dn \<Longrightarrow> fdesc_at (luntbl s') i n = Some d"
  unfolding lost_dev_def by blast

lemma lost_dev_frame:
  assumes "lost_dev dn s s'"
  shows "cdevtbl s' = cdevtbl s" "l_nr_frag (luntbl s' j) = l_nr_frag (luntbl s j)"
    "l_nr_service (luntbl s' j) = l_nr_service (luntbl s j)" "l_lunctx (luntbl s' j) = l_lunctx (luntbl s j)"
    "l_waiting4deletion (luntbl s' j) = l_waiting4deletion (luntbl s j)"
    "(l_fragmap (luntbl s' j) = None) = (l_fragmap (luntbl s j) = None)" "rest s' = rest s"
    "l_nr_sctr (luntbl s' j) = l_nr_sctr (luntbl s j)"
proof -
  have *: "l_stats_update (\<lambda>_. stats_zero) (hdr (luntbl s' j)) = l_stats_update (\<lambda>_. stats_zero) (hdr (luntbl s j))"
    "map_option length (l_fragmap (luntbl s' j)) = map_option length (l_fragmap (luntbl s j))"
    using assms by (simp_all add: lost_dev_def)
  then show "l_nr_frag (luntbl s' j) = l_nr_frag (luntbl s j)"
    "l_nr_service (luntbl s' j) = l_nr_service (luntbl s j)" "l_lunctx (luntbl s' j) = l_lunctx (luntbl s j)"
    "l_waiting4deletion (luntbl s' j) = l_waiting4deletion (luntbl s j)"
    "l_nr_sctr (luntbl s' j) = l_nr_sctr (luntbl s j)"
    by (cases "luntbl s' j"; cases "luntbl s j"; simp add: hdr_def)+
  show "(l_fragmap (luntbl s' j) = None) = (l_fragmap (luntbl s j) = None)"
    using *(2) by (metis option.map_disc_iff)
  show "cdevtbl s' = cdevtbl s" "rest s' = rest s" using assms by (simp_all add: lost_dev_def)
qed

text \<open>The loop: more and more fragments of the device are in transit.\<close>

definition losing :: "sce \<Rightarrow> floc set \<Rightarrow> nat \<Rightarrow> nat \<Rightarrow> u32 list \<Rightarrow> sce \<Rightarrow> bool" where
  "losing s0 X li dn ns s \<longleftrightarrow> lost_dev dn s0 s
     \<and> (\<exists>Y. X \<subseteq> Y \<and> Y \<subseteq> X \<union> {l. fst l = dn} \<and> sce_inv Y s)
     \<and> (\<forall>n d. fdesc_at (luntbl s) li n = Some d \<longrightarrow> of_nat n \<notin> set ns \<longrightarrow> is_mapped d \<longrightarrow> fst (loc_of d) \<noteq> dn)"

lemma inv_stats:
  assumes inv: "sce_inv X s" and i: "i < 256"
  shows "sce_inv X (s\<lparr>luntbl := upd_lun (luntbl s) i (\<lambda>lun. lun\<lparr>l_stats := g lun\<rparr>)\<rparr>)"
proof -
  have ok: "lun_ok (luntbl s i)" using sce_inv_lun [OF inv] i by (simp add: lun_inv_def)
  show ?thesis
    by (rule inv_update_lun [OF inv])
      (use ok sce_inv_srv [OF inv] in \<open>auto simp: keeps_map_def lun_ok_def srv_inv_def\<close>)
qed

lemma losing_step:
  assumes p: "losing s0 X li (unat dv) (n # ns) s" and li: "li < 256"
    and n: "fdesc_at (luntbl s) li (unat n) \<noteq> None"
  shows "returns (lun_rmcdev_frag li dv n s) (losing s0 X li (unat dv) ns)"
proof -
  obtain Y where Y: "X \<subseteq> Y" "Y \<subseteq> X \<union> {l. fst l = unat dv}" and inv: "sce_inv Y s"
    using p by (auto simp: losing_def)
  have lost: "lost_dev (unat dv) s0 s"
    and un: "\<And>k d. fdesc_at (luntbl s) li k = Some d \<Longrightarrow> of_nat k \<notin> set (n # ns) \<Longrightarrow> is_mapped d \<Longrightarrow>
      fst (loc_of d) \<noteq> unat dv"
    using p by (simp_all add: losing_def)
  obtain d where d: "fdesc_at (luntbl s) li (unat n) = Some d" using n by auto
  then obtain m where m: "l_fragmap (luntbl s li) = Some m" "unat n < length m" "d = m ! unat n"
    by (auto simp: fdesc_at_eq_Some)
  have word: "of_nat k = n \<longleftrightarrow> k = unat n" if "fdesc_at (luntbl s) li k = Some e" for k e
    using fdesc_at_bound(4) [OF sce_inv_lun [OF inv] li that] by auto
  have dv: "dv = SCE_PFIDDEV d \<longleftrightarrow> fst (loc_of d) = unat dv"
    by (auto simp: loc_of_def word_unat_eq_iff)
  show ?thesis
  proof (cases "is_mapped d \<and> fst (loc_of d) = unat dv")
    case False
    then have "lun_rmcdev_frag li dv n s = Some s"
      using m dv by (auto simp: lun_rmcdev_frag_def is_mapped_def)
    moreover have "fst (loc_of e) \<noteq> unat dv"
      if "fdesc_at (luntbl s) li k = Some e" "of_nat k \<notin> set ns" "is_mapped e" for k e
      using un [OF that(1)] that False d word [OF that(1)] by (cases "k = unat n") auto
    ultimately show ?thesis using lost Y inv by (auto simp: losing_def)
  next
    case True
    then have dm: "is_mapped d" and dl: "fst (loc_of d) = unat dv" by auto
    note mf = mapped_frag [OF inv li d dm]
    let ?v = "f_nr_miss (frag_at (cdevtbl s) (loc_of d)) AND FRAGDESC_DATAMASK"
    let ?s1 = "s\<lparr>luntbl := set_fdesc (luntbl s) li (unat n) ?v\<rparr>"
    let ?g = "\<lambda>lun. (l_stats lun)\<lparr>alloc_sctrs := alloc_sctrs (l_stats lun) - 1, valid_sctrs :=
      valid_sctrs (l_stats lun) - ucast (f_nr_valid (frag_at (cdevtbl s) (loc_of d))) * 8\<rparr>"
    let ?s' = "?s1\<lparr>luntbl := upd_lun (luntbl ?s1) li (\<lambda>lun. lun\<lparr>l_stats := ?g lun\<rparr>)\<rparr>"
    have run: "lun_rmcdev_frag li dv n s = Some ?s'"
      using m dv dm dl mf(1,2) by (simp add: lun_rmcdev_frag_def is_mapped_def)
    have inv': "sce_inv (insert (loc_of d) Y) ?s'"
      by (rule inv_stats [OF inv_release [OF inv li d dm] li]) simp
    have fd: "fdesc_at (luntbl ?s') j k = (if j = li \<and> k = unat n then Some ?v else fdesc_at (luntbl s) j k)" for j k
      using d by (simp add: fdesc_at_upd_lun)
    have "lost_dev (unat dv) s ?s'"
      unfolding lost_dev_def fd using d dm dl
      by (auto simp: rest_def hdr_def set_fdesc_def option.map_comp o_def)
    then have lost': "lost_dev (unat dv) s0 ?s'" by (rule lost_dev_trans [OF lost])
    have un': "fst (loc_of e) \<noteq> unat dv"
      if "fdesc_at (luntbl ?s') li k = Some e" "of_nat k \<notin> set ns" "is_mapped e" for k e
    proof (cases "k = unat n")
      case True
      then show ?thesis using that(1,3) unfolding fd by auto
    next
      case False
      then have e: "fdesc_at (luntbl s) li k = Some e" using that(1) unfolding fd by simp
      then show ?thesis using un [OF e] that(2,3) word [OF e] False by simp
    qed
    have "X \<subseteq> insert (loc_of d) Y" "insert (loc_of d) Y \<subseteq> X \<union> {l. fst l = unat dv}" using Y dl by auto
    then have "losing s0 X li (unat dv) ns ?s'"
      unfolding losing_def using lost' inv' un' by blast
    then show ?thesis using run by simp
  qed
qed

lemma lun_rmcdev_correct:
  assumes inv: "sce_inv X s" and li: "li < 256" and m: "l_fragmap (luntbl s li) \<noteq> None" and dv: "unat dv < 16"
  obtains s' Y where "lun_rmcdev s li dv = Some (SCE_SUCCESS, s')" "lost_dev (unat dv) s s'"
    "X \<subseteq> Y" "Y \<subseteq> X \<union> {l. fst l = unat dv}" "sce_inv Y s'"
    "\<And>n d. fdesc_at (luntbl s') li n = Some d \<Longrightarrow> is_mapped d \<Longrightarrow> fst (loc_of d) \<noteq> unat dv"
proof -
  let ?ns = "map of_nat [0..<unat (l_nr_frag (luntbl s li))] :: u32 list"
  let ?I = "\<lambda>ns t. losing s X li (unat dv) ns t \<and> set ns \<subseteq> set ?ns"
  have "of_nat n \<in> set ?ns" if "fdesc_at (luntbl s) li n = Some d" for n d
    using fdesc_at_bound(1) [OF sce_inv_lun [OF inv] li that] by auto
  then have "\<forall>n d. fdesc_at (luntbl s) li n = Some d \<longrightarrow> of_nat n \<notin> set ?ns \<longrightarrow> is_mapped d \<longrightarrow> fst (loc_of d) \<noteq> unat dv"
    by blast
  then have start: "losing s X li (unat dv) ?ns s"
    unfolding losing_def using inv lost_dev_refl [of "unat dv" s] by blast
  have "returns (lun_rmcdev_frag li dv n t) (?I ns)" if t: "?I (n # ns) t" for n ns t
  proof -
    have lost: "lost_dev (unat dv) s t" using t by (simp add: losing_def)
    obtain mp where mp: "l_fragmap (luntbl s li) = Some mp" using m by auto
    have "length mp = unat (l_nr_frag (luntbl s li))"
      using sce_inv_lun [OF inv] li mp by (fastforce simp: lun_inv_def lun_ok_def)
    moreover have "map_option length (l_fragmap (luntbl t li)) = Some (length mp)"
      using lost mp by (simp add: lost_dev_def)
    moreover have "unat n < unat (l_nr_frag (luntbl s li))" using t by (auto simp: unat_of_nat)
    ultimately have "fdesc_at (luntbl t) li (unat n) \<noteq> None" by (auto simp: fdesc_at_def)
    then show ?thesis using losing_step [of s X li dv n ns t] t li by (auto elim: returns_mono)
  qed
  then have "returns (for_each ?ns (lun_rmcdev_frag li dv) s) (?I [])"
    by (intro for_each_returns) (use start in auto)
  then obtain s' where s': "for_each ?ns (lun_rmcdev_frag li dv) s = Some s'" "losing s X li (unat dv) [] s'"
    by (auto simp: returns_iff)
  obtain Y where "X \<subseteq> Y" "Y \<subseteq> X \<union> {l. fst l = unat dv}" "sce_inv Y s'"
    using s'(2) by (auto simp: losing_def)
  moreover have "lun_rmcdev s li dv = Some (SCE_SUCCESS, s')"
    using m dv s'(1) by (simp add: lun_rmcdev_def)
  ultimately show thesis using s'(2) by (intro that [of s' Y]) (auto simp: losing_def)
qed

section \<open>Properties\<close>

text \<open>
  Purging a LUN that no request is in service of returns, frees its slot and drops all that is
  cached of it, and nothing else.
\<close>

theorem purge_empties:
  assumes "sce_inv {} s" "li < 256" "l_fragmap (luntbl s li) \<noteq> None" "l_nr_service (luntbl s li) = 0"
  shows "returns (lun_purge s li) (\<lambda>(r, s'). r = SCE_SUCCESS \<and> sce_inv {} s' \<and> l_fragmap (luntbl s' li) = None
    \<and> (\<forall>j. j \<noteq> li \<longrightarrow> luntbl s' j = luntbl s j) \<and> (\<forall>x. view s' x = (if fst x = li then None else view s x)))"
  by (rule lun_purge_correct [OF assms]) simp

lemma purge_empties_witness:
  "returns (lun_purge (example True 0) 0) (\<lambda>(r, s'). r = SCE_SUCCESS \<and> sce_inv {} s' \<and> l_fragmap (luntbl s' 0) = None)"
proof -
  have inv: "sce_inv {} (example True 0)" by (rule sce_wf_inv [OF example_wf]) simp
  show ?thesis by (rule returns_mono [OF purge_empties [OF inv, of 0]]) auto
qed

end
