(* ===== verification/Sce_Misslog.thy ===== *)
theory Sce_Misslog
  imports Sce_Lun
begin

text \<open>
  \<^verbatim>\<open>src/sce_misslog.c\<close>: the cache miss log, a ring of 1024 entries (LUN index, fragment number)
  with its head and its size in \<^verbatim>\<open>sce_t\<close>. The locale \<open>recent_log\<close> states the contract of a
  bounded log read from the most recent entry backwards; the interpretation shows that the ring
  of the code keeps it.
\<close>

section \<open>The code\<close>

definition misslog_put :: "sce \<Rightarrow> u16 \<Rightarrow> u32 \<Rightarrow> (rc \<times> sce) option" where
  "misslog_put s lunidx fragn = do {
     bug_on (unat (misslog_head s) \<ge> SCE_CACHEMISSLOGSIZE);
     let s1 = s\<lparr>misslog_fragnum := (misslog_fragnum s)(unat (misslog_head s) := fragn),
                misslog_lunidx := (misslog_lunidx s)(unat (misslog_head s) := lunidx),
                misslog_head := misslog_head s + 1\<rparr>;
     let s2 = (if unat (misslog_head s1) = SCE_CACHEMISSLOGSIZE then s1\<lparr>misslog_head := 0\<rparr> else s1);
     let s3 = (if unat (misslog_size s2) < SCE_CACHEMISSLOGSIZE
               then s2\<lparr>misslog_size := misslog_size s2 + 1\<rparr> else s2);
     Some (SCE_SUCCESS, s3)
   }"

text \<open>The index that entry number \<open>idx\<close>, counted from the most recent one, is read at.\<close>

definition misslog_index :: "u32 \<Rightarrow> u32 \<Rightarrow> u32" where
  "misslog_index head idx = (let idx1 = idx + 1 in if head \<ge> idx1 then head - idx1 else 1024 - (idx1 - head))"

text \<open>The last two results are what the caller's variables hold after the call.\<close>

definition misslog_get :: "sce \<Rightarrow> u32 \<Rightarrow> u16 \<Rightarrow> u32 \<Rightarrow> (rc \<times> u16 \<times> u32) option" where
  "misslog_get s idx out_lunidx out_fragnum =
     (if idx < misslog_size s
      then do {
        let i = unat (misslog_index (misslog_head s) idx);
        bug_on (i \<ge> SCE_CACHEMISSLOGSIZE);
        let l = misslog_lunidx s i;
        Some (if lun_isvalididx (luntbl s) l = SCE_SUCCESS then SCE_SUCCESS else SCE_ERROR,
              l, misslog_fragnum s i)
      }
      else Some (SCE_ERROR, out_lunidx, out_fragnum))"

definition misslog_gc :: "sce \<Rightarrow> rc \<times> sce" where
  "misslog_gc s = (SCE_SUCCESS,
     fold (\<lambda>i s. if lun_isvalididx (luntbl s) (misslog_lunidx s i) \<noteq> SCE_SUCCESS
                 then s\<lparr>misslog_lunidx := (misslog_lunidx s)(i := 0xffff)\<rparr> else s)
       [0..<SCE_CACHEMISSLOGSIZE] s)"

section \<open>A log of recent entries\<close>

locale recent_log =
  fixes ok :: "'s \<Rightarrow> bool" and put :: "'e \<Rightarrow> 's \<Rightarrow> 's" and entry :: "'s \<Rightarrow> nat \<Rightarrow> 'e option" and cap :: nat
  assumes ok_put: "ok s \<Longrightarrow> ok (put e s)"
    and entry_new: "ok s \<Longrightarrow> 0 < cap \<Longrightarrow> entry (put e s) 0 = Some e"
    and entry_old: "ok s \<Longrightarrow> Suc k < cap \<Longrightarrow> entry (put e s) (Suc k) = entry s k"
    and entry_cap: "ok s \<Longrightarrow> cap \<le> k \<Longrightarrow> entry s k = None"
begin

text \<open>The log as the list of its entries, the most recent first.\<close>

definition logged :: "'s \<Rightarrow> 'e list \<Rightarrow> bool" where
  "logged s es \<longleftrightarrow> (\<forall>k. entry s k = (if k < length es then Some (es ! k) else None))"

lemma ok_fold: "ok s \<Longrightarrow> ok (fold put es s)"
  by (induction es arbitrary: s) (auto intro: ok_put)

lemma logged_put:
  assumes "ok s" "logged s es" shows "logged (put e s) (take cap (e # es))"
  unfolding logged_def
proof
  fix k
  show "entry (put e s) k = (if k < length (take cap (e # es)) then Some (take cap (e # es) ! k) else None)"
  proof (cases "k < cap")
    case False
    then show ?thesis using entry_cap [OF ok_put [OF assms(1)]] by simp
  next
    case True
    then show ?thesis
      using assms entry_new [of s e] entry_old [of s _ e] by (cases k) (auto simp: logged_def)
  qed
qed

lemma logged_fold:
  assumes "ok s" "logged s es0" shows "logged (fold put es s) (take cap (rev es @ es0))"
  using assms
proof (induction es arbitrary: s es0)
  case Nil
  then have "length es0 \<le> cap"
    by (metis entry_cap linorder_not_less logged_def nat_le_linear option.distinct(1) order_refl)
  then show ?case using Nil by simp
next
  case (Cons e es)
  have "logged (fold put es (put e s)) (take cap (rev es @ take cap (e # es0)))"
    by (rule Cons.IH [OF ok_put [OF Cons.prems(1)] logged_put [OF Cons.prems]])
  moreover have "take cap (rev es @ take cap (e # es0)) = take cap (rev es @ e # es0)"
    by (simp add: min_def)
  ultimately show ?case by simp
qed

end

section \<open>The ring of the code keeps the contract\<close>

definition ring_ok :: "u32 \<Rightarrow> u32 \<Rightarrow> bool" where
  "ring_ok h sz \<longleftrightarrow> unat h < 1024 \<and> unat sz \<le> 1024 \<and> (unat sz < 1024 \<longrightarrow> h = sz)"

definition log_put :: "u16 \<times> u32 \<Rightarrow> sce \<Rightarrow> sce" where
  "log_put e s = snd (the (misslog_put s (fst e) (snd e)))"

definition log_entry :: "sce \<Rightarrow> nat \<Rightarrow> (u16 \<times> u32) option" where
  "log_entry s k =
     (if k < unat (misslog_size s)
      then let i = unat (misslog_index (misslog_head s) (of_nat k))
           in Some (misslog_lunidx s i, misslog_fragnum s i)
      else None)"

lemma misslog_index_unat:
  assumes "unat h < 1024" "k < 1024"
  shows "unat (misslog_index h (of_nat k)) = (if k < unat h then unat h - (k + 1) else 1024 + unat h - (k + 1))"
proof -
  have k1: "unat (of_nat k + 1 :: u32) = k + 1"
    using assms(2) by (simp add: unat_word_ariths unat_of_nat)
  show ?thesis
  proof (cases "k < unat h")
    case True
    then have le: "of_nat k + 1 \<le> h" using k1 by (simp add: word_le_nat_alt)
    then have "unat (h - (of_nat k + 1)) = unat h - (k + 1)" using k1 by (simp only: unat_sub)
    then show ?thesis using True le by (simp add: misslog_index_def Let_def)
  next
    case False
    then have "\<not> of_nat k + 1 \<le> h" and le: "h \<le> of_nat k + 1" using k1 by (simp_all add: word_le_nat_alt)
    moreover have e: "unat (of_nat k + 1 - h) = k + 1 - unat h" using k1 le by (simp only: unat_sub)
    moreover have "unat (1024 - (of_nat k + 1 - h) :: u32) = 1024 - (k + 1 - unat h)"
      using e assms(2) by (subst unat_sub) (simp_all add: word_le_nat_alt)
    ultimately show ?thesis using False by (simp add: misslog_index_def Let_def)
  qed
qed

lemma misslog_put_run:
  assumes "ring_ok (misslog_head s) (misslog_size s)"
  defines "h \<equiv> unat (misslog_head s)"
  obtains h' sz' where "misslog_put s l n = Some (SCE_SUCCESS,
      s\<lparr>misslog_fragnum := (misslog_fragnum s)(h := n), misslog_lunidx := (misslog_lunidx s)(h := l),
        misslog_head := h', misslog_size := sz'\<rparr>)"
    "ring_ok h' sz'" "unat h' = (h + 1) mod 1024" "unat sz' = min 1024 (unat (misslog_size s) + 1)"
proof -
  let ?h' = "if unat (misslog_head s + 1) = 1024 then 0 else misslog_head s + 1"
  let ?sz' = "if unat (misslog_size s) < 1024 then misslog_size s + 1 else misslog_size s"
  have h: "h < 1024" and sz: "unat (misslog_size s) \<le> 1024"
    and eq: "unat (misslog_size s) < 1024 \<Longrightarrow> misslog_head s = misslog_size s"
    using assms by (simp_all add: ring_ok_def)
  have h1: "unat (misslog_head s + 1) = h + 1" using h by (simp add: h_def unat_word_ariths)
  have sz1: "unat (misslog_size s) < 1024 \<Longrightarrow> unat (misslog_size s + 1) = unat (misslog_size s) + 1"
    by (simp add: unat_word_ariths)
  have uh: "unat ?h' = (h + 1) mod 1024" using h h1 by auto
  have us: "unat ?sz' = min 1024 (unat (misslog_size s) + 1)" using sz sz1 by auto
  have "ring_ok ?h' ?sz'"
    using uh us eq h sz1 by (auto simp: ring_ok_def h_def)
  moreover have "misslog_put s l n = Some (SCE_SUCCESS,
      s\<lparr>misslog_fragnum := (misslog_fragnum s)(h := n), misslog_lunidx := (misslog_lunidx s)(h := l),
        misslog_head := ?h', misslog_size := ?sz'\<rparr>)"
    using h by (simp add: misslog_put_def bug_on_def h_def)
  ultimately show thesis using uh us that by blast
qed

interpretation misslog: recent_log "\<lambda>s. ring_ok (misslog_head s) (misslog_size s)" log_put log_entry 1024
proof unfold_locales
  fix s :: sce and e :: "u16 \<times> u32"
  assume ok: "ring_ok (misslog_head s) (misslog_size s)"
  obtain l n where e: "e = (l, n)" by (cases e)
  obtain h' sz' where run: "misslog_put s l n = Some (SCE_SUCCESS,
      s\<lparr>misslog_fragnum := (misslog_fragnum s)(unat (misslog_head s) := n),
        misslog_lunidx := (misslog_lunidx s)(unat (misslog_head s) := l),
        misslog_head := h', misslog_size := sz'\<rparr>)"
    and r: "ring_ok h' sz'" "unat h' = (unat (misslog_head s) + 1) mod 1024"
      "unat sz' = min 1024 (unat (misslog_size s) + 1)"
    by (rule misslog_put_run [OF ok])
  have h: "unat (misslog_head s) < 1024" "unat h' < 1024" using ok r(1) by (simp_all add: ring_ok_def)
  have put: "log_put (l, n) s = s\<lparr>misslog_fragnum := (misslog_fragnum s)(unat (misslog_head s) := n),
        misslog_lunidx := (misslog_lunidx s)(unat (misslog_head s) := l),
        misslog_head := h', misslog_size := sz'\<rparr>"
    by (simp add: log_put_def run)
  show "ring_ok (misslog_head (log_put e s)) (misslog_size (log_put e s))" using r(1) by (simp add: e put)
  have "unat (misslog_index h' 0) = unat (misslog_head s)"
    using misslog_index_unat [OF h(2), of 0] r(2) h(1) by (auto simp: mod_if split: if_splits)
  then show "log_entry (log_put e s) 0 = Some e" using r(3) by (simp add: put log_entry_def e)
  fix k :: nat
  show "log_entry (log_put e s) (Suc k) = log_entry s k" if k: "Suc k < 1024"
  proof -
    have "unat (misslog_index h' (of_nat (Suc k))) = unat (misslog_index (misslog_head s) (of_nat k))"
      using misslog_index_unat [OF h(2) k] misslog_index_unat [OF h(1), of k] k r(2) h
      by (auto simp: mod_if split: if_splits)
    moreover have "unat (misslog_index (misslog_head s) (of_nat k)) \<noteq> unat (misslog_head s)"
      using misslog_index_unat [OF h(1), of k] k h(1) by auto
    ultimately show ?thesis using k r(3) by (auto simp: e put log_entry_def Let_def simp del: of_nat_Suc)
  qed
next
  fix s :: sce and k :: nat
  assume "ring_ok (misslog_head s) (misslog_size s)" "1024 \<le> k"
  then show "log_entry s k = None" by (simp add: ring_ok_def log_entry_def)
qed

section \<open>The log within the engine\<close>

lemma ring_ok_inv: "sce_inv X s \<Longrightarrow> ring_ok (misslog_head s) (misslog_size s)"
  using sce_inv_log by (auto simp: ring_ok_def log_inv_def)

text \<open>A miss on a fragment within its LUN is logged; the log keeps to the bounds of the fragment maps.\<close>

lemma inv_misslog_put:
  assumes inv: "sce_inv X s"
    and n: "\<And>m. unat l < 256 \<Longrightarrow> l_fragmap (luntbl s (unat l)) = Some m \<Longrightarrow> unat n < length m"
  obtains s' where "misslog_put s l n = Some (SCE_SUCCESS, s')" "sce_inv X s'"
    "cdevtbl s' = cdevtbl s" "luntbl s' = luntbl s" "nr_hit s' = nr_hit s" "nr_miss s' = nr_miss s"
    "s' = log_put (l, n) s"
proof -
  let ?h = "unat (misslog_head s)"
  obtain h' sz' where run: "misslog_put s l n = Some (SCE_SUCCESS,
      s\<lparr>misslog_fragnum := (misslog_fragnum s)(?h := n), misslog_lunidx := (misslog_lunidx s)(?h := l),
        misslog_head := h', misslog_size := sz'\<rparr>)" (is "_ = Some (_, ?s')")
    and r: "ring_ok h' sz'" "unat h' = (?h + 1) mod 1024" "unat sz' = min 1024 (unat (misslog_size s) + 1)"
    by (rule misslog_put_run [OF ring_ok_inv [OF inv]])
  have old: "log_inv (misslog_lunidx s) (misslog_fragnum s) (misslog_head s) (misslog_size s) (luntbl s)"
    by (rule sce_inv_log [OF inv])
  have "k \<noteq> ?h \<Longrightarrow> k < unat sz' \<Longrightarrow> k < unat (misslog_size s)" for k
    using r(3) old by (cases "unat (misslog_size s) < 1024") (auto simp: log_inv_def)
  then have "log_inv ((misslog_lunidx s)(?h := l)) ((misslog_fragnum s)(?h := n)) h' sz' (luntbl s)"
    using r(1) old n by (auto simp: log_inv_def ring_ok_def)
  then have "sce_inv X ?s'" using inv by (simp add: sce_inv_def)
  then show thesis by (intro that [OF run]) (simp_all add: log_put_def run)
qed

lemma misslog_get_ring:
  assumes r: "ring_ok (misslog_head s) (misslog_size s)" and True: "k < 2 ^ 32"
  shows "misslog_get s (of_nat k) lo fo =
    (case log_entry s k of
       None \<Rightarrow> Some (SCE_ERROR, lo, fo)
     | Some (l, n) \<Rightarrow> Some (if lun_isvalididx (luntbl s) l = SCE_SUCCESS then SCE_SUCCESS else SCE_ERROR, l, n))"
proof -
  have lt: "of_nat k < misslog_size s \<longleftrightarrow> k < unat (misslog_size s)"
    using True by (simp add: word_less_nat_alt unat_of_nat)
  show ?thesis
  proof (cases "k < unat (misslog_size s)")
    case False
    then show ?thesis using lt True by (simp add: misslog_get_def log_entry_def)
  next
    case True
    then have "unat (misslog_index (misslog_head s) (of_nat k)) < 1024"
      using r misslog_index_unat [of "misslog_head s" k] by (auto simp: ring_ok_def)
    then show ?thesis using lt True by (auto simp: misslog_get_def log_entry_def bug_on_def Let_def)
  qed
qed

lemmas misslog_get_run = misslog_get_ring [OF ring_ok_inv]

text \<open>The entries that a get accepts lie within the fragment map of a LUN in service.\<close>

lemma log_entry_bound:
  assumes inv: "sce_inv X s" and e: "log_entry s k = Some (l, n)" and v: "lun_isvalididx (luntbl s) l = SCE_SUCCESS"
  obtains d where "unat l < 256" "fdesc_at (luntbl s) (unat l) (unat n) = Some d"
proof -
  have r: "ring_ok (misslog_head s) (misslog_size s)" by (rule ring_ok_inv [OF inv])
  define i where "i = unat (misslog_index (misslog_head s) (of_nat k))"
  have k: "k < unat (misslog_size s)" and ln: "l = misslog_lunidx s i" "n = misslog_fragnum s i"
    using e by (auto simp: log_entry_def Let_def i_def split: if_splits)
  have i: "i < unat (misslog_size s)"
    using misslog_index_unat [of "misslog_head s" k] r k
    by (cases "unat (misslog_size s) < 1024") (auto simp: i_def ring_ok_def split: if_splits)
  obtain m where m: "unat l < 256" "l_fragmap (luntbl s (unat l)) = Some m"
    using v by (auto simp: lun_isvalididx_iff)
  then have "unat n < length m"
    using sce_inv_log [OF inv] i ln by (auto simp: log_inv_def)
  then show thesis using m that by (auto simp: fdesc_at_def)
qed

text \<open>Garbage collection of the log: the entries of LUNs that are gone are marked.\<close>

lemma misslog_gc_fold:
  "fold (\<lambda>i s. if lun_isvalididx (luntbl s) (misslog_lunidx s i) \<noteq> SCE_SUCCESS
               then s\<lparr>misslog_lunidx := (misslog_lunidx s)(i := 0xffff)\<rparr> else s) [0..<n] s =
   s\<lparr>misslog_lunidx := \<lambda>i. if i < n \<and> lun_isvalididx (luntbl s) (misslog_lunidx s i) \<noteq> SCE_SUCCESS
                           then 0xffff else misslog_lunidx s i\<rparr>"
proof (induction n)
  case 0
  then show ?case by simp
next
  case (Suc n)
  show ?case by (simp add: Suc) (auto simp: fun_eq_iff less_Suc_eq)
qed

lemma misslog_gc_correct:
  "misslog_gc s = (SCE_SUCCESS, s\<lparr>misslog_lunidx := \<lambda>i.
     if i < 1024 \<and> lun_isvalididx (luntbl s) (misslog_lunidx s i) \<noteq> SCE_SUCCESS then 0xffff else misslog_lunidx s i\<rparr>)"
  by (simp add: misslog_gc_def misslog_gc_fold)

lemma inv_misslog_gc: "sce_inv X s \<Longrightarrow> sce_inv X (snd (misslog_gc s))"
proof -
  assume inv: "sce_inv X s"
  have "log_inv (\<lambda>i. if i < 1024 \<and> lun_isvalididx (luntbl s) (misslog_lunidx s i) \<noteq> SCE_SUCCESS then 0xffff
      else misslog_lunidx s i) (misslog_fragnum s) (misslog_head s) (misslog_size s) (luntbl s)"
    using sce_inv_log [OF inv] by (simp add: log_inv_def)
  then show ?thesis using inv by (simp add: misslog_gc_correct sce_inv_def)
qed

section \<open>Properties\<close>

lemma log_put_luntbl:
  assumes "ring_ok (misslog_head s) (misslog_size s)" shows "luntbl (log_put e s) = luntbl s"
proof -
  obtain h' sz' where "misslog_put s (fst e) (snd e) = Some (SCE_SUCCESS,
      s\<lparr>misslog_fragnum := (misslog_fragnum s)(unat (misslog_head s) := snd e),
        misslog_lunidx := (misslog_lunidx s)(unat (misslog_head s) := fst e),
        misslog_head := h', misslog_size := sz'\<rparr>)"
    by (rule misslog_put_run [OF assms])
  then show ?thesis by (simp add: log_put_def)
qed

lemma fold_log_put_luntbl:
  "ring_ok (misslog_head s) (misslog_size s) \<Longrightarrow> luntbl (fold log_put es s) = luntbl s"
  by (induction es arbitrary: s) (simp_all add: log_put_luntbl misslog.ok_put)

text \<open>
  C39: the ring buffer of 1024 entries with its wrapping head is the list of the most recent 1024
  misses: after the misses \<open>es\<close> in this order, reading entry \<open>k\<close> gives the \<open>k\<close>-th miss from the
  end, and an error beyond those kept.
\<close>

lemma misslog_holds_recent:
  assumes "misslog_size s = 0" "misslog_head s = 0" "k < 2 ^ 32"
  shows "misslog_get (fold log_put es s) (of_nat k) lo fo =
    (if k < min 1024 (length es)
     then Some (if lun_isvalididx (luntbl s) (fst (rev es ! k)) = SCE_SUCCESS then SCE_SUCCESS else SCE_ERROR,
       rev es ! k)
     else Some (SCE_ERROR, lo, fo))"
proof -
  have ok: "ring_ok (misslog_head s) (misslog_size s)" using assms by (simp add: ring_ok_def)
  have "misslog.logged s []" using assms by (simp add: misslog.logged_def log_entry_def)
  then have "misslog.logged (fold log_put es s) (take 1024 (rev es @ []))" by (rule misslog.logged_fold [OF ok])
  then show ?thesis
    using misslog_get_ring [OF misslog.ok_fold [OF ok] assms(3), of es lo fo]
    by (auto simp: misslog.logged_def fold_log_put_luntbl [OF ok] split: prod.splits)
qed

lemma misslog_holds_recent_witness:
  "misslog_get (fold log_put (replicate 1030 (3, 4)) (example True 0\<lparr>misslog_size := 0, misslog_head := 0\<rparr>)) (of_nat 1023) 0 0 =
    (if 1023 < min 1024 (length (replicate 1030 (3 :: u16, 4 :: u32)))
     then Some (if lun_isvalididx (luntbl (example True 0\<lparr>misslog_size := 0, misslog_head := 0\<rparr>))
         (fst (rev (replicate 1030 (3, 4 :: u32)) ! 1023)) = SCE_SUCCESS then SCE_SUCCESS else SCE_ERROR,
       rev (replicate 1030 (3, 4)) ! 1023)
     else Some (SCE_ERROR, 0, 0))"
  by (rule misslog_holds_recent) simp_all

text \<open>
  Collecting the log keeps the invariant, marks exactly the entries of LUNs that cannot be
  served, and a second collection changes nothing.
\<close>

lemma misslog_gc_marks:
  assumes "sce_inv X s"
  shows "sce_inv X (snd (misslog_gc s)) \<and> misslog_gc (snd (misslog_gc s)) = misslog_gc s
   \<and> (\<forall>i. misslog_lunidx (snd (misslog_gc s)) i =
        (if i < 1024 \<and> lun_isvalididx (luntbl s) (misslog_lunidx s i) \<noteq> SCE_SUCCESS
         then 0xffff else misslog_lunidx s i))"
proof (intro conjI)
  have "lun_isvalididx lt 0xffff \<noteq> SCE_SUCCESS" for lt by (simp add: lun_isvalididx_iff)
  then show "misslog_gc (snd (misslog_gc s)) = misslog_gc s"
    by (simp add: misslog_gc_correct cong: if_cong)
      (rule arg_cong [where f = "\<lambda>g. s\<lparr>misslog_lunidx := g\<rparr>"], auto simp: fun_eq_iff)
qed (use inv_misslog_gc [OF assms] in \<open>simp_all add: misslog_gc_correct\<close>)

lemma misslog_gc_marks_witness:
  "sce_inv {} (snd (misslog_gc (example True 0)))
   \<and> misslog_gc (snd (misslog_gc (example True 0))) = misslog_gc (example True 0)
   \<and> (\<forall>i. misslog_lunidx (snd (misslog_gc (example True 0))) i =
        (if i < 1024 \<and> lun_isvalididx (luntbl (example True 0)) (misslog_lunidx (example True 0) i) \<noteq> SCE_SUCCESS
         then 0xffff else misslog_lunidx (example True 0) i))"
  by (rule misslog_gc_marks [OF sce_wf_inv [OF example_wf]]) simp

end
