(* ===== verification/Sce_Eviction.thy ===== *)
theory Sce_Eviction
  imports Sce_Lun
begin

text \<open>
  \<^verbatim>\<open>src/sce_eviction.c\<close>: the CLOCK replacement. The arm is a physical fragment id that walks
  over the fragments of the devices in slot order; a fragment in use that no request holds loses
  one of its references when the arm passes it, and is evicted when it has none left.
\<close>

section \<open>The code\<close>

definition get_frag_advance_clockarm :: "sce \<Rightarrow> floc option \<times> sce" where
  "get_frag_advance_clockarm s =
     (if nr_cdev s > 0
      then let devnum = SCE_PFIDDEV (arm s) mod nr_cdev s;
               fragn = SCE_PFIDOFF (arm s);
               cd = cdevtbl s (unat devnum)
           in if c_nr_frag cd > 0
              then let fragn1 = fragn mod c_nr_frag cd;
                       fragn2 = fragn1 + 1;
                       wrap = fragn2 \<ge> c_nr_frag cd
                   in (Some (unat devnum, unat fragn1),
                       s\<lparr>arm := SCE_PFID (if wrap then devnum + 1 else devnum) (if wrap then 0 else fragn2)\<rparr>)
              else (None, s\<lparr>arm := SCE_PFID (devnum + 1) fragn\<rparr>)
      else (None, s))"

primrec evict_loop :: "nat \<Rightarrow> sce \<Rightarrow> (rc \<times> sce) option" where
  "evict_loop 0 s = Some (SCE_ERROR, s)"
| "evict_loop (Suc i) s =
     (case get_frag_advance_clockarm s of
        (None, s1) \<Rightarrow> Some (SCE_ERROR, s1)
      | (Some fl, s1) \<Rightarrow> do {
          fr \<leftarrow> get_frag (cdevtbl s1) fl;
          if f_fragnum fr < FRAGNUM_FREE \<and> f_nr_service fr = 0
          then if f_nr_ref fr = 0
               then do {
                 bug_on (unat (f_lunidx fr) \<ge> SCE_MAXLUN);
                 (r, s2) \<leftarrow> unmap_frag s1 (unat (f_lunidx fr)) (f_fragnum fr);
                 Some (SCE_SUCCESS, s2)
               }
               else evict_loop i (s1\<lparr>cdevtbl := put_frag (cdevtbl s1) fl (fr\<lparr>f_nr_ref := f_nr_ref fr - 1\<rparr>)\<rparr>)
          else evict_loop i s1
        })"

text \<open>The loop counter is an \<^verbatim>\<open>int\<close> that starts at the 32-bit product.\<close>

definition evict_frag :: "sce \<Rightarrow> (rc \<times> sce) option" where
  "evict_frag s =
     (if nr_freefrag s < nr_frag s
      then evict_loop (nat (sint (nr_frag s * SCE_REFCEILING))) s
      else Some (SCE_ERROR, s))"

section \<open>The arm\<close>

lemma clockarm_cases:
  assumes inv: "sce_inv X s"
  obtains "fst (get_frag_advance_clockarm s) = None"
  | fl where "fst (get_frag_advance_clockarm s) = Some fl" "fl \<in> flocs (cdevtbl s)"
proof (cases "fst (get_frag_advance_clockarm s)")
  case None
  then show ?thesis using that by simp
next
  case (Some fl)
  let ?d = "SCE_PFIDDEV (arm s) mod nr_cdev s" let ?c = "cdevtbl s (unat ?d)"
  have c: "0 < nr_cdev s" "c_nr_frag ?c > 0" and fl: "fl = (unat ?d, unat (SCE_PFIDOFF (arm s) mod c_nr_frag ?c))"
    using Some by (auto simp: get_frag_advance_clockarm_def Let_def split: if_splits)
  have d: "unat ?d < 16"
    using unat_PFIDDEV_less [of "arm s"] by (metis le_less_trans mod_less_eq_dividend unat_mod_distrib)
  have "dev_ok ?c" using sce_inv_dev [OF inv] d by (simp add: dev_inv_def)
  then obtain t where t: "c_fragtbl ?c = Some t" "length t = unat (c_nr_frag ?c)"
    using c(2) by (auto simp: dev_ok_def split: option.splits)
  have "unat (SCE_PFIDOFF (arm s) mod c_nr_frag ?c) < length t"
    using c(2) t(2) by (simp add: unat_mod_distrib word_pos_unat)
  then have "fl \<in> flocs (cdevtbl s)" using d t(1) by (simp add: fl flocs_def)
  then show ?thesis using that Some by simp
qed

lemma clockarm_state: "\<exists>a. snd (get_frag_advance_clockarm s) = s\<lparr>arm := a\<rparr>"
proof -
  have "\<exists>a. s = s\<lparr>arm := a\<rparr>" by (rule exI [of _ "arm s"]) simp
  then show ?thesis by (auto simp: get_frag_advance_clockarm_def Let_def)
qed

section \<open>Eviction\<close>

text \<open>
  What an eviction may change of a state: the reference counters, the arm, and one mapping
  (and the number of evictions, which its caller counts).
\<close>

definition kept :: "sce \<Rightarrow> sce \<Rightarrow> bool" where
  "kept s s' \<longleftrightarrow> same_devs (cdevtbl s) (cdevtbl s')
     \<and> (rest s')\<lparr>arm := 0, nr_eviction := 0\<rparr> = (rest s)\<lparr>arm := 0, nr_eviction := 0\<rparr>
     \<and> (\<forall>j. hdr (luntbl s' j) = hdr (luntbl s j))
     \<and> (\<forall>j. map_option length (l_fragmap (luntbl s' j)) = map_option length (l_fragmap (luntbl s j)))
     \<and> (\<forall>i n d. fdesc_at (luntbl s) i n = Some d \<longrightarrow> \<not> is_mapped d \<longrightarrow> fdesc_at (luntbl s') i n = Some d)"

lemma kept_refl [simp]: "kept s s"
  by (simp add: kept_def)

lemma kept_trans: "kept a b \<Longrightarrow> kept b c \<Longrightarrow> kept a c"
  unfolding kept_def by (auto intro: same_devs_trans)

lemma kept_arm [simp]: "kept s (s\<lparr>arm := a\<rparr>)"
  by (simp add: kept_def rest_def)

lemma kept_nr_eviction [simp]: "kept s (s\<lparr>nr_eviction := a\<rparr>)"
  by (simp add: kept_def rest_def)

lemma kept_scalars:
  assumes "kept s s'"
  shows "nr_cdev s' = nr_cdev s" "nr_lun s' = nr_lun s" "nr_frag s' = nr_frag s" "nr_hit s' = nr_hit s"
    "nr_miss s' = nr_miss s" "misslog_fragnum s' = misslog_fragnum s" "misslog_lunidx s' = misslog_lunidx s"
    "misslog_head s' = misslog_head s" "misslog_size s' = misslog_size s"
  using assms unfolding kept_def by (cases s; cases s'; simp add: rest_def)+

lemma kept_put_frag: "kept s (s\<lparr>cdevtbl := put_frag (cdevtbl s) l f\<rparr>)"
  by (simp add: kept_def rest_def)

lemma frag_ok_ref: "frag_ok lt f \<Longrightarrow> frag_ok lt (f\<lparr>f_nr_ref := f_nr_ref f - 1\<rparr>)" if "f_nr_ref f \<noteq> 0"
proof -
  assume f: "frag_ok lt f"
  then have "unat (f_nr_ref f) \<le> 4" by (simp add: frag_ok_def)
  then have "unat (f_nr_ref f - 1) \<le> 4" using unat_dec [OF that] by linarith
  then show ?thesis using f by (simp add: frag_ok_def desc_of_def pages_ok_def)
qed

lemma less_FREE: "f_fragnum f < FRAGNUM_FREE \<Longrightarrow> in_use f"
  by (auto simp: in_use_def FRAGNUM_FREE_def FRAGNUM_WITHINFREELIST_def)

text \<open>The outcome of an eviction: one mapping less and one free fragment more, or no change.\<close>

definition evicted :: "sce \<Rightarrow> rc \<times> sce \<Rightarrow> bool" where
  "evicted s = (\<lambda>(r, s'). sce_inv {} s' \<and> kept s s' \<and> (\<forall>i. books s s' i) \<and>
    (if r = SCE_SUCCESS
     then nr_freefrag s' = nr_freefrag s + 1 \<and> freefraglist s' \<noteq> 0
          \<and> (\<exists>j n. view s' = (view s)((j, n) := None))
     else nr_freefrag s' = nr_freefrag s \<and> freefraglist s' = freefraglist s \<and> luntbl s' = luntbl s
          \<and> view s' = view s))"

lemma evicted_step:
  assumes "evicted s1 x" "kept s s1" "view s1 = view s" "nr_freefrag s1 = nr_freefrag s"
    "freefraglist s1 = freefraglist s" "luntbl s1 = luntbl s" "\<And>i. books s s1 i"
  shows "evicted s x"
  using assms kept_trans books_trans by (fastforce simp: evicted_def)

text \<open>
  The loop keeps the invariant. When it succeeds exactly one fragment has moved from its LUN to
  the free list; otherwise the contents are as before.
\<close>

lemma evict_loop_correct:
  assumes "sce_inv {} s"
  shows "returns (evict_loop i s) (evicted s)"
  using assms
proof (induction i arbitrary: s)
  case 0
  then show ?case by (simp add: evicted_def)
next
  case (Suc i)
  obtain a where a: "snd (get_frag_advance_clockarm s) = s\<lparr>arm := a\<rparr>" using clockarm_state by blast
  let ?s1 = "s\<lparr>arm := a\<rparr>"
  have inv1: "sce_inv {} ?s1" using Suc.prems by simp
  show ?case
  proof (rule clockarm_cases [OF Suc.prems])
    assume "fst (get_frag_advance_clockarm s) = None"
    then have "get_frag_advance_clockarm s = (None, ?s1)" using a by (metis prod.collapse)
    then show ?thesis using inv1 books_cong [of ?s1 s] by (auto simp: evicted_def)
  next
    fix fl assume "fst (get_frag_advance_clockarm s) = Some fl" and fl: "fl \<in> flocs (cdevtbl s)"
    then have adv: "get_frag_advance_clockarm s = (Some fl, ?s1)" using a by (metis prod.collapse)
    let ?f = "frag_at (cdevtbl s) fl"
    show ?thesis
    proof (cases "f_fragnum ?f < FRAGNUM_FREE \<and> f_nr_service ?f = 0")
      case False
      then show ?thesis
        using Suc.IH [OF inv1] fl adv books_cong [of ?s1 s] by (auto elim!: returns_mono evicted_step)
    next
      case busy: True
      then have use: "in_use ?f" using less_FREE by simp
      obtain d where d: "unat (f_lunidx ?f) < 256" "desc_of (luntbl s) ?f = Some d" "is_mapped d" "loc_of d = fl"
          "frag_ok (luntbl s) ?f"
        by (rule used_frag [OF Suc.prems fl _ use]) simp_all
      have d1: "fdesc_at (luntbl s) (unat (f_lunidx ?f)) (unat (f_fragnum ?f)) = Some d"
        using d(2) by (simp add: desc_of_def)
      then have d1': "fdesc_at (luntbl ?s1) (unat (f_lunidx ?f)) (unat (f_fragnum ?f)) = Some d" by simp
      show ?thesis
      proof (cases "f_nr_ref ?f = 0")
        case True
        obtain s' where s': "unmap_frag ?s1 (unat (f_lunidx ?f)) (f_fragnum ?f) = Some (SCE_SUCCESS, s')"
          "sce_inv {} s'" "unmaps (unat (f_lunidx ?f)) ?s1 s'"
          "view s' = (view ?s1)((unat (f_lunidx ?f), unat (f_fragnum ?f)) := None)"
          "nr_freefrag s' = nr_freefrag ?s1 + 1" "freefraglist s' \<noteq> 0" "\<And>i. books ?s1 s' i"
          "\<And>k. fdesc_at (luntbl s') (unat (f_lunidx ?f)) k = (if k = unat (f_fragnum ?f)
             then Some (f_nr_miss (frag_at (cdevtbl ?s1) (loc_of d)) AND FRAGDESC_DATAMASK)
             else fdesc_at (luntbl ?s1) (unat (f_lunidx ?f)) k)"
          by (rule unmap_frag_view [OF inv1 d(1) d1' d(3)]) (use d(4) busy in simp, blast)
        have "kept ?s1 s'"
          unfolding kept_def
        proof (intro conjI allI impI)
          fix j k e assume e: "fdesc_at (luntbl ?s1) j k = Some e" "\<not> is_mapped e"
          show "fdesc_at (luntbl s') j k = Some e"
          proof (cases "j = unat (f_lunidx ?f)")
            case True
            then show ?thesis using s'(8) [of k] e d1 d(3) by auto
          next
            case False
            then show ?thesis using s'(3) e by (simp add: unmaps_def fdesc_at_def)
          qed
        next
          fix j
          show "hdr (luntbl s' j) = hdr (luntbl ?s1 j)"
            "map_option length (l_fragmap (luntbl s' j)) = map_option length (l_fragmap (luntbl ?s1 j))"
            using s'(3) unfolding unmaps_def by (cases "j = unat (f_lunidx ?f)"; simp)+
        qed (use s'(3) in \<open>simp_all add: unmaps_def\<close>)
        then have kp: "kept s s'" using kept_trans kept_arm by blast
        have bk1: "books s s' i" for i
          using books_trans [OF books_cong s'(7), of s i] by simp
        show ?thesis
          using adv fl busy True d(1) s'(1-6) bk1 kp by (auto simp: bug_on_def evicted_def)
      next
        case False
        let ?f' = "?f\<lparr>f_nr_ref := f_nr_ref ?f - 1\<rparr>"
        let ?s2 = "?s1\<lparr>cdevtbl := put_frag (cdevtbl ?s1) fl ?f'\<rparr>"
        have "sce_inv {} (?s1\<lparr>cdevtbl := put_frag (cdevtbl ?s1) fl ?f',
            luntbl := upd_lun (luntbl ?s1) (unat (f_lunidx ?f)) (\<lambda>l. l)\<rparr>)"
          by (rule inv_update_used [OF inv1])
            (use fl use d(5) frag_ok_ref [OF False] in \<open>auto simp: keeps_map_def\<close>)
        then have inv2: "sce_inv {} ?s2" by (simp add: upd_lun_def)
        have view2: "view ?s2 = view s"
          using view_put_same [OF inv1 d(1), of _ d ?f'] d1 d(3,4) by simp
        have "kept s ?s2" using kept_trans [OF kept_arm kept_put_frag] .
        moreover have "books s ?s2 i" for i
          using srv_sum_put_used [OF fl use, of ?f' i]
          by (auto simp: books_def slack_def pend_def split: if_splits)
        ultimately have "evicted ?s2 x \<Longrightarrow> evicted s x" for x using view2 by (intro evicted_step [of ?s2 x s]) simp_all
        then show ?thesis
          using Suc.IH [OF inv2] adv fl busy False by (auto elim!: returns_mono)
      qed
    qed
  qed
qed

lemma evict_frag_correct:
  assumes "sce_inv {} s"
  shows "returns (evict_frag s) (evicted s)"
  using evict_loop_correct [OF assms] assms by (simp add: evict_frag_def evicted_def)

section \<open>Properties\<close>

text \<open>
  C37: the search for a victim always ends; when it finds one, that fragment alone leaves the cache
  and joins the free list, and otherwise nothing that is cached changes.
\<close>

theorem evict_frees_one:
  assumes "sce_inv {} s"
  shows "returns (evict_frag s) (\<lambda>(r, s'). sce_inv {} s' \<and>
    (if r = SCE_SUCCESS
     then nr_freefrag s' = nr_freefrag s + 1 \<and> freefraglist s' \<noteq> 0 \<and> (\<exists>x. view s' = (view s)(x := None))
     else nr_freefrag s' = nr_freefrag s \<and> freefraglist s' = freefraglist s \<and> luntbl s' = luntbl s \<and> view s' = view s))"
  by (rule returns_mono [OF evict_frag_correct [OF assms]]) (auto simp: evicted_def split: if_splits)

lemma evict_frees_one_witness:
  "returns (evict_frag (example True 0)) (\<lambda>(r, s'). sce_inv {} s' \<and>
    (if r = SCE_SUCCESS
     then nr_freefrag s' = nr_freefrag (example True 0) + 1 \<and> freefraglist s' \<noteq> 0
       \<and> (\<exists>x. view s' = (view (example True 0))(x := None))
     else nr_freefrag s' = nr_freefrag (example True 0) \<and> freefraglist s' = freefraglist (example True 0)
       \<and> luntbl s' = luntbl (example True 0) \<and> view s' = view (example True 0)))"
  by (rule evict_frees_one [OF sce_wf_inv [OF example_wf]]) simp

end
