(* ===== verification/Sce_Population.thy ===== *)
theory Sce_Population
  imports Sce_Misslog Sce_Eviction
begin

text \<open>
  \<^verbatim>\<open>src/sce_population.c\<close>: choosing a fragment to populate from the miss log (the default
  policy \<^verbatim>\<open>SCE_POPULATION_HOTMRU\<close>: the hottest of the 100 most recent misses; and the policy
  \<^verbatim>\<open>SCE_POPULATION_MRU\<close>), allocating and mapping a physical fragment for it, and completing or
  cancelling the population.
\<close>

section \<open>The code\<close>

partial_function (option) alloc_loop :: "sce \<Rightarrow> pfid_t \<Rightarrow> (rc \<times> pfid_t \<times> sce) option" where
  [code]: "alloc_loop s out_pfid = do {
     (r, pfid, s1) \<leftarrow> freefraglist_get s out_pfid;
     if r = SCE_SUCCESS \<and> pfid > 0 then Some (r, pfid, s1)
     else do {
       (r2, s2) \<leftarrow> evict_frag s1;
       if r2 \<noteq> SCE_SUCCESS then Some (r2, pfid, s2)
       else alloc_loop (s2\<lparr>nr_eviction := nr_eviction s2 + 1\<rparr>) pfid
     }
   }"

text \<open>The second result is what the caller's \<^verbatim>\<open>*out_pfid\<close> holds after the call.\<close>

definition alloc4population :: "sce \<Rightarrow> nat \<Rightarrow> u32 \<Rightarrow> pfid_t \<Rightarrow> (rc \<times> pfid_t \<times> sce) option" where
  "alloc4population s li fragn out_pfid =
     (let lun = luntbl s li
      in if l_fragmap lun = None then Some (SCE_ERROR, out_pfid, s)
         else if fragn \<ge> l_nr_frag lun then Some (SCE_ERROR, out_pfid, s)
         else if \<not> l_scehndl lun then Some (SCE_ERROR, out_pfid, s)
         else do {
           (r, pfid, s1) \<leftarrow> alloc_loop s out_pfid;
           if r = SCE_SUCCESS
           then do {
             (r2, s2) \<leftarrow> map_frag s1 li fragn pfid;
             if r2 = SCE_SUCCESS
             then do {
               let s3 = s2\<lparr>luntbl := upd_lun (luntbl s2) li (\<lambda>l. l\<lparr>l_nr_service := l_nr_service l + 1\<rparr>)\<rparr>;
               fl \<leftarrow> pfid2frag (cdevtbl s3) pfid;
               fr \<leftarrow> get_frag (cdevtbl s3) fl;
               Some (r2, pfid,
                 s3\<lparr>cdevtbl := put_frag (cdevtbl s3) fl (fr\<lparr>f_nr_service := f_nr_service fr + 1\<rparr>)\<rparr>)
             }
             else do { (_, s3) \<leftarrow> freefraglist_put s2 pfid; Some (r2, 0, s3) }
           }
           else Some (r, pfid, s1)
         })"

definition complete_population :: "sce \<Rightarrow> nat \<Rightarrow> u32 \<Rightarrow> (rc \<times> sce) option" where
  "complete_population s li fragn =
     (let lun = luntbl s li
      in case l_fragmap lun of
           None \<Rightarrow> Some (SCE_ERROR, s)
         | Some m \<Rightarrow>
             if fragn \<ge> l_nr_frag lun then Some (SCE_ERROR, s)
             else if \<not> l_scehndl lun then Some (SCE_ERROR, s)
             else do {
               fdesc \<leftarrow> rd m (unat fragn);
               if fdesc AND FRAGDESC_MAPPED = 0 then Some (SCE_ERROR, s)
               else case pfid2frag (cdevtbl s) fdesc of
                      None \<Rightarrow> Some (SCE_ERROR, s)
                    | Some fl \<Rightarrow> do {
                        fr \<leftarrow> get_frag (cdevtbl s) fl;
                        if fdesc AND FRAGDESC_VALID = 0 \<and> (f_next fr > 0 \<or> f_nr_service fr \<noteq> 1)
                        then Some (SCE_ERROR, s)
                        else do {
                          let s1 = (if fdesc AND FRAGDESC_VALID = 0
                            then s\<lparr>luntbl := set_fdesc (luntbl s) li (unat fragn) (fdesc OR FRAGDESC_VALID),
                                   cdevtbl := put_frag (cdevtbl s) fl (fr\<lparr>f_nr_service := 0\<rparr>)\<rparr>
                            else s);
                          let s2 = s1\<lparr>luntbl := upd_lun (luntbl s1) li (\<lambda>l. l\<lparr>l_nr_service := l_nr_service l - 1\<rparr>)\<rparr>;
                          (r, s3) \<leftarrow> lun_gc s2 li fl;
                          Some (if r \<noteq> SCE_SUCCESS then SCE_ERROR else SCE_SUCCESS, s3)
                        }
                      }
             })"

text \<open>For a valid descriptor (a secondary fragment) the link of the fragment is followed.\<close>

definition cancel_population :: "sce \<Rightarrow> nat \<Rightarrow> u32 \<Rightarrow> (rc \<times> sce) option" where
  "cancel_population s li fragn =
     (let lun = luntbl s li
      in case l_fragmap lun of
           None \<Rightarrow> Some (SCE_ERROR, s)
         | Some m \<Rightarrow>
             if fragn \<ge> l_nr_frag lun then Some (SCE_ERROR, s)
             else if \<not> l_scehndl lun then Some (SCE_ERROR, s)
             else do {
               fdesc \<leftarrow> rd m (unat fragn);
               if fdesc AND FRAGDESC_MAPPED = 0 then Some (SCE_ERROR, s)
               else case pfid2frag (cdevtbl s) fdesc of
                      None \<Rightarrow> Some (SCE_ERROR, s)
                    | Some fl \<Rightarrow> do {
                        fr \<leftarrow> get_frag (cdevtbl s) fl;
                        if fdesc AND FRAGDESC_VALID = 0 \<and> (f_next fr > 0 \<or> f_nr_service fr \<noteq> 1)
                           \<or> fdesc AND FRAGDESC_VALID \<noteq> 0 \<and> f_next fr = 0
                        then Some (SCE_ERROR, s)
                        else do {
                          s1 \<leftarrow> (if fdesc AND FRAGDESC_VALID = 0
                            then map_option snd (unmap_frag
                                   (s\<lparr>cdevtbl := put_frag (cdevtbl s) fl (fr\<lparr>f_nr_service := 0\<rparr>)\<rparr>) li fragn)
                            else map_option snd (freefraglist_put
                                   (s\<lparr>cdevtbl := put_frag (cdevtbl s) fl
                                       (fr\<lparr>f_next := 0, f_nr_service := f_nr_service fr - 1\<rparr>)\<rparr>) (f_next fr)));
                          let s2 = s1\<lparr>luntbl := upd_lun (luntbl s1) li (\<lambda>l. l\<lparr>l_nr_service := l_nr_service l - 1\<rparr>)\<rparr>;
                          lun_gc s2 li fl
                        }
                      }
             })"

text \<open>The policies. Both leave the caller's variables alone when nothing is found.\<close>

primrec choose_hot_loop :: "sce \<Rightarrow> nat list \<Rightarrow> u32 \<Rightarrow> rc \<times> u16 \<times> u32 \<Rightarrow> (rc \<times> u16 \<times> u32) option" where
  "choose_hot_loop s [] maxmiss res = Some res"
| "choose_hot_loop s (i # is) maxmiss res = do {
     (r, lunidx, fragn) \<leftarrow> misslog_get s (of_nat i) 0 0;
     if r \<noteq> SCE_SUCCESS then Some res
     else if lun_isvalididx (luntbl s) lunidx \<noteq> SCE_SUCCESS then choose_hot_loop s is maxmiss res
     else do {
       m \<leftarrow> l_fragmap (luntbl s (unat lunidx));
       fdesc \<leftarrow> rd m (unat fragn);
       if fdesc AND FRAGDESC_MAPPED \<noteq> 0 then choose_hot_loop s is maxmiss res
       else if FRAGDESC_DATA fdesc > maxmiss
            then choose_hot_loop s is (FRAGDESC_DATA fdesc) (SCE_SUCCESS, lunidx, fragn)
            else choose_hot_loop s is maxmiss res
     }
   }"

definition choose4population :: "sce \<Rightarrow> u16 \<Rightarrow> u32 \<Rightarrow> (rc \<times> u16 \<times> u32) option" where
  "choose4population s out_lunidx out_fragnum =
     choose_hot_loop s [0..<SCE_MISSWINDOW] 0 (SCE_ERROR, out_lunidx, out_fragnum)"

primrec choose_mru_loop :: "sce \<Rightarrow> nat list \<Rightarrow> rc \<times> u16 \<times> u32 \<Rightarrow> (rc \<times> u16 \<times> u32) option" where
  "choose_mru_loop s [] res = Some res"
| "choose_mru_loop s (i # is) res = do {
     (r, lunidx, fragn) \<leftarrow> misslog_get s (of_nat i) (fst (snd res)) (snd (snd res));
     if r \<noteq> SCE_SUCCESS then Some (r, lunidx, fragn)
     else if lun_isvalididx (luntbl s) lunidx \<noteq> SCE_SUCCESS then choose_mru_loop s is (r, lunidx, fragn)
     else do {
       m \<leftarrow> l_fragmap (luntbl s (unat lunidx));
       fdesc \<leftarrow> rd m (unat fragn);
       if fdesc AND FRAGDESC_MAPPED = 0 then Some (r, lunidx, fragn)
       else choose_mru_loop s is (r, lunidx, fragn)
     }
   }"

definition choose4population_mru :: "sce \<Rightarrow> u16 \<Rightarrow> u32 \<Rightarrow> (rc \<times> u16 \<times> u32) option" where
  "choose4population_mru s out_lunidx out_fragnum =
     choose_mru_loop s [0..<SCE_CACHEMISSLOGSIZE] (SCE_ERROR, out_lunidx, out_fragnum)"

section \<open>Allocation\<close>

text \<open>
  The loop ends after at most one eviction: an eviction leaves a fragment on the free list. The
  fragment taken is in transit, marked free and mapped by nobody.
\<close>

definition allocated :: "sce \<Rightarrow> rc \<times> pfid_t \<times> sce \<Rightarrow> bool" where
  "allocated s = (\<lambda>(r, p, s'). kept s s' \<and> (\<forall>i. pend s' i = pend s i) \<and>
     (if r = SCE_SUCCESS
      then p \<noteq> 0 \<and> loc_of p \<in> flocs (cdevtbl s') \<and> sce_inv {loc_of p} s'
           \<and> f_fragnum (frag_at (cdevtbl s') (loc_of p)) = FRAGNUM_FREE
           \<and> (view s' = view s \<or> (\<exists>x. view s' = (view s)(x := None)))
           \<and> (\<forall>i < 256. slack s i + srv_sum {loc_of p} (cdevtbl s') i \<le> unat (l_nr_service (luntbl s' i)))
      else sce_inv {} s' \<and> view s' = view s \<and> luntbl s' = luntbl s \<and> (\<forall>i. books s s' i)))"

lemma free_list_empty: "sce_inv X s \<Longrightarrow> freefraglist s = 0 \<Longrightarrow> nr_freefrag s = 0"
  using sce_inv_free by (fastforce simp: free_inv_def unat_eq_zero)

lemma alloc_get:
  assumes inv: "sce_inv {} s" and ne: "freefraglist s \<noteq> 0"
  shows "returns (alloc_loop s out) (\<lambda>x. allocated s x \<and> fst x = SCE_SUCCESS \<and> view (snd (snd x)) = view s)"
proof -
  obtain l s1 where get: "freefraglist_get s out = Some (SCE_SUCCESS, freefraglist s, s1)"
    "l = loc_of (freefraglist s)" "l \<in> flocs (cdevtbl s)" "\<not> in_use (frag_at (cdevtbl s) l)"
    "sce_inv (insert l {}) s1"
    and s1: "s1 = s\<lparr>freefraglist := f_next (frag_at (cdevtbl s) l),
       cdevtbl := put_frag (cdevtbl s) l ((frag_at (cdevtbl s) l)\<lparr>f_next := 0, f_fragnum := FRAGNUM_FREE\<rparr>),
       nr_freefrag := nr_freefrag s - 1\<rparr>"
    by (rule inv_freefraglist_get [OF inv ne])
  let ?f = "(frag_at (cdevtbl s) l)\<lparr>f_next := 0, f_fragnum := FRAGNUM_FREE\<rparr>"
  have "view s1 = view (s\<lparr>cdevtbl := put_frag (cdevtbl s) l ?f\<rparr>)"
    by (rule view_cong) (simp_all add: s1)
  also have "\<dots> = view s"
    by (rule view_put_other) (use mapped_frag(3) [OF inv] get(3,4) in auto)
  finally have view: "view s1 = view s" .
  have "kept s s1" by (simp add: s1 kept_def rest_def)
  moreover have "pend s1 i = pend s i" for i by (simp add: pend_def s1)
  moreover have "slack s i + srv_sum {l} (cdevtbl s1) i \<le> unat (l_nr_service (luntbl s1 i))" if "i < 256" for i
  proof -
    have "owned {l} (cdevtbl s1) i = owned {} (cdevtbl s) i"
    proof (rule set_eqI)
      fix k show "k \<in> owned {l} (cdevtbl s1) i \<longleftrightarrow> k \<in> owned {} (cdevtbl s) i"
        using get(3,4) by (cases "k = l") (simp_all add: owned_def s1)
    qed
    moreover have "k \<in> owned {} (cdevtbl s) i \<Longrightarrow> frag_at (cdevtbl s1) k = frag_at (cdevtbl s) k" for k
      using get(3,4) by (auto simp: owned_def s1)
    ultimately have "srv_sum {l} (cdevtbl s1) i = srv_sum {} (cdevtbl s) i" by (simp add: srv_sum_def)
    then show ?thesis using sce_inv_srv [OF inv] that by (simp add: slack_def s1 srv_inv_def)
  qed
  ultimately have "allocated s (SCE_SUCCESS, freefraglist s, s1)"
    using ne get(3,5) view by (simp add: allocated_def flip: get(2)) (simp add: s1)
  then show ?thesis
    using ne view by (subst alloc_loop.simps) (simp add: get(1) word_gt_0)
qed

lemma alloc_loop_correct:
  assumes inv: "sce_inv {} s"
  shows "returns (alloc_loop s out) (allocated s)"
proof (cases "freefraglist s = 0")
  case False
  show ?thesis by (rule returns_mono [OF alloc_get [OF inv False]]) simp
next
  case True
  have get: "freefraglist_get s out = Some (SCE_ERROR, out, s)" by (rule freefraglist_get_empty [OF True])
  obtain r2 s2 where ev: "evict_frag s = Some (r2, s2)" and post: "evicted s (r2, s2)"
    using evict_frag_correct [OF inv] by (auto simp: returns_iff)
  show ?thesis
  proof (cases "r2 = SCE_SUCCESS")
    case False
    show ?thesis
      using post False pend_books [of s s2] by (subst alloc_loop.simps) (auto simp: get ev allocated_def evicted_def)
  next
    case True
    let ?s2 = "s2\<lparr>nr_eviction := nr_eviction s2 + 1\<rparr>"
    obtain j n where p: "sce_inv {} ?s2" "kept s s2" "freefraglist ?s2 \<noteq> 0" "view s2 = (view s)((j, n) := None)"
        "\<And>i. books s s2 i"
      using post True by (auto simp: evicted_def)
    have "allocated s x" if x: "allocated ?s2 x \<and> fst x = SCE_SUCCESS \<and> view (snd (snd x)) = view ?s2" for x
    proof -
      obtain q s3 where e: "x = (SCE_SUCCESS, q, s3)" using x by (cases x) auto
      have "kept ?s2 s3" using x e by (simp add: allocated_def)
      then have "kept s s3" using p(2) kept_trans kept_nr_eviction by blast
      have "view s3 = (view s)((j, n) := None)" using x e p(4) by simp
      then have "\<exists>y. view s3 = (view s)(y := None)" by blast
      moreover have "pend s3 i = pend s i" for i
        using x e p(5) [of i] slack_cong(2) [of ?s2 s2] by (simp add: allocated_def books_def)
      moreover have "slack s i + srv_sum {loc_of q} (cdevtbl s3) i \<le> unat (l_nr_service (luntbl s3 i))" if "i < 256" for i
      proof -
        have "slack ?s2 i + srv_sum {loc_of q} (cdevtbl s3) i \<le> unat (l_nr_service (luntbl s3 i))"
          using x e that by (simp add: allocated_def)
        then show ?thesis using p(5) [of i] slack_cong(1) [of ?s2 s2] by (simp add: books_def)
      qed
      ultimately show ?thesis using x e \<open>kept s s3\<close> by (simp add: allocated_def)
    qed
    then have "returns (alloc_loop ?s2 out) (allocated s)"
      by (rule returns_mono [OF alloc_get [OF p(1,3)]])
    then show ?thesis
      using True by (subst alloc_loop.simps) (simp add: get ev)
  qed
qed

text \<open>
  A fragment within its LUN and not mapped is mapped, and its population holds one reference of
  the fragment and one of the LUN; what can be read is what could be read before, less the pages
  of an evicted fragment. Or nothing could be evicted, and the fragment maps are as before.
\<close>

definition populating :: "sce \<Rightarrow> nat \<Rightarrow> nat \<Rightarrow> rc \<times> pfid_t \<times> sce \<Rightarrow> bool" where
  "populating s li n = (\<lambda>(r, p, s'). sce_inv {} s' \<and> same_devs (cdevtbl s) (cdevtbl s') \<and>
     (if r = SCE_SUCCESS
      then (\<exists>d. fdesc_at (luntbl s') li n = Some d \<and> is_mapped d \<and> \<not> is_valid d \<and> loc_of d = loc_of p)
           \<and> (\<exists>vw V. (vw = view s \<or> (\<exists>x. vw = (view s)(x := None)))
                \<and> view s' = vw((li, n) := Some (False, loc_of p, V)) \<and> V \<subseteq> {..<256}
                \<and> (unat (l_nr_sctr (luntbl s li)) < 2 ^ 32 - 2048 \<longrightarrow>
                     V = {p. p < 256 \<and> lun_page (luntbl s li) n p}))
           \<and> (\<forall>j. hdr (luntbl s' j) = (if j = li
                then (hdr (luntbl s j))\<lparr>l_nr_service := l_nr_service (luntbl s j) + 1\<rparr> else hdr (luntbl s j)))
           \<and> (\<forall>j. map_option length (l_fragmap (luntbl s' j)) = map_option length (l_fragmap (luntbl s j)))
           \<and> (\<forall>i < 256. slack s i \<le> slack s' i \<and> pend s' i = (if i = li then insert n (pend s i) else pend s i))
      else view s' = view s \<and> luntbl s' = luntbl s \<and> (\<forall>i. books s s' i)))"

lemma alloc4population_correct:
  assumes inv: "sce_inv {} s" and li: "li < 256"
    and d: "fdesc_at (luntbl s) li (unat n) = Some d" "\<not> is_mapped d"
    and srv: "unat (l_nr_service (luntbl s li)) + 1 < 2 ^ 32"
  shows "returns (alloc4population s li n out) (populating s li (unat n))"
proof -
  let ?lu = "luntbl s li"
  obtain m where m: "l_fragmap ?lu = Some m" "unat n < length m" using d(1) by (auto simp: fdesc_at_eq_Some)
  have "lun_ok ?lu" using sce_inv_lun [OF inv] li by (simp add: lun_inv_def)
  then have lm: "\<not> l_nr_frag ?lu \<le> n" "l_scehndl ?lu"
    using m by (simp_all add: lun_ok_def word_le_nat_alt)
  obtain r p s1 where al: "alloc_loop s out = Some (r, p, s1)" and post: "allocated s (r, p, s1)"
    using alloc_loop_correct [OF inv, of out] by (auto simp: returns_iff)
  show ?thesis
  proof (cases "r = SCE_SUCCESS")
    case False
    then show ?thesis
      using m(1) lm al post
      by (auto simp: alloc4population_def allocated_def populating_def kept_def)
  next
    case True
    let ?l = "loc_of p" and ?v = "FRAGDESC_MAPPED OR (p AND FRAGDESC_DATAMASK)"
    have l: "?l \<in> flocs (cdevtbl s1)" and inv1: "sce_inv {?l} s1"
      and fr: "f_fragnum (frag_at (cdevtbl s1) ?l) = FRAGNUM_FREE"
      and k: "kept s s1" and vw: "view s1 = view s \<or> (\<exists>x. view s1 = (view s)(x := None))"
      using post True by (simp_all add: allocated_def)
    have d1: "fdesc_at (luntbl s1) li (unat n) = Some d" and h1: "\<And>j. hdr (luntbl s1 j) = hdr (luntbl s j)"
      and len1: "\<And>j. map_option length (l_fragmap (luntbl s1 j)) = map_option length (l_fragmap (luntbl s j))"
      using k d by (simp_all add: kept_def)
    have sv: "l_nr_service (luntbl s1 li) = l_nr_service ?lu" using hdr_fields(2) [OF h1] .
    obtain f where map: "map_frag s1 li n p = Some (SCE_SUCCESS,
        s1\<lparr>cdevtbl := put_frag (cdevtbl s1) ?l f, luntbl := set_fdesc (luntbl s1) li (unat n) ?v\<rparr>)"
      and f: "fresh_frag li n f"
      and fp: "\<And>k. k < 256 \<Longrightarrow> unat (l_nr_sctr (luntbl s1 li)) < 2 ^ 32 - 2048 \<Longrightarrow>
        page_valid f k \<longleftrightarrow> lun_page (luntbl s1 li) (unat n) k"
      by (rule map_frag_effect [OF sce_inv_dev [OF inv1] _ d1 d(2) l])
        (use sce_inv_lun [OF inv1] li in \<open>simp add: lun_inv_def\<close>, blast)
    let ?g = "\<lambda>l. l\<lparr>l_nr_service := l_nr_service l + 1\<rparr>" and ?f' = "f\<lparr>f_nr_service := 1\<rparr>"
    let ?s1' = "s1\<lparr>luntbl := upd_lun (luntbl s1) li ?g\<rparr>"
    let ?s4 = "s1\<lparr>cdevtbl := put_frag (cdevtbl s1) ?l ?f', luntbl := set_fdesc (upd_lun (luntbl s1) li ?g) li (unat n) ?v\<rparr>"
    have up: "unat (l_nr_service (luntbl s1 li) + 1) = unat (l_nr_service ?lu) + 1"
      using srv by (simp add: sv unat_inc)
    have "srv_sum {?l} (cdevtbl s1) li \<le> unat (l_nr_service (luntbl s1 li))"
      using sce_inv_srv [OF inv1] li by (simp add: srv_inv_def)
    then have sum1: "srv_sum {?l} (cdevtbl s1) li \<le> unat (l_nr_service ?lu)" by (simp add: sv)
    have inv1': "sce_inv {?l} ?s1'"
      by (rule inv_update_lun [OF inv1]) (use up sum1 d1 in \<open>auto simp: keeps_map_def fdesc_at_None\<close>)
    have d1': "fdesc_at (luntbl ?s1') li (unat n) = Some d" using d1 by (simp add: fdesc_at_upd_lun)
    have ok: "frag_ok (set_fdesc (luntbl ?s1') li (unat n) ?v) ?f'"
      using f li d1' by (auto simp: frag_ok_def fresh_frag_def desc_of_def pages_ok_def)
    have free: "unat FRAGNUM_FREE \<le> unat (f_fragnum (frag_at (cdevtbl s1) ?l))" by (simp add: fr)
    have "sce_inv ({?l} - {?l}) (?s1'\<lparr>cdevtbl := put_frag (cdevtbl ?s1') ?l ?f',
        luntbl := set_fdesc (luntbl ?s1') li (unat n) ?v\<rparr>)"
      by (rule inv_claim [OF inv1' _ _ _ li d1' d(2) _ _ _ _ ok])
        (use l f li up sum1 not_mapped_to [OF inv1' _ _ _ ] free in \<open>auto simp: fresh_frag_def\<close>)
    then have inv4: "sce_inv {} ?s4" by simp
    have e4: "fdesc_at (luntbl ?s4) li (unat n) = Some ?v" using d1' by simp
    have run: "alloc4population s li n out = Some (SCE_SUCCESS, p, ?s4)"
      using m(1) lm al True l f
      by (simp add: alloc4population_def map pfid2frag_loc [OF same_devs_dev_inv [OF same_devs_put_frag sce_inv_dev [OF inv1]]]
          upd_lun_set_fdesc fresh_frag_def)
    have vw4: "view ?s4 = (view s1)((li, unat n) := Some (False, ?l, pages_of f))"
    proof -
      have "view (?s1'\<lparr>cdevtbl := put_frag (cdevtbl ?s1') ?l ?f'\<rparr>) = view ?s1'"
        by (rule view_put_other) (use l not_mapped_to [OF inv1'] free in auto)
      moreover have "view ?s1' = view s1" by (rule view_keeps_map) (simp add: keeps_map_def)
      moreover have "view (?s1'\<lparr>cdevtbl := put_frag (cdevtbl ?s1') ?l ?f', luntbl := set_fdesc (luntbl ?s1') li (unat n) ?v\<rparr>)
          = (view (?s1'\<lparr>cdevtbl := put_frag (cdevtbl ?s1') ?l ?f'\<rparr>))((li, unat n) := Some (False, ?l, pages_of ?f'))"
        using view_set_fdesc [of "?s1'\<lparr>cdevtbl := put_frag (cdevtbl ?s1') ?l ?f'\<rparr>" li "unat n" ?v] d1' li l by simp
      ultimately show ?thesis by simp
    qed
    have pages: "pages_of f \<subseteq> {..<256}" by (auto simp: pages_of_def)
    have whole: "pages_of f = {p. p < 256 \<and> lun_page ?lu (unat n) p}" if "unat (l_nr_sctr ?lu) < 2 ^ 32 - 2048"
      using fp that hdr_fields(5) [OF h1 [of li]] by (auto simp: pages_of_def lun_page_def)
    have "hdr (luntbl ?s4 j) = (if j = li then (hdr (luntbl s j))\<lparr>l_nr_service := l_nr_service (luntbl s j) + 1\<rparr>
        else hdr (luntbl s j))" for j
    proof -
      have "hdr (luntbl ?s4 j) = (if j = li then (hdr (luntbl s1 j))\<lparr>l_nr_service := l_nr_service (luntbl s1 j) + 1\<rparr>
          else hdr (luntbl s1 j))"
        by (simp add: set_fdesc_def hdr_def)
      then show ?thesis using h1 sv by simp
    qed
    moreover have "map_option length (l_fragmap (luntbl ?s4 j)) = map_option length (l_fragmap (luntbl s j))" for j
      using len1 by (simp add: set_fdesc_def option.map_comp o_def)
    moreover have "same_devs (cdevtbl s) (cdevtbl ?s4)"
      using k by (simp add: kept_def) (blast intro: same_devs_trans same_devs_put_frag)
    moreover have "pend ?s4 i = (if i = li then insert (unat n) (pend s i) else pend s i)" for i
    proof -
      have "pend ?s4 i = (if i = li then insert (unat n) (pend s1 i) else pend s1 i)"
        using d1' by (auto simp: pend_def fdesc_at_upd_lun)
      then show ?thesis using post by (simp add: allocated_def)
    qed
    moreover have "slack s i \<le> slack ?s4 i" if i: "i < 256" for i
    proof -
      have "in_use ?f'"
        using f fdesc_at_bound(3) [OF sce_inv_lun [OF inv] li d(1)] by (simp add: fresh_frag_def in_use_def)
      then have "srv_sum {} (cdevtbl ?s4) i = srv_sum {?l} (cdevtbl s1) i + (if i = li then 1 else 0)"
        using l f li by (simp add: srv_sum_claimed fresh_frag_def)
      moreover have "slack s i + srv_sum {?l} (cdevtbl s1) i \<le> unat (l_nr_service (luntbl s1 i))"
        using post True i by (simp add: allocated_def)
      ultimately show ?thesis using up sv by (cases "i = li") (auto simp: slack_def)
    qed
    ultimately have "populating s li (unat n) (SCE_SUCCESS, p, ?s4)"
      unfolding populating_def using inv4 e4 vw4 vw pages whole by (simp del: fdesc_at_set_fdesc, blast)
    then show ?thesis using run by simp
  qed
qed

section \<open>Completion\<close>

lemma srv_pos:
  assumes inv: "sce_inv {} s" and li: "li < 256" and d: "fdesc_at (luntbl s) li n = Some d" "is_mapped d"
  shows "unat (f_nr_service (frag_at (cdevtbl s) (loc_of d))) \<le> unat (l_nr_service (luntbl s li))"
proof -
  have "loc_of d \<in> owned {} (cdevtbl s) li"
    using mapped_frag [OF inv li d] by (simp add: owned_def)
  then have "unat (f_nr_service (frag_at (cdevtbl s) (loc_of d))) \<le> srv_sum {} (cdevtbl s) li"
    by (rule srv_sum_member)
  also have "\<dots> \<le> unat (l_nr_service (luntbl s li))"
    using sce_inv_srv [OF inv] li by (simp add: srv_inv_def)
  finally show ?thesis .
qed

text \<open>A LUN header with one request less.\<close>

abbreviation (input) lun_dec :: "lun \<Rightarrow> lun" where
  "lun_dec \<equiv> \<lambda>l. l\<lparr>l_nr_service := l_nr_service l - 1\<rparr>"

text \<open>
  Completing the population of a fragment that is mapped and not yet valid: its pages can be
  read from now on.
\<close>

definition completing :: "sce \<Rightarrow> nat \<Rightarrow> nat \<Rightarrow> fragdesc_t \<Rightarrow> sce" where
  "completing s li n d = s\<lparr>
     cdevtbl := put_frag (cdevtbl s) (loc_of d) ((frag_at (cdevtbl s) (loc_of d))\<lparr>f_nr_service := 0\<rparr>),
     luntbl := upd_lun (set_fdesc (luntbl s) li n (d OR FRAGDESC_VALID)) li lun_dec\<rparr>"

lemma completing_inv:
  assumes inv: "sce_inv {} s" and li: "li < 256"
    and d: "fdesc_at (luntbl s) li n = Some d" "is_mapped d" "\<not> is_valid d"
  shows "sce_inv {} (completing s li n d)"
    and "view (completing s li n d) = (view s)((li, n) := Some (True, loc_of d, pages_of (frag_at (cdevtbl s) (loc_of d))))"
    and "fdesc_at (luntbl (completing s li n d)) li n = Some (d OR FRAGDESC_VALID)"
proof -
  let ?v = "d OR FRAGDESC_VALID" and ?f = "frag_at (cdevtbl s) (loc_of d)"
  let ?s1 = "s\<lparr>luntbl := set_fdesc (luntbl s) li n ?v\<rparr>"
  note mf = mapped_frag [OF inv li d(1,2)]
  have fok: "frag_ok (luntbl s) ?f"
    by (rule used_frag [OF inv mf(1) _ mf(3)]) simp_all
  then have sv: "f_nr_service ?f = 1" using mf(6) d(3) by (simp add: frag_ok_def)
  then have pos: "0 < unat (l_nr_service (luntbl s li))" using srv_pos [OF inv li d(1,2)] by simp
  then have "l_nr_service (luntbl s li) \<noteq> 0" by (simp add: unat_gt_0)
  then have dec: "unat (l_nr_service (luntbl s li) - 1) = unat (l_nr_service (luntbl s li)) - 1"
    by (rule unat_dec)
  have inv1: "sce_inv {} ?s1" by (rule inv_set_fdesc [OF inv li d(1)]) simp_all
  have d1: "fdesc_at (luntbl ?s1) li n = Some ?v" using d(1) by simp
  have ok: "frag_ok (luntbl ?s1) (?f\<lparr>f_nr_service := 0\<rparr>)"
    using fok mf(4,5) d(1) by (simp add: frag_ok_def desc_of_def pages_ok_def)
  have "sce_inv {} (?s1\<lparr>cdevtbl := put_frag (cdevtbl ?s1) (loc_of d) (?f\<lparr>f_nr_service := 0\<rparr>),
      luntbl := upd_lun (luntbl ?s1) li lun_dec\<rparr>)"
    by (rule inv_update_used [OF inv1])
      (use mf ok sv dec pos in \<open>simp_all add: keeps_map_def del: fdesc_at_set_fdesc\<close>)
  then show inv2: "sce_inv {} (completing s li n d)" by (simp add: completing_def)
  show "fdesc_at (luntbl (completing s li n d)) li n = Some ?v"
    using d(1) by (simp add: completing_def fdesc_at_upd_lun)
  let ?s2 = "?s1\<lparr>cdevtbl := put_frag (cdevtbl ?s1) (loc_of ?v) (?f\<lparr>f_nr_service := 0\<rparr>)\<rparr>"
  have "view (?s2\<lparr>luntbl := upd_lun (luntbl ?s2) li lun_dec\<rparr>) = view ?s2"
    by (rule view_keeps_map) (simp add: keeps_map_def)
  moreover have "view ?s2 = view ?s1"
    by (rule view_put_same [OF inv1 li d1]) (use d in simp_all)
  moreover have "view ?s1 = (view s)((li, n) := Some (True, loc_of d, pages_of ?f))"
    using view_set_fdesc [of s li n ?v] d li by simp
  moreover have "completing s li n d = ?s2\<lparr>luntbl := upd_lun (luntbl ?s2) li lun_dec\<rparr>"
    by (simp add: completing_def)
  ultimately show "view (completing s li n d) = (view s)((li, n) := Some (True, loc_of d, pages_of ?f))" by simp
qed

lemma population_guards:
  assumes inv: "sce_inv X s" and li: "li < 256" and d: "fdesc_at (luntbl s) li (unat n) = Some d" "is_mapped d"
  obtains m where "l_fragmap (luntbl s li) = Some m" "\<not> l_nr_frag (luntbl s li) \<le> n" "l_scehndl (luntbl s li)"
    "rd m (unat n) = Some d" "pfid2frag (cdevtbl s) d = Some (loc_of d)"
    "get_frag (cdevtbl s) (loc_of d) = Some (frag_at (cdevtbl s) (loc_of d))"
proof -
  obtain m where m: "l_fragmap (luntbl s li) = Some m" "unat n < length m" "d = m ! unat n"
    using d(1) by (auto simp: fdesc_at_eq_Some)
  have "lun_ok (luntbl s li)" using sce_inv_lun [OF inv] li by (simp add: lun_inv_def)
  then have "\<not> l_nr_frag (luntbl s li) \<le> n" "l_scehndl (luntbl s li)"
    using m by (simp_all add: lun_ok_def word_le_nat_alt)
  then show thesis using m mapped_frag(1,2) [OF inv li d] by (intro that [of m]) (simp_all add: rd_def)
qed

lemma complete_population_correct:
  assumes inv: "sce_inv {} s" and li: "li < 256"
    and d: "fdesc_at (luntbl s) li (unat n) = Some d" "is_mapped d" "\<not> is_valid d"
  shows "returns (complete_population s li n)
    (\<lambda>(r, s'). r = SCE_SUCCESS \<and> collected li (completing s li (unat n) d) s')"
proof -
  let ?f = "frag_at (cdevtbl s) (loc_of d)"
  obtain m where m: "l_fragmap (luntbl s li) = Some m" "\<not> l_nr_frag (luntbl s li) \<le> n" "l_scehndl (luntbl s li)"
    "rd m (unat n) = Some d" "pfid2frag (cdevtbl s) d = Some (loc_of d)"
    "get_frag (cdevtbl s) (loc_of d) = Some ?f"
    by (rule population_guards [OF inv li d(1,2)])
  note mf = mapped_frag [OF inv li d(1,2)]
  have "frag_ok (luntbl s) ?f" by (rule used_frag [OF inv mf(1) _ mf(3)]) simp_all
  then have sv: "f_nr_service ?f = 1" "f_next ?f = 0" using mf(6) d(3) by (simp_all add: frag_ok_def)
  note c = completing_inv [OF inv li d]
  have "returns (lun_gc (completing s li (unat n) d) li (loc_of (d OR FRAGDESC_VALID)))
      (\<lambda>(r, s'). r = SCE_SUCCESS \<and> collected li (completing s li (unat n) d) s')"
    by (rule lun_gc_correct [OF c(1) li c(3)]) (simp add: d(2))
  then obtain s' where "lun_gc (completing s li (unat n) d) li (loc_of d) = Some (SCE_SUCCESS, s')"
      "collected li (completing s li (unat n) d) s'"
    by (auto simp: returns_iff)
  then show ?thesis
    using m d sv by (simp add: complete_population_def Let_def is_mapped_def is_valid_def flip: completing_def)
qed

text \<open>A task whose fragment is not mapped any more is refused, and nothing changes.\<close>

lemma population_unmapped:
  assumes ok: "lun_ok (luntbl s li)"
    and d: "\<And>d. fdesc_at (luntbl s) li (unat n) = Some d \<Longrightarrow> \<not> is_mapped d"
  shows "complete_population s li n = Some (SCE_ERROR, s)" "cancel_population s li n = Some (SCE_ERROR, s)"
proof -
  have "l_fragmap (luntbl s li) = None \<or> (\<exists>m. l_fragmap (luntbl s li) = Some m \<and>
      (l_nr_frag (luntbl s li) \<le> n \<or> (\<exists>e. rd m (unat n) = Some e \<and> e AND FRAGDESC_MAPPED = 0)))"
  proof (cases "l_fragmap (luntbl s li)")
    case (Some m)
    then have "length m = unat (l_nr_frag (luntbl s li))" using ok by (simp add: lun_ok_def)
    then show ?thesis
      using Some d by (cases "unat n < length m") (auto simp: fdesc_at_eq_Some is_mapped_def word_le_nat_alt)
  qed simp
  then show "complete_population s li n = Some (SCE_ERROR, s)" "cancel_population s li n = Some (SCE_ERROR, s)"
    by (auto simp: complete_population_def cancel_population_def Let_def)
qed

text \<open>
  A task that is late: its fragment is valid already. Completing it takes one reference off the
  LUN, which must be there; cancelling it is refused.
\<close>

lemma complete_population_valid:
  assumes inv: "sce_inv {} s" and li: "li < 256"
    and d: "fdesc_at (luntbl s) li (unat n) = Some d" "is_mapped d" "is_valid d"
    and slack: "srv_sum {} (cdevtbl s) li < unat (l_nr_service (luntbl s li))"
  shows "returns (complete_population s li n)
    (\<lambda>(r, s'). r = SCE_SUCCESS \<and> collected li (s\<lparr>luntbl := upd_lun (luntbl s) li lun_dec\<rparr>) s')"
proof -
  let ?s2 = "s\<lparr>luntbl := upd_lun (luntbl s) li lun_dec\<rparr>"
  obtain m where m: "l_fragmap (luntbl s li) = Some m" "\<not> l_nr_frag (luntbl s li) \<le> n" "l_scehndl (luntbl s li)"
    "rd m (unat n) = Some d" "pfid2frag (cdevtbl s) d = Some (loc_of d)"
    "get_frag (cdevtbl s) (loc_of d) = Some (frag_at (cdevtbl s) (loc_of d))"
    by (rule population_guards [OF inv li d(1,2)])
  have "0 < unat (l_nr_service (luntbl s li))" using slack by simp
  then have "l_nr_service (luntbl s li) \<noteq> 0" by (simp add: unat_gt_0)
  then have dec: "unat (l_nr_service (luntbl s li) - 1) = unat (l_nr_service (luntbl s li)) - 1"
    by (rule unat_dec)
  have inv2: "sce_inv {} ?s2"
    by (rule inv_update_lun [OF inv]) (use m(1) dec slack in \<open>simp_all add: keeps_map_def\<close>)
  have d2: "fdesc_at (luntbl ?s2) li (unat n) = Some d" using d(1) by (simp add: fdesc_at_upd_lun)
  obtain s' where "lun_gc ?s2 li (loc_of d) = Some (SCE_SUCCESS, s')" "collected li ?s2 s'"
    using lun_gc_correct [OF inv2 li d2 d(2)] by (auto simp: returns_iff)
  then show ?thesis
    using m d(2,3) by (simp add: complete_population_def Let_def is_mapped_def is_valid_def)
qed

lemma cancel_population_valid:
  assumes inv: "sce_inv {} s" and li: "li < 256"
    and d: "fdesc_at (luntbl s) li (unat n) = Some d" "is_mapped d" "is_valid d"
  shows "cancel_population s li n = Some (SCE_ERROR, s)"
proof -
  obtain m where m: "l_fragmap (luntbl s li) = Some m" "\<not> l_nr_frag (luntbl s li) \<le> n" "l_scehndl (luntbl s li)"
    "rd m (unat n) = Some d" "pfid2frag (cdevtbl s) d = Some (loc_of d)"
    "get_frag (cdevtbl s) (loc_of d) = Some (frag_at (cdevtbl s) (loc_of d))"
    by (rule population_guards [OF inv li d(1,2)])
  note mf = mapped_frag [OF inv li d(1,2)]
  have "frag_ok (luntbl s) (frag_at (cdevtbl s) (loc_of d))" by (rule used_frag [OF inv mf(1) _ mf(3)]) simp_all
  then have "f_next (frag_at (cdevtbl s) (loc_of d)) = 0" by (simp add: frag_ok_def)
  then show ?thesis using m d(2,3) by (simp add: cancel_population_def Let_def is_mapped_def is_valid_def)
qed

section \<open>Cancellation\<close>

definition cancelling :: "sce \<Rightarrow> nat \<Rightarrow> nat \<Rightarrow> fragdesc_t \<Rightarrow> sce" where
  "cancelling s li n d = (let f = frag_at (cdevtbl s) (loc_of d) in s\<lparr>
     cdevtbl := put_frag (cdevtbl s) (loc_of d)
       (f\<lparr>f_nr_service := 0, f_fragnum := FRAGNUM_WITHINFREELIST, f_next := freefraglist s\<rparr>),
     freefraglist := d OR FRAGDESC_MAPPED, nr_freefrag := nr_freefrag s + 1,
     luntbl := upd_lun (set_fdesc (luntbl s) li n (f_nr_miss f AND FRAGDESC_DATAMASK)) li lun_dec\<rparr>)"

lemma cancel_unmap:
  assumes inv: "sce_inv {} s" and li: "li < 256"
    and d: "fdesc_at (luntbl s) li (unat n) = Some d" "is_mapped d" "\<not> is_valid d"
  defines "f \<equiv> frag_at (cdevtbl s) (loc_of d)"
  shows "\<exists>s1. unmap_frag (s\<lparr>cdevtbl := put_frag (cdevtbl s) (loc_of d) (f\<lparr>f_nr_service := 0\<rparr>)\<rparr>) li n
        = Some (SCE_SUCCESS, s1) \<and> sce_inv {} s1
      \<and> s1\<lparr>luntbl := upd_lun (luntbl s1) li lun_dec\<rparr> = cancelling s li (unat n) d"
proof -
  let ?s0 = "s\<lparr>cdevtbl := put_frag (cdevtbl s) (loc_of d) (f\<lparr>f_nr_service := 0\<rparr>)\<rparr>"
  let ?v = "f_nr_miss f AND FRAGDESC_DATAMASK"
  let ?t = "s\<lparr>luntbl := set_fdesc (luntbl s) li (unat n) ?v\<rparr>"
  note mf = mapped_frag [OF inv li d(1,2)]
  have invt: "sce_inv {loc_of d} ?t" by (rule inv_release [OF inv li d(1,2)]) simp
  have maps: "j = li \<and> k = unat n" if "j < 256" "fdesc_at (luntbl s) j k = Some e" "is_mapped e" "loc_of e = loc_of d" for j k e
    by (rule mapped_distinct [OF inv li d(1,2) that])
  have mapst: "loc_of e \<noteq> loc_of d" if e: "j < 256" "fdesc_at (luntbl ?t) j k = Some e" "is_mapped e" for j k e
  proof (cases "j = li \<and> k = unat n")
    case True
    then show ?thesis using e d(1) by auto
  next
    case False
    then have "fdesc_at (luntbl s) j k = Some e" using e(2) by (auto split: if_splits)
    then show ?thesis using maps [OF e(1) _ e(3)] False by blast
  qed
  have inv1: "sce_inv {loc_of d} (?t\<lparr>cdevtbl := put_frag (cdevtbl ?t) (loc_of d) (f\<lparr>f_nr_service := 0\<rparr>)\<rparr>)"
    by (rule inv_put_transit [OF invt]) (use mf(1) mapst in simp_all)
  have comm: "s\<lparr>luntbl := a, cdevtbl := c\<rparr> = s\<lparr>cdevtbl := c, luntbl := a\<rparr>" for a c by simp
  have inv1': "sce_inv {loc_of d} (s\<lparr>cdevtbl := put_frag (cdevtbl s) (loc_of d) (f\<lparr>f_nr_service := 0\<rparr>),
      luntbl := set_fdesc (luntbl s) li (unat n) ?v\<rparr>)"
    by (subst comm [symmetric]) (use inv1 in simp)
  have dev: "dev_inv (cdevtbl ?s0)"
    using same_devs_dev_inv [OF same_devs_put_frag sce_inv_dev [OF inv]] by simp
  have ok: "lun_ok (luntbl ?s0 li)" using sce_inv_lun [OF inv] li by (simp add: lun_inv_def)
  obtain s1 where s1: "unmap_frag ?s0 li n = Some (SCE_SUCCESS, s1)" "sce_inv {} s1"
    "s1 = ?s0\<lparr>cdevtbl := put_frag (cdevtbl ?s0) (loc_of d) ((frag_at (cdevtbl ?s0) (loc_of d))
          \<lparr>f_fragnum := FRAGNUM_WITHINFREELIST, f_next := freefraglist ?s0\<rparr>),
        freefraglist := d OR FRAGDESC_MAPPED, nr_freefrag := nr_freefrag ?s0 + 1,
        luntbl := set_fdesc (luntbl ?s0) li (unat n)
          (f_nr_miss (frag_at (cdevtbl ?s0) (loc_of d)) AND FRAGDESC_DATAMASK)\<rparr>"
  proof (rule unmap_frag_transit [OF dev ok, of n d "{}"])
    show "fdesc_at (luntbl ?s0) li (unat n) = Some d" using d(1) by simp
    show "is_mapped d" by (rule d(2))
    show "loc_of d \<in> flocs (cdevtbl ?s0)" "loc_of d \<notin> {}" using mf(1) by simp_all
    show "in_use (frag_at (cdevtbl ?s0) (loc_of d))" using mf(1,3) by (simp add: in_use_def f_def)
    show "f_nr_service (frag_at (cdevtbl ?s0) (loc_of d)) = 0" using mf(1) by simp
    show "sce_inv (insert (loc_of d) {}) (?s0\<lparr>luntbl := set_fdesc (luntbl ?s0) li (unat n)
        (f_nr_miss (frag_at (cdevtbl ?s0) (loc_of d)) AND FRAGDESC_DATAMASK)\<rparr>)"
      using inv1' mf(1) by simp
    show "j = li \<and> k = unat n" if "j < 256" "fdesc_at (luntbl ?s0) j k = Some e" "is_mapped e" "loc_of e = loc_of d" for j k e
      using maps that by simp
  qed blast
  have "s1\<lparr>luntbl := upd_lun (luntbl s1) li lun_dec\<rparr> = cancelling s li (unat n) d"
    using mf(1) by (simp add: s1(3) cancelling_def Let_def f_def)
  then show ?thesis using s1(1,2) by blast
qed

lemma cancelling_inv:
  fixes n :: u32
  assumes inv: "sce_inv {} s" and li: "li < 256"
    and d: "fdesc_at (luntbl s) li (unat n) = Some d" "is_mapped d" "\<not> is_valid d"
  shows "sce_inv {} (cancelling s li (unat n) d)" and "view (cancelling s li (unat n) d) = (view s)((li, unat n) := None)"
proof -
  let ?f = "frag_at (cdevtbl s) (loc_of d)"
  let ?f' = "?f\<lparr>f_nr_service := 0, f_fragnum := FRAGNUM_WITHINFREELIST, f_next := freefraglist s\<rparr>"
  let ?ct' = "put_frag (cdevtbl s) (loc_of d) ?f'" and ?s' = "cancelling s li (unat n) d"
  note mf = mapped_frag [OF inv li d(1,2)]
  have "frag_ok (luntbl s) ?f" by (rule used_frag [OF inv mf(1) _ mf(3)]) simp_all
  then have sv: "f_nr_service ?f = 1" using mf(6) d(3) by (simp add: frag_ok_def)
  obtain s1 where s1: "sce_inv {} s1" "s1\<lparr>luntbl := upd_lun (luntbl s1) li lun_dec\<rparr> = ?s'"
      and un: "unmap_frag (s\<lparr>cdevtbl := put_frag (cdevtbl s) (loc_of d) (?f\<lparr>f_nr_service := 0\<rparr>)\<rparr>) li n = Some (SCE_SUCCESS, s1)"
    using cancel_unmap [OF inv li d] by blast
  have ct1: "cdevtbl s1 = ?ct'" and hd1: "l_nr_service (luntbl s1 li) - 1 = l_nr_service (luntbl s li) - 1"
    and fm: "l_fragmap (luntbl s1 li) = l_fragmap (set_fdesc (luntbl s) li (unat n) (f_nr_miss ?f AND FRAGDESC_DATAMASK) li)"
    using arg_cong [OF s1(2), of cdevtbl] arg_cong [OF s1(2), of "\<lambda>s. l_nr_service (luntbl s li)"]
      arg_cong [OF s1(2), of "\<lambda>s. l_fragmap (luntbl s li)"]
    by (simp_all add: cancelling_def Let_def)
  have "srv_sum {} ?ct' li = srv_sum {loc_of d} (cdevtbl s) li"
    by (rule srv_sum_freed [OF mf(1)]) (simp add: in_use_def)
  moreover have "srv_sum {} (cdevtbl s) li = 1 + srv_sum {loc_of d} (cdevtbl s) li"
    using srv_sum_insert [of "loc_of d" "{}" "cdevtbl s" li] mf sv by (simp add: owned_def)
  moreover have "srv_sum {} (cdevtbl s) li \<le> unat (l_nr_service (luntbl s li))"
    using sce_inv_srv [OF inv] li by (simp add: srv_inv_def)
  moreover have "unat (l_nr_service (luntbl s li) - 1) = unat (l_nr_service (luntbl s li)) - 1"
    using calculation by (intro unat_dec) (auto simp: unat_eq_zero)
  ultimately have sum: "srv_sum {} (cdevtbl s1) li \<le> unat (l_nr_service (luntbl s1 li) - 1)"
    by (simp add: ct1 hd1)
  have "l_fragmap (luntbl s1 li) \<noteq> None" using d(1) fm by (auto simp: fdesc_at_eq_Some set_fdesc_def)
  then have "sce_inv {} (s1\<lparr>luntbl := upd_lun (luntbl s1) li lun_dec\<rparr>)"
    by (intro inv_update_lun [OF s1(1)]) (use sum in \<open>simp_all add: keeps_map_def\<close>)
  then show "sce_inv {} ?s'" by (simp only: s1(2))
  let ?v = "f_nr_miss ?f AND FRAGDESC_DATAMASK"
  let ?t = "s\<lparr>luntbl := set_fdesc (luntbl s) li (unat n) ?v\<rparr>"
  have vt: "view ?t = (view s)((li, unat n) := None)"
    using view_set_fdesc [of s li "unat n" ?v] d li by simp
  have "view (?t\<lparr>cdevtbl := put_frag (cdevtbl ?t) (loc_of d) ?f'\<rparr>) = view ?t"
    by (rule view_put_other)
      (use mf(1) d(1) mapped_distinct [OF inv li d(1,2)] in \<open>auto split: if_splits\<close>)
  moreover have "view (?t\<lparr>cdevtbl := ?ct', luntbl := upd_lun (luntbl ?t) li lun_dec\<rparr>) = view (?t\<lparr>cdevtbl := ?ct'\<rparr>)"
    using view_keeps_map [of lun_dec "?t\<lparr>cdevtbl := ?ct'\<rparr>" li] by (simp add: keeps_map_def)
  moreover have "view ?s' = view (?t\<lparr>cdevtbl := ?ct', luntbl := upd_lun (luntbl ?t) li lun_dec\<rparr>)"
    by (rule view_cong) (simp_all add: cancelling_def Let_def)
  ultimately show "view ?s' = (view s)((li, unat n) := None)" using vt by simp
qed

lemma cancel_population_correct:
  assumes inv: "sce_inv {} s" and li: "li < 256"
    and d: "fdesc_at (luntbl s) li (unat n) = Some d" "is_mapped d" "\<not> is_valid d"
  shows "returns (cancel_population s li n)
    (\<lambda>(r, s'). r = SCE_SUCCESS \<and> collected li (cancelling s li (unat n) d) s')"
proof -
  let ?f = "frag_at (cdevtbl s) (loc_of d)" and ?s' = "cancelling s li (unat n) d"
  obtain m where m: "l_fragmap (luntbl s li) = Some m" "\<not> l_nr_frag (luntbl s li) \<le> n" "l_scehndl (luntbl s li)"
    "rd m (unat n) = Some d" "pfid2frag (cdevtbl s) d = Some (loc_of d)"
    "get_frag (cdevtbl s) (loc_of d) = Some ?f"
    by (rule population_guards [OF inv li d(1,2)])
  note mf = mapped_frag [OF inv li d(1,2)]
  have "frag_ok (luntbl s) ?f" by (rule used_frag [OF inv mf(1) _ mf(3)]) simp_all
  then have sv: "f_nr_service ?f = 1" "f_next ?f = 0" using mf(6) d(3) by (simp_all add: frag_ok_def)
  obtain s1 where s1: "unmap_frag (s\<lparr>cdevtbl := put_frag (cdevtbl s) (loc_of d) (?f\<lparr>f_nr_service := 0\<rparr>)\<rparr>) li n
      = Some (SCE_SUCCESS, s1)" "s1\<lparr>luntbl := upd_lun (luntbl s1) li lun_dec\<rparr> = ?s'"
    using cancel_unmap [OF inv li d] by blast
  have "returns (lun_gc ?s' li (loc_of d)) (\<lambda>(r, s'). r = SCE_SUCCESS \<and> collected li ?s' s')"
    by (rule lun_gc_free [OF cancelling_inv(1) [OF inv li d] li])
      (use m(1) mf(1) in \<open>simp_all add: cancelling_def Let_def in_use_def\<close>)
  then show ?thesis
    using m d(2,3) sv s1 by (simp add: cancel_population_def Let_def is_mapped_def is_valid_def)
qed

section \<open>The choice\<close>

text \<open>
  The misses the policy looks at: the most recent ones, up to the first whose LUN cannot be
  served. A miss is a candidate while its fragment is not mapped; its heat is the miss count.
\<close>

definition log_valid :: "sce \<Rightarrow> u16 \<times> u32 \<Rightarrow> bool" where
  "log_valid s e \<longleftrightarrow> lun_isvalididx (luntbl s) (fst e) = SCE_SUCCESS"

definition log_range :: "sce \<Rightarrow> nat \<Rightarrow> nat \<Rightarrow> (u16 \<times> u32) list" where
  "log_range s i j = takeWhile (log_valid s) (map (\<lambda>k. the (log_entry s k)) [i..<min j (unat (misslog_size s))])"

definition log_desc :: "sce \<Rightarrow> u16 \<times> u32 \<Rightarrow> fragdesc_t" where
  "log_desc s e = the (fdesc_at (luntbl s) (unat (fst e)) (unat (snd e)))"

definition candidate :: "sce \<Rightarrow> u16 \<times> u32 \<Rightarrow> bool" where
  "candidate s e \<longleftrightarrow> \<not> is_mapped (log_desc s e)"

definition heat :: "sce \<Rightarrow> u16 \<times> u32 \<Rightarrow> u32" where
  "heat s e = FRAGDESC_DATA (log_desc s e)"

text \<open>The search as a function on the list of misses.\<close>

primrec hottest :: "sce \<Rightarrow> (u16 \<times> u32) list \<Rightarrow> u32 \<Rightarrow> rc \<times> u16 \<times> u32 \<Rightarrow> rc \<times> u16 \<times> u32" where
  "hottest s [] mx res = res"
| "hottest s (e # es) mx res =
     (if candidate s e \<and> heat s e > mx then hottest s es (heat s e) (SCE_SUCCESS, e) else hottest s es mx res)"

lemma log_range_step:
  assumes "i < j"
  shows "log_range s i j =
    (case log_entry s i of None \<Rightarrow> [] | Some e \<Rightarrow> if log_valid s e then e # log_range s (Suc i) j else [])"
proof (cases "i < unat (misslog_size s)")
  case False
  then show ?thesis by (simp add: log_range_def log_entry_def)
next
  case True
  then obtain e where e: "log_entry s i = Some e" by (auto simp: log_entry_def Let_def)
  have "[i..<min j (unat (misslog_size s))] = i # [Suc i..<min j (unat (misslog_size s))]"
    using True assms by (simp add: upt_conv_Cons)
  then show ?thesis by (simp add: log_range_def e)
qed

lemma choose_hot_loop_eq:
  assumes inv: "sce_inv X s" and "j < 2 ^ 32"
  shows "i \<le> j \<Longrightarrow> choose_hot_loop s [i..<j] mx res = Some (hottest s (log_range s i j) mx res)"
proof (induction "j - i" arbitrary: i mx res)
  case 0
  then show ?case by (simp add: log_range_def)
next
  case (Suc k)
  then have ij: "i < j" and k: "k = j - Suc i" by simp_all
  have up: "[i..<j] = i # [Suc i..<j]" using ij by (rule upt_conv_Cons)
  have IH: "choose_hot_loop s [Suc i..<j] m r = Some (hottest s (log_range s (Suc i) j) m r)" for m r
    using Suc.hyps(1) [OF k] ij by simp
  have i32: "i < 2 ^ 32" using ij assms(2) by simp
  show ?case
  proof (cases "log_entry s i")
    case None
    then show ?thesis using misslog_get_run [OF inv i32] ij by (simp add: up log_range_step)
  next
    case (Some e)
    obtain l n where e: "e = (l, n)" by (cases e)
    show ?thesis
    proof (cases "lun_isvalididx (luntbl s) l = SCE_SUCCESS")
      case False
      then show ?thesis
        using misslog_get_run [OF inv i32] ij Some by (simp add: up log_range_step e log_valid_def)
    next
      case True
      obtain d where d: "unat l < 256" "fdesc_at (luntbl s) (unat l) (unat n) = Some d"
        by (rule log_entry_bound [OF inv Some [unfolded e] True])
      obtain m where m: "l_fragmap (luntbl s (unat l)) = Some m" "rd m (unat n) = Some d"
        using d(2) by (auto simp: fdesc_at_def split: Option.bind_splits)
      have h: "log_desc s e = d" using d(2) by (simp add: log_desc_def e)
      show ?thesis
        using misslog_get_run [OF inv i32] ij Some True m h
        by (simp add: up log_range_step e log_valid_def IH candidate_def heat_def is_mapped_def)
    qed
  qed
qed

lemma hottest_result:
  "hottest s es mx res =
    (if \<exists>e \<in> set es. candidate s e \<and> heat s e > mx
     then (SCE_SUCCESS, snd (hottest s es mx res)) else res)"
proof (induction es arbitrary: mx res)
  case Nil
  show ?case by simp
next
  case (Cons e es)
  show ?case
    using Cons.IH [of "heat s e" "(SCE_SUCCESS, e)"] Cons.IH [of mx res] by (auto split: if_splits)
qed

lemma hottest_max:
  "\<exists>e \<in> set es. candidate s e \<and> heat s e > mx \<Longrightarrow>
    snd (hottest s es mx res) \<in> set es \<and> candidate s (snd (hottest s es mx res))
    \<and> mx < heat s (snd (hottest s es mx res))
    \<and> (\<forall>e \<in> set es. candidate s e \<longrightarrow> heat s e \<le> heat s (snd (hottest s es mx res)))"
proof (induction es arbitrary: mx res)
  case Nil
  then show ?case by simp
next
  case (Cons e es)
  show ?case
  proof (cases "candidate s e \<and> heat s e > mx")
    case False
    then have ex: "\<exists>x \<in> set es. candidate s x \<and> heat s x > mx" using Cons.prems by auto
    then show ?thesis using Cons.IH [OF ex, of res] False by (auto simp: not_less)
  next
    case True
    show ?thesis
    proof (cases "\<exists>x \<in> set es. candidate s x \<and> heat s x > heat s e")
      case True2: True
      show ?thesis
        using Cons.IH [OF True2, of "(SCE_SUCCESS, e)"] True by auto
    next
      case False
      then have "hottest s es (heat s e) (SCE_SUCCESS, e) = (SCE_SUCCESS, e)"
        using hottest_result [of s es "heat s e" "(SCE_SUCCESS, e)"] by (simp only: if_False)
      then show ?thesis using True False by (auto simp: not_less)
    qed
  qed
qed

lemma choose4population_eq:
  assumes "sce_inv X s"
  shows "choose4population s lo fo = Some (hottest s (log_range s 0 100) 0 (SCE_ERROR, lo, fo))"
  using choose_hot_loop_eq [OF assms, of 100 0] by (simp add: choose4population_def)

lemma log_range_valid:
  assumes inv: "sce_inv X s" and e: "e \<in> set (log_range s i j)"
  obtains "unat (fst e) < 256" "l_fragmap (luntbl s (unat (fst e))) \<noteq> None"
    "\<not> l_waiting4deletion (luntbl s (unat (fst e)))"
    "fdesc_at (luntbl s) (unat (fst e)) (unat (snd e)) = Some (log_desc s e)"
proof -
  have v: "log_valid s e" using e set_takeWhileD by (fastforce simp: log_range_def)
  have "e \<in> set (map (\<lambda>k. the (log_entry s k)) [i..<min j (unat (misslog_size s))])"
    using e set_takeWhileD by (fastforce simp: log_range_def)
  then obtain k where k: "e = the (log_entry s k)" "k < unat (misslog_size s)" by auto
  then have "log_entry s k = Some (fst e, snd e)" by (auto simp: log_entry_def Let_def)
  moreover have "lun_isvalididx (luntbl s) (fst e) = SCE_SUCCESS" using v by (simp add: log_valid_def)
  ultimately obtain d where "fdesc_at (luntbl s) (unat (fst e)) (unat (snd e)) = Some d"
    by (rule log_entry_bound [OF inv])
  then show thesis
    using that v by (auto simp: log_valid_def lun_isvalididx_iff log_desc_def)
qed

section \<open>Properties\<close>

text \<open>
  C38: the choice of the fragment to populate looks at the last 100 misses, up to the first of a
  LUN that cannot be served; it takes one with the highest miss count among those that are not
  mapped and have one, and fails only when there is none.
\<close>

lemma choose4population_hottest:
  assumes "sce_inv X s"
  shows "returns (choose4population s lo fo) (\<lambda>(r, e). 
    if \<exists>e \<in> set (log_range s 0 100). candidate s e \<and> heat s e > 0
    then r = SCE_SUCCESS \<and> e \<in> set (log_range s 0 100) \<and> candidate s e
      \<and> (\<forall>x \<in> set (log_range s 0 100). candidate s x \<longrightarrow> heat s x \<le> heat s e)
    else r = SCE_ERROR \<and> e = (lo, fo))"
  using hottest_result [of s "log_range s 0 100" 0 "(SCE_ERROR, lo, fo)"]
    hottest_max [of "log_range s 0 100" s 0 "(SCE_ERROR, lo, fo)"]
  by (auto simp: choose4population_eq [OF assms] split: if_splits)

lemma choose4population_hottest_witness:
  "returns (choose4population (example True 0) 0 0) (\<lambda>(r, e). 
    if \<exists>e \<in> set (log_range (example True 0) 0 100). candidate (example True 0) e \<and> heat (example True 0) e > 0
    then r = SCE_SUCCESS \<and> e \<in> set (log_range (example True 0) 0 100) \<and> candidate (example True 0) e
      \<and> (\<forall>x \<in> set (log_range (example True 0) 0 100). candidate (example True 0) x \<longrightarrow>
            heat (example True 0) x \<le> heat (example True 0) e)
    else r = SCE_ERROR \<and> e = (0, 0))"
  by (rule choose4population_hottest [OF sce_wf_inv [OF example_wf]]) simp

end
