(* ===== verification/Sce_Interface.thy ===== *)
theory Sce_Interface
  imports Sce_Cachedev Sce_Population
begin

text \<open>
  \<^verbatim>\<open>src/sce_interface.c\<close>: the functions the rest of the module calls. A device or LUN handle is
  the index of its slot and \<open>None\<close> for NULL; an output argument that may be NULL is passed in and
  out as an option. The engine handle is never NULL here, and the spin locks, under which each
  function runs as one step, carry no data.
\<close>

section \<open>Configuration\<close>

definition sce_zero :: sce where
  "sce_zero = \<lparr>nr_cdev = 0, cdevtbl = \<lambda>_. cdev_zero, nr_lun = 0, luntbl = \<lambda>_. lun_zero, nr_frag = 0,
     nr_freefrag = 0, freefraglist = 0, nr_hit = 0, nr_miss = 0, nr_eviction = 0, arm = 0,
     misslog_fragnum = \<lambda>_. 0, misslog_lunidx = \<lambda>_. 0, misslog_head = 0, misslog_size = 0\<rparr>"

definition sce_create :: "bool \<Rightarrow> sce option" where
  "sce_create kmalloc_ok = (if kmalloc_ok then Some sce_zero else None)"

text \<open>What is left of the tables when the structure is freed.\<close>

definition sce_destroy :: "sce \<Rightarrow> rc \<times> sce" where
  "sce_destroy s =
     (let s1 = fold (\<lambda>i s. s\<lparr>cdevtbl := (cdevtbl s)(i := snd (cdev_destroy (cdevtbl s i)))\<rparr>) [0..<SCE_MAXCDEV] s;
          s2 = fold (\<lambda>i s. s\<lparr>luntbl := upd_lun (luntbl s) i lun_destroy\<rparr>) [0..<SCE_MAXLUN] s1
      in (SCE_SUCCESS, s2))"

definition sce_addcdev :: "bool \<Rightarrow> sce \<Rightarrow> sector_t \<Rightarrow> ptr \<Rightarrow> (nat option \<times> sce) option" where
  "sce_addcdev vmalloc_ok s nr_sctr cdctx =
     (if nr_sctr = 0 \<or> unat (nr_cdev s) \<ge> SCE_MAXCDEV then Some (None, s)
      else if cdev_search s cdctx \<noteq> None then Some (None, s)
      else case List.find (\<lambda>d. c_fragtbl (cdevtbl s d) = None) [0..<SCE_MAXCDEV] of
             None \<Rightarrow> Some (None, s)
           | Some dn \<Rightarrow>
               (case cdev_init vmalloc_ok (cdevtbl s dn) nr_sctr of
                  (r, cd) \<Rightarrow>
                    if r = SCE_SUCCESS
                    then do {
                      let cd1 = cd\<lparr>c_cdevctx := cdctx\<rparr>;
                      let s1 = s\<lparr>cdevtbl := (cdevtbl s)(dn := cd1), nr_cdev := nr_cdev s + 1,
                                 nr_frag := nr_frag s + c_nr_frag cd1\<rparr>;
                      s2 \<leftarrow> for_each (map of_nat (rev [0..<unat (c_nr_frag cd1)]))
                              (\<lambda>fragn s. map_option snd (freefraglist_put s (SCE_PFID (of_nat dn) fragn))) s1;
                      Some (Some dn, s2)
                    }
                    else Some (None, s\<lparr>cdevtbl := (cdevtbl s)(dn := cd)\<rparr>)))"

definition sce_rmcdev :: "sce \<Rightarrow> nat option \<Rightarrow> (rc \<times> sce) option" where
  "sce_rmcdev s devhndl =
     (case devhndl of
        None \<Rightarrow> Some (SCE_ERROR, s)
      | Some dn \<Rightarrow>
          if \<not> c_scehndl (cdevtbl s dn) then Some (SCE_ERROR, s)
          else do {
            bug_on (dn \<ge> SCE_MAXCDEV);
            (_, s1) \<leftarrow> freefraglist_rmcdev s (of_nat dn);
            s2 \<leftarrow> for_each [0..<SCE_MAXLUN]
                    (\<lambda>i s. if l_fragmap (luntbl s i) \<noteq> None
                           then map_option snd (lun_rmcdev s i (of_nat dn)) else Some s) s1;
            Some (SCE_SUCCESS, s2\<lparr>nr_cdev := nr_cdev s2 - 1,
              nr_frag := nr_frag s2 - c_nr_frag (cdevtbl s2 dn),
              cdevtbl := (cdevtbl s2)(dn := snd (cdev_destroy (cdevtbl s2 dn)))\<rparr>)
          })"

definition sce_addlun :: "bool \<Rightarrow> sce \<Rightarrow> sector_t \<Rightarrow> ptr \<Rightarrow> nat option \<times> sce" where
  "sce_addlun vmalloc_ok s nr_sctr lunctx =
     (if nr_sctr = 0 then (None, s)
      else case List.find (\<lambda>i. l_fragmap (luntbl s i) = None) [0..<SCE_MAXLUN] of
             None \<Rightarrow> (None, s)
           | Some i \<Rightarrow>
               (case lun_init vmalloc_ok (luntbl s i) nr_sctr of
                  (r, lun) \<Rightarrow>
                    if r = SCE_SUCCESS
                    then (Some i, s\<lparr>luntbl := (luntbl s)(i := lun\<lparr>l_lunctx := lunctx\<rparr>), nr_lun := nr_lun s + 1\<rparr>)
                    else (None, s\<lparr>luntbl := (luntbl s)(i := lun)\<rparr>)))"

definition sce_rmlun :: "sce \<Rightarrow> nat option \<Rightarrow> (rc \<times> sce) option" where
  "sce_rmlun s lunhndl =
     (case lunhndl of
        None \<Rightarrow> Some (SCE_ERROR, s)
      | Some li \<Rightarrow>
          if \<not> l_scehndl (luntbl s li) then Some (SCE_ERROR, s)
          else if l_fragmap (luntbl s li) = None then Some (SCE_ERROR, s)
          else if l_nr_service (luntbl s li) > 0
               then Some (SCE_SUCCESS,
                 s\<lparr>luntbl := upd_lun (luntbl s) li (\<lambda>l. l\<lparr>l_waiting4deletion := True\<rparr>)\<rparr>)
               else lun_purge s li)"

section \<open>Reads and writes\<close>

definition lock_lun :: "sce \<Rightarrow> nat option \<Rightarrow> sector_t \<Rightarrow> u32 \<Rightarrow> bool \<Rightarrow> nat option" where
  "lock_lun s lunhndl sctrnum nr_sctr svcchk =
     (case lunhndl of
        None \<Rightarrow> None
      | Some li \<Rightarrow>
          let lun = luntbl s li
          in if \<not> l_scehndl lun then None
             else if l_fragmap lun = None \<or> nr_sctr = 0 \<or> sctrnum + ucast nr_sctr > l_nr_sctr lun then None
             else if svcchk \<and> lun_is_serviceable lun \<noteq> SCE_SUCCESS then None
             else Some li)"

definition stats_upd :: "nat \<Rightarrow> (lun_stats \<Rightarrow> lun_stats) \<Rightarrow> sce \<Rightarrow> sce" where
  "stats_upd li g s = s\<lparr>luntbl := upd_lun (luntbl s) li (\<lambda>l. l\<lparr>l_stats := g (l_stats l)\<rparr>)\<rparr>"

definition first_page :: "sector_t \<Rightarrow> sector_t" where
  "first_page sctrnum = sctrnum div SCE_SCTRPERPAGE"

definition last_page :: "sector_t \<Rightarrow> u32 \<Rightarrow> sector_t" where
  "last_page sctrnum nr_sctr = (sctrnum + ucast nr_sctr - 1) div SCE_SCTRPERPAGE"

definition sce_get4read ::
  "sce \<Rightarrow> nat option \<Rightarrow> sector_t \<Rightarrow> u32 \<Rightarrow> sce_fmap_t option \<Rightarrow> (rc \<times> sce_fmap_t option \<times> sce) option" where
  "sce_get4read s lunhndl sctrnum nr_sctr out_fmap =
     (case out_fmap of
        None \<Rightarrow> Some (SCE_ERROR, None, s)
      | Some out \<Rightarrow>
     (case lock_lun s lunhndl sctrnum nr_sctr True of
        None \<Rightarrow> Some (SCE_ERROR, Some out, s)
      | Some li \<Rightarrow> do {
          let s1 = stats_upd li (\<lambda>st. st\<lparr>reads := reads st + 1, read_sctrs := read_sctrs st + ucast nr_sctr\<rparr>) s;
          let firstpg = first_page sctrnum;
          let lastpg = last_page sctrnum nr_sctr;
          let fragn = (ucast (firstpg div SCE_PAGEPERFRAG) :: u32);
          let pgoff = (ucast (firstpg mod SCE_PAGEPERFRAG) :: u32);
          let pgcnt = (ucast (lastpg - firstpg + 1) :: u32);
          if pgoff + pgcnt > SCE_PAGEPERFRAG then Some (SCE_ERROR, Some out, s1)
          else do {
            m \<leftarrow> l_fragmap (luntbl s1 li);
            fdesc \<leftarrow> rd m (unat fragn);
            (ret, out1, miss, s2) \<leftarrow>
              (if fdesc AND FRAGDESC_MAPPED = 0
               then Some (SCE_ERROR, out, True,
                      s1\<lparr>luntbl := set_fdesc (luntbl s1) li (unat fragn) (FRAGDESC_INC fdesc)\<rparr>)
               else do {
                 fl \<leftarrow> pfid2frag (cdevtbl s1) fdesc;
                 fr \<leftarrow> get_frag (cdevtbl s1) fl;
                 let out1 = pfid2fmap (cdevtbl s1) fdesc out;
                 v \<leftarrow> (if fdesc AND FRAGDESC_VALID \<noteq> 0 then frag_isvalid fr pgoff pgcnt else Some SCE_ERROR);
                 if v = SCE_SUCCESS
                 then Some (SCE_SUCCESS, out1, False,
                   s1\<lparr>cdevtbl := put_frag (cdevtbl s1) fl
                        (fr\<lparr>f_nr_hit := f_nr_hit fr + 1, f_nr_service := f_nr_service fr + 1,
                            f_nr_ref := (if f_nr_ref fr < SCE_REFCEILING then f_nr_ref fr + 1 else f_nr_ref fr)\<rparr>),
                      luntbl := upd_lun (luntbl s1) li (\<lambda>l. l\<lparr>l_nr_service := l_nr_service l + 1\<rparr>),
                      nr_hit := nr_hit s1 + 1\<rparr>)
                 else Some (SCE_ERROR, out1, True,
                   s1\<lparr>cdevtbl := put_frag (cdevtbl s1) fl (fr\<lparr>f_nr_miss := f_nr_miss fr + 1\<rparr>)\<rparr>)
               });
            if miss
            then do {
              (_, s3) \<leftarrow> misslog_put (s2\<lparr>nr_miss := nr_miss s2 + 1\<rparr>) (GET_LUNIDX li) fragn;
              Some (ret, Some out1, s3)
            }
            else Some (ret, Some out1, stats_upd li (\<lambda>st. st\<lparr>read_hits := read_hits st + 1\<rparr>) s2)
          }
        }))"

definition sce_put4read :: "sce \<Rightarrow> nat option \<Rightarrow> sector_t \<Rightarrow> u32 \<Rightarrow> (rc \<times> sce) option" where
  "sce_put4read s lunhndl sctrnum nr_sctr =
     (case lock_lun s lunhndl sctrnum nr_sctr False of
        None \<Rightarrow> Some (SCE_ERROR, s)
      | Some li \<Rightarrow>
          let fragn = (ucast (sctrnum div SCE_SCTRPERFRAG) :: u32)
          in if (sctrnum + ucast nr_sctr - 1) div SCE_SCTRPERFRAG \<noteq> ucast fragn then Some (SCE_ERROR, s)
             else do {
               m \<leftarrow> l_fragmap (luntbl s li);
               fdesc \<leftarrow> rd m (unat fragn);
               if fdesc AND FRAGDESC_MAPPED = 0 \<or> fdesc AND FRAGDESC_VALID = 0 then Some (SCE_ERROR, s)
               else case pfid2frag (cdevtbl s) fdesc of
                      None \<Rightarrow> Some (SCE_ERROR, s)
                    | Some fl \<Rightarrow> do {
                        fr \<leftarrow> get_frag (cdevtbl s) fl;
                        if f_nr_service fr = 0 \<or> l_nr_service (luntbl s li) = 0 then Some (SCE_ERROR, s)
                        else do {
                          let s1 = s\<lparr>cdevtbl := put_frag (cdevtbl s) fl (fr\<lparr>f_nr_service := f_nr_service fr - 1\<rparr>),
                                     luntbl := upd_lun (luntbl s) li (\<lambda>l. l\<lparr>l_nr_service := l_nr_service l - 1\<rparr>)\<rparr>;
                          s2 \<leftarrow> (if f_nr_service fr - 1 = 0 then map_option snd (lun_gc s1 li fl) else Some s1);
                          Some (SCE_SUCCESS, s2)
                        }
                      }
             })"

text \<open>The loop of \<^verbatim>\<open>sce_invalidate\<close> over the fragments; the first result counts the mapped ones.\<close>

partial_function (option) inval_loop :: "sce \<Rightarrow> nat \<Rightarrow> u32 \<Rightarrow> u32 \<Rightarrow> u32 \<Rightarrow> nat \<Rightarrow> (nat \<times> sce) option" where
  [code]: "inval_loop s li fragn pgoff count wh =
     (if count > 0
      then do {
        let pgcnt = (if SCE_PAGEPERFRAG - pgoff > count then count else SCE_PAGEPERFRAG - pgoff);
        m \<leftarrow> l_fragmap (luntbl s li);
        fdesc \<leftarrow> rd m (unat fragn);
        if fdesc AND FRAGDESC_MAPPED \<noteq> 0
        then (case pfid2frag (cdevtbl s) fdesc of
                None \<Rightarrow> Some (wh, s)
              | Some fl \<Rightarrow> do {
                  fr \<leftarrow> get_frag (cdevtbl s) fl;
                  (n, fr1) \<leftarrow> frag_invalidate fr pgoff pgcnt;
                  let s1 = stats_upd li
                        (\<lambda>st. st\<lparr>valid_sctrs := valid_sctrs st - ucast ((word_of_int n :: u32) * SCE_SCTRPERPAGE)\<rparr>)
                        (s\<lparr>cdevtbl := put_frag (cdevtbl s) fl fr1\<rparr>);
                  s2 \<leftarrow> (if fdesc AND FRAGDESC_VALID \<noteq> 0 then map_option snd (lun_gc s1 li fl) else Some s1);
                  inval_loop s2 li (fragn + 1) 0 (count - pgcnt) (wh + 1)
                })
        else inval_loop s li (fragn + 1) 0 (count - pgcnt) wh
      }
      else Some (wh, s))"

definition sce_invalidate :: "sce \<Rightarrow> nat option \<Rightarrow> sector_t \<Rightarrow> u32 \<Rightarrow> (rc \<times> sce) option" where
  "sce_invalidate s lunhndl sctrnum nr_sctr =
     (case lunhndl of
        None \<Rightarrow> Some (SCE_ERROR, s)
      | Some li \<Rightarrow>
          if \<not> l_scehndl (luntbl s li) then Some (SCE_ERROR, s)
          else if l_fragmap (luntbl s li) = None \<or> nr_sctr = 0
                  \<or> sctrnum + ucast nr_sctr > l_nr_sctr (luntbl s li) then Some (SCE_ERROR, s)
          else if lun_is_serviceable (luntbl s li) \<noteq> SCE_SUCCESS then Some (SCE_ERROR, s)
          else do {
            let s1 = stats_upd li (\<lambda>st. st\<lparr>writes := writes st + 1, write_sctrs := write_sctrs st + ucast nr_sctr\<rparr>) s;
            let start = first_page sctrnum;
            let count = ucast (last_page sctrnum nr_sctr - start) + 1;
            (wh, s2) \<leftarrow> inval_loop s1 li (ucast (start div SCE_PAGEPERFRAG)) (ucast (start mod SCE_PAGEPERFRAG)) count 0;
            Some (SCE_SUCCESS,
              if wh \<noteq> 0 then stats_upd li (\<lambda>st. st\<lparr>write_hits := write_hits st + 1\<rparr>) s2 else s2)
          })"

section \<open>Population\<close>

definition sce_get_status :: "sce \<Rightarrow> sce_status_t option \<Rightarrow> rc \<times> sce_status_t option" where
  "sce_get_status s out_status =
     (case out_status of
        None \<Rightarrow> (SCE_ERROR, None)
      | Some _ \<Rightarrow> (SCE_SUCCESS, Some \<lparr>st_nr_hit = nr_hit s, st_nr_miss = nr_miss s, st_nr_freefrag = nr_freefrag s,
                                   st_nr_totfrag = nr_frag s, st_nr_eviction = nr_eviction s\<rparr>))"

text \<open>The local variables start with arbitrary values; here they are 0.\<close>

definition sce_get4pop :: "sce \<Rightarrow> sce_poptask_t option \<Rightarrow> (rc \<times> sce_poptask_t option \<times> sce) option" where
  "sce_get4pop s out_poptask =
     (case out_poptask of
        None \<Rightarrow> Some (SCE_ERROR, None, s)
      | Some out \<Rightarrow> do {
          (ret, lunidx, fragn) \<leftarrow> choose4population s 0 0;
          if ret \<noteq> SCE_SUCCESS then Some (ret, Some out, s)
          else do {
            bug_on (unat lunidx \<ge> SCE_MAXLUN);
            (ret1, pfid, s1) \<leftarrow> alloc4population s (unat lunidx) fragn 0;
            if ret1 \<noteq> SCE_SUCCESS then Some (ret1, Some out, s1)
            else Some (ret1, Some \<lparr>pt_lunctx = l_lunctx (luntbl s1 (unat lunidx)),
                               pt_cdevctx = c_cdevctx (cdevtbl s1 (unat (SCE_PFIDDEV pfid))),
                               pt_lun_fragnum = fragn, pt_cdev_fragnum = SCE_PFIDOFF pfid\<rparr>, s1)
          }
        })"

definition sce_put4pop :: "sce \<Rightarrow> sce_poptask_t option \<Rightarrow> bool \<Rightarrow> (rc \<times> sce) option" where
  "sce_put4pop s poptask failed =
     (case poptask of
        None \<Rightarrow> Some (SCE_ERROR, s)
      | Some pt \<Rightarrow>
     (case lun_search s (pt_lunctx pt) of
        None \<Rightarrow> Some (SCE_ERROR, s)
      | Some li \<Rightarrow>
          if \<not> failed
          then do {
            (r, s1) \<leftarrow> complete_population s li (pt_lun_fragnum pt);
            Some (r, stats_upd li (\<lambda>st. st\<lparr>populations := populations st + 1, alloc_sctrs := alloc_sctrs st + 1,
                                      valid_sctrs := valid_sctrs st + SCE_SCTRPERFRAG\<rparr>) s1)
          }
          else cancel_population s li (pt_lun_fragnum pt)))"

end
