(* ===== verification/Sce_Config.thy ===== *)
theory Sce_Config
  imports Sce_Interface
begin

text \<open>
  The configuration functions of \<^verbatim>\<open>src/sce_interface.c\<close> keep the invariant: creating the
  engine, adding and removing cache devices, adding and removing LUNs.
\<close>

lemma wait_inv_purges: "wait_inv lt \<longleftrightarrow> (\<forall>i < 256. \<not> purges (lt i))"
  by (auto simp: wait_inv_def purges_def unat_gt_0)

lemma sce_wfI: "sce_inv {} s \<Longrightarrow> (\<And>i. i < 256 \<Longrightarrow> \<not> purges (luntbl s i)) \<Longrightarrow> sce_wf s"
  by (simp add: sce_wf_def wait_inv_purges)

lemma sce_wf_purges: "sce_wf s \<Longrightarrow> i < 256 \<Longrightarrow> \<not> purges (luntbl s i)"
  by (simp add: sce_wf_def wait_inv_purges)

lemma purges_lun_zero [simp]: "\<not> purges lun_zero"
  by (simp add: purges_def)

section \<open>A new engine\<close>

lemma flocs_sce_zero [simp]: "flocs (cdevtbl sce_zero) = {}"
  by (simp add: flocs_def sce_zero_def)

lemma sce_zero_wf: "sce_wf sce_zero"
proof (rule sce_wfI)
  have fd: "fdesc_at (luntbl sce_zero) i n = None" for i n
    by (simp add: fdesc_at_def sce_zero_def)
  have own: "owned {} (cdevtbl sce_zero) i = {}" for i by (simp add: owned_def)
  have "dev_inv (cdevtbl sce_zero)" by (simp add: dev_inv_def dev_ok_def sce_zero_def)
  moreover have "lun_inv (luntbl sce_zero)" by (simp add: lun_inv_def lun_ok_def sce_zero_def)
  moreover have "free_inv {} (cdevtbl sce_zero) (freefraglist sce_zero) (nr_freefrag sce_zero)"
    unfolding free_inv_def by (rule exI [of _ "[]"]) (simp add: sce_zero_def flocs_def)
  moreover have "cnt_inv (nr_cdev sce_zero) (nr_frag sce_zero) (nr_lun sce_zero) (cdevtbl sce_zero) (luntbl sce_zero)"
    using flocs_sce_zero by (simp add: cnt_inv_def sce_zero_def)
  moreover have "log_inv (misslog_lunidx sce_zero) (misslog_fragnum sce_zero) (misslog_head sce_zero)
      (misslog_size sce_zero) (luntbl sce_zero)"
    by (simp add: log_inv_def sce_zero_def)
  ultimately show "sce_inv {} sce_zero"
    by (simp add: sce_inv_def map_fwd_def fd map_bwd_def frag_inv_def srv_inv_def srv_sum_def own)
  show "\<not> purges (luntbl sce_zero i)" for i by (simp add: sce_zero_def)
qed

section \<open>LUNs\<close>

lemma find_slot:
  assumes "List.find P [0..<n] = Some i" shows "i < n" "P i" "\<And>j. j < i \<Longrightarrow> \<not> P j"
  using assms by (auto simp: find_Some_iff)

text \<open>The misses logged for a slot lie within a LUN of so many fragments.\<close>

definition log_fits :: "sce \<Rightarrow> nat \<Rightarrow> nat \<Rightarrow> bool" where
  "log_fits s i n \<longleftrightarrow> (\<forall>k < unat (misslog_size s). unat (misslog_lunidx s k) = i \<longrightarrow> unat (misslog_fragnum s k) < n)"

lemma view_replace_lun:
  assumes "i < 256" "\<And>n d. fdesc_at (luntbl s) i n = Some d \<Longrightarrow> \<not> is_mapped d"
    "\<And>n d. fdesc_at ((luntbl s)(i := lu)) i n = Some d \<Longrightarrow> \<not> is_mapped d"
  shows "view (s\<lparr>luntbl := (luntbl s)(i := lu), nr_lun := nl\<rparr>) = view s"
proof (rule ext)
  fix x :: "nat \<times> nat" obtain j n where x: "x = (j, n)" by (cases x)
  have "j \<noteq> i \<Longrightarrow> fdesc_at ((luntbl s)(i := lu)) j n = fdesc_at (luntbl s) j n" by (simp add: fdesc_at_def)
  then show "view (s\<lparr>luntbl := (luntbl s)(i := lu), nr_lun := nl\<rparr>) x = view s x"
    using assms(2,3) by (cases "j = i") (auto simp: x view.simps split: Option.bind_splits)
qed

lemma sce_addlun_correct:
  assumes wf: "sce_wf s" and ns: "0 < ns" "unat ns \<le> 2048 * (2 ^ 32 - 2)"
    and slot: "List.find (\<lambda>i. l_fragmap (luntbl s i) = None) [0..<256] = Some i"
    and log: "log_fits s i (unat (nr_frag_of ns))"
  obtains s' where "sce_addlun True s ns ctx = (Some i, s')" "sce_wf s'" "view s' = view s"
    "i < 256" "cdevtbl s' = cdevtbl s" "nr_lun s' = nr_lun s + 1" "\<And>j. j \<noteq> i \<Longrightarrow> luntbl s' j = luntbl s j"
    "l_lunctx (luntbl s' i) = ctx" "l_nr_sctr (luntbl s' i) = ns" "l_nr_service (luntbl s' i) = 0"
    "\<not> l_waiting4deletion (luntbl s' i)"
    "\<And>n. fdesc_at (luntbl s' ) i n = (if n < unat (nr_frag_of ns) then Some fragdesc_fill85 else None)"
proof -
  note i = find_slot(1,2) [OF slot]
  have inv: "sce_inv {} s" by (rule sce_wf_inv [OF wf])
  have "lun_ok (luntbl s i)" using sce_inv_lun [OF inv] i by (simp add: lun_inv_def)
  then have old: "l_nr_service (luntbl s i) = 0" "\<not> l_waiting4deletion (luntbl s i)"
    using i(2) by (simp_all add: lun_ok_def)
  obtain lu where lu: "lun_init True (luntbl s i) ns = (SCE_SUCCESS, lu)" "lun_ok lu"
    "l_fragmap lu = Some (replicate (unat (nr_frag_of ns)) fragdesc_fill85)"
    "l_nr_service lu = 0" "\<not> l_waiting4deletion lu" "l_nr_sctr lu = ns"
    using lun_init_ok [OF ns, of "luntbl s i"] old by auto
  let ?lu = "lu\<lparr>l_lunctx := ctx\<rparr>" let ?lt = "(luntbl s)(i := ?lu)"
  let ?s' = "s\<lparr>luntbl := ?lt, nr_lun := nr_lun s + 1\<rparr>"
  have run: "sce_addlun True s ns ctx = (Some i, ?s')"
    using ns(1) slot lu(1) by (auto simp: sce_addlun_def word_gt_0)
  have ok: "lun_ok ?lu" using lu(2,3) by (simp add: lun_ok_def)
  have fd: "fdesc_at ?lt i n = (if n < unat (nr_frag_of ns) then Some fragdesc_fill85 else None)" for n
    by (simp add: fdesc_at_def lu(3) rd_def)
  have none: "fdesc_at (luntbl s) i n = Some d \<Longrightarrow> \<not> is_mapped d" for n d
    using i(2) by (simp add: fdesc_at_None)
  have inv': "sce_inv {} ?s'"
    by (rule inv_replace_lun [OF inv i(1) none])
      (use ok fd nr_lun_add [OF inv i(1,2), of ?lu] lu(3) log in
        \<open>auto simp: log_fits_def split: if_splits simp del: fun_upd_apply, auto\<close>)
  have "\<not> purges (?lt j)" if "j < 256" for j
    using sce_wf_purges [OF wf that] lu(5) by (simp add: purges_def)
  then have "sce_wf ?s'" using inv' by (intro sce_wfI) simp_all
  moreover have "view ?s' = view s"
    by (rule view_replace_lun [OF i(1) none]) (use fd in \<open>auto split: if_splits\<close>)
  ultimately show thesis using run fd i lu by (intro that [of ?s']) simp_all
qed

text \<open>Without memory for the fragment map no LUN is added.\<close>

lemma sce_addlun_nomem:
  assumes wf: "sce_wf s"
  shows "\<exists>s'. sce_addlun False s ns ctx = (None, s') \<and> sce_wf s' \<and> view s' = view s
    \<and> cdevtbl s' = cdevtbl s
    \<and> (\<forall>j. luntbl s' j = luntbl s j \<or> l_fragmap (luntbl s j) = None \<and> l_fragmap (luntbl s' j) = None
          \<and> l_lunctx (luntbl s' j) = l_lunctx (luntbl s j))"
proof (cases "ns = 0")
  case True
  then show ?thesis using wf by (simp add: sce_addlun_def)
next
  case ns: False
  show ?thesis
  proof (cases "List.find (\<lambda>i. l_fragmap (luntbl s i) = None) [0..<256]")
    case None
    then show ?thesis using wf ns by (simp add: sce_addlun_def)
  next
    case (Some i)
    note i = find_slot(1,2) [OF Some]
    have inv: "sce_inv {} s" by (rule sce_wf_inv [OF wf])
    let ?lu = "(luntbl s i)\<lparr>l_scehndl := True, l_nr_sctr := ns, l_nr_frag := nr_frag_of ns, l_fragmap := None\<rparr>"
    let ?lt = "(luntbl s)(i := ?lu)"
    have "lun_ok (luntbl s i)" using sce_inv_lun [OF inv] i by (simp add: lun_inv_def)
    then have ok: "lun_ok ?lu" using i(2) by (simp add: lun_ok_def)
    have none: "fdesc_at (luntbl s) i n = Some d \<Longrightarrow> \<not> is_mapped d" for n d
      using i(2) by (simp add: fdesc_at_None)
    have none': "fdesc_at ?lt i n = Some d \<Longrightarrow> \<not> is_mapped d" for n d
      by (simp add: fdesc_at_None)
    have "unat (nr_lun s) = card {j. j < 256 \<and> l_fragmap (luntbl s j) \<noteq> None}"
      using sce_inv_cnt [OF inv] by (simp add: cnt_inv_def)
    moreover have "{j. j < 256 \<and> l_fragmap (?lt j) \<noteq> None} = {j. j < 256 \<and> l_fragmap (luntbl s j) \<noteq> None}"
      using i(2) by auto
    ultimately have cnt: "unat (nr_lun s) = card {j. j < 256 \<and> l_fragmap (?lt j) \<noteq> None}" by simp
    have inv': "sce_inv {} (s\<lparr>luntbl := ?lt, nr_lun := nr_lun s\<rparr>)"
      by (rule inv_replace_lun [OF inv i(1) _ _ _ _ cnt]) (erule none, erule none', use ok in simp_all)
    have "\<not> purges (?lt j)" if "j < 256" for j
      using sce_wf_purges [OF wf that] sce_wf_purges [OF wf i(1)] by (simp add: purges_def)
    then have "sce_wf (s\<lparr>luntbl := ?lt\<rparr>)" using inv' by (intro sce_wfI) simp_all
    moreover have "view (s\<lparr>luntbl := ?lt, nr_lun := nr_lun s\<rparr>) = view s"
      by (rule view_replace_lun [OF i(1) none none'])
    ultimately show ?thesis using ns Some i(2) by (simp add: sce_addlun_def)
  qed
qed

text \<open>
  Removing a LUN: at once when no request holds it; otherwise it is marked, and goes when the last
  request is put back. It can be read no more when it is gone.
\<close>

lemma sce_rmlun_correct:
  assumes wf: "sce_wf s" and li: "li < 256" and m: "l_fragmap (luntbl s li) \<noteq> None"
  shows "returns (sce_rmlun s (Some li)) (\<lambda>(r, s'). r = SCE_SUCCESS \<and> sce_wf s' \<and> same_devs (cdevtbl s) (cdevtbl s')
    \<and> (\<forall>j. j \<noteq> li \<longrightarrow> luntbl s' j = luntbl s j)
    \<and> (if l_nr_service (luntbl s li) = 0
       then luntbl s' li = lun_destroy (luntbl s li) \<and> nr_lun s' = nr_lun s - 1
            \<and> (\<forall>x. view s' x = (if fst x = li then None else view s x))
       else luntbl s' li = (luntbl s li)\<lparr>l_waiting4deletion := True\<rparr> \<and> view s' = view s))"
proof -
  have inv: "sce_inv {} s" by (rule sce_wf_inv [OF wf])
  have "lun_ok (luntbl s li)" using sce_inv_lun [OF inv] li by (simp add: lun_inv_def)
  then have h: "l_scehndl (luntbl s li)" using m by (auto simp: lun_ok_def)
  show ?thesis
  proof (cases "l_nr_service (luntbl s li) = 0")
    case True
    obtain s' where s': "lun_purge s li = Some (SCE_SUCCESS, s')" "sce_inv {} s'"
      "luntbl s' li = lun_destroy (luntbl s li)" "\<And>j. j \<noteq> li \<Longrightarrow> luntbl s' j = luntbl s j"
      "same_devs (cdevtbl s) (cdevtbl s')" "rest s' = (rest s)\<lparr>nr_lun := nr_lun s - 1\<rparr>"
      "\<And>x. view s' x = (if fst x = li then None else view s x)"
      by (rule lun_purge_correct [OF inv li m True]) blast
    have "\<not> purges (luntbl s' j)" if "j < 256" for j
      using sce_wf_purges [OF wf that] s'(3,4) by (cases "j = li") simp_all
    then have "sce_wf s'" using s'(2) by (intro sce_wfI)
    moreover have "nr_lun s' = nr_lun s - 1" using s'(6) by (cases s; cases s') (simp add: rest_def)
    ultimately show ?thesis using True h m s' by (auto simp: sce_rmlun_def)
  next
    case False
    let ?s' = "s\<lparr>luntbl := upd_lun (luntbl s) li (\<lambda>l. l\<lparr>l_waiting4deletion := True\<rparr>)\<rparr>"
    have "sce_inv {} ?s'"
      by (rule inv_update_lun [OF inv])
        (use m sce_inv_srv [OF inv] li in \<open>simp_all add: keeps_map_def srv_inv_def\<close>)
    moreover have "\<not> purges (luntbl ?s' j)" if "j < 256" for j
      using sce_wf_purges [OF wf that] False by (simp add: purges_def)
    ultimately have "sce_wf ?s'" by (intro sce_wfI)
    moreover have "view ?s' = view s" by (rule view_keeps_map) (simp add: keeps_map_def)
    ultimately show ?thesis using False h m by (auto simp: sce_rmlun_def word_gt_0)
  qed
qed

section \<open>Adding a device\<close>

lemma view_frags_cong:
  assumes "luntbl s' = luntbl s"
    and "\<And>i n d. i < 256 \<Longrightarrow> fdesc_at (luntbl s) i n = Some d \<Longrightarrow> is_mapped d \<Longrightarrow>
      frag_at (cdevtbl s') (loc_of d) = frag_at (cdevtbl s) (loc_of d)"
  shows "view s' = view s"
proof (rule ext)
  fix x :: "nat \<times> nat" obtain i n where x: "x = (i, n)" by (cases x)
  show "view s' x = view s x"
    using assms by (auto simp: x view.simps split: Option.bind_splits)
qed

text \<open>The state while the fragments \<open>ns\<close> of the new device are still to be put on the free list.\<close>

definition filling :: "sce \<Rightarrow> nat \<Rightarrow> u32 list \<Rightarrow> sce \<Rightarrow> bool" where
  "filling s0 dn ns s \<longleftrightarrow> distinct ns \<and> sce_inv ((\<lambda>n. (dn, unat n)) ` set ns) s
     \<and> luntbl s = luntbl s0 \<and> same_devs (cdevtbl s0) (cdevtbl s)
     \<and> (\<forall>n \<in> set ns. (dn, unat n) \<in> flocs (cdevtbl s0) \<and> frag_at (cdevtbl s) (dn, unat n) = frag_fill85)
     \<and> (\<forall>l. fst l \<noteq> dn \<longrightarrow> frag_at (cdevtbl s) l = frag_at (cdevtbl s0) l)
     \<and> nr_freefrag s + of_nat (length ns) = nr_freefrag s0 + of_nat (card {l \<in> flocs (cdevtbl s0). fst l = dn})
     \<and> nr_cdev s = nr_cdev s0 \<and> nr_frag s = nr_frag s0 \<and> rest s = rest s0"

lemma filling_step:
  assumes f: "filling s0 dn (n # ns) s" and dn: "dn < 16"
    and maps: "\<And>i k d. i < 256 \<Longrightarrow> fdesc_at (luntbl s0) i k = Some d \<Longrightarrow> is_mapped d \<Longrightarrow> fst (loc_of d) \<noteq> dn"
  shows "returns (map_option snd (freefraglist_put s (SCE_PFID (of_nat dn) n))) (filling s0 dn ns)"
proof -
  let ?X = "\<lambda>ns. (\<lambda>n. (dn, unat n)) ` set ns" and ?l = "(dn, unat n)" and ?p = "SCE_PFID (of_nat dn) n"
  have inv: "sce_inv (?X (n # ns)) s" and lt: "luntbl s = luntbl s0" and sd: "same_devs (cdevtbl s0) (cdevtbl s)"
    and fr: "\<And>k. k \<in> set (n # ns) \<Longrightarrow> (dn, unat k) \<in> flocs (cdevtbl s0) \<and> frag_at (cdevtbl s) (dn, unat k) = frag_fill85"
    and d: "distinct (n # ns)"
    using f unfolding filling_def by blast+
  have fl: "flocs (cdevtbl s) = flocs (cdevtbl s0)" by (rule same_devs_flocs [OF sd])
  have l: "?l \<in> flocs (cdevtbl s)" using fr [of n] fl by simp
  then have "unat n < 2 ^ 24" using flocs_bounds [OF sce_inv_dev [OF inv] l] by simp
  then have loc: "loc_of ?p = ?l" using loc_of_PFID [OF dn, of "unat n"] by simp
  have use: "in_use (frag_at (cdevtbl s) ?l)"
    using fr [of n] by (simp add: in_use_def FRAGNUM_WITHINFREELIST_def)
  have m: "loc_of e \<noteq> loc_of ?p" if "i < 256" "fdesc_at (luntbl s) i k = Some e" "is_mapped e" for i k e
    using maps [OF that(1) _ that(3), of k] that(2) lt loc by auto
  obtain s' where s': "freefraglist_put s ?p = Some (SCE_SUCCESS, s')" "sce_inv (?X (n # ns) - {?l}) s'"
    and e: "s' = s\<lparr>cdevtbl := put_frag (cdevtbl s) ?l ((frag_at (cdevtbl s) ?l)
        \<lparr>f_fragnum := FRAGNUM_WITHINFREELIST, f_next := freefraglist s\<rparr>),
      freefraglist := ?p OR FRAGDESC_MAPPED, nr_freefrag := nr_freefrag s + 1\<rparr>"
    by (rule inv_freefraglist_put [OF inv, of ?p]) (use l use m in \<open>auto simp: loc\<close>)
  have X: "?X (n # ns) - {?l} = ?X ns" using d by (auto simp flip: word_unat_eq_iff)
  have "filling s0 dn ns s'"
    unfolding filling_def
  proof (intro conjI ballI allI impI)
    show "distinct ns" using d by simp
    show "sce_inv (?X ns) s'" using s'(2) X by simp
    show "luntbl s' = luntbl s0" using e lt by simp
    show "same_devs (cdevtbl s0) (cdevtbl s')" using sd e by (auto intro: same_devs_trans)
    show "(dn, unat k) \<in> flocs (cdevtbl s0)" if "k \<in> set ns" for k using fr [of k] that by simp
    show "frag_at (cdevtbl s') (dn, unat k) = frag_fill85" if "k \<in> set ns" for k
    proof -
      have "unat k \<noteq> unat n" using that d by (auto simp flip: word_unat_eq_iff)
      then show ?thesis using fr [of k] that l by (simp add: e)
    qed
    show "frag_at (cdevtbl s') x = frag_at (cdevtbl s0) x" if "fst x \<noteq> dn" for x
      using f that l by (auto simp: e filling_def)
    show "nr_freefrag s' + of_nat (length ns) = nr_freefrag s0 + of_nat (card {l \<in> flocs (cdevtbl s0). fst l = dn})"
      using f by (simp add: e filling_def algebra_simps)
    show "nr_cdev s' = nr_cdev s0" "nr_frag s' = nr_frag s0" "rest s' = rest s0"
      using f by (simp_all add: e filling_def rest_def)
  qed
  then show ?thesis using s'(1) by simp
qed

lemma sce_addcdev_correct:
  assumes wf: "sce_wf s" and ns: "2048 \<le> ns" "unat ns < 2048 * (2 ^ 24 + 1)"
    and room: "unat (nr_cdev s) < 16" and ctx: "cdev_search s ctx = None"
  obtains dn s' where "sce_addcdev True s ns ctx = Some (Some dn, s')" "sce_wf s'" "view s' = view s"
    "dn < 16" "c_fragtbl (cdevtbl s dn) = None" "c_cdevctx (cdevtbl s' dn) = ctx"
    "luntbl s' = luntbl s" "unat (nr_freefrag s') = unat (nr_freefrag s) + unat ns div 2048"
    "unat (nr_frag s') = unat (nr_frag s) + unat ns div 2048" "nr_cdev s' = nr_cdev s + 1"
    "flocs (cdevtbl s') = flocs (cdevtbl s) \<union> {dn} \<times> {..<unat ns div 2048}"
    "\<And>d. d \<noteq> dn \<Longrightarrow> c_cdevctx (cdevtbl s' d) = c_cdevctx (cdevtbl s d)
      \<and> (c_fragtbl (cdevtbl s' d) = None) = (c_fragtbl (cdevtbl s d) = None)"
proof -
  have inv: "sce_inv {} s" by (rule sce_wf_inv [OF wf])
  let ?find = "List.find (\<lambda>d. c_fragtbl (cdevtbl s d) = None) [0..<16]"
  have "?find \<noteq> None"
  proof
    assume "?find = None"
    then have "{d. d < 16 \<and> c_fragtbl (cdevtbl s d) \<noteq> None} = {..<16}" by (auto simp: find_None_iff)
    then show False using sce_inv_cnt [OF inv] room by (simp add: cnt_inv_def)
  qed
  then obtain dn where find: "?find = Some dn" by blast
  note dn = find_slot(1,2) [OF find]
  let ?k = "unat ns div 2048"
  let ?cd = "\<lparr>c_scehndl = True, c_cdevctx = ctx, c_nr_frag = of_nat ?k, c_fragtbl = Some (replicate ?k frag_fill85)\<rparr>"
  note init = cdev_init_ok(1) [OF ns, of "cdevtbl s dn"] cdev_init_ok(2,3) [OF ns]
  have uk: "unat (of_nat ?k :: u32) = ?k" using init(3) by (simp add: unat_of_nat)
  let ?s1 = "s\<lparr>cdevtbl := (cdevtbl s)(dn := ?cd), nr_cdev := nr_cdev s + 1, nr_frag := nr_frag s + of_nat ?k\<rparr>"
  let ?ns = "map of_nat (rev [0..<?k]) :: u32 list"
  have ok: "dev_ok ?cd" using init(2,3) uk by (simp add: dev_ok_def)
  have inv1: "sce_inv ({dn} \<times> {..<?k}) ?s1"
    using inv_new_dev [OF inv dn, of ?cd "replicate ?k frag_fill85"] ok by simp
  have none: "dev_locs (cdevtbl s) dn = {}" using dn by (auto simp: dev_locs_def flocs_def)
  have fl: "flocs (cdevtbl ?s1) = flocs (cdevtbl s) \<union> {dn} \<times> {..<?k}"
    using flocs_upd_new [OF dn(1), of ?cd "replicate ?k frag_fill85" "cdevtbl s"] none by simp
  have maps: "fst (loc_of d) \<noteq> dn" if "i < 256" "fdesc_at (luntbl ?s1) i n = Some d" "is_mapped d" for i n d
    using mapped_frag(1) [OF inv that(1) _ that(3), of n] that(2) none by (auto simp: dev_locs_def)
  have u: "unat (of_nat n :: u32) = n" if "n < ?k" for n using that init(3) by (simp add: unat_of_nat)
  have X: "(\<lambda>n. (dn, unat n)) ` set ?ns = {dn} \<times> {..<?k}" using u by (force simp: image_iff)
  have new: "{l \<in> flocs (cdevtbl ?s1). fst l = dn} = {dn} \<times> {..<?k}"
    unfolding fl using none by (auto simp: dev_locs_def)
  have "inj_on (of_nat :: nat \<Rightarrow> u32) (set (rev [0..<?k]))"
    by (rule inj_onI) (use u in \<open>metis atLeastLessThan_iff set_rev set_upt\<close>)
  then have dist: "distinct ?ns" by (simp add: distinct_map)
  have "filling ?s1 dn ?ns ?s1"
    unfolding filling_def X new
  proof (intro conjI ballI)
    show "(dn, unat n) \<in> flocs (cdevtbl ?s1)" if "n \<in> set ?ns" for n
      using that u fl by auto
    show "frag_at (cdevtbl ?s1) (dn, unat n) = frag_fill85" if "n \<in> set ?ns" for n
      using that u by (auto simp: frag_at.simps)
  qed (use dist inv1 in simp_all)
  then have "returns (for_each ?ns (\<lambda>fragn s. map_option snd (freefraglist_put s (SCE_PFID (of_nat dn) fragn))) ?s1)
      (filling ?s1 dn [])"
    by (rule for_each_returns) (rule filling_step [OF _ dn(1)], assumption, rule maps)
  then obtain s2 where s2: "for_each ?ns (\<lambda>fragn s. map_option snd (freefraglist_put s (SCE_PFID (of_nat dn) fragn))) ?s1 = Some s2"
      and f: "filling ?s1 dn [] s2"
    by (auto simp: returns_iff)
  have "ns \<noteq> 0" using ns(1) by auto
  then have run: "sce_addcdev True s ns ctx = Some (Some dn, s2)"
    using room ctx find init(1) s2 uk by (simp add: sce_addcdev_def)
  have inv2: "sce_inv {} s2" and lt: "luntbl s2 = luntbl s" and sd: "same_devs (cdevtbl ?s1) (cdevtbl s2)"
    using f by (simp_all add: filling_def)
  have wf2: "sce_wf s2" by (rule sce_wfI [OF inv2]) (use sce_wf_purges [OF wf] lt in simp)
  have vw: "view s2 = view s"
  proof (rule view_frags_cong [OF lt])
    fix i n d assume d: "i < 256" "fdesc_at (luntbl s) i n = Some d" "is_mapped d"
    then have "fst (loc_of d) \<noteq> dn" using maps by simp
    then show "frag_at (cdevtbl s2) (loc_of d) = frag_at (cdevtbl s) (loc_of d)"
      using f by (simp add: filling_def frag_at_upd_other)
  qed
  have fl2: "flocs (cdevtbl s2) = flocs (cdevtbl s) \<union> {dn} \<times> {..<?k}"
    using same_devs_flocs [OF sd] fl by simp
  have c: "unat (nr_frag s) = card (flocs (cdevtbl s))" "unat (nr_frag s2) = card (flocs (cdevtbl s2))"
    using sce_inv_cnt [OF inv] sce_inv_cnt [OF inv2] by (simp_all add: cnt_inv_def)
  have disj: "flocs (cdevtbl s) \<inter> {dn} \<times> {..<?k} = {}" using none by (auto simp: dev_locs_def)
  have nf: "unat (nr_frag s2) = unat (nr_frag s) + ?k"
    using c card_Un_disjoint [OF finite_flocs _ disj] by (simp add: fl2)
  have free: "nr_freefrag s2 = nr_freefrag s + of_nat ?k"
    using f unfolding filling_def new by simp
  have "unat (nr_freefrag s) \<le> unat (nr_frag s)"
  proof -
    obtain ls where "distinct ls" "set ls \<subseteq> flocs (cdevtbl s)" "length ls = unat (nr_freefrag s)"
      using sce_inv_free [OF inv] by (auto simp: free_inv_def)
    then show ?thesis using c(1) card_mono [OF finite_flocs, of "set ls" "cdevtbl s"] by (simp add: distinct_card)
  qed
  moreover have "unat (nr_frag s2) < 2 ^ LENGTH(32)" by (rule unsigned_less)
  ultimately have "unat (nr_freefrag s2) = unat (nr_freefrag s) + ?k"
    unfolding free using nf uk by (simp add: unat_word_ariths)
  moreover have "c_cdevctx (cdevtbl s2 dn) = ctx" using sd by (simp add: same_devs_def)
  moreover have "nr_cdev s2 = nr_cdev s + 1" using f by (simp add: filling_def)
  moreover have "c_cdevctx (cdevtbl s2 d) = c_cdevctx (cdevtbl s d)
      \<and> (c_fragtbl (cdevtbl s2 d) = None) = (c_fragtbl (cdevtbl s d) = None)" if "d \<noteq> dn" for d
    using that same_devs_None [OF sd, of d] sd by (simp add: same_devs_def)
  ultimately show thesis
    using that [OF run wf2 vw dn] lt nf fl2 by simp
qed

section \<open>Removing a device\<close>

text \<open>First its free fragments leave the free list.\<close>

lemma inv_freefraglist_rmcdev:
  assumes inv: "sce_inv {} s" and dn: "dn < 16"
  defines "X \<equiv> {l \<in> dev_locs (cdevtbl s) dn. \<not> in_use (frag_at (cdevtbl s) l)}"
  obtains s' where "freefraglist_rmcdev s (of_nat dn) = Some (SCE_SUCCESS, s')" "sce_inv X s'"
    "luntbl s' = luntbl s" "rest s' = rest s" "same_devs (cdevtbl s) (cdevtbl s')"
    "\<And>l. unlink (frag_at (cdevtbl s') l) = unlink (frag_at (cdevtbl s) l)"
    "nr_freefrag s' = nr_freefrag s - of_nat (card X)"
proof -
  let ?ct = "cdevtbl s"
  have udn: "unat (of_nat dn :: u32) = dn" using dn by (simp add: unat_of_nat)
  obtain ls where ls: "chain (nexts ?ct) (freefraglist s) ls" "distinct ls"
    "set ls = {l \<in> flocs ?ct. \<not> in_use (frag_at ?ct l)}" "length ls = unat (nr_freefrag s)"
    using sce_inv_free [OF inv] by (auto simp: free_inv_def)
  let ?off = "filter (\<lambda>l. fst l \<noteq> dn) ls" and ?on = "filter (\<lambda>l. fst l = dn) ls"
  obtain ct' h' where loop: "rmcdev_loop s (of_nat dn) None (freefraglist s)
        = Some (s\<lparr>cdevtbl := ct', freefraglist := h', nr_freefrag := nr_freefrag s - of_nat (length ?on)\<rparr>)"
    and lo: "links_only (set ls) ?ct ct'" and ch: "chain (nexts ct') h' ?off"
    using rmcdev_loop_correct [OF sce_inv_dev [OF inv], of "[]" ls None "freefraglist s" "of_nat dn"] ls udn by auto
  let ?s' = "s\<lparr>cdevtbl := ct', freefraglist := h', nr_freefrag := nr_freefrag s - of_nat (length ?on)\<rparr>"
  have sd: "same_devs ?ct ct'" and un: "\<And>l. unlink (frag_at ct' l) = unlink (frag_at ?ct l)"
    and same: "\<And>l. l \<notin> set ls \<Longrightarrow> frag_at ct' l = frag_at ?ct l"
    using lo by (simp_all add: links_only_def)
  note fl = same_devs_flocs [OF sd]
  have use: "in_use (frag_at ct' l) = in_use (frag_at ?ct l)" for l
    using unlink_fields(2) [OF un] by (simp add: in_use_def)
  have used: "frag_at ct' l = frag_at ?ct l" if "in_use (frag_at ?ct l)" for l
    using that ls(3) by (intro same) simp
  have X: "set ?on = X" using ls(3) by (auto simp: X_def dev_locs_def)
  have on: "length ?on = card X" using ls(2) X distinct_card [of ?on] by simp
  have free: "free_inv X ct' h' (nr_freefrag s - of_nat (length ?on))"
  proof -
    have sum: "length ?on + length ?off = length ls"
      using sum_length_filter_compl [of "\<lambda>l. fst l = dn" ls] by simp
    have "unat (nr_freefrag s) < 2 ^ LENGTH(32)" by (rule unsigned_less)
    then have "unat (of_nat (length ?on) :: u32) = length ?on"
      using sum ls(4) by (simp add: unat_of_nat)
    then have "unat (nr_freefrag s - of_nat (length ?on)) = length ?off"
      using sum ls(4) by (subst unat_sub) (simp_all add: word_le_nat_alt)
    moreover have "set ?off = {l \<in> flocs ct' - X. \<not> in_use (frag_at ct' l)}"
      unfolding fl use using ls(3) by (auto simp: X_def dev_locs_def)
    ultimately show ?thesis using ch ls(2) unfolding free_inv_def by (intro exI [of _ ?off]) simp
  qed
  have fwd: "map_fwd ct' (luntbl s)"
    using sce_inv_fwd [OF inv] unlink_fields(1,2) [OF un] by (simp add: map_fwd_def fl)
  have bwd: "map_bwd X ct' (luntbl s)"
    using sce_inv_bwd [OF inv] used by (simp add: map_bwd_def fl use)
  have frag: "frag_inv X ct' (luntbl s)"
    using sce_inv_frag [OF inv] used by (simp add: frag_inv_def fl use)
  have "l \<in> owned X ct' i \<longleftrightarrow> l \<in> owned {} ?ct i" for l i
    by (cases "in_use (frag_at ?ct l)") (simp_all add: owned_def fl use used X_def)
  then have own: "owned X ct' i = owned {} ?ct i" for i by blast
  have "srv_sum X ct' i = srv_sum {} ?ct i" for i
    unfolding srv_sum_def own using used by (intro sum.cong) (auto simp: owned_def)
  then have srv: "srv_inv X ct' (luntbl s)" using sce_inv_srv [OF inv] by (simp add: srv_inv_def)
  have cnt: "cnt_inv (nr_cdev s) (nr_frag s) (nr_lun s) ct' (luntbl s)"
    by (rule cnt_inv_upd [OF sce_inv_cnt [OF inv] sd]) simp
  have "sce_inv X ?s'"
    using inv free fwd bwd frag srv cnt same_devs_dev_inv [OF sd sce_inv_dev [OF inv]] by (simp add: sce_inv_def)
  moreover have "freefraglist_rmcdev s (of_nat dn) = Some (SCE_SUCCESS, ?s')"
    using loop dn udn by (simp add: freefraglist_rmcdev_def)
  ultimately show thesis using sd un on by (intro that [of ?s']) (simp_all add: rest_def)
qed

lemma unlink_pages: "unlink f = unlink g \<Longrightarrow> pages_of f = pages_of g"
  using unlink_fields(4) [of f g] by (simp add: pages_of_def page_valid_def)

lemma sce_inv_transit_cong: "sce_inv X s \<Longrightarrow> flocs (cdevtbl s) - X = flocs (cdevtbl s) - Y \<Longrightarrow> sce_inv Y s"
  using inv_frame [of "cdevtbl s" Y "cdevtbl s" X] by (simp add: sce_inv_def)

text \<open>Then its fragments are taken from every LUN.\<close>

definition emptying :: "sce \<Rightarrow> floc set \<Rightarrow> nat \<Rightarrow> nat list \<Rightarrow> sce \<Rightarrow> bool" where
  "emptying s0 X dn is s \<longleftrightarrow> lost_dev dn s0 s
     \<and> (\<exists>Y. X \<subseteq> Y \<and> Y \<subseteq> X \<union> {l. fst l = dn} \<and> sce_inv Y s)
     \<and> (\<forall>i n d. i < 256 \<longrightarrow> i \<notin> set is \<longrightarrow> fdesc_at (luntbl s) i n = Some d \<longrightarrow> is_mapped d \<longrightarrow> fst (loc_of d) \<noteq> dn)"

lemma emptying_step:
  assumes e: "emptying s0 X dn (i # is) s" and i: "i < 256" and dn: "dn < 16"
  shows "returns (if l_fragmap (luntbl s i) \<noteq> None then map_option snd (lun_rmcdev s i (of_nat dn)) else Some s)
    (emptying s0 X dn is)"
proof -
  have udn: "unat (of_nat dn :: u32) = dn" using dn by (simp add: unat_of_nat)
  obtain Y where Y: "X \<subseteq> Y" "Y \<subseteq> X \<union> {l. fst l = dn}" and inv: "sce_inv Y s"
    using e by (auto simp: emptying_def)
  have lost: "lost_dev dn s0 s"
    and un: "\<And>j n d. j < 256 \<Longrightarrow> j \<notin> set (i # is) \<Longrightarrow> fdesc_at (luntbl s) j n = Some d \<Longrightarrow> is_mapped d \<Longrightarrow> fst (loc_of d) \<noteq> dn"
    using e by (simp_all add: emptying_def)
  show ?thesis
  proof (cases "l_fragmap (luntbl s i) = None")
    case True
    have "fst (loc_of d) \<noteq> dn" if "j < 256" "j \<notin> set is" "fdesc_at (luntbl s) j n = Some d" "is_mapped d" for j n d
    proof (cases "j = i")
      case True
      then show ?thesis using that(3) \<open>l_fragmap (luntbl s i) = None\<close> by (simp add: fdesc_at_None)
    next
      case False
      then show ?thesis using un [OF that(1) _ that(3,4)] that(2) by simp
    qed
    then have "emptying s0 X dn is s" using lost Y inv unfolding emptying_def by blast
    then show ?thesis using True by simp
  next
    case False
    obtain s' Z where s': "lun_rmcdev s i (of_nat dn) = Some (SCE_SUCCESS, s')" "lost_dev dn s s'"
      "Y \<subseteq> Z" "Z \<subseteq> Y \<union> {l. fst l = dn}" "sce_inv Z s'"
      "\<And>n d. fdesc_at (luntbl s') i n = Some d \<Longrightarrow> is_mapped d \<Longrightarrow> fst (loc_of d) \<noteq> dn"
      by (rule lun_rmcdev_correct [OF inv i False, of "of_nat dn", unfolded udn, OF dn]) blast
    note old = lost_dev_mapped [OF s'(2)]
    have "fst (loc_of d) \<noteq> dn" if "j < 256" "j \<notin> set is" "fdesc_at (luntbl s') j n = Some d" "is_mapped d" for j n d
    proof (cases "j = i")
      case True
      then show ?thesis using s'(6) that(3,4) by simp
    next
      case False
      then show ?thesis using un [OF that(1) _ old [OF that(3,4)] that(4)] that(2) by simp
    qed
    moreover have "X \<subseteq> Z" "Z \<subseteq> X \<union> {l. fst l = dn}" using s'(3,4) Y by auto
    ultimately have "emptying s0 X dn is s'"
      using lost_dev_trans [OF lost s'(2)] s'(5) unfolding emptying_def by blast
    then show ?thesis using False s'(1) by simp
  qed
qed

lemma sce_rmcdev_correct:
  assumes wf: "sce_wf s" and dn: "dn < 16" "c_fragtbl (cdevtbl s dn) \<noteq> None"
  obtains s' where "sce_rmcdev s (Some dn) = Some (SCE_SUCCESS, s')" "sce_wf s'"
    "cdevtbl s' dn = cdev_zero" "\<And>d. d \<noteq> dn \<Longrightarrow> c_cdevctx (cdevtbl s' d) = c_cdevctx (cdevtbl s d)
      \<and> map_option length (c_fragtbl (cdevtbl s' d)) = map_option length (c_fragtbl (cdevtbl s d))"
    "\<And>i n. view s' (i, n) = (if \<exists>d. fdesc_at (luntbl s) i n = Some d \<and> is_mapped d \<and> fst (loc_of d) = dn
       then None else view s (i, n))"
    "\<And>j. l_nr_service (luntbl s' j) = l_nr_service (luntbl s j) \<and> l_lunctx (luntbl s' j) = l_lunctx (luntbl s j)
       \<and> l_waiting4deletion (luntbl s' j) = l_waiting4deletion (luntbl s j)
       \<and> (l_fragmap (luntbl s' j) = None) = (l_fragmap (luntbl s j) = None)
       \<and> l_nr_sctr (luntbl s' j) = l_nr_sctr (luntbl s j)"
    "\<And>j n d. fdesc_at (luntbl s' ) j n = Some d \<Longrightarrow> is_mapped d \<Longrightarrow> fdesc_at (luntbl s) j n = Some d"
    "nr_cdev s' = nr_cdev s - 1"
proof -
  have inv: "sce_inv {} s" by (rule sce_wf_inv [OF wf])
  have "dev_ok (cdevtbl s dn)" using sce_inv_dev [OF inv] dn by (simp add: dev_inv_def)
  then have h: "c_scehndl (cdevtbl s dn)" using dn(2) by (auto simp: dev_ok_def)
  define X where "X = {l \<in> dev_locs (cdevtbl s) dn. \<not> in_use (frag_at (cdevtbl s) l)}"
  obtain s1 where s1: "freefraglist_rmcdev s (of_nat dn) = Some (SCE_SUCCESS, s1)" "sce_inv X s1"
    "luntbl s1 = luntbl s" "rest s1 = rest s" "same_devs (cdevtbl s) (cdevtbl s1)"
    "\<And>l. unlink (frag_at (cdevtbl s1) l) = unlink (frag_at (cdevtbl s) l)"
    by (rule inv_freefraglist_rmcdev [OF inv dn(1)]) (use that X_def in blast)
  let ?body = "\<lambda>i s. if l_fragmap (luntbl s i) \<noteq> None then map_option snd (lun_rmcdev s i (of_nat dn)) else Some s"
  have "emptying s1 X dn [0..<256] s1"
    unfolding emptying_def using s1(2) lost_dev_refl [of dn s1] by auto
  then have "returns (for_each [0..<256] ?body s1) (emptying s1 X dn [])"
    by (rule for_each_returns) (rule emptying_step [OF _ _ dn(1)], auto)
  then obtain s2 where s2: "for_each [0..<256] ?body s1 = Some s2" and e: "emptying s1 X dn [] s2"
    by (auto simp: returns_iff)
  obtain Y where Y: "X \<subseteq> Y" "Y \<subseteq> X \<union> {l. fst l = dn}" and inv2: "sce_inv Y s2"
    using e by (auto simp: emptying_def)
  have lost: "lost_dev dn s1 s2"
    and un: "\<And>i n d. i < 256 \<Longrightarrow> fdesc_at (luntbl s2) i n = Some d \<Longrightarrow> is_mapped d \<Longrightarrow> fst (loc_of d) \<noteq> dn"
    using e by (simp_all add: emptying_def)
  note fr = lost_dev_frame [OF lost]
  have c2: "cdevtbl s2 = cdevtbl s1" by (rule fr(1))
  have dl: "dev_locs (cdevtbl s1) dn = dev_locs (cdevtbl s) dn"
    using same_devs_flocs [OF s1(5)] by (simp add: dev_locs_def)
  have use: "in_use (frag_at (cdevtbl s1) l) = in_use (frag_at (cdevtbl s) l)" for l
    using unlink_fields(2) [OF s1(6)] by (simp add: in_use_def)
  have D: "dev_locs (cdevtbl s2) dn \<subseteq> Y"
  proof
    fix l assume l: "l \<in> dev_locs (cdevtbl s2) dn"
    show "l \<in> Y"
    proof (rule ccontr)
      assume nY: "l \<notin> Y"
      have lf: "l \<in> flocs (cdevtbl s2)" using l by (simp add: dev_locs_def)
      have lu: "in_use (frag_at (cdevtbl s2) l)"
        using l Y(1) use nY by (auto simp only: X_def c2 dl mem_Collect_eq subset_iff)
      obtain d where d: "unat (f_lunidx (frag_at (cdevtbl s2) l)) < 256"
          "desc_of (luntbl s2) (frag_at (cdevtbl s2) l) = Some d" "is_mapped d" "loc_of d = l"
        by (rule used_frag [OF inv2 lf nY lu])
      then show False using un [OF d(1)] l by (auto simp: desc_of_def dev_locs_def)
    qed
  qed
  let ?s' = "s2\<lparr>nr_cdev := nr_cdev s2 - 1, nr_frag := nr_frag s2 - c_nr_frag (cdevtbl s2 dn),
      cdevtbl := (cdevtbl s2)(dn := cdev_zero)\<rparr>"
  have t2: "c_fragtbl (cdevtbl s2 dn) \<noteq> None" using dn(2) same_devs_None [OF s1(5)] by (simp add: c2)
  have "sce_inv (Y - dev_locs (cdevtbl s2) dn) ?s'"
    by (rule inv_drop_dev [OF inv2 dn(1) t2 D un])
  moreover have "flocs (cdevtbl ?s') - (Y - dev_locs (cdevtbl s2) dn) = flocs (cdevtbl ?s') - {}"
  proof -
    have "Y \<subseteq> {l. fst l = dn}" using Y(2) by (auto simp only: X_def dev_locs_def)
    moreover have "flocs (cdevtbl ?s') \<inter> {l. fst l = dn} = {}"
      by (auto simp: flocs_upd_zero dev_locs_def)
    ultimately show ?thesis by blast
  qed
  ultimately have inv': "sce_inv {} ?s'" by (rule sce_inv_transit_cong)
  have "\<not> purges (luntbl ?s' j)" if "j < 256" for j
    using sce_wf_purges [OF wf that] fr(3,5) by (simp add: purges_def s1(3))
  then have wf': "sce_wf ?s'" using inv' by (intro sce_wfI)
  have vw: "view ?s' (i, n) = (if \<exists>d. fdesc_at (luntbl s) i n = Some d \<and> is_mapped d \<and> fst (loc_of d) = dn
       then None else view s (i, n))" for i n
  proof (cases "i < 256 \<and> (\<exists>d. fdesc_at (luntbl s) i n = Some d \<and> is_mapped d)")
    case False
    then have "\<not> (i < 256 \<and> (\<exists>d. fdesc_at (luntbl s2) i n = Some d \<and> is_mapped d))"
      using lost_dev_mapped [OF lost] s1(3) by metis
    then show ?thesis using False by (auto simp: view.simps split: Option.bind_splits)
  next
    case True
    then obtain d where d: "fdesc_at (luntbl s) i n = Some d" "is_mapped d" and i: "i < 256" by blast
    show ?thesis
    proof (cases "fst (loc_of d) = dn")
      case True
      have "\<not> is_mapped e" if "fdesc_at (luntbl s2) i n = Some e" for e
        using un [OF i that] lost_dev_mapped [OF lost that] d True s1(3) by auto
      then show ?thesis using True d by (auto simp: view.simps split: Option.bind_splits)
    next
      case False
      then have e: "fdesc_at (luntbl s2) i n = Some d" using lost_dev_other [OF lost] d s1(3) by simp
      have "pages_of (frag_at (cdevtbl ?s') (loc_of d)) = pages_of (frag_at (cdevtbl s) (loc_of d))"
        using False unlink_pages [OF s1(6), of "loc_of d"] by (simp add: frag_at_upd_other c2)
      then show ?thesis using e d False i by (simp add: view.simps)
    qed
  qed
  have ncdev: "nr_cdev s2 = nr_cdev s"
    using fr(7) s1(4) by (cases s; cases s1; cases s2) (simp add: rest_def)
  have run: "sce_rmcdev s (Some dn) = Some (SCE_SUCCESS, ?s')"
    using h dn(1) s1(1) s2 by (simp add: sce_rmcdev_def bug_on_def cdev_destroy_def)
  show thesis
  proof (rule that [OF run wf' _ _ vw])
    show "cdevtbl ?s' dn = cdev_zero" by simp
    show "c_cdevctx (cdevtbl ?s' d) = c_cdevctx (cdevtbl s d)
        \<and> map_option length (c_fragtbl (cdevtbl ?s' d)) = map_option length (c_fragtbl (cdevtbl s d))" if "d \<noteq> dn" for d
      using s1(5) that by (simp add: c2 same_devs_def)
    show "l_nr_service (luntbl ?s' j) = l_nr_service (luntbl s j) \<and> l_lunctx (luntbl ?s' j) = l_lunctx (luntbl s j)
        \<and> l_waiting4deletion (luntbl ?s' j) = l_waiting4deletion (luntbl s j)
        \<and> (l_fragmap (luntbl ?s' j) = None) = (l_fragmap (luntbl s j) = None)
        \<and> l_nr_sctr (luntbl ?s' j) = l_nr_sctr (luntbl s j)" for j
      using fr(3-6,8) [of j] by (simp add: s1(3))
    show "fdesc_at (luntbl s) j n = Some d" if "fdesc_at (luntbl ?s') j n = Some d" "is_mapped d" for j n d
      using lost_dev_mapped [OF lost] that s1(3) by simp
    show "nr_cdev ?s' = nr_cdev s - 1" by (simp add: ncdev)
  qed
qed

section \<open>Properties\<close>

text \<open>
  C16: a device that fits is added with all its fragments free, none lost; everything that is cached
  stays, and no LUN changes.
\<close>

theorem addcdev_adds:
  assumes "sce_wf s" "2048 \<le> ns" "unat ns < 2048 * (2 ^ 24 + 1)" "unat (nr_cdev s) < 16" "cdev_search s ctx = None"
  shows "returns (sce_addcdev True s ns ctx) (\<lambda>(r, s'). sce_wf s' \<and> view s' = view s \<and> luntbl s' = luntbl s
    \<and> unat (nr_freefrag s') = unat (nr_freefrag s) + unat ns div 2048
    \<and> (\<exists>dn < 16. r = Some dn \<and> c_cdevctx (cdevtbl s' dn) = ctx
         \<and> flocs (cdevtbl s') = flocs (cdevtbl s) \<union> {dn} \<times> {..<unat ns div 2048}))"
  by (rule sce_addcdev_correct [OF assms]) auto

lemma addcdev_adds_witness:
  "returns (sce_addcdev True (example True 0) 8192 5) (\<lambda>(r, s'). sce_wf s' \<and> view s' = view (example True 0)
    \<and> luntbl s' = luntbl (example True 0) \<and> unat (nr_freefrag s') = 1 + 4)"
proof -
  have wf: "sce_wf (example True 0)" by (rule example_wf) simp
  have "cdev_search (example True 0) 5 = None" by (auto simp: cdev_search_def find_None_iff)
  note added = addcdev_adds [OF wf _ _ _ this, of 8192]
  have "returns (sce_addcdev True (example True 0) 8192 5) (\<lambda>(r, s'). sce_wf s' \<and> view s' = view (example True 0)
    \<and> luntbl s' = luntbl (example True 0) \<and> unat (nr_freefrag s') = unat (nr_freefrag (example True 0)) + unat (8192 :: u64) div 2048
    \<and> (\<exists>dn < 16. r = Some dn \<and> c_cdevctx (cdevtbl s' dn) = 5
         \<and> flocs (cdevtbl s') = flocs (cdevtbl (example True 0)) \<union> {dn} \<times> {..<unat (8192 :: u64) div 2048}))"
    by (rule added) simp_all
  then show ?thesis by (rule returns_mono) (simp add: case_prod_beta)
qed

text \<open>
  C15: removing a device returns and takes exactly the fragments mapped to it out of what is cached
  and out of what is being populated, but it leaves the references that those fragments held in
  their LUNs: the service counters of the LUNs do not change.
\<close>

theorem rmcdev_removes:
  assumes "sce_wf s" "dn < 16" "c_fragtbl (cdevtbl s dn) \<noteq> None"
  shows "returns (sce_rmcdev s (Some dn)) (\<lambda>(r, s'). r = SCE_SUCCESS \<and> sce_wf s' \<and> cdevtbl s' dn = cdev_zero
    \<and> (\<forall>i n. view s' (i, n) = (if \<exists>d. fdesc_at (luntbl s) i n = Some d \<and> is_mapped d \<and> fst (loc_of d) = dn
         then None else view s (i, n)))
    \<and> (\<forall>j. l_nr_service (luntbl s' j) = l_nr_service (luntbl s j)))"
  by (rule sce_rmcdev_correct [OF assms]) simp

lemma rmcdev_removes_witness:
  "returns (sce_rmcdev (example False 1) (Some 0)) (\<lambda>(r, s'). r = SCE_SUCCESS \<and> sce_wf s' \<and> view s' (0, 1) = None
    \<and> l_nr_service (luntbl s' 0) = 1)"
proof -
  have wf: "sce_wf (example False 1)" by (rule example_wf) simp
  show ?thesis
    by (rule returns_mono [OF rmcdev_removes [OF wf, of 0]]) auto
qed

text \<open>
  A LUN that fits is added to an empty slot with nothing cached for it, provided that the misses
  still logged for that slot are within its size; the other LUNs, the devices and what is cached
  stay as they are. Its fragments start with the heat that the fill pattern gives.
\<close>

theorem addlun_adds:
  assumes "sce_wf s" "0 < ns" "unat ns \<le> 2048 * (2 ^ 32 - 2)"
    and "List.find (\<lambda>i. l_fragmap (luntbl s i) = None) [0..<256] = Some i"
    and "log_fits s i (unat (nr_frag_of ns))"
  shows "case sce_addlun True s ns ctx of (r, s') \<Rightarrow> r = Some i \<and> sce_wf s' \<and> view s' = view s
    \<and> cdevtbl s' = cdevtbl s \<and> (\<forall>j. j \<noteq> i \<longrightarrow> luntbl s' j = luntbl s j) \<and> l_lunctx (luntbl s' i) = ctx
    \<and> (\<forall>n. fdesc_at (luntbl s') i n = (if n < unat (nr_frag_of ns) then Some 0x55555555 else None))"
  by (rule sce_addlun_correct [OF assms, of ctx]) (simp add: fragdesc_fill85_def)

lemma addlun_adds_witness:
  "case sce_addlun True (example True 0) 5000 3 of (r, s') \<Rightarrow> r = Some 1 \<and> sce_wf s' \<and> view s' = view (example True 0)
    \<and> l_lunctx (luntbl s' 1) = 3 \<and> fdesc_at (luntbl s') 1 2 = Some 0x55555555"
proof -
  let ?s = "example True 0"
  have wf: "sce_wf ?s" by (rule example_wf) simp
  have n: "unat (nr_frag_of 5000) = 3" by (simp add: nr_frag_of_unat)
  have f: "List.find (\<lambda>i. l_fragmap (luntbl ?s i) = None) [0..<256] = Some 1"
    by (auto simp: find_Some_iff intro!: exI [of _ 1])
  have l: "log_fits ?s 1 (unat (nr_frag_of 5000))" by (simp add: log_fits_def)
  show ?thesis using addlun_adds [OF wf _ _ f l, of 3] by (auto simp: n split: prod.splits)
qed

text \<open>
  C17: removing a LUN returns; an idle LUN is purged with all that is cached of it, a LUN with
  requests in service is only marked, and keeps what is cached until its last reference goes.
\<close>

theorem rmlun_removes:
  assumes "sce_wf s" "li < 256" "l_fragmap (luntbl s li) \<noteq> None"
  shows "returns (sce_rmlun s (Some li)) (\<lambda>(r, s'). r = SCE_SUCCESS \<and> sce_wf s'
    \<and> (\<forall>j. j \<noteq> li \<longrightarrow> luntbl s' j = luntbl s j)
    \<and> (if l_nr_service (luntbl s li) = 0
       then l_fragmap (luntbl s' li) = None \<and> (\<forall>x. view s' x = (if fst x = li then None else view s x))
       else l_waiting4deletion (luntbl s' li) \<and> view s' = view s))"
  by (rule returns_mono [OF sce_rmlun_correct [OF assms]]) (cases "l_nr_service (luntbl s li) = 0"; simp split: prod.splits)

lemma rmlun_removes_witness:
  "returns (sce_rmlun (example True 0) (Some 0)) (\<lambda>(r, s'). r = SCE_SUCCESS \<and> sce_wf s' \<and> l_fragmap (luntbl s' 0) = None)"
proof -
  have wf: "sce_wf (example True 0)" by (rule example_wf) simp
  show ?thesis by (rule returns_mono [OF rmlun_removes [OF wf, of 0]]) auto
qed

end
