(* ===== verification/Sce_Io.thy ===== *)
theory Sce_Io
  imports Sce_Config
begin

text \<open>
  The I/O functions of \<^verbatim>\<open>src/sce_interface.c\<close>: what \<^verbatim>\<open>sce_get4read\<close>,
  \<^verbatim>\<open>sce_put4read\<close> and \<^verbatim>\<open>sce_invalidate\<close> do to the invariant and to the pages that can be
  read. A request is described by its first page and its number of pages.
\<close>

section \<open>Requests and pages\<close>

definition req_first :: "sector_t \<Rightarrow> nat" where
  "req_first sctr = unat sctr div 8"

definition req_count :: "sector_t \<Rightarrow> u32 \<Rightarrow> nat" where
  "req_count sctr nr = (unat sctr + unat nr - 1) div 8 - unat sctr div 8 + 1"

text \<open>A request within a LUN, without overflow of its end.\<close>

definition req_ok :: "lun \<Rightarrow> sector_t \<Rightarrow> u32 \<Rightarrow> bool" where
  "req_ok lu sctr nr \<longleftrightarrow> nr \<noteq> 0 \<and> unat sctr + unat nr < 2 ^ 64 \<and> unat sctr + unat nr \<le> unat (l_nr_sctr lu)"

lemma unat_div_8 [simp]: "unat ((w :: u64) div 8) = unat w div 8"
  by (simp add: unat_div_distrib)

lemma unat_div_256 [simp]: "unat ((w :: u64) div 256) = unat w div 256"
  by (simp add: unat_div_distrib)

lemma unat_mod_256 [simp]: "unat ((w :: u64) mod 256) = unat w mod 256"
  by (simp add: unat_mod_distrib)

lemma req_sum:
  assumes "unat sctr + unat nr < 2 ^ 64"
  shows "unat (sctr + ucast (nr :: u32) :: u64) = unat sctr + unat nr"
  using assms by (simp add: unat_word_ariths)

lemma req_last:
  assumes "req_ok lu sctr nr"
  shows "unat (last_page sctr nr) = (unat sctr + unat nr - 1) div 8"
proof -
  have ov: "unat sctr + unat nr < 2 ^ 64" and nz: "nr \<noteq> 0" using assms by (simp_all add: req_ok_def)
  have e: "unat (sctr + ucast nr :: u64) = unat sctr + unat nr" by (rule req_sum [OF ov])
  have "0 < unat nr" using nz by (simp add: unat_gt_0)
  then have "sctr + ucast nr \<noteq> (0 :: u64)" using e by (metis add_gr_0 less_not_refl unat_0)
  then show ?thesis using unat_dec [of "sctr + ucast nr :: u64"] e by (simp add: last_page_def)
qed

lemma req_pages:
  assumes ok: "req_ok lu sctr nr" and len: "unat (l_nr_sctr lu) \<le> 2048 * k" "k \<le> 2 ^ 32"
  shows "unat (ucast (first_page sctr div 256) :: u32) = req_first sctr div 256"
    and "unat (ucast (first_page sctr mod 256) :: u32) = req_first sctr mod 256"
    and "unat (ucast (last_page sctr nr - first_page sctr + 1) :: u32) = req_count sctr nr"
    and "unat (ucast (last_page sctr nr - first_page sctr) + 1 :: u32) = req_count sctr nr"
    and "req_first sctr div 256 < k" "0 < req_count sctr nr"
    and "req_first sctr + req_count sctr nr \<le> 256 * k"
proof -
  have nz: "0 < unat nr" and le: "unat sctr + unat nr \<le> 2048 * k"
    using ok len by (auto simp: req_ok_def unat_gt_0)
  have n32: "unat nr < 2 ^ 32" using unsigned_less [of nr, where ?'a = nat] by simp
  show pos: "0 < req_count sctr nr" by (simp add: req_count_def)
  show f: "req_first sctr div 256 < k" using le nz by (simp add: req_first_def)
  then have f32: "req_first sctr div 256 < 2 ^ 32" using len(2) by linarith
  have fp: "unat (first_page sctr) = req_first sctr" by (simp add: first_page_def req_first_def)
  show "unat (ucast (first_page sctr div 256) :: u32) = req_first sctr div 256"
    using f32 by (simp add: unat_ucast_mod fp)
  show "unat (ucast (first_page sctr mod 256) :: u32) = req_first sctr mod 256"
    by (simp add: unat_ucast_mod fp)
  have mono: "unat sctr div 8 \<le> (unat sctr + unat nr - 1) div 8" using nz by (intro div_le_mono) simp
  have sub: "unat (last_page sctr nr - first_page sctr) = req_count sctr nr - 1"
    using req_last [OF ok] fp mono
    by (subst unat_sub) (simp_all add: word_le_nat_alt req_count_def req_first_def)
  have c: "req_count sctr nr \<le> 2 ^ 29 + 1"
  proof -
    have "(unat sctr + unat nr - 1) div 8 \<le> (unat sctr + 2 ^ 29 * 8) div 8"
      by (rule div_le_mono) (use n32 in simp)
    then show ?thesis by (simp add: req_count_def)
  qed
  have s1: "unat (last_page sctr nr - first_page sctr + 1) = req_count sctr nr"
    using sub c pos by (simp add: unat_word_ariths)
  show "unat (ucast (last_page sctr nr - first_page sctr + 1) :: u32) = req_count sctr nr"
    using s1 c by (simp add: unat_ucast_mod)
  have "unat (ucast (last_page sctr nr - first_page sctr) :: u32) = req_count sctr nr - 1"
    using sub c by (simp add: unat_ucast_mod)
  then show "unat (ucast (last_page sctr nr - first_page sctr) + 1 :: u32) = req_count sctr nr"
    using c pos by (simp add: unat_word_ariths)
  show "req_first sctr + req_count sctr nr \<le> 256 * k"
    using le nz mono by (simp add: req_first_def req_count_def)
qed

lemma lock_lun_req:
  assumes "unat sctr + unat nr < 2 ^ 64"
  shows "lock_lun s (Some li) sctr nr svc = Some li' \<longleftrightarrow> li' = li \<and> l_scehndl (luntbl s li)
    \<and> l_fragmap (luntbl s li) \<noteq> None \<and> req_ok (luntbl s li) sctr nr \<and> (svc \<longrightarrow> \<not> l_waiting4deletion (luntbl s li))"
  using req_sum [OF assms] assms
  by (auto simp: lock_lun_def Let_def req_ok_def lun_is_serviceable_def word_less_nat_alt)

section \<open>Statistics\<close>

lemma stats_upd_fields [simp]:
  "cdevtbl (stats_upd li g s) = cdevtbl s" "nr_hit (stats_upd li g s) = nr_hit s"
  "nr_miss (stats_upd li g s) = nr_miss s"
  "fdesc_at (luntbl (stats_upd li g s)) i n = fdesc_at (luntbl s) i n"
  "l_fragmap (luntbl (stats_upd li g s) i) = l_fragmap (luntbl s i)"
  "l_nr_service (luntbl (stats_upd li g s) i) = l_nr_service (luntbl s i)"
  "l_waiting4deletion (luntbl (stats_upd li g s) i) = l_waiting4deletion (luntbl s i)"
  "l_lunctx (luntbl (stats_upd li g s) i) = l_lunctx (luntbl s i)"
  "l_scehndl (luntbl (stats_upd li g s) i) = l_scehndl (luntbl s i)"
  "l_nr_sctr (luntbl (stats_upd li g s) i) = l_nr_sctr (luntbl s i)"
  "l_nr_frag (luntbl (stats_upd li g s) i) = l_nr_frag (luntbl s i)"
  by (simp_all add: stats_upd_def fdesc_at_upd_lun)

lemma stats_upd_inv: "sce_inv X s \<Longrightarrow> li < 256 \<Longrightarrow> sce_inv X (stats_upd li g s)"
  using inv_stats [of X s li "\<lambda>l. g (l_stats l)"] by (simp add: stats_upd_def)

lemma stats_upd_view [simp]: "view (stats_upd li g s) = view s"
  unfolding stats_upd_def by (rule view_keeps_map) (simp add: keeps_map_def)

lemma stats_upd_purges [simp]: "purges (luntbl (stats_upd li g s) i) = purges (luntbl s i)"
  by (simp add: purges_def)

lemma stats_upd_wf: "sce_wf s \<Longrightarrow> li < 256 \<Longrightarrow> sce_wf (stats_upd li g s)"
  using stats_upd_inv [of "{}" s li g] by (simp add: sce_wf_def wait_inv_purges)

lemma slack_stats_upd [simp]: "slack (stats_upd li g s) = slack s" "pend (stats_upd li g s) = pend s"
  by (simp_all add: fun_eq_iff slack_def pend_def)

section \<open>Reading\<close>

text \<open>
  What a read leaves: the invariant, the same pages, the same pending populations; and one more
  reference of the LUN when it was served.
\<close>

definition read_post :: "sce \<Rightarrow> nat \<Rightarrow> bool \<Rightarrow> sce \<Rightarrow> bool" where
  "read_post s li hit s' \<longleftrightarrow> sce_wf s' \<and> view s' = view s \<and> pend s' = pend s
     \<and> same_devs (cdevtbl s) (cdevtbl s')
     \<and> (\<forall>i < 256. slack s i \<le> slack s' i)
     \<and> (\<forall>j. j \<noteq> li \<longrightarrow> luntbl s' j = luntbl s j)
     \<and> l_lunctx (luntbl s' li) = l_lunctx (luntbl s li) \<and> l_nr_sctr (luntbl s' li) = l_nr_sctr (luntbl s li)
     \<and> l_waiting4deletion (luntbl s' li) = l_waiting4deletion (luntbl s li)
     \<and> map_option length (l_fragmap (luntbl s' li)) = map_option length (l_fragmap (luntbl s li))
     \<and> l_nr_service (luntbl s' li) = l_nr_service (luntbl s li) + (if hit then 1 else 0)"

text \<open>A miss is logged.\<close>

lemma read_miss:
  assumes wf: "sce_wf s" and li: "li < 256" and n: "fdesc_at (luntbl s) li (unat n) \<noteq> None"
  shows "returns (misslog_put (s\<lparr>nr_miss := nr_miss s + 1\<rparr>) (GET_LUNIDX li) n)
    (\<lambda>(r, s'). r = SCE_SUCCESS \<and> read_post s li False s')"
proof -
  let ?s1 = "s\<lparr>nr_miss := nr_miss s + 1\<rparr>"
  have inv: "sce_inv {} ?s1" using sce_wf_inv [OF wf] by simp
  have bound: "unat n < length m" if "l_fragmap (luntbl ?s1 (unat (GET_LUNIDX li))) = Some m" for m
    using n li that by (auto simp: fdesc_at_eq_Some)
  obtain s' where s': "misslog_put ?s1 (GET_LUNIDX li) n = Some (SCE_SUCCESS, s')" "sce_inv {} s'"
    "cdevtbl s' = cdevtbl ?s1" "luntbl s' = luntbl ?s1"
    by (rule inv_misslog_put [OF inv bound]) blast
  have "sce_wf s'" using s'(2,4) sce_wf_purges [OF wf] by (intro sce_wfI) simp_all
  moreover have "view s' = view s" using s'(3,4) by (intro view_cong) simp_all
  ultimately have "read_post s li False s'"
    using s'(3,4) slack_cong [of s' s] by (simp add: read_post_def)
  then show ?thesis using s'(1) by simp
qed

lemma read_post_trans:
  "read_post a li False b \<Longrightarrow> read_post b li h c \<Longrightarrow> read_post a li h c"
  unfolding read_post_def by (auto intro: same_devs_trans order_trans)

lemma read_post_trans':
  "read_post a li h b \<Longrightarrow> read_post b li False c \<Longrightarrow> read_post a li h c"
  unfolding read_post_def by (auto intro: same_devs_trans order_trans)

lemma read_post_nr_hit [simp]: "read_post s li h (s'\<lparr>nr_hit := a\<rparr>) = read_post s li h s'"
  by (simp add: read_post_def slack_def pend_def fun_eq_iff)

lemma read_post_stats: "sce_wf s \<Longrightarrow> li < 256 \<Longrightarrow> read_post s li False (stats_upd li g s)"
  by (simp add: read_post_def stats_upd_wf) (simp add: stats_upd_def)

text \<open>A miss on a fragment that is not mapped counts towards its heat.\<close>

lemma read_unmapped:
  assumes wf: "sce_wf s" and li: "li < 256"
    and d: "fdesc_at (luntbl s) li n = Some d" "\<not> is_mapped d"
  shows "read_post s li False (s\<lparr>luntbl := set_fdesc (luntbl s) li n (FRAGDESC_INC d)\<rparr>)"
proof -
  let ?s' = "s\<lparr>luntbl := set_fdesc (luntbl s) li n (FRAGDESC_INC d)\<rparr>"
  have "sce_inv {} ?s'"
    by (rule inv_set_fdesc [OF sce_wf_inv [OF wf] li d(1)]) (use d(2) in simp_all)
  then have "sce_wf ?s'"
    using sce_wf_purges [OF wf] by (intro sce_wfI) (simp_all add: purges_def)
  moreover have "view ?s' = view s"
  proof -
    have "view s (li, n) = None" using d by (simp add: view.simps)
    then show ?thesis using view_set_fdesc [of s li n "FRAGDESC_INC d"] d li by (simp add: fun_upd_idem)
  qed
  moreover have "pend ?s' = pend s"
    using d by (auto simp: fun_eq_iff pend_def)
  moreover have "slack ?s' = slack s" by (simp add: fun_eq_iff slack_def)
  ultimately show ?thesis
    by (simp add: read_post_def) (simp add: set_fdesc_def)
qed

text \<open>Changing the counters of a mapped fragment.\<close>

lemma read_frag:
  assumes wf: "sce_wf s" and li: "li < 256"
    and d: "fdesc_at (luntbl s) li n = Some d" "is_mapped d"
    and f': "f' = (frag_at (cdevtbl s) (loc_of d))\<lparr>f_nr_hit := a, f_nr_miss := b, f_nr_service := sv, f_nr_ref := rf\<rparr>"
    and rf: "unat rf \<le> 4" and sv: "\<not> is_valid d \<Longrightarrow> sv = f_nr_service (frag_at (cdevtbl s) (loc_of d))"
    and lsv: "unat (l_nr_service (luntbl s li)) + unat sv
      \<le> unat (l_nr_service (luntbl s li) + (if h then 1 else 0)) + unat (f_nr_service (frag_at (cdevtbl s) (loc_of d)))"
    and nz: "h \<Longrightarrow> l_nr_service (luntbl s li) + 1 \<noteq> 0"
  shows "read_post s li h (s\<lparr>cdevtbl := put_frag (cdevtbl s) (loc_of d) f',
    luntbl := upd_lun (luntbl s) li (\<lambda>l. l\<lparr>l_nr_service := l_nr_service l + (if h then 1 else 0)\<rparr>)\<rparr>)"
proof -
  let ?f = "frag_at (cdevtbl s) (loc_of d)" and ?g = "\<lambda>l. l\<lparr>l_nr_service := l_nr_service l + (if h then 1 else 0)\<rparr>"
  let ?s1 = "s\<lparr>cdevtbl := put_frag (cdevtbl s) (loc_of d) f'\<rparr>"
  let ?s' = "s\<lparr>cdevtbl := put_frag (cdevtbl s) (loc_of d) f', luntbl := upd_lun (luntbl s) li ?g\<rparr>"
  have inv: "sce_inv {} s" by (rule sce_wf_inv [OF wf])
  note mf = mapped_frag [OF inv li d]
  have fok: "frag_ok (luntbl s) ?f" by (rule used_frag [OF inv mf(1) _ mf(3)]) simp_all
  then have fok': "frag_ok (luntbl s) f'"
    using rf sv mf(6) by (auto simp: f' frag_ok_def pages_ok_def desc_of_def)
  have "sce_inv {} ?s'"
    by (rule inv_update_used [OF inv])
      (use mf fok' lsv in \<open>simp_all add: f' keeps_map_def\<close>)
  moreover have "\<not> purges (luntbl ?s' j)" if "j < 256" for j
    using sce_wf_purges [OF wf that] nz by (cases h) (auto simp: purges_def)
  ultimately have "sce_wf ?s'" by (intro sce_wfI)
  moreover have "view ?s' = view s"
  proof -
    have "view (?s1\<lparr>luntbl := upd_lun (luntbl ?s1) li ?g\<rparr>) = view ?s1"
      by (rule view_keeps_map) (simp add: keeps_map_def)
    moreover have "view ?s1 = view s" by (rule view_put_same [OF inv li d]) (simp add: f')
    ultimately show ?thesis by simp
  qed
  moreover have "pend ?s' = pend s" by (simp add: fun_eq_iff pend_def fdesc_at_upd_lun)
  moreover have "slack s i \<le> slack ?s' i" for i
    using srv_sum_put_used [OF mf(1,3), of f' i] mf(4) lsv by (auto simp: slack_def f' split: if_splits)
  ultimately show ?thesis by (simp add: read_post_def)
qed

text \<open>The pages of the one fragment that a request lies in.\<close>

definition req_frag :: "sector_t \<Rightarrow> nat" where
  "req_frag sctr = req_first sctr div 256"

definition req_range :: "sector_t \<Rightarrow> u32 \<Rightarrow> nat set" where
  "req_range sctr nr = {p. req_first sctr mod 256 \<le> p \<and> p < req_first sctr mod 256 + req_count sctr nr}"

definition req_one :: "sector_t \<Rightarrow> u32 \<Rightarrow> bool" where
  "req_one sctr nr \<longleftrightarrow> req_first sctr mod 256 + req_count sctr nr \<le> 256"

text \<open>
  The reading of the specification: a request within one fragment is served exactly if all its
  pages can be read, from the place where the fragment is mapped to.
\<close>

definition read_spec :: "sce \<Rightarrow> nat \<Rightarrow> sector_t \<Rightarrow> u32 \<Rightarrow> rc" where
  "read_spec s li sctr nr =
     (if req_one sctr nr \<and> req_range sctr nr \<subseteq> cell s True (li, req_frag sctr) then SCE_SUCCESS else SCE_ERROR)"

lemma range_word:
  fixes pgoff pgcnt :: u32
  assumes "unat pgoff = a" "unat pgcnt = c" "a < 256" "c < 2 ^ 31"
  shows "pgoff + pgcnt > 256 \<longleftrightarrow> a + c > 256"
  using assms by (simp add: word_less_nat_alt unat_word_ariths)

lemma req_count_bound: "req_count sctr nr < 2 ^ 31"
proof -
  have n32: "unat nr < 2 ^ 32" using unsigned_less [of nr, where ?'a = nat] by simp
  have "(unat sctr + unat nr - 1) div 8 \<le> (unat sctr + 2 ^ 29 * 8) div 8"
    by (rule div_le_mono) (use n32 in simp)
  then show ?thesis by (simp add: req_count_def)
qed

lemma sce_get4read_correct:
  assumes wf: "sce_wf s" and li: "li < 256"
    and lock: "l_scehndl (luntbl s li)" "l_fragmap (luntbl s li) \<noteq> None" "\<not> l_waiting4deletion (luntbl s li)"
    and req: "req_ok (luntbl s li) sctr nr"
    and srv: "unat (l_nr_service (luntbl s li)) + 1 < 2 ^ 32"
  shows "returns (sce_get4read s (Some li) sctr nr (Some out))
    (\<lambda>(r, o', s'). read_post s li (r = SCE_SUCCESS) s' \<and> r = read_spec s li sctr nr
      \<and> (r = SCE_SUCCESS \<longrightarrow> (\<exists>d. fdesc_at (luntbl s) li (req_frag sctr) = Some d \<and> is_mapped d \<and> is_valid d
           \<and> fdesc_at (luntbl s') li (req_frag sctr) = Some d
           \<and> f_nr_service (frag_at (cdevtbl s') (loc_of d)) = f_nr_service (frag_at (cdevtbl s) (loc_of d)) + 1
           \<and> o' = Some \<lparr>fmap_cdevctx = c_cdevctx (cdevtbl s (fst (loc_of d))), fmap_fragnum = SCE_PFIDOFF d\<rparr>)))"
proof -
  let ?s1 = "stats_upd li (\<lambda>st. st\<lparr>reads := reads st + 1, read_sctrs := read_sctrs st + ucast nr\<rparr>) s"
  let ?F = "req_frag sctr" and ?R = "req_range sctr nr"
  define fragn where "fragn = (ucast (first_page sctr div 256) :: u32)"
  define pgoff where "pgoff = (ucast (first_page sctr mod 256) :: u32)"
  define pgcnt where "pgcnt = (ucast (last_page sctr nr - first_page sctr + 1) :: u32)"
  have inv: "sce_inv {} s" by (rule sce_wf_inv [OF wf])
  have wf1: "sce_wf ?s1" by (rule stats_upd_wf [OF wf li])
  have inv1: "sce_inv {} ?s1" by (rule sce_wf_inv [OF wf1])
  obtain m where m: "l_fragmap (luntbl s li) = Some m" using lock(2) by auto
  have "lun_ok (luntbl s li)" using sce_inv_lun [OF inv] li by (simp add: lun_inv_def)
  then have len: "unat (l_nr_sctr (luntbl s li)) \<le> 2048 * length m" "length m \<le> 2 ^ 32"
    using m by (simp_all add: lun_ok_def)
  note rp = req_pages [OF req len, folded fragn_def pgoff_def pgcnt_def]
  have fn: "unat fragn = ?F" "?F < length m" using rp(1,5) by (simp_all add: req_frag_def)
  have span: "pgoff + pgcnt > 256 \<longleftrightarrow> \<not> req_one sctr nr"
    using range_word [OF rp(2,3) _ req_count_bound] by (simp add: req_one_def not_le)
  have lk: "lock_lun s (Some li) sctr nr True = Some li"
    using lock_lun_req [of sctr nr s li True li] req lock by (simp add: req_ok_def)
  have post1: "read_post s li False ?s1" by (rule read_post_stats [OF wf li])
  have m1: "l_fragmap (luntbl ?s1 li) = Some m" using m by simp
  let ?run = "sce_get4read s (Some li) sctr nr (Some out)"
  show ?thesis
  proof (cases "req_one sctr nr")
    case False
    then have "?run = Some (SCE_ERROR, Some out, ?s1)"
      using span lk by (simp add: sce_get4read_def Let_def flip: fragn_def pgoff_def pgcnt_def)
    then show ?thesis using post1 False by (simp add: read_spec_def)
  next
    case one: True
    then have nspan: "\<not> pgoff + pgcnt > 256" using span by simp
    define d where "d = m ! unat fragn"
    have rdd: "rd m (unat fragn) = Some d" using fn by (simp add: d_def)
    have d: "fdesc_at (luntbl s) li ?F = Some d" using m fn by (simp add: fdesc_at_def d_def)
    show ?thesis
    proof (cases "is_mapped d")
      case False
      let ?s2 = "?s1\<lparr>luntbl := set_fdesc (luntbl ?s1) li (unat fragn) (FRAGDESC_INC d)\<rparr>"
      have p2: "read_post ?s1 li False ?s2"
        by (rule read_unmapped [OF wf1 li]) (use d False fn in simp_all)
      then have wf2: "sce_wf ?s2" by (simp add: read_post_def)
      obtain s3 where s3: "misslog_put (?s2\<lparr>nr_miss := nr_miss ?s2 + 1\<rparr>) (GET_LUNIDX li) fragn = Some (SCE_SUCCESS, s3)"
          "read_post ?s2 li False s3"
        using read_miss [OF wf2 li, of fragn] d fn by (auto simp: returns_iff)
      have "?run = Some (SCE_ERROR, Some out, s3)"
        using lk nspan m1 rdd False s3(1)
        by (simp add: sce_get4read_def Let_def is_mapped_def flip: fragn_def pgoff_def pgcnt_def)
      moreover have "read_post s li False s3"
        by (rule read_post_trans [OF post1 read_post_trans [OF p2 s3(2)]])
      moreover have "read_spec s li sctr nr = SCE_ERROR"
      proof -
        have "cell s True (li, ?F) = {}" using d False by (simp add: cell_def view.simps)
        moreover have "?R \<noteq> {}" using rp(6) by (auto simp: req_range_def)
        ultimately show ?thesis by (simp add: read_spec_def)
      qed
      ultimately show ?thesis by simp
    next
      case mapped: True
      note mf = mapped_frag [OF inv li d mapped]
      let ?f = "frag_at (cdevtbl s) (loc_of d)"
      have fok: "frag_ok (luntbl s) ?f" by (rule used_frag [OF inv mf(1) _ mf(3)]) simp_all
      have d1: "fdesc_at (luntbl ?s1) li ?F = Some d" using d by simp
      have fm: "pfid2fmap (cdevtbl s) d out = \<lparr>fmap_cdevctx = c_cdevctx (cdevtbl s (fst (loc_of d))), fmap_fragnum = SCE_PFIDOFF d\<rparr>"
        by (simp add: pfid2fmap_def mf(2))
      have isv: "frag_isvalid ?f pgoff pgcnt = Some (if ?R \<subseteq> pages_of ?f then SCE_SUCCESS else SCE_ERROR)"
      proof -
        have "frag_isvalid ?f pgoff pgcnt = Some
            (if \<forall>p. in_pages (unat pgoff) (unat pgcnt) p \<longrightarrow> page_valid ?f p then SCE_SUCCESS else SCE_ERROR)"
          by (rule frag_isvalid_correct)
            (use fok rp(2,3,6) one in \<open>simp_all add: frag_ok_def word_pos_unat req_one_def\<close>)
        moreover have "(\<forall>p. in_pages (unat pgoff) (unat pgcnt) p \<longrightarrow> page_valid ?f p) \<longleftrightarrow> ?R \<subseteq> pages_of ?f"
          using one by (auto simp: req_range_def pages_of_def rp(2,3) req_one_def)
        ultimately show ?thesis by simp
      qed
      have spec: "read_spec s li sctr nr = (if is_valid d \<and> ?R \<subseteq> pages_of ?f then SCE_SUCCESS else SCE_ERROR)"
      proof -
        have "cell s True (li, ?F) = (if is_valid d then pages_of ?f else {})"
          using d mapped li by (simp add: cell_def view.simps)
        moreover have "?R \<noteq> {}" using rp(6) by (auto simp: req_range_def)
        ultimately show ?thesis using one by (simp add: read_spec_def)
      qed
      show ?thesis
      proof (cases "is_valid d \<and> ?R \<subseteq> pages_of ?f")
        case hit: True
        let ?ref = "if f_nr_ref ?f < 4 then f_nr_ref ?f + 1 else f_nr_ref ?f"
        let ?f' = "?f\<lparr>f_nr_hit := f_nr_hit ?f + 1, f_nr_service := f_nr_service ?f + 1, f_nr_ref := ?ref\<rparr>"
        let ?s2 = "?s1\<lparr>cdevtbl := put_frag (cdevtbl ?s1) (loc_of d) ?f',
            luntbl := upd_lun (luntbl ?s1) li (\<lambda>l. l\<lparr>l_nr_service := l_nr_service l + 1\<rparr>)\<rparr>"
        have ref: "unat ?ref \<le> 4"
          using fok by (auto simp: frag_ok_def word_less_nat_alt unat_inc)
        have up: "unat (l_nr_service (luntbl s li) + 1) = unat (l_nr_service (luntbl s li)) + 1"
          using srv by (simp add: unat_inc)
        have sv1: "unat (f_nr_service ?f + 1) \<le> unat (f_nr_service ?f) + 1"
          by (simp add: unat_word_ariths)
        have "read_post ?s1 li True (?s1\<lparr>cdevtbl := put_frag (cdevtbl ?s1) (loc_of d) ?f',
            luntbl := upd_lun (luntbl ?s1) li (\<lambda>l. l\<lparr>l_nr_service := l_nr_service l + (if True then 1 else 0)\<rparr>)\<rparr>)"
          by (rule read_frag [OF wf1 li d1 mapped, where a = "f_nr_hit ?f + 1" and b = "f_nr_miss ?f"])
            (use ref hit up sv1 in \<open>auto simp flip: unat_gt_0\<close>)
        then have p2: "read_post ?s1 li True ?s2" by simp
        let ?s3 = "stats_upd li (\<lambda>st. st\<lparr>read_hits := read_hits st + 1\<rparr>) (?s2\<lparr>nr_hit := nr_hit ?s2 + 1\<rparr>)"
        have p3: "read_post s li True ?s3"
        proof -
          have "read_post s li True (?s2\<lparr>nr_hit := nr_hit ?s2 + 1\<rparr>)"
            using read_post_trans [OF post1 p2] by simp
          moreover from this have "sce_wf (?s2\<lparr>nr_hit := nr_hit ?s2 + 1\<rparr>)" by (simp add: read_post_def)
          ultimately show ?thesis using read_post_trans' read_post_stats li by blast
        qed
        have "?run = Some (SCE_SUCCESS, Some (pfid2fmap (cdevtbl s) d out), ?s3)"
          using lk nspan m1 rdd mapped hit mf(1,2) isv
          by (simp add: sce_get4read_def Let_def is_mapped_def is_valid_def flip: fragn_def pgoff_def pgcnt_def)
        moreover have "fdesc_at (luntbl ?s3) li ?F = Some d" using d by (simp add: fdesc_at_upd_lun)
        moreover have "f_nr_service (frag_at (cdevtbl ?s3) (loc_of d)) = f_nr_service ?f + 1" using mf(1) by simp
        ultimately show ?thesis using p3 spec hit d mapped fm by simp
      next
        case miss: False
        let ?f' = "?f\<lparr>f_nr_miss := f_nr_miss ?f + 1\<rparr>"
        let ?s2 = "?s1\<lparr>cdevtbl := put_frag (cdevtbl ?s1) (loc_of d) ?f'\<rparr>"
        have "read_post ?s1 li False (?s1\<lparr>cdevtbl := put_frag (cdevtbl ?s1) (loc_of d) ?f',
            luntbl := upd_lun (luntbl ?s1) li (\<lambda>l. l\<lparr>l_nr_service := l_nr_service l + (if False then 1 else 0)\<rparr>)\<rparr>)"
          by (rule read_frag [OF wf1 li d1 mapped, where a = "f_nr_hit ?f" and b = "f_nr_miss ?f + 1"])
            (use fok in \<open>auto simp: frag_ok_def\<close>)
        then have p2: "read_post ?s1 li False ?s2" by (simp add: upd_lun_def)
        then have wf2: "sce_wf ?s2" by (simp add: read_post_def)
        obtain s3 where s3: "misslog_put (?s2\<lparr>nr_miss := nr_miss ?s2 + 1\<rparr>) (GET_LUNIDX li) fragn = Some (SCE_SUCCESS, s3)"
            "read_post ?s2 li False s3"
          using read_miss [OF wf2 li, of fragn] d fn by (auto simp: returns_iff)
        have "?run = Some (SCE_ERROR, Some (pfid2fmap (cdevtbl s) d out), s3)"
          using lk nspan m1 rdd mapped miss mf(1,2) isv s3(1)
          by (auto simp: sce_get4read_def Let_def is_mapped_def is_valid_def simp flip: fragn_def pgoff_def pgcnt_def)
        moreover have "read_post s li False s3"
          by (rule read_post_trans [OF post1 read_post_trans [OF p2 s3(2)]])
        ultimately show ?thesis using spec miss by auto
      qed
    qed
  qed
qed

section \<open>The end of a read\<close>

text \<open>
  Giving a reference back: the fragment and its LUN lose one each, and the fragment or the LUN is
  collected when it is due.
\<close>

definition releasing :: "sce \<Rightarrow> nat \<Rightarrow> fragdesc_t \<Rightarrow> sce" where
  "releasing s li d = s\<lparr>cdevtbl := put_frag (cdevtbl s) (loc_of d)
       ((frag_at (cdevtbl s) (loc_of d))\<lparr>f_nr_service := f_nr_service (frag_at (cdevtbl s) (loc_of d)) - 1\<rparr>),
     luntbl := upd_lun (luntbl s) li lun_dec\<rparr>"

lemma releasing_inv:
  assumes inv: "sce_inv {} s" and li: "li < 256"
    and d: "fdesc_at (luntbl s) li n = Some d" "is_mapped d" "is_valid d"
    and sv: "f_nr_service (frag_at (cdevtbl s) (loc_of d)) \<noteq> 0"
  shows "sce_inv {} (releasing s li d)" "view (releasing s li d) = view s" "pend (releasing s li d) = pend s"
    "slack (releasing s li d) = slack s" "fdesc_at (luntbl (releasing s li d)) li n = Some d"
    "l_nr_service (luntbl s li) \<noteq> 0"
proof -
  let ?f = "frag_at (cdevtbl s) (loc_of d)" let ?f' = "?f\<lparr>f_nr_service := f_nr_service ?f - 1\<rparr>"
  let ?s1 = "s\<lparr>cdevtbl := put_frag (cdevtbl s) (loc_of d) ?f'\<rparr>"
  note mf = mapped_frag [OF inv li d(1,2)]
  have fok: "frag_ok (luntbl s) ?f" by (rule used_frag [OF inv mf(1) _ mf(3)]) simp_all
  have fok': "frag_ok (luntbl s) ?f'"
    using fok mf(4,5) d by (simp add: frag_ok_def pages_ok_def desc_of_def)
  have pos: "0 < unat (f_nr_service ?f)" using sv by (simp add: unat_gt_0)
  then have "0 < unat (l_nr_service (luntbl s li))" using srv_pos [OF inv li d(1,2)] by simp
  then show nz: "l_nr_service (luntbl s li) \<noteq> 0" by (simp add: unat_gt_0)
  show "sce_inv {} (releasing s li d)"
    unfolding releasing_def
    by (rule inv_update_used [OF inv])
      (use mf fok' unat_dec [OF sv] unat_dec [OF nz] pos in \<open>simp_all add: keeps_map_def\<close>)
  have "view (?s1\<lparr>luntbl := upd_lun (luntbl ?s1) li lun_dec\<rparr>) = view ?s1"
    by (rule view_keeps_map) (simp add: keeps_map_def)
  moreover have "view ?s1 = view s" by (rule view_put_same [OF inv li d(1,2)]) simp
  ultimately show "view (releasing s li d) = view s" by (simp add: releasing_def)
  show "pend (releasing s li d) = pend s" by (simp add: fun_eq_iff pend_def releasing_def fdesc_at_upd_lun)
  show "fdesc_at (luntbl (releasing s li d)) li n = Some d" using d(1) by (simp add: releasing_def fdesc_at_upd_lun)
  show "slack (releasing s li d) = slack s"
  proof (rule ext)
    fix i
    show "slack (releasing s li d) i = slack s i"
      using srv_sum_put_used [OF mf(1,3), of ?f' i] mf(4) unat_dec [OF sv] unat_dec [OF nz] pos
      by (auto simp: slack_def releasing_def split: if_splits)
  qed
qed

lemma collected_wf:
  assumes "collected li s s'" "\<And>i. i < 256 \<Longrightarrow> i \<noteq> li \<Longrightarrow> \<not> purges (luntbl s i)"
  shows "sce_wf s'"
proof (rule sce_wfI)
  show "sce_inv {} s'" using assms(1) by (simp add: collected_def)
  show "\<not> purges (luntbl s' i)" if "i < 256" for i
    using assms that by (cases "i = li") (auto simp: collected_def)
qed

lemma collected_refl: "sce_inv {} s \<Longrightarrow> \<not> purges (luntbl s li) \<Longrightarrow> collected li s s"
  by (simp add: collected_def)

lemma req_one_frag:
  assumes "req_one sctr nr" "nr \<noteq> 0" shows "(unat sctr + unat nr - 1) div 2048 = unat sctr div 2048"
proof -
  define f where "f = unat sctr div 8"
  define l where "l = (unat sctr + unat nr - 1) div 8"
  have "0 < unat nr" using assms(2) by (simp add: unat_gt_0)
  then have le: "f \<le> l" unfolding f_def l_def by (intro div_le_mono) simp
  have c: "f mod 256 + (l - f + 1) \<le> 256"
    using assms(1) by (simp add: req_one_def req_first_def req_count_def f_def l_def)
  define q x where "q = f div 256" and "x = f mod 256 + (l - f)"
  have "l = 256 * q + x" using le by (simp add: q_def x_def)
  moreover have "x < 256" using c by (simp add: x_def)
  ultimately have "l div 256 = q" by simp
  then have "l div 256 = f div 256" by (simp add: q_def)
  then show ?thesis by (simp add: f_def l_def flip: div_mult2_eq)
qed

lemma sce_put4read_same:
  assumes wf: "sce_wf s" and li: "li < 256" and h: "l_scehndl (luntbl s li)"
    and req: "req_ok (luntbl s li) sctr nr"
    and one: "(unat sctr + unat nr - 1) div 2048 = unat sctr div 2048"
    and d: "fdesc_at (luntbl s) li (req_frag sctr) = Some d" "is_mapped d" "is_valid d"
    and sv: "f_nr_service (frag_at (cdevtbl s) (loc_of d)) \<noteq> 0"
  shows "returns (sce_put4read s (Some li) sctr nr)
    (\<lambda>(r, s'). r = SCE_SUCCESS \<and> sce_wf s' \<and> collected li (releasing s li d) s')"
proof -
  let ?f = "frag_at (cdevtbl s) (loc_of d)" and ?s1 = "releasing s li d"
  define fragn where "fragn = (ucast (sctr div 2048) :: u32)"
  have inv: "sce_inv {} s" by (rule sce_wf_inv [OF wf])
  obtain m where m: "l_fragmap (luntbl s li) = Some m" "req_frag sctr < length m" "d = m ! req_frag sctr"
    using d(1) by (auto simp: fdesc_at_eq_Some)
  have "lun_ok (luntbl s li)" using sce_inv_lun [OF inv] li by (simp add: lun_inv_def)
  then have len: "length m \<le> 2 ^ 32" using m(1) by (simp add: lun_ok_def)
  have rf: "req_frag sctr = unat sctr div 2048" by (simp add: req_frag_def req_first_def flip: div_mult2_eq)
  have u: "unat (sctr div 2048) = unat sctr div 2048" by (simp add: unat_div_distrib)
  have fn: "unat fragn = req_frag sctr"
    using m(2) len by (simp add: fragn_def unat_ucast_mod u rf)
  have nr: "nr \<noteq> 0" "unat sctr + unat nr < 2 ^ 64" using req by (simp_all add: req_ok_def)
  have sum: "unat (sctr + ucast nr :: u64) = unat sctr + unat nr" by (rule req_sum [OF nr(2)])
  have "0 < unat nr" using nr(1) by (simp add: unat_gt_0)
  then have "sctr + ucast nr \<noteq> (0 :: u64)" using sum by (metis add_gr_0 less_not_refl unat_0)
  then have "unat (sctr + ucast nr - 1 :: u64) = unat sctr + unat nr - 1" using unat_dec sum by metis
  then have "unat ((sctr + ucast nr - 1) div 2048) = unat (ucast fragn :: u64)"
    using one by (simp add: unat_div_distrib fn rf)
  then have same: "(sctr + ucast nr - 1) div 2048 = ucast fragn" by (simp add: word_unat_eq_iff)
  have lk: "lock_lun s (Some li) sctr nr False = Some li"
    using lock_lun_req [OF nr(2), of s li False li] h req m(1) by simp
  have rdd: "rd m (unat fragn) = Some d" using m fn by simp
  note mf = mapped_frag [OF inv li d(1,2)]
  note rel = releasing_inv [OF inv li d sv]
  have other: "\<not> purges (luntbl ?s1 i)" if "i < 256" "i \<noteq> li" for i
    using sce_wf_purges [OF wf that(1)] that(2) by (simp add: releasing_def)
  have body: "returns (if f_nr_service ?f - 1 = 0 then map_option snd (lun_gc ?s1 li (loc_of d)) else Some ?s1)
      (collected li ?s1)"
  proof (cases "f_nr_service ?f - 1 = 0")
    case True
    then show ?thesis
      using lun_gc_correct [OF rel(1) li rel(5) d(2)] by (auto simp: returns_iff)
  next
    case False
    have "f_nr_service (frag_at (cdevtbl ?s1) (loc_of d)) = f_nr_service ?f - 1"
      using mf(1) by (simp add: releasing_def)
    then have "l_nr_service (luntbl ?s1 li) \<noteq> 0"
      using srv_pos [OF rel(1) li rel(5) d(2)] False by (auto simp: unat_eq_zero)
    then have "collected li ?s1 ?s1" by (intro collected_refl [OF rel(1)]) (simp add: purges_def)
    then show ?thesis using False by simp
  qed
  then obtain s2 where s2: "(if f_nr_service ?f - 1 = 0 then map_option snd (lun_gc ?s1 li (loc_of d)) else Some ?s1) = Some s2"
      "collected li ?s1 s2"
    by (auto simp: returns_iff)
  have "sce_put4read s (Some li) sctr nr = Some (SCE_SUCCESS, s2)"
    unfolding sce_put4read_def
    using lk same m(1) rdd d(2,3) mf(1,2) sv rel(6) s2(1)
    by (simp add: is_mapped_def is_valid_def flip: fragn_def releasing_def)
  then show ?thesis using s2(2) collected_wf [OF s2(2) other] by simp
qed

lemma sce_put4read_correct:
  assumes "sce_wf s" "li < 256" "l_scehndl (luntbl s li)" "req_ok (luntbl s li) sctr nr" "req_one sctr nr"
    and "fdesc_at (luntbl s) li (req_frag sctr) = Some d" "is_mapped d" "is_valid d"
    and "f_nr_service (frag_at (cdevtbl s) (loc_of d)) \<noteq> 0"
  shows "returns (sce_put4read s (Some li) sctr nr)
    (\<lambda>(r, s'). r = SCE_SUCCESS \<and> sce_wf s' \<and> collected li (releasing s li d) s')"
  using sce_put4read_same [OF assms(1-4) _ assms(6-9)] req_one_frag [OF assms(5)] assms(4)
  by (simp add: req_ok_def)

text \<open>What the end of a read leaves, in pages and counters.\<close>

lemma put4read_released:
  assumes "sce_wf s" "li < 256" "l_scehndl (luntbl s li)" "req_ok (luntbl s li) sctr nr" "req_one sctr nr"
    and "fdesc_at (luntbl s) li (req_frag sctr) = Some d" "is_mapped d" "is_valid d"
    and "f_nr_service (frag_at (cdevtbl s) (loc_of d)) \<noteq> 0"
  shows "returns (sce_put4read s (Some li) sctr nr) (\<lambda>(r, s'). r = SCE_SUCCESS \<and> sce_wf s'
    \<and> (if l_waiting4deletion (luntbl s li) \<and> l_nr_service (luntbl s li) = 1
       then l_fragmap (luntbl s' li) = None \<and> contents s' = {x \<in> contents s. fst x \<noteq> li}
       else l_nr_service (luntbl s' li) = l_nr_service (luntbl s li) - 1 \<and> contents s' = contents s))"
proof -
  note rel = releasing_inv [OF sce_wf_inv [OF assms(1)] assms(2,6-9)]
  obtain s' where s': "sce_put4read s (Some li) sctr nr = Some (SCE_SUCCESS, s')" "sce_wf s'"
    and c: "collected li (releasing s li d) s'"
    using sce_put4read_correct [OF assms] by (auto simp: returns_iff)
  have p: "purges (luntbl (releasing s li d) li) \<longleftrightarrow> l_waiting4deletion (luntbl s li) \<and> l_nr_service (luntbl s li) = 1"
    by (simp add: purges_def releasing_def)
  have cl: "cell (releasing s li d) = cell s" by (rule cell_view_cong [OF rel(2)])
  show ?thesis
  proof (cases "purges (luntbl (releasing s li d) li)")
    case True
    then have "luntbl s' li = lun_destroy (luntbl (releasing s li d) li)"
      and cl': "\<forall>v x. cell s' v x = (if fst x = li then {} else cell s v x)" using c cl by (simp_all add: collected_def)
    then have "l_fragmap (luntbl s' li) = None" "contents s' = {x \<in> contents s. fst x \<noteq> li}"
      by (auto simp: contents_def)
    then show ?thesis using s' True unfolding p [symmetric] by simp
  next
    case False
    then have um: "unmaps li (releasing s li d) s'" and cl': "cell s' = cell s" using c cl by (simp_all add: collected_def)
    have "hdr (luntbl s' li) = hdr (luntbl (releasing s li d) li)" using um by (simp add: unmaps_def)
    then have "l_nr_service (luntbl s' li) = l_nr_service (luntbl (releasing s li d) li)" by (rule hdr_fields(2))
    then have "l_nr_service (luntbl s' li) = l_nr_service (luntbl s li) - 1" by (simp add: releasing_def)
    moreover have "contents s' = contents s" by (simp add: contents_def cl')
    ultimately show ?thesis using s' False unfolding p [symmetric] by simp
  qed
qed

section \<open>Properties\<close>

text \<open>The same test in pages of the LUN.\<close>

lemma read_spec_contents:
  "read_spec s li sctr nr = SCE_SUCCESS \<longleftrightarrow> req_first sctr mod 256 + req_count sctr nr \<le> 256
     \<and> (\<forall>p. req_first sctr \<le> p \<and> p < req_first sctr + req_count sctr nr \<longrightarrow> (li, p) \<in> contents s)"
proof (cases "req_one sctr nr")
  case False
  then show ?thesis by (simp add: read_spec_def req_one_def)
next
  case True
  let ?a = "req_first sctr" and ?c = "req_count sctr nr"
  have a: "?a = 256 * req_frag sctr + ?a mod 256" by (simp add: req_frag_def)
  have p: "(li, 256 * req_frag sctr + q) \<in> contents s \<longleftrightarrow> q \<in> cell s True (li, req_frag sctr)" if "q < 256" for q
    using that by (simp add: mem_contents)
  have "(\<forall>p. ?a \<le> p \<and> p < ?a + ?c \<longrightarrow> (li, p) \<in> contents s) \<longleftrightarrow> req_range sctr nr \<subseteq> cell s True (li, req_frag sctr)"
  proof
    assume all: "\<forall>p. ?a \<le> p \<and> p < ?a + ?c \<longrightarrow> (li, p) \<in> contents s"
    show "req_range sctr nr \<subseteq> cell s True (li, req_frag sctr)"
    proof
      fix q assume q: "q \<in> req_range sctr nr"
      then have "q < 256" using True by (simp add: req_range_def req_one_def)
      then show "q \<in> cell s True (li, req_frag sctr)"
        using spec [OF all, of "256 * req_frag sctr + q"] q p a by (simp add: req_range_def)
    qed
  next
    assume sub: "req_range sctr nr \<subseteq> cell s True (li, req_frag sctr)"
    show "\<forall>p. ?a \<le> p \<and> p < ?a + ?c \<longrightarrow> (li, p) \<in> contents s"
    proof (intro allI impI)
      fix k assume k: "?a \<le> k \<and> k < ?a + ?c"
      define q where "q = k - 256 * req_frag sctr"
      have q: "k = 256 * req_frag sctr + q" "q < 256" "q \<in> req_range sctr nr"
        using k a True by (auto simp: q_def req_range_def req_one_def)
      then show "(li, k) \<in> contents s" using sub p by auto
    qed
  qed
  then show ?thesis using True by (simp add: read_spec_def req_one_def)
qed

text \<open>
  C10: a read is served from the cache exactly when it lies within one fragment and all its pages
  are cached there; then the answer names the device and the fragment, and the fragment and the
  LUN count one request in service. What is cached does not change.
\<close>

theorem get4read_serves:
  assumes "sce_wf s" "li < 256" "l_scehndl (luntbl s li)" "l_fragmap (luntbl s li) \<noteq> None"
    "\<not> l_waiting4deletion (luntbl s li)" "req_ok (luntbl s li) sctr nr"
    "unat (l_nr_service (luntbl s li)) + 1 < 2 ^ 32"
  shows "returns (sce_get4read s (Some li) sctr nr (Some out)) (\<lambda>(r, out', s'). sce_wf s'
    \<and> contents s' = contents s \<and> incoming s' = incoming s
    \<and> (r = SCE_SUCCESS \<longleftrightarrow> req_first sctr mod 256 + req_count sctr nr \<le> 256
         \<and> (\<forall>p. req_first sctr \<le> p \<and> p < req_first sctr + req_count sctr nr \<longrightarrow> (li, p) \<in> contents s))
    \<and> l_nr_service (luntbl s' li) = l_nr_service (luntbl s li) + (if r = SCE_SUCCESS then 1 else 0)
    \<and> (r = SCE_SUCCESS \<longrightarrow> (\<exists>l V. view s (li, req_first sctr div 256) = Some (True, l, V)
         \<and> f_nr_service (frag_at (cdevtbl s') l) = f_nr_service (frag_at (cdevtbl s) l) + 1
         \<and> out' = Some \<lparr>fmap_cdevctx = c_cdevctx (cdevtbl s (fst l)), fmap_fragnum = of_nat (snd l)\<rparr>)))"
proof (rule returns_mono [OF sce_get4read_correct [OF assms, of out]])
  fix x assume post: "case x of (r, o', s') \<Rightarrow> read_post s li (r = SCE_SUCCESS) s' \<and> r = read_spec s li sctr nr
      \<and> (r = SCE_SUCCESS \<longrightarrow> (\<exists>d. fdesc_at (luntbl s) li (req_frag sctr) = Some d \<and> is_mapped d \<and> is_valid d
           \<and> fdesc_at (luntbl s') li (req_frag sctr) = Some d
           \<and> f_nr_service (frag_at (cdevtbl s') (loc_of d)) = f_nr_service (frag_at (cdevtbl s) (loc_of d)) + 1
           \<and> o' = Some \<lparr>fmap_cdevctx = c_cdevctx (cdevtbl s (fst (loc_of d))), fmap_fragnum = SCE_PFIDOFF d\<rparr>))"
  obtain r o' s' where x: "x = (r, o', s')" by (cases x)
  have rp: "read_post s li (r = SCE_SUCCESS) s'" and r: "r = read_spec s li sctr nr"
    using post unfolding x prod.case by blast+
  have cl: "cell s' = cell s" using rp by (intro cell_view_cong) (simp add: read_post_def)
  then have "contents s' = contents s" "incoming s' = incoming s" by (simp_all add: contents_def incoming_def)
  moreover have "r = SCE_SUCCESS \<longleftrightarrow> req_first sctr mod 256 + req_count sctr nr \<le> 256
         \<and> (\<forall>p. req_first sctr \<le> p \<and> p < req_first sctr + req_count sctr nr \<longrightarrow> (li, p) \<in> contents s)"
    unfolding r read_spec_contents by simp
  moreover have "\<exists>l V. view s (li, req_first sctr div 256) = Some (True, l, V)
         \<and> f_nr_service (frag_at (cdevtbl s') l) = f_nr_service (frag_at (cdevtbl s) l) + 1
         \<and> o' = Some \<lparr>fmap_cdevctx = c_cdevctx (cdevtbl s (fst l)), fmap_fragnum = of_nat (snd l)\<rparr>" if hit: "r = SCE_SUCCESS"
  proof -
    obtain d where d: "fdesc_at (luntbl s) li (req_frag sctr) = Some d" "is_mapped d" "is_valid d"
      and o: "f_nr_service (frag_at (cdevtbl s') (loc_of d)) = f_nr_service (frag_at (cdevtbl s) (loc_of d)) + 1"
        "o' = Some \<lparr>fmap_cdevctx = c_cdevctx (cdevtbl s (fst (loc_of d))), fmap_fragnum = SCE_PFIDOFF d\<rparr>"
      using post hit unfolding x prod.case by blast
    have "view s (li, req_first sctr div 256) = Some (True, loc_of d, pages_of (frag_at (cdevtbl s) (loc_of d)))"
      using d assms(2) by (simp add: view_eq_Some req_frag_def)
    moreover have "of_nat (snd (loc_of d)) = SCE_PFIDOFF d" by (simp add: loc_of_def)
    ultimately show ?thesis using o by auto
  qed
  ultimately show "case x of (r, out', s') \<Rightarrow> sce_wf s'
    \<and> contents s' = contents s \<and> incoming s' = incoming s
    \<and> (r = SCE_SUCCESS \<longleftrightarrow> req_first sctr mod 256 + req_count sctr nr \<le> 256
         \<and> (\<forall>p. req_first sctr \<le> p \<and> p < req_first sctr + req_count sctr nr \<longrightarrow> (li, p) \<in> contents s))
    \<and> l_nr_service (luntbl s' li) = l_nr_service (luntbl s li) + (if r = SCE_SUCCESS then 1 else 0)
    \<and> (r = SCE_SUCCESS \<longrightarrow> (\<exists>l V. view s (li, req_first sctr div 256) = Some (True, l, V)
         \<and> f_nr_service (frag_at (cdevtbl s') l) = f_nr_service (frag_at (cdevtbl s) l) + 1
         \<and> out' = Some \<lparr>fmap_cdevctx = c_cdevctx (cdevtbl s (fst l)), fmap_fragnum = of_nat (snd l)\<rparr>))"
    using rp by (simp add: x read_post_def)
qed

lemma get4read_serves_witness:
  "returns (sce_get4read (example True 0) (Some 0) 2048 8 (Some \<lparr>fmap_cdevctx = 0, fmap_fragnum = 0\<rparr>))
    (\<lambda>(r, out', s'). sce_wf s' \<and> (r = SCE_SUCCESS \<longleftrightarrow> (0, 256) \<in> contents (example True 0))
      \<and> contents s' = contents (example True 0))"
proof -
  let ?s = "example True 0" and ?out = "\<lparr>fmap_cdevctx = 0, fmap_fragnum = 0\<rparr>"
  have pre: "l_scehndl (luntbl ?s 0)" "l_fragmap (luntbl ?s 0) \<noteq> None" "\<not> l_waiting4deletion (luntbl ?s 0)"
    "req_ok (luntbl ?s 0) 2048 8" "unat (l_nr_service (luntbl ?s 0)) + 1 < 2 ^ 32"
    by (simp_all add: req_ok_def)
  have wf: "sce_wf ?s" by (rule example_wf) simp
  have f: "req_first 2048 = 256" "req_count 2048 8 = 1" by (simp_all add: req_first_def req_count_def)
  have one: "(\<forall>p. 256 \<le> p \<and> p < 256 + 1 \<longrightarrow> (0 :: nat, p) \<in> C) \<longleftrightarrow> (0, 256 :: nat) \<in> C" for C
    by (auto simp: less_Suc_eq_le dest: le_antisym)
  show ?thesis
    by (rule returns_mono [OF get4read_serves [OF wf _ pre, of ?out]])
      (unfold f one, auto)
qed

text \<open>
  C14: the end of a read that was served returns, takes back its reference of the fragment and of the
  LUN and leaves every cached page in place, but that a LUN whose removal waits for this last
  reference is purged.
\<close>

theorem put4read_releases:
  assumes "sce_wf s" "li < 256" "l_scehndl (luntbl s li)" "req_ok (luntbl s li) sctr nr" "req_one sctr nr"
    and "fdesc_at (luntbl s) li (req_frag sctr) = Some d" "is_mapped d" "is_valid d"
    and "f_nr_service (frag_at (cdevtbl s) (loc_of d)) \<noteq> 0"
  shows "returns (sce_put4read s (Some li) sctr nr) (\<lambda>(r, s'). r = SCE_SUCCESS \<and> sce_wf s'
    \<and> (if l_waiting4deletion (luntbl s li) \<and> l_nr_service (luntbl s li) = 1
       then l_fragmap (luntbl s' li) = None \<and> contents s' = {x \<in> contents s. fst x \<noteq> li}
       else l_nr_service (luntbl s' li) = l_nr_service (luntbl s li) - 1 \<and> contents s' = contents s))"
  using assms by (rule put4read_released)

lemma put4read_releases_witness:
  "returns (sce_put4read (example True 1) (Some 0) 2048 8) (\<lambda>(r, s'). r = SCE_SUCCESS \<and> sce_wf s'
    \<and> l_nr_service (luntbl s' 0) = 0 \<and> contents s' = contents (example True 1))"
  using put4read_releases [OF example_wf [of True 1], where li = 0 and sctr = 2048 and nr = 8
    and d = "FRAGDESC_MAPPED OR FRAGDESC_VALID"]
  by (simp add: req_ok_def req_one_def req_frag_def req_first_def req_count_def)

end
