(* ===== verification/Sce_Write.thy ===== *)
theory Sce_Write
  imports Sce_Io
begin

text \<open>
  \<^verbatim>\<open>sce_invalidate\<close>: the write of a request. The loop over the fragments of the request ends; it
  takes exactly the pages of the request out of the cache, out of the fragments that are served
  and out of those still being populated.
\<close>

section \<open>What a write leaves\<close>

text \<open>The same LUN up to its statistics and what its fragment map holds.\<close>

definition same_lun :: "lun \<Rightarrow> lun \<Rightarrow> bool" where
  "same_lun a b \<longleftrightarrow> (hdr a)\<lparr>l_stats := stats_zero\<rparr> = (hdr b)\<lparr>l_stats := stats_zero\<rparr>
     \<and> map_option length (l_fragmap a) = map_option length (l_fragmap b)"

lemma same_lun_refl [simp]: "same_lun a a"
  by (simp add: same_lun_def)

lemma same_lun_trans: "same_lun a b \<Longrightarrow> same_lun b c \<Longrightarrow> same_lun a c"
  by (simp add: same_lun_def)

lemma same_lun_fields:
  assumes "same_lun a b"
  shows "l_nr_service a = l_nr_service b" "l_waiting4deletion a = l_waiting4deletion b"
    "l_scehndl a = l_scehndl b" "l_lunctx a = l_lunctx b" "l_nr_sctr a = l_nr_sctr b" "l_nr_frag a = l_nr_frag b"
    "map_option length (l_fragmap a) = map_option length (l_fragmap b)"
  using assms by (cases a; cases b; simp add: same_lun_def hdr_def)+

lemma same_lun_purges: "same_lun a b \<Longrightarrow> purges a = purges b"
  using same_lun_fields [of a b] by (simp add: purges_def)

lemma same_lun_unmaps: "unmaps li s s' \<Longrightarrow> same_lun (luntbl s li) (luntbl s' li)"
  by (simp add: unmaps_def same_lun_def)

lemma same_lun_stats: "same_lun (luntbl s j) (luntbl (stats_upd li g s) j)"
  by (simp add: same_lun_def hdr_def stats_upd_def)

lemma stats_upd_other: "j \<noteq> li \<Longrightarrow> luntbl (stats_upd li g s) j = luntbl s j"
  by (simp add: stats_upd_def)

text \<open>The pages from \<open>a\<close> on are written, \<open>c\<close> of them, counted through the whole LUN.\<close>

definition written :: "nat \<Rightarrow> nat \<Rightarrow> nat \<Rightarrow> sce \<Rightarrow> sce \<Rightarrow> bool" where
  "written li a c s s' \<longleftrightarrow> sce_inv {} s' \<and> same_devs (cdevtbl s) (cdevtbl s')
     \<and> (\<forall>j. j \<noteq> li \<longrightarrow> luntbl s' j = luntbl s j) \<and> same_lun (luntbl s li) (luntbl s' li)
     \<and> (\<forall>i. books s s' i) \<and> places_le s' s
     \<and> (\<forall>v x. cell s' v x = (if fst x = li then {p \<in> cell s v x. \<not> in_pages a c (256 * snd x + p)} else cell s v x))"

lemma written_none: "sce_inv {} s \<Longrightarrow> written li a 0 s s"
  by (simp add: written_def)

lemma written_trans:
  assumes "written li a c s s1" "written li (a + c) k s1 s2" shows "written li a (c + k) s s2"
  unfolding written_def
proof (intro conjI allI)
  show "sce_inv {} s2" "same_devs (cdevtbl s) (cdevtbl s2)" "same_lun (luntbl s li) (luntbl s2 li)"
    using assms by (auto simp: written_def intro: same_devs_trans same_lun_trans)
  show "j \<noteq> li \<longrightarrow> luntbl s2 j = luntbl s j" for j using assms by (simp add: written_def)
  show "places_le s2 s" using assms places_le_trans unfolding written_def by blast
  show "books s s2 i" for i using assms books_trans unfolding written_def by blast
  fix v x
  show "cell s2 v x = (if fst x = li then {p \<in> cell s v x. \<not> in_pages a (c + k) (256 * snd x + p)} else cell s v x)"
    using assms unfolding written_def by (cases "fst x = li") auto
qed

lemma pages_lt: "p \<in> cell s v x \<Longrightarrow> p < 256"
  by (cases x) (auto simp: cell_def view.simps pages_of_def split: option.splits Option.bind_splits if_splits)

text \<open>A fragment that is not mapped holds none of the pages.\<close>

lemma written_unmapped:
  assumes inv: "sce_inv {} s" and d: "fdesc_at (luntbl s) li n = Some d" "\<not> is_mapped d" and c: "b + c \<le> 256"
  shows "written li (256 * n + b) c s s"
  unfolding written_def
proof (intro conjI allI)
  fix v x
  have "{p \<in> cell s v x. \<not> in_pages (256 * n + b) c (256 * snd x + p)} = cell s v x" if "fst x = li"
  proof (cases "snd x = n")
    case True
    then have "cell s v x = {}" using that d by (cases x) (simp add: cell_def view.simps)
    then show ?thesis by simp
  next
    case False
    have "\<not> in_pages (256 * n + b) c (256 * snd x + p)" if "p < 256" for p
    proof -
      consider "snd x + 1 \<le> n" | "n + 1 \<le> snd x" using False by linarith
      then show ?thesis using that c by cases linarith+
    qed
    then show ?thesis using pages_lt by blast
  qed
  then show "cell s v x = (if fst x = li then {p \<in> cell s v x. \<not> in_pages (256 * n + b) c (256 * snd x + p)} else cell s v x)"
    by simp
qed (use inv in simp_all)

section \<open>One fragment\<close>

lemma written_mapped:
  fixes pgoff pgcnt :: u32
  assumes inv: "sce_inv {} s" and li: "li < 256" and w: "\<not> l_waiting4deletion (luntbl s li)"
    and d: "fdesc_at (luntbl s) li n = Some d" "is_mapped d"
    and r: "0 < pgcnt" "unat pgoff + unat pgcnt \<le> 256"
  obtains k f' where "frag_invalidate (frag_at (cdevtbl s) (loc_of d)) pgoff pgcnt = Some (k, f')"
    "returns (let s1 = stats_upd li g (s\<lparr>cdevtbl := put_frag (cdevtbl s) (loc_of d) f'\<rparr>)
       in if is_valid d then map_option snd (lun_gc s1 li (loc_of d)) else Some s1)
     (written li (256 * n + unat pgoff) (unat pgcnt) s)"
proof -
  let ?f = "frag_at (cdevtbl s) (loc_of d)" and ?a = "256 * n + unat pgoff" and ?c = "unat pgcnt"
  note mf = mapped_frag [OF inv li d]
  have fok: "frag_ok (luntbl s) ?f" by (rule used_frag [OF inv mf(1) _ mf(3)]) simp_all
  then have pok: "pages_ok ?f" by (simp add: frag_ok_def)
  obtain bm k where fi: "frag_invalidate ?f pgoff pgcnt
        = Some (int k, ?f\<lparr>f_bitmap := bm, f_nr_valid := f_nr_valid ?f - of_nat k\<rparr>)"
    and pok': "pages_ok (?f\<lparr>f_bitmap := bm, f_nr_valid := f_nr_valid ?f - of_nat k\<rparr>)"
    and bm: "\<forall>p < 256. pagebit bm p \<longleftrightarrow> pagebit (f_bitmap ?f) p \<or> in_pages (unat pgoff) (unat pgcnt) p"
    using frag_invalidate_correct [OF pok r] by blast
  let ?f' = "?f\<lparr>f_bitmap := bm, f_nr_valid := f_nr_valid ?f - of_nat k\<rparr>"
  let ?s0 = "s\<lparr>cdevtbl := put_frag (cdevtbl s) (loc_of d) ?f'\<rparr>"
  let ?s1 = "stats_upd li g ?s0"
  have fok': "frag_ok (luntbl s) ?f'"
    using fok pok' by (auto simp: frag_ok_def desc_of_def)
  have "sce_inv {} (s\<lparr>cdevtbl := put_frag (cdevtbl s) (loc_of d) ?f', luntbl := upd_lun (luntbl s) li (\<lambda>l. l)\<rparr>)"
    by (rule inv_update_used [OF inv]) (use mf fok' in \<open>simp_all add: keeps_map_def\<close>)
  then have inv0: "sce_inv {} ?s0" by (simp add: upd_lun_def)
  then have inv1: "sce_inv {} ?s1" by (rule stats_upd_inv [OF _ li])
  have pages: "pages_of ?f' = {p \<in> pages_of ?f. \<not> in_pages (unat pgoff) (unat pgcnt) p}"
    using bm by (auto simp: pages_of_def page_valid_def)
  have vw: "view ?s0 = (view s)((li, n) := Some (is_valid d, loc_of d, pages_of ?f'))"
    by (rule view_put_mapped [OF inv li d])
  have v0: "view s (li, n) = Some (is_valid d, loc_of d, pages_of ?f)" using d li by (simp add: view.simps)
  have cell1: "cell ?s1 v x = (if fst x = li then {p \<in> cell s v x. \<not> in_pages ?a ?c (256 * snd x + p)} else cell s v x)" for v x
  proof (cases "x = (li, n)")
    case True
    then show ?thesis using vw v0 pages by (auto simp: cell_def)
  next
    case False
    have c: "cell ?s1 v x = cell s v x" using vw False by (intro cell_cong) simp
    have "\<not> in_pages ?a ?c (256 * snd x + p)" if "fst x = li" "p < 256" for p
    proof -
      have "snd x \<noteq> n" using False that by (cases x) simp
      then consider "snd x + 1 \<le> n" | "n + 1 \<le> snd x" by linarith
      then show ?thesis using that r by cases linarith+
    qed
    then have "fst x = li \<Longrightarrow> {p \<in> cell s v x. \<not> in_pages ?a ?c (256 * snd x + p)} = cell s v x"
      using pages_lt [of _ s v x] by blast
    then show ?thesis using c by simp
  qed
  have bk: "books s ?s1 i" for i
  proof -
    have "slack ?s0 i = slack s i" "pend ?s0 i = pend s i"
      using srv_sum_put_used [OF mf(1,3), of ?f' i] by (auto simp: slack_def pend_def split: if_splits)
    then show ?thesis by (simp add: books_def)
  qed
  have pl: "places_le ?s1 s"
    using vw v0 by (auto simp: places_le_def split: if_splits)
  have sd: "same_devs (cdevtbl s) (cdevtbl ?s1)" by simp
  have sl: "same_lun (luntbl s li) (luntbl ?s1 li)" using same_lun_stats [of ?s0 li li g] by simp
  have oth: "luntbl ?s1 j = luntbl s j" if "j \<noteq> li" for j using that by (simp add: stats_upd_other)
  have w1: "written li ?a ?c s ?s1"
    unfolding written_def using inv1 sd sl oth bk cell1 pl by blast
  have "returns (if is_valid d then map_option snd (lun_gc ?s1 li (loc_of d)) else Some ?s1) (written li ?a ?c s)"
  proof (cases "is_valid d")
    case True
    have d1: "fdesc_at (luntbl ?s1) li n = Some d" using d(1) by simp
    have np: "\<not> purges (luntbl ?s1 li)" using w by (simp add: purges_def)
    obtain s' where s': "lun_gc ?s1 li (loc_of d) = Some (SCE_SUCCESS, s')" "collected li ?s1 s'"
      using lun_gc_correct [OF inv1 li d1 d(2)] by (auto simp: returns_iff)
    have "written li ?a 0 ?s1 s'"
      using s'(2) np same_lun_unmaps by (auto simp: collected_def written_def)
    moreover have "written li ?a 0 ?s1 s' = written li (?a + ?c) 0 ?s1 s'" by (simp add: written_def)
    ultimately have "written li ?a ?c s s'" using written_trans [OF w1, of 0 s'] by simp
    then show ?thesis using True s'(1) by simp
  next
    case False
    then show ?thesis using w1 by simp
  qed
  then show thesis by (intro that [OF fi]) (simp add: Let_def)
qed

section \<open>The loop\<close>

lemma inval_loop_correct:
  assumes "sce_inv {} s" "li < 256" "\<not> l_waiting4deletion (luntbl s li)"
    and "map_option length (l_fragmap (luntbl s li)) = Some k" "k \<le> 2 ^ 32 - 2"
    and "unat pgoff < 256" "256 * unat fragn + unat pgoff + unat count \<le> 256 * k"
  shows "returns (inval_loop s li fragn pgoff count wh)
    (\<lambda>(w, s'). written li (256 * unat fragn + unat pgoff) (unat count) s s')"
  using assms
proof (induction "unat count" arbitrary: s fragn pgoff count wh rule: less_induct)
  case less
  note inv = less.prems(1) and li = less.prems(2) and k = less.prems(5)
  show ?case
  proof (cases "count = 0")
    case True
    then show ?thesis using written_none [OF inv] by (subst inval_loop.simps) simp
  next
    case False
    then have pos: "0 < count" "0 < unat count" by (simp_all add: word_gt_0 unat_gt_0)
    define pgcnt where "pgcnt = (if 256 - pgoff > count then count else 256 - pgoff)"
    have off: "unat (256 - pgoff) = 256 - unat pgoff"
      using less.prems(6) by (subst unat_sub) (simp_all add: word_le_nat_alt)
    have cnt: "unat pgcnt = min (unat count) (256 - unat pgoff)"
      by (auto simp: pgcnt_def word_less_nat_alt off)
    have pc: "0 < pgcnt" "unat pgoff + unat pgcnt \<le> 256" "unat pgcnt \<le> unat count"
      using cnt pos(2) less.prems(6) by (auto simp: word_pos_unat)
    have rest: "unat (count - pgcnt) = unat count - unat pgcnt"
      using pc(3) by (subst unat_sub) (simp_all add: word_le_nat_alt)
    obtain m where m: "l_fragmap (luntbl s li) = Some m" "length m = k" using less.prems(4) by auto
    have "256 * unat fragn < 256 * k" using less.prems(7) pos(2) by linarith
    then have fn: "unat fragn < k" by simp
    then obtain d where d: "fdesc_at (luntbl s) li (unat fragn) = Some d" "rd m (unat fragn) = Some d"
      using m by (auto simp: fdesc_at_def)
    have f1: "unat (fragn + 1) = unat fragn + 1" using fn k by (simp add: unat_word_ariths)
    have cont: "returns (inval_loop s1 li (fragn + 1) 0 (count - pgcnt) w)
        (\<lambda>(w, s'). written li (256 * unat fragn + unat pgoff) (unat count) s s')"
      if w1: "written li (256 * unat fragn + unat pgoff) (unat pgcnt) s s1" for s1 w
    proof (cases "unat pgcnt = unat count")
      case True
      then have z: "count - pgcnt = 0" using rest by (metis diff_self_eq_0 unat_eq_zero)
      have "inval_loop s1 li (fragn + 1) 0 0 w = Some (w, s1)" by (subst inval_loop.simps) simp
      then show ?thesis using w1 unfolding z True by simp
    next
      case False
      then have full: "unat pgoff + unat pgcnt = 256" using cnt less.prems(6) by (auto simp: min_def split: if_splits)
      note sl = same_lun_fields [of "luntbl s li" "luntbl s1 li"]
      have s1: "sce_inv {} s1" "same_lun (luntbl s li) (luntbl s1 li)" using w1 by (simp_all add: written_def)
      have at: "256 * unat (fragn + 1) + unat (0 :: u32) = 256 * unat fragn + unat pgoff + unat pgcnt"
        using f1 full by simp
      have fields: "\<not> l_waiting4deletion (luntbl s1 li)" "map_option length (l_fragmap (luntbl s1 li)) = Some k"
        using sl(2,7) [OF s1(2)] less.prems(3,4) by simp_all
      have lt: "unat (count - pgcnt) < unat count" using rest pc by (simp add: word_pos_unat)
      have room: "256 * unat (fragn + 1) + unat (0 :: u32) + unat (count - pgcnt) \<le> 256 * k"
        using at rest pc(3) less.prems(7) by simp
      have "returns (inval_loop s1 li (fragn + 1) 0 (count - pgcnt) w)
          (\<lambda>(w, s'). written li (256 * unat (fragn + 1) + unat (0 :: u32)) (unat (count - pgcnt)) s1 s')"
        by (rule less.hyps [OF lt s1(1) li fields k _ room]) simp
      then have "returns (inval_loop s1 li (fragn + 1) 0 (count - pgcnt) w)
          (\<lambda>(w, s'). written li (256 * unat fragn + unat pgoff + unat pgcnt) (unat (count - pgcnt)) s1 s')"
        unfolding at .
      then show ?thesis
      proof (rule returns_mono)
        fix x :: "nat \<times> sce"
        obtain w' s' where x: "x = (w', s')" by (cases x)
        assume "case x of (w, s') \<Rightarrow> written li (256 * unat fragn + unat pgoff + unat pgcnt) (unat (count - pgcnt)) s1 s'"
        then have "written li (256 * unat fragn + unat pgoff + unat pgcnt) (unat (count - pgcnt)) s1 s'" by (simp add: x)
        from written_trans [OF w1 this]
        show "case x of (w, s') \<Rightarrow> written li (256 * unat fragn + unat pgoff) (unat count) s s'"
          using rest pc(3) by (simp add: x)
      qed
    qed
    show ?thesis
    proof (cases "is_mapped d")
      case False
      have "written li (256 * unat fragn + unat pgoff) (unat pgcnt) s s"
        by (rule written_unmapped [OF inv d(1) False pc(2)])
      then show ?thesis
        using cont m d(2) False pos
        by (subst inval_loop.simps) (simp add: Let_def is_mapped_def flip: pgcnt_def)
    next
      case True
      let ?g = "\<lambda>n st. st\<lparr>valid_sctrs := valid_sctrs st - ucast ((word_of_int n :: u32) * 8)\<rparr>"
      obtain n f' where fi: "frag_invalidate (frag_at (cdevtbl s) (loc_of d)) pgoff pgcnt = Some (n, f')"
        by (rule written_mapped [OF inv li less.prems(3) d(1) True pc(1,2)])
      have "returns (let s1 = stats_upd li (?g n) (s\<lparr>cdevtbl := put_frag (cdevtbl s) (loc_of d) f'\<rparr>)
             in if is_valid d then map_option snd (lun_gc s1 li (loc_of d)) else Some s1)
           (written li (256 * unat fragn + unat pgoff) (unat pgcnt) s)"
        by (rule written_mapped [OF inv li less.prems(3) d(1) True pc(1,2), where g = "?g n"]) (use fi in simp)
      then obtain s2 where s2: "(let s1 = stats_upd li (?g n) (s\<lparr>cdevtbl := put_frag (cdevtbl s) (loc_of d) f'\<rparr>)
             in if is_valid d then map_option snd (lun_gc s1 li (loc_of d)) else Some s1) = Some s2"
          "written li (256 * unat fragn + unat pgoff) (unat pgcnt) s s2"
        unfolding returns_iff by blast
      note mf = mapped_frag [OF inv li d(1) True]
      show ?thesis
        using cont [OF s2(2)] m d(2) True pos mf(1,2) fi s2(1)
        by (subst inval_loop.simps) (simp add: Let_def is_mapped_def is_valid_def flip: pgcnt_def)
    qed
  qed
qed

section \<open>The call\<close>

lemma sce_invalidate_correct:
  assumes wf: "sce_wf s" and li: "li < 256"
    and lock: "l_scehndl (luntbl s li)" "l_fragmap (luntbl s li) \<noteq> None" "\<not> l_waiting4deletion (luntbl s li)"
    and req: "req_ok (luntbl s li) sctr nr"
  shows "returns (sce_invalidate s (Some li) sctr nr)
    (\<lambda>(r, s'). r = SCE_SUCCESS \<and> sce_wf s' \<and> written li (req_first sctr) (req_count sctr nr) s s')"
proof -
  define s1 where "s1 = stats_upd li (\<lambda>st. st\<lparr>writes := writes st + 1, write_sctrs := write_sctrs st + ucast nr\<rparr>) s"
  define fragn where "fragn = (ucast (first_page sctr div 256) :: u32)"
  define pgoff where "pgoff = (ucast (first_page sctr mod 256) :: u32)"
  define count where "count = (ucast (last_page sctr nr - first_page sctr) + 1 :: u32)"
  have inv: "sce_inv {} s" by (rule sce_wf_inv [OF wf])
  have inv1: "sce_inv {} s1" unfolding s1_def by (rule stats_upd_inv [OF inv li])
  obtain m where m: "l_fragmap (luntbl s li) = Some m" using lock(2) by auto
  have "lun_ok (luntbl s li)" using sce_inv_lun [OF inv] li by (simp add: lun_inv_def)
  then have len: "unat (l_nr_sctr (luntbl s li)) \<le> 2048 * length m" "length m \<le> 2 ^ 32" "length m \<le> 2 ^ 32 - 2"
    using m by (simp_all add: lun_ok_def)
  note rp = req_pages [OF req len(1,2), folded fragn_def pgoff_def count_def]
  have at: "256 * unat fragn + unat pgoff = req_first sctr" using rp(1,2) by simp
  obtain w s2 where s2: "inval_loop s1 li fragn pgoff count 0 = Some (w, s2)"
      "written li (req_first sctr) (req_count sctr nr) s1 s2"
    using inval_loop_correct [OF inv1 li, of "length m" pgoff fragn count 0] lock(3) m len rp(2,4,7) at
    by (auto simp: s1_def returns_iff)
  define s3 where "s3 = (if w \<noteq> 0 then stats_upd li (\<lambda>st. st\<lparr>write_hits := write_hits st + 1\<rparr>) s2 else s2)"
  have upd: "written li a 0 t (stats_upd li g t)" if "sce_inv {} t" for a t g
    using stats_upd_inv [OF that li, of g] same_lun_stats [of t li li g] stats_upd_other [of _ li g t]
      slack_stats_upd [of li g t] cell_view_cong [OF stats_upd_view, of li g t]
    by (simp add: written_def books_def places_le_view)
  have "written li (req_first sctr) (0 + req_count sctr nr) s s2"
    by (rule written_trans [OF upd [OF inv]]) (use s2(2) in \<open>simp add: s1_def\<close>)
  moreover have "written li a 0 s2 s3" for a
    using upd [of s2] written_none [of s2] s2(2) by (auto simp: s3_def written_def)
  ultimately have w3: "written li (req_first sctr) (req_count sctr nr) s s3"
    using written_trans [of li "req_first sctr" "req_count sctr nr" s s2 0 s3] by simp
  have "sce_wf s3"
  proof (rule sce_wfI)
    show "sce_inv {} s3" using w3 by (simp add: written_def)
    show "\<not> purges (luntbl s3 i)" if "i < 256" for i
      using sce_wf_purges [OF wf that] w3 same_lun_purges [of "luntbl s li" "luntbl s3 li"]
      by (cases "i = li") (simp_all add: written_def)
  qed
  moreover have "sce_invalidate s (Some li) sctr nr = Some (SCE_SUCCESS, s3)"
  proof -
    have ov: "unat sctr + unat nr < 2 ^ 64" "nr \<noteq> 0" using req by (simp_all add: req_ok_def)
    have "\<not> sctr + ucast nr > l_nr_sctr (luntbl s li)"
      using req_sum [OF ov(1)] req by (simp add: word_less_nat_alt req_ok_def)
    then show ?thesis
      using lock ov(2) s2(1)
      by (simp add: sce_invalidate_def lun_is_serviceable_def Let_def s3_def
          flip: fragn_def pgoff_def count_def s1_def)
  qed
  ultimately show ?thesis using w3 by simp
qed

text \<open>What a write leaves, in pages.\<close>

lemma invalidate_removed:
  assumes "sce_wf s" "li < 256" "l_scehndl (luntbl s li)" "l_fragmap (luntbl s li) \<noteq> None"
    "\<not> l_waiting4deletion (luntbl s li)" "req_ok (luntbl s li) sctr nr"
  shows "returns (sce_invalidate s (Some li) sctr nr) (\<lambda>(r, s'). r = SCE_SUCCESS \<and> sce_wf s'
    \<and> contents s' = contents s - {li} \<times> {unat sctr div 8..(unat sctr + unat nr - 1) div 8}
    \<and> incoming s' = incoming s - {li} \<times> {unat sctr div 8..(unat sctr + unat nr - 1) div 8})"
proof -
  let ?a = "req_first sctr" and ?c = "req_count sctr nr"
  let ?R = "{unat sctr div 8..(unat sctr + unat nr - 1) div 8}"
  have pos: "0 < unat nr" using assms(6) by (simp add: req_ok_def unat_gt_0)
  have "unat sctr div 8 \<le> (unat sctr + unat nr - 1) div 8" by (rule div_le_mono) (use pos in simp)
  then have R: "p \<in> ?R \<longleftrightarrow> ?a \<le> p \<and> p < ?a + ?c" for p by (auto simp: req_first_def req_count_def)
  obtain s' where s': "sce_invalidate s (Some li) sctr nr = Some (SCE_SUCCESS, s')" "sce_wf s'" "written li ?a ?c s s'"
    using sce_invalidate_correct [OF assms] by (auto simp: returns_iff)
  have cl: "cell s' v x = (if fst x = li then {p \<in> cell s v x. \<not> (?a \<le> 256 * snd x + p \<and> 256 * snd x + p < ?a + ?c)} else cell s v x)" for v x
    using s'(3) by (simp add: written_def)
  have "p mod 256 \<in> cell s' v (i, p div 256) \<longleftrightarrow> p mod 256 \<in> cell s v (i, p div 256) \<and> (i, p) \<notin> {li} \<times> ?R" for i p v
    using R [of p] unfolding cl by simp
  then have "contents s' = contents s - {li} \<times> ?R" "incoming s' = incoming s - {li} \<times> ?R"
    by (auto simp: contents_def incoming_def)
  then show ?thesis using s' by (simp add: written_def)
qed

section \<open>Properties\<close>

text \<open>
  C11: a write to a LUN returns and removes exactly the pages it touches, even partly, from what is
  cached and from what is being populated, and removes nothing else.
\<close>

theorem invalidate_removes:
  assumes "sce_wf s" "li < 256" "l_scehndl (luntbl s li)" "l_fragmap (luntbl s li) \<noteq> None"
    "\<not> l_waiting4deletion (luntbl s li)" "req_ok (luntbl s li) sctr nr"
  shows "returns (sce_invalidate s (Some li) sctr nr) (\<lambda>(r, s'). r = SCE_SUCCESS \<and> sce_wf s'
    \<and> contents s' = contents s - {li} \<times> {unat sctr div 8..(unat sctr + unat nr - 1) div 8}
    \<and> incoming s' = incoming s - {li} \<times> {unat sctr div 8..(unat sctr + unat nr - 1) div 8})"
  by (rule returns_mono [OF invalidate_removed [OF assms]]) (simp add: case_prod_beta)

lemma invalidate_removes_witness:
  "returns (sce_invalidate (example True 0) (Some 0) 2050 8) (\<lambda>(r, s'). r = SCE_SUCCESS \<and> sce_wf s'
    \<and> contents s' = contents (example True 0) - {0} \<times> {256..257})"
proof -
  have "sce_wf (example True 0)" by (rule example_wf) simp
  note * = invalidate_removes [OF this, where li = 0 and sctr = 2050 and nr = 8]
  show ?thesis by (rule returns_mono [OF *]) (auto simp: req_ok_def)
qed

end
