(* ===== verification/Sce_Pop.thy ===== *)
theory Sce_Pop
  imports Sce_Write
begin

text \<open>
  The population calls of \<^verbatim>\<open>src/sce_interface.c\<close>: \<^verbatim>\<open>sce_get4pop\<close> hands out the hottest missed
  fragment, mapped to a fragment of a device that no read is served from yet, and
  \<^verbatim>\<open>sce_put4pop\<close> makes it readable or gives it back.
\<close>

section \<open>Handing out a task\<close>

text \<open>
  What a task that was handed out means: the fragment was a hottest candidate, it is mapped and
  not valid, and the task names its LUN, its device and both fragment numbers. At most one other
  fragment was evicted for it.
\<close>

definition tasked :: "sce \<Rightarrow> nat \<Rightarrow> u32 \<Rightarrow> pfid_t \<Rightarrow> sce_poptask_t \<Rightarrow> sce \<Rightarrow> bool" where
  "tasked s li n p t s' \<longleftrightarrow> li < 256 \<and> populating s li (unat n) (SCE_SUCCESS, p, s')
     \<and> (\<exists>d. fdesc_at (luntbl s) li (unat n) = Some d \<and> \<not> is_mapped d)
     \<and> \<not> l_waiting4deletion (luntbl s li)
     \<and> (GET_LUNIDX li, n) \<in> set (log_range s 0 100) \<and> candidate s (GET_LUNIDX li, n)
     \<and> (\<forall>x \<in> set (log_range s 0 100). candidate s x \<longrightarrow> heat s x \<le> heat s (GET_LUNIDX li, n))
     \<and> t = \<lparr>pt_lunctx = l_lunctx (luntbl s li), pt_cdevctx = c_cdevctx (cdevtbl s (fst (loc_of p))),
         pt_lun_fragnum = n, pt_cdev_fragnum = of_nat (snd (loc_of p))\<rparr>"

lemma populating_luntbl:
  assumes "populating s li n (SCE_SUCCESS, p, s')"
  shows "l_lunctx (luntbl s' j) = l_lunctx (luntbl s j)" "l_nr_sctr (luntbl s' j) = l_nr_sctr (luntbl s j)"
    "l_waiting4deletion (luntbl s' j) = l_waiting4deletion (luntbl s j)"
    "l_nr_service (luntbl s' j) = l_nr_service (luntbl s j) + (if j = li then 1 else 0)"
    "(l_fragmap (luntbl s' j) = None) = (l_fragmap (luntbl s j) = None)"
proof -
  have h: "hdr (luntbl s' j) = (if j = li
      then (hdr (luntbl s j))\<lparr>l_nr_service := l_nr_service (luntbl s j) + 1\<rparr> else hdr (luntbl s j))"
    and m: "map_option length (l_fragmap (luntbl s' j)) = map_option length (l_fragmap (luntbl s j))"
    using assms by (simp_all add: populating_def)
  show "l_lunctx (luntbl s' j) = l_lunctx (luntbl s j)" "l_nr_sctr (luntbl s' j) = l_nr_sctr (luntbl s j)"
    "l_waiting4deletion (luntbl s' j) = l_waiting4deletion (luntbl s j)"
    "l_nr_service (luntbl s' j) = l_nr_service (luntbl s j) + (if j = li then 1 else 0)"
    using h by (cases "luntbl s j"; cases "luntbl s' j"; auto simp: hdr_def split: if_splits)+
  show "(l_fragmap (luntbl s' j) = None) = (l_fragmap (luntbl s j) = None)"
    using m by (metis option.map_disc_iff)
qed

lemma sce_get4pop_correct:
  assumes wf: "sce_wf s" and srv: "\<And>i. i < 256 \<Longrightarrow> unat (l_nr_service (luntbl s i)) + 1 < 2 ^ 32"
  shows "returns (sce_get4pop s (Some out)) (\<lambda>(r, o', s'). sce_wf s' \<and> same_devs (cdevtbl s) (cdevtbl s') \<and>
    (if r = SCE_SUCCESS then \<exists>li n p t. o' = Some t \<and> tasked s li n p t s'
     else o' = Some out \<and> view s' = view s \<and> luntbl s' = luntbl s \<and> (\<forall>i. books s s' i)))"
proof -
  have inv: "sce_inv {} s" by (rule sce_wf_inv [OF wf])
  let ?L = "log_range s 0 100"
  let ?h = "hottest s ?L 0 (SCE_ERROR, 0, 0)"
  have ch: "choose4population s 0 0 = Some ?h" by (rule choose4population_eq [OF inv])
  show ?thesis
  proof (cases "\<exists>e \<in> set ?L. candidate s e \<and> heat s e > 0")
    case False
    then have "?h = (SCE_ERROR, 0, 0)"
      using hottest_result [of s ?L 0 "(SCE_ERROR, 0, 0)"] by (simp only: if_False)
    then have "sce_get4pop s (Some out) = Some (SCE_ERROR, Some out, s)"
      using ch by (simp add: sce_get4pop_def)
    then show ?thesis using wf by simp
  next
    case True
    obtain l n where e: "snd ?h = (l, n)" by (cases "snd ?h")
    have h: "?h = (SCE_SUCCESS, l, n)"
      using hottest_result [of s ?L 0 "(SCE_ERROR, 0, 0)"] True e by simp
    have mx: "(l, n) \<in> set ?L" "candidate s (l, n)" "\<forall>x \<in> set ?L. candidate s x \<longrightarrow> heat s x \<le> heat s (l, n)"
      using hottest_max [OF True, of "(SCE_ERROR, 0, 0)"] e by simp_all
    define li where "li = unat l"
    have l: "l = GET_LUNIDX li" by (simp add: li_def GET_LUNIDX_def)
    obtain li: "li < 256" and w: "\<not> l_waiting4deletion (luntbl s li)"
      and d: "fdesc_at (luntbl s) li (unat n) = Some (log_desc s (l, n))"
      by (rule log_range_valid [OF inv mx(1)]) (simp add: li_def)
    have um: "\<not> is_mapped (log_desc s (l, n))" using mx(2) by (simp add: candidate_def)
    obtain r p s1 where al: "alloc4population s li n 0 = Some (r, p, s1)" "populating s li (unat n) (r, p, s1)"
      using alloc4population_correct [OF inv li d um srv [OF li], of 0] by (auto simp: returns_iff)
    have inv1: "sce_inv {} s1" and sd: "same_devs (cdevtbl s) (cdevtbl s1)"
      using al(2) by (simp_all add: populating_def)
    have nb: "bug_on (256 \<le> unat l) = Some ()" using li by (simp add: bug_on_def li_def)
    show ?thesis
    proof (cases "r = SCE_SUCCESS")
      case False
      have lt: "luntbl s1 = luntbl s" "view s1 = view s" "\<forall>i. books s s1 i"
        using al(2) False by (simp_all add: populating_def)
      have "sce_get4pop s (Some out) = Some (r, Some out, s1)"
        using ch h nb al(1) False by (simp add: sce_get4pop_def li_def)
      moreover have "sce_wf s1" using inv1 lt(1) sce_wf_purges [OF wf] by (intro sce_wfI) simp_all
      ultimately show ?thesis using False lt sd by simp
    next
      case True
      note pl = populating_luntbl [OF al(2) [unfolded True]]
      have "sce_wf s1"
      proof (rule sce_wfI [OF inv1])
        fix i :: nat assume i: "i < 256"
        have "l_nr_service (luntbl s i) + 1 \<noteq> 0"
          using srv [OF i] by (simp add: unat_inc flip: unat_eq_zero)
        then show "\<not> purges (luntbl s1 i)"
          using sce_wf_purges [OF wf i] pl(3,4) [of i] w by (cases "i = li") (simp_all add: purges_def)
      qed
      moreover let ?t = "\<lparr>pt_lunctx = l_lunctx (luntbl s1 li), pt_cdevctx = c_cdevctx (cdevtbl s1 (unat (SCE_PFIDDEV p))),
          pt_lun_fragnum = n, pt_cdev_fragnum = SCE_PFIDOFF p\<rparr>"
      have "sce_get4pop s (Some out) = Some (SCE_SUCCESS, Some ?t, s1)"
        using ch h nb al(1) True by (simp add: sce_get4pop_def li_def)
      moreover have "tasked s li n p ?t s1"
        using li w al(2) True d um mx sd pl(1) by (auto simp: tasked_def l loc_of_def same_devs_def)
      ultimately show ?thesis using sd by auto
    qed
  qed
qed

section \<open>The books of a finished population\<close>

lemma completing_books:
  assumes inv: "sce_inv {} s" and li: "li < 256"
    and d: "fdesc_at (luntbl s) li n = Some d" "is_mapped d" "\<not> is_valid d"
  shows "slack (completing s li n d) i = slack s i" "l_nr_service (luntbl s li) \<noteq> 0"
proof -
  let ?f = "frag_at (cdevtbl s) (loc_of d)"
  note mf = mapped_frag [OF inv li d(1,2)]
  have "frag_ok (luntbl s) ?f" by (rule used_frag [OF inv mf(1) _ mf(3)]) simp_all
  then have sv: "f_nr_service ?f = 1" using mf(6) d(3) by (simp add: frag_ok_def)
  then have "0 < unat (l_nr_service (luntbl s li))" using srv_pos [OF inv li d(1,2)] by simp
  then show nz: "l_nr_service (luntbl s li) \<noteq> 0" by (simp add: unat_gt_0)
  show "slack (completing s li n d) i = slack s i"
    using srv_sum_put_used [OF mf(1,3), of "?f\<lparr>f_nr_service := 0\<rparr>" i] mf(4) sv unat_dec [OF nz]
    by (auto simp: slack_def completing_def split: if_splits)
qed

lemma cancelling_books:
  assumes inv: "sce_inv {} s" and li: "li < 256"
    and d: "fdesc_at (luntbl s) li n = Some d" "is_mapped d" "\<not> is_valid d"
  shows "slack (cancelling s li n d) i = slack s i"
proof -
  let ?f = "frag_at (cdevtbl s) (loc_of d)"
  let ?f' = "?f\<lparr>f_nr_service := 0, f_fragnum := FRAGNUM_WITHINFREELIST, f_next := freefraglist s\<rparr>"
  note mf = mapped_frag [OF inv li d(1,2)]
  have "frag_ok (luntbl s) ?f" by (rule used_frag [OF inv mf(1) _ mf(3)]) simp_all
  then have sv: "f_nr_service ?f = 1" using mf(6) d(3) by (simp add: frag_ok_def)
  have nz: "l_nr_service (luntbl s li) \<noteq> 0" by (rule completing_books(2) [OF inv li d])
  have "srv_sum {} (put_frag (cdevtbl s) (loc_of d) ?f') i = srv_sum {loc_of d} (cdevtbl s) i"
    by (rule srv_sum_freed [OF mf(1)]) (simp add: in_use_def)
  moreover have "srv_sum {} (cdevtbl s) i = (if i = li then 1 else 0) + srv_sum {loc_of d} (cdevtbl s) i"
    using srv_sum_insert [of "loc_of d" "{}" "cdevtbl s" i] srv_sum_not_owned [of "loc_of d" "{}" "cdevtbl s" i] mf sv
    by (cases "i = li") (simp_all add: owned_def)
  ultimately show ?thesis
    using unat_dec [OF nz] by (auto simp: slack_def cancelling_def Let_def)
qed

section \<open>The end of a population\<close>

text \<open>The state a task leaves before the collection, by its outcome.\<close>

definition ending :: "bool \<Rightarrow> sce \<Rightarrow> nat \<Rightarrow> nat \<Rightarrow> fragdesc_t \<Rightarrow> sce" where
  "ending failed s li n d = (if failed then cancelling s li n d else completing s li n d)"

text \<open>What remains of the other LUNs and of the headers.\<close>

lemma ending_luntbl:
  "j \<noteq> li \<Longrightarrow> luntbl (ending failed s li n d) j = luntbl s j"
  "l_lunctx (luntbl (ending failed s li n d) j) = l_lunctx (luntbl s j)"
  "l_nr_sctr (luntbl (ending failed s li n d) j) = l_nr_sctr (luntbl s j)"
  "l_waiting4deletion (luntbl (ending failed s li n d) j) = l_waiting4deletion (luntbl s j)"
  "(l_fragmap (luntbl (ending failed s li n d) j) = None) = (l_fragmap (luntbl s j) = None)"
  "l_nr_service (luntbl (ending failed s li n d) j) = l_nr_service (luntbl s j) - (if j = li then 1 else 0)"
  by (simp_all add: ending_def completing_def cancelling_def Let_def) (simp_all add: set_fdesc_def)

lemma ending_same_devs [simp]: "same_devs (cdevtbl s) (cdevtbl (ending failed s li n d))"
  by (simp add: ending_def completing_def cancelling_def Let_def)

lemma ending_inv:
  fixes n :: u32
  assumes "sce_inv {} s" "li < 256" "fdesc_at (luntbl s) li (unat n) = Some d" "is_mapped d" "\<not> is_valid d"
  shows "sce_inv {} (ending failed s li (unat n) d)"
    "view (ending failed s li (unat n) d) = (view s)((li, unat n) :=
       if failed then None else Some (True, loc_of d, pages_of (frag_at (cdevtbl s) (loc_of d))))"
    "slack (ending failed s li (unat n) d) i = slack s i"
  using completing_inv [OF assms] cancelling_inv [OF assms] completing_books [OF assms] cancelling_books [OF assms]
  by (simp_all add: ending_def)

section \<open>Properties\<close>

text \<open>
  C12: a task that is handed out is for a hottest of the missed fragments that are not cached, it
  names the LUN and a device fragment that is mapped to it, it takes one reference of the LUN, and
  at most one other cached fragment was evicted for it. When no task is handed out, nothing that is
  cached changes.
\<close>

theorem get4pop_hands_out:
  assumes "sce_wf s" "\<And>i. i < 256 \<Longrightarrow> unat (l_nr_service (luntbl s i)) + 1 < 2 ^ 32"
  shows "returns (sce_get4pop s (Some out)) (\<lambda>(r, out', s'). sce_wf s' \<and>
    (if r = SCE_SUCCESS
     then \<exists>li n p t V vw. out' = Some t \<and> li < 256 \<and> pt_lunctx t = l_lunctx (luntbl s li) \<and> pt_lun_fragnum t = n
       \<and> pt_cdevctx t = c_cdevctx (cdevtbl s (fst (loc_of p))) \<and> pt_cdev_fragnum t = of_nat (snd (loc_of p))
       \<and> candidate s (GET_LUNIDX li, n) \<and> (GET_LUNIDX li, n) \<in> set (log_range s 0 100)
       \<and> (\<forall>x \<in> set (log_range s 0 100). candidate s x \<longrightarrow> heat s x \<le> heat s (GET_LUNIDX li, n))
       \<and> l_nr_service (luntbl s' li) = l_nr_service (luntbl s li) + 1
       \<and> (vw = view s \<or> (\<exists>x. vw = (view s)(x := None)))
       \<and> view s' = vw((li, unat n) := Some (False, loc_of p, V))
     else out' = Some out \<and> view s' = view s \<and> luntbl s' = luntbl s))"
proof (rule returns_mono [OF sce_get4pop_correct [OF assms, of out]])
  fix x assume post: "case x of (r, o', s') \<Rightarrow> sce_wf s' \<and> same_devs (cdevtbl s) (cdevtbl s') \<and>
    (if r = SCE_SUCCESS then \<exists>li n p t. o' = Some t \<and> tasked s li n p t s'
     else o' = Some out \<and> view s' = view s \<and> luntbl s' = luntbl s \<and> (\<forall>i. books s s' i))"
  obtain r o' s' where x: "x = (r, o', s')" by (cases x)
  note post' = post [unfolded x prod.case]
  show "case x of (r, out', s') \<Rightarrow> sce_wf s' \<and>
    (if r = SCE_SUCCESS
     then \<exists>li n p t V vw. out' = Some t \<and> li < 256 \<and> pt_lunctx t = l_lunctx (luntbl s li) \<and> pt_lun_fragnum t = n
       \<and> pt_cdevctx t = c_cdevctx (cdevtbl s (fst (loc_of p))) \<and> pt_cdev_fragnum t = of_nat (snd (loc_of p))
       \<and> candidate s (GET_LUNIDX li, n) \<and> (GET_LUNIDX li, n) \<in> set (log_range s 0 100)
       \<and> (\<forall>x \<in> set (log_range s 0 100). candidate s x \<longrightarrow> heat s x \<le> heat s (GET_LUNIDX li, n))
       \<and> l_nr_service (luntbl s' li) = l_nr_service (luntbl s li) + 1
       \<and> (vw = view s \<or> (\<exists>x. vw = (view s)(x := None)))
       \<and> view s' = vw((li, unat n) := Some (False, loc_of p, V))
     else out' = Some out \<and> view s' = view s \<and> luntbl s' = luntbl s)"
  proof (cases "r = SCE_SUCCESS")
    case False
    then show ?thesis using post' by (simp add: x)
  next
    case True
    then obtain li n p t where o': "o' = Some t" and tk: "tasked s li n p t s'" using post' by auto
    have pop: "populating s li (unat n) (SCE_SUCCESS, p, s')" using tk by (simp add: tasked_def)
    then obtain vw V where vw: "vw = view s \<or> (\<exists>x. vw = (view s)(x := None))"
      "view s' = vw((li, unat n) := Some (False, loc_of p, V))" by (auto simp: populating_def)
    have sv: "l_nr_service (luntbl s' li) = l_nr_service (luntbl s li) + 1" using populating_luntbl(4) [OF pop] by simp
    have f: "li < 256" "candidate s (GET_LUNIDX li, n)" "(GET_LUNIDX li, n) \<in> set (log_range s 0 100)"
      "\<forall>x \<in> set (log_range s 0 100). candidate s x \<longrightarrow> heat s x \<le> heat s (GET_LUNIDX li, n)"
      using tk unfolding tasked_def by blast+
    have tf: "pt_lunctx t = l_lunctx (luntbl s li)" "pt_lun_fragnum t = n"
      "pt_cdevctx t = c_cdevctx (cdevtbl s (fst (loc_of p)))" "pt_cdev_fragnum t = of_nat (snd (loc_of p))"
      using tk by (simp_all add: tasked_def)
    have "sce_wf s'" using post' by blast
    moreover note o' f(1) tf f(2-4) sv vw
    ultimately show ?thesis unfolding x prod.case if_P [OF True] by blast
  qed
qed

lemma get4pop_hands_out_witness:
  "\<exists>li t s'. sce_get4pop (example True 0) (Some \<lparr>pt_lunctx = 0, pt_cdevctx = 0, pt_lun_fragnum = 0, pt_cdev_fragnum = 0\<rparr>)
      = Some (SCE_SUCCESS, Some t, s') \<and> sce_wf s' \<and> candidate (example True 0) (GET_LUNIDX li, pt_lun_fragnum t)
    \<and> l_nr_service (luntbl s' li) = l_nr_service (luntbl (example True 0) li) + 1"
proof -
  let ?s = "example True 0" and ?o = "\<lparr>pt_lunctx = 0, pt_cdevctx = 0, pt_lun_fragnum = 0, pt_cdev_fragnum = 0\<rparr>"
  have wf: "sce_wf ?s" by (rule example_wf) simp
  have srv: "unat (l_nr_service (luntbl ?s i)) + 1 < 2 ^ 32" for i by simp
  have "map_option fst (sce_get4pop ?s (Some ?o)) = Some SCE_SUCCESS" by code_simp
  then obtain o' s' where run: "sce_get4pop ?s (Some ?o) = Some (SCE_SUCCESS, o', s')"
    by (auto simp: map_option_case split: option.splits)
  then show ?thesis using get4pop_hands_out [OF wf srv, of ?o] unfolding run returns_Some prod.case if_P [OF refl] by blast
qed

end
