(* ===== verification/Sce_Safe.thy ===== *)
theory Sce_Safe
  imports Sce_Pop
begin

text \<open>
  The calls of the engine seen from outside: what any call may do to the pages that are cached,
  to the populations under way and to the LUNs. Only handing out and finishing a population do
  more than \<open>safe\<close> allows.
\<close>

section \<open>The relation\<close>

text \<open>No page is added, and none moves.\<close>

definition view_le :: "sce \<Rightarrow> sce \<Rightarrow> bool" where
  "view_le s' s \<longleftrightarrow> (\<forall>x v l V. view s' x = Some (v, l, V) \<longrightarrow> (\<exists>V'. view s x = Some (v, l, V') \<and> V \<subseteq> V'))"

text \<open>A LUN keeps its context and size, or its slot becomes empty.\<close>

definition lun_le :: "lun \<Rightarrow> lun \<Rightarrow> bool" where
  "lun_le a b \<longleftrightarrow>
     (if l_fragmap b = None then l_lunctx b = 0 \<or> l_fragmap a = None \<and> l_lunctx b = l_lunctx a
      else l_fragmap a \<noteq> None \<and> l_lunctx b = l_lunctx a \<and> l_nr_sctr b = l_nr_sctr a
           \<and> (l_waiting4deletion a \<longrightarrow> l_waiting4deletion b))"

text \<open>No device appears, and none changes its context.\<close>

definition dev_le :: "sce \<Rightarrow> sce \<Rightarrow> bool" where
  "dev_le s s' \<longleftrightarrow> (\<forall>d. c_fragtbl (cdevtbl s' d) \<noteq> None \<longrightarrow>
     c_fragtbl (cdevtbl s d) \<noteq> None \<and> c_cdevctx (cdevtbl s' d) = c_cdevctx (cdevtbl s d))"

definition safe :: "sce \<Rightarrow> sce \<Rightarrow> bool" where
  "safe s s' \<longleftrightarrow> sce_wf s' \<and> view_le s' s \<and> dev_le s s' \<and> (\<forall>i < 256. pend s' i = pend s i)
     \<and> (\<forall>i < 256. lun_le (luntbl s i) (luntbl s' i))"

lemma view_le_refl [simp]: "view_le s s"
  by (simp add: view_le_def)

lemma view_le_trans: "view_le c b \<Longrightarrow> view_le b a \<Longrightarrow> view_le c a"
  unfolding view_le_def by (meson subset_trans)

lemma view_le_eq: "view s' = view s \<Longrightarrow> view_le s' s"
  by (auto simp: view_le_def)

lemma view_le_drop: "(\<And>x. view s' x = view s x \<or> view s' x = None) \<Longrightarrow> view_le s' s"
  unfolding view_le_def by (metis option.distinct(1) order_refl)

lemma view_le_cells:
  assumes "places_le s' s" "\<And>v x. cell s' v x \<subseteq> cell s v x" shows "view_le s' s"
  unfolding view_le_def
proof (intro allI impI)
  fix x v l V assume v: "view s' x = Some (v, l, V)"
  then obtain V' where V': "view s x = Some (v, l, V')" using assms(1) unfolding places_le_def by blast
  then show "\<exists>V'. view s x = Some (v, l, V') \<and> V \<subseteq> V'" using assms(2) [of v x] v by simp
qed

lemma dev_le_refl [simp]: "dev_le s s"
  by (simp add: dev_le_def)

lemma dev_le_trans: "dev_le a b \<Longrightarrow> dev_le b c \<Longrightarrow> dev_le a c"
  by (simp add: dev_le_def)

lemma dev_le_same: "same_devs (cdevtbl s) (cdevtbl s') \<Longrightarrow> dev_le s s'"
  by (simp add: dev_le_def same_devs_None) (simp add: same_devs_def)

lemma lun_le_refl [simp]: "lun_le a a"
  by (simp add: lun_le_def)

lemma lun_le_trans: "lun_le a b \<Longrightarrow> lun_le b c \<Longrightarrow> lun_le a c"
  by (auto simp: lun_le_def split: if_splits)

lemma lun_le_destroy [simp]: "lun_le a (lun_destroy b)"
  by (simp add: lun_le_def lun_destroy_def)

lemma lun_le_same: "same_lun a b \<Longrightarrow> lun_le a b"
proof -
  assume s: "same_lun a b"
  have "(l_fragmap b = None) = (l_fragmap a = None)"
    using same_lun_fields(7) [OF s] by (metis option.map_disc_iff)
  then show ?thesis using same_lun_fields [OF s] by (simp add: lun_le_def)
qed

lemma safe_refl: "sce_wf s \<Longrightarrow> safe s s"
  by (simp add: safe_def)

lemma safe_trans: "safe a b \<Longrightarrow> safe b c \<Longrightarrow> safe a c"
  unfolding safe_def by (metis (no_types, lifting) lun_le_trans view_le_trans dev_le_trans)

section \<open>Parts of the calls\<close>

lemma stats_safe:
  assumes "sce_wf s" "i < 256" shows "safe s (stats_upd i g s)"
proof -
  have "lun_le (luntbl s j) (luntbl (stats_upd i g s) j)" for j by (rule lun_le_same [OF same_lun_stats])
  then show ?thesis using stats_upd_wf [OF assms] by (simp add: safe_def view_le_eq dev_le_same)
qed

text \<open>A LUN without references has no population under way.\<close>

lemma pend_idle:
  assumes inv: "sce_inv {} s" and li: "li < 256" and z: "l_nr_service (luntbl s li) = 0" shows "pend s li = {}"
proof (rule ccontr)
  assume "pend s li \<noteq> {}"
  then obtain n d where d: "fdesc_at (luntbl s) li n = Some d" "is_mapped d" "\<not> is_valid d" by (auto simp: pend_def)
  show False using completing_books(2) [OF inv li d] z by simp
qed

lemma collected_safe:
  assumes c: "collected li s s'" and inv: "sce_inv {} s" and li: "li < 256"
    and np: "\<And>i. i < 256 \<Longrightarrow> i \<noteq> li \<Longrightarrow> \<not> purges (luntbl s i)"
  shows "safe s s'"
  unfolding safe_def
proof (intro conjI allI impI)
  show "sce_wf s'" by (rule collected_wf [OF c np])
  show "view_le s' s"
    using c by (intro view_le_cells) (auto simp: collected_def split: if_splits)
  show "dev_le s s'" using c by (simp add: collected_def dev_le_same)
  fix i :: nat assume i: "i < 256"
  show "lun_le (luntbl s i) (luntbl s' i)"
    using c lun_le_same [OF same_lun_unmaps, of li s s'] by (cases "i = li") (auto simp: collected_def split: if_splits)
  show "pend s' i = pend s i"
  proof (cases "purges (luntbl s li)")
    case False
    then show ?thesis using c pend_books by (auto simp: collected_def)
  next
    case True
    then have p: "pend s' li = {}" "i \<noteq> li \<Longrightarrow> books s s' i"
      using c by (simp_all add: collected_def)
    have "pend s li = {}" by (rule pend_idle [OF inv li]) (use True in \<open>simp add: purges_def\<close>)
    then show ?thesis using p pend_books by (cases "i = li") auto
  qed
qed

section \<open>Reads and writes\<close>

lemma read_post_safe: "read_post s li h s' \<Longrightarrow> safe s s'"
proof -
  assume r: "read_post s li h s'"
  have "lun_le (luntbl s j) (luntbl s' j)" for j
  proof (cases "j = li")
    case True
    have "(l_fragmap (luntbl s' li) = None) = (l_fragmap (luntbl s li) = None)"
      using r by (metis option.map_disc_iff read_post_def)
    then show ?thesis using r True by (auto simp: lun_le_def read_post_def)
  next
    case False
    then show ?thesis using r by (simp add: read_post_def)
  qed
  then show ?thesis using r by (simp add: safe_def read_post_def view_le_eq dev_le_same)
qed

text \<open>A request whose end does not overflow is refused, and nothing changes, or it is within its LUN.\<close>

lemma lock_lun_cases:
  assumes wf: "sce_wf s" and li: "li < 256" and ov: "unat sctr + unat nr < 2 ^ 64"
  obtains "lock_lun s (Some li) sctr nr svc = None"
  | "lock_lun s (Some li) sctr nr svc = Some li" "l_scehndl (luntbl s li)" "l_fragmap (luntbl s li) \<noteq> None"
    "req_ok (luntbl s li) sctr nr" "svc \<longrightarrow> \<not> l_waiting4deletion (luntbl s li)"
  using lock_lun_req [OF ov, of s li svc] by (cases "lock_lun s (Some li) sctr nr svc") auto

lemma get4read_safe:
  assumes wf: "sce_wf s" and li: "li < 256" and ov: "unat sctr + unat nr < 2 ^ 64"
    and srv: "unat (l_nr_service (luntbl s li)) + 1 < 2 ^ 32"
  shows "returns (sce_get4read s (Some li) sctr nr (Some out)) (\<lambda>(r, o', s'). safe s s')"
proof (rule lock_lun_cases [OF wf li ov, where svc = True])
  assume "lock_lun s (Some li) sctr nr True = None"
  then show ?thesis using safe_refl [OF wf] by (simp add: sce_get4read_def)
next
  assume "l_scehndl (luntbl s li)" "l_fragmap (luntbl s li) \<noteq> None" "req_ok (luntbl s li) sctr nr"
    "True \<longrightarrow> \<not> l_waiting4deletion (luntbl s li)"
  then show ?thesis
    using sce_get4read_correct [OF wf li _ _ _ _ srv, of sctr nr out] read_post_safe
    by (fastforce elim!: returns_mono)
qed

lemma invalidate_safe:
  assumes wf: "sce_wf s" and li: "li < 256" and ov: "unat sctr + unat nr < 2 ^ 64"
  shows "returns (sce_invalidate s (Some li) sctr nr) (\<lambda>(r, s'). safe s s'
    \<and> (r = SCE_SUCCESS \<longleftrightarrow> l_scehndl (luntbl s li) \<and> l_fragmap (luntbl s li) \<noteq> None
         \<and> req_ok (luntbl s li) sctr nr \<and> \<not> l_waiting4deletion (luntbl s li))
    \<and> (if r = SCE_SUCCESS then written li (req_first sctr) (req_count sctr nr) s s' else s' = s))"
proof (cases "l_scehndl (luntbl s li) \<and> l_fragmap (luntbl s li) \<noteq> None
    \<and> req_ok (luntbl s li) sctr nr \<and> \<not> l_waiting4deletion (luntbl s li)")
  case False
  then have "sce_invalidate s (Some li) sctr nr = Some (SCE_ERROR, s)"
    using req_sum [OF ov] ov
    by (auto simp: sce_invalidate_def req_ok_def lun_is_serviceable_def word_less_nat_alt)
  then show ?thesis using safe_refl [OF wf] False by simp
next
  case True
  obtain s' where s': "sce_invalidate s (Some li) sctr nr = Some (SCE_SUCCESS, s')" "sce_wf s'"
      "written li (req_first sctr) (req_count sctr nr) s s'"
    using sce_invalidate_correct [OF wf li] True by (auto simp: returns_iff)
  have "safe s s'"
    unfolding safe_def
  proof (intro conjI allI impI)
    show "view_le s' s"
      using s'(3) by (intro view_le_cells) (auto simp: written_def split: if_splits)
    fix i :: nat
    show "pend s' i = pend s i" using s'(3) pend_books unfolding written_def by blast
    show "lun_le (luntbl s i) (luntbl s' i)"
      using s'(3) lun_le_same by (cases "i = li") (simp_all add: written_def)
    show "dev_le s s'" using s'(3) by (simp add: written_def dev_le_same)
  qed (rule s'(2))
  then show ?thesis using s' True by simp
qed

lemma releasing_same_devs: "same_devs (cdevtbl s) (cdevtbl (releasing s li d))"
  by (simp add: releasing_def)

lemma releasing_safe:
  assumes inv: "sce_inv {} s" and li: "li < 256"
    and d: "fdesc_at (luntbl s) li n = Some d" "is_mapped d" "is_valid d"
    and sv: "f_nr_service (frag_at (cdevtbl s) (loc_of d)) \<noteq> 0"
    and s': "safe (releasing s li d) s'"
  shows "safe s s'"
proof -
  note rel = releasing_inv [OF inv li d sv]
  have "lun_le (luntbl s i) (luntbl (releasing s li d) i)" for i
    by (simp add: releasing_def lun_le_def)
  then show ?thesis
    using s' rel(2,3) view_le_trans [OF _ view_le_eq] lun_le_trans dev_le_trans [OF dev_le_same]
    unfolding safe_def by (metis releasing_same_devs)
qed

lemma put4read_safe:
  assumes wf: "sce_wf s" and li: "li < 256" and ov: "unat sctr + unat nr < 2 ^ 64"
  shows "returns (sce_put4read s (Some li) sctr nr) (\<lambda>(r, s'). safe s s')"
proof (rule lock_lun_cases [OF wf li ov, where svc = False])
  assume "lock_lun s (Some li) sctr nr False = None"
  then show ?thesis using safe_refl [OF wf] by (simp add: sce_put4read_def)
next
  assume lk: "lock_lun s (Some li) sctr nr False = Some li" and h: "l_scehndl (luntbl s li)"
    and m0: "l_fragmap (luntbl s li) \<noteq> None" and req: "req_ok (luntbl s li) sctr nr"
  have inv: "sce_inv {} s" by (rule sce_wf_inv [OF wf])
  define fragn where "fragn = (ucast (sctr div 2048) :: u32)"
  obtain m where m: "l_fragmap (luntbl s li) = Some m" using m0 by auto
  have "lun_ok (luntbl s li)" using sce_inv_lun [OF inv] li by (simp add: lun_inv_def)
  then have len: "unat (l_nr_sctr (luntbl s li)) \<le> 2048 * length m" "length m \<le> 2 ^ 32"
    using m by (simp_all add: lun_ok_def)
  have nr: "0 < unat nr" "unat sctr + unat nr \<le> 2048 * length m"
    using req len(1) by (simp_all add: req_ok_def unat_gt_0)
  have u: "unat (sctr div 2048) = unat sctr div 2048" by (simp add: unat_div_distrib)
  have lt: "unat sctr div 2048 < length m" using nr by (simp add: div_less_iff_less_mult mult.commute)
  then have fn: "unat fragn = unat sctr div 2048" "unat fragn < length m"
    using len(2) by (simp_all add: fragn_def unat_ucast_mod u)
  have rf: "req_frag sctr = unat fragn" by (simp add: fn(1) req_frag_def req_first_def flip: div_mult2_eq)
  define d where "d = m ! unat fragn"
  have rdd: "rd m (unat fragn) = Some d" and d: "fdesc_at (luntbl s) li (req_frag sctr) = Some d"
    using fn m rf by (simp_all add: d_def fdesc_at_def)
  show ?thesis
  proof (cases "(sctr + ucast nr - 1) div 2048 = ucast fragn")
    case False
    then show ?thesis using lk safe_refl [OF wf] by (simp add: sce_put4read_def flip: fragn_def)
  next
    case same: True
    show ?thesis
    proof (cases "is_mapped d \<and> is_valid d")
      case False
      then have "sce_put4read s (Some li) sctr nr = Some (SCE_ERROR, s)"
        using lk same m rdd by (simp add: sce_put4read_def is_mapped_def is_valid_def flip: fragn_def)
      then show ?thesis using safe_refl [OF wf] by simp
    next
      case mv: True
      let ?f = "frag_at (cdevtbl s) (loc_of d)"
      note mf = mapped_frag [OF inv li d conjunct1 [OF mv]]
      show ?thesis
      proof (cases "f_nr_service ?f = 0")
        case True
        then have "sce_put4read s (Some li) sctr nr = Some (SCE_ERROR, s)"
          using lk same m rdd mv mf(1,2) by (simp add: sce_put4read_def is_mapped_def is_valid_def flip: fragn_def)
        then show ?thesis using safe_refl [OF wf] by simp
      next
        case sv: False
        have sum: "unat (sctr + ucast nr :: u64) = unat sctr + unat nr" by (rule req_sum [OF ov])
        have "sctr + ucast nr \<noteq> (0 :: u64)" using sum nr(1) by (metis add_gr_0 less_not_refl unat_0)
        then have "unat (sctr + ucast nr - 1 :: u64) = unat sctr + unat nr - 1" using unat_dec sum by metis
        moreover have "unat ((sctr + ucast nr - 1) div 2048) = unat (ucast fragn :: u64)" using same by simp
        ultimately have one: "(unat sctr + unat nr - 1) div 2048 = unat sctr div 2048"
          by (simp add: unat_div_distrib fn(1))
        obtain s' where s': "sce_put4read s (Some li) sctr nr = Some (SCE_SUCCESS, s')"
            "collected li (releasing s li d) s'"
          using sce_put4read_same [OF wf li h req one d _ _ sv] mv by (auto simp: returns_iff)
        note rel = releasing_inv [OF inv li d conjunct1 [OF mv] conjunct2 [OF mv] sv]
        have "safe (releasing s li d) s'"
          by (rule collected_safe [OF s'(2) rel(1) li])
            (use sce_wf_purges [OF wf] in \<open>simp add: releasing_def\<close>)
        then have "safe s s'" by (rule releasing_safe [OF inv li d conjunct1 [OF mv] conjunct2 [OF mv] sv])
        then show ?thesis using s'(1) by simp
      qed
    qed
  qed
qed

section \<open>Ending a population\<close>

text \<open>
  The only call that lets pages become readable: the fragment of the task does, with the pages that
  no write has invalidated since the task was handed out, or it is unmapped.
\<close>

definition ended :: "bool \<Rightarrow> nat \<times> nat \<Rightarrow> sce \<Rightarrow> sce \<Rightarrow> bool" where
  "ended failed x s s' \<longleftrightarrow> sce_wf s' \<and> dev_le s s'
     \<and> (\<forall>y v l V. y \<noteq> x \<longrightarrow> view s' y = Some (v, l, V) \<longrightarrow> (\<exists>V'. view s y = Some (v, l, V') \<and> V \<subseteq> V'))
     \<and> (\<forall>v l V. view s' x = Some (v, l, V) \<longrightarrow> v \<and> \<not> failed \<and> (\<exists>V'. view s x = Some (False, l, V') \<and> V \<subseteq> V'))
     \<and> (\<forall>i < 256. pend s' i = (if i = fst x then pend s i - {snd x} else pend s i))
     \<and> (\<forall>i < 256. lun_le (luntbl s i) (luntbl s' i))"

lemma ended_safe:
  assumes e: "ended failed x s s1" and sf: "safe s1 s2" shows "ended failed x s s2"
proof -
  have vl: "\<And>y v l V. view s2 y = Some (v, l, V) \<Longrightarrow> \<exists>V'. view s1 y = Some (v, l, V') \<and> V \<subseteq> V'"
    using sf by (simp add: safe_def view_le_def)
  show ?thesis
    unfolding ended_def
  proof (intro conjI allI impI)
    show "sce_wf s2" using sf by (simp add: safe_def)
    show "dev_le s s2" using e sf dev_le_trans unfolding ended_def safe_def by blast
    fix i :: nat assume i: "i < 256"
    show "pend s2 i = (if i = fst x then pend s i - {snd x} else pend s i)"
      using e sf i by (simp add: ended_def safe_def)
    show "lun_le (luntbl s i) (luntbl s2 i)"
      using e sf i lun_le_trans unfolding ended_def safe_def by blast
  next
    fix y v l V assume "y \<noteq> x" "view s2 y = Some (v, l, V)"
    moreover from vl [OF this(2)] obtain V1 where "view s1 y = Some (v, l, V1)" "V \<subseteq> V1" by blast
    ultimately show "\<exists>V'. view s y = Some (v, l, V') \<and> V \<subseteq> V'"
      using e unfolding ended_def by (meson subset_trans)
  next
    fix v l V assume "view s2 x = Some (v, l, V)"
    then obtain V1 where V1: "view s1 x = Some (v, l, V1)" "V \<subseteq> V1" using vl by blast
    then have "v \<and> \<not> failed \<and> (\<exists>V'. view s x = Some (False, l, V') \<and> V1 \<subseteq> V')"
      using e unfolding ended_def by blast
    then show "v" "\<not> failed" "\<exists>V'. view s x = Some (False, l, V') \<and> V \<subseteq> V'"
      using V1(2) by auto
  qed
qed

lemma pend_fun_upd_view:
  assumes "view s' = (view s)((li, n) := if failed then None else Some (True, l, V))" "i < 256"
  shows "pend s' i = (if i = li then pend s i - {n} else pend s i)"
  using assms by (auto simp: pend_view)

lemma ending_ended:
  fixes n :: u32
  assumes wf: "sce_wf s" and li: "li < 256"
    and d: "fdesc_at (luntbl s) li (unat n) = Some d" "is_mapped d" "\<not> is_valid d"
    and c: "collected li (ending failed s li (unat n) d) s'"
  shows "ended failed (li, unat n) s s'"
proof -
  have inv: "sce_inv {} s" by (rule sce_wf_inv [OF wf])
  let ?e = "ending failed s li (unat n) d"
  note ei = ending_inv [OF inv li d, where failed = failed]
  have vx: "view s (li, unat n) = Some (False, loc_of d, pages_of (frag_at (cdevtbl s) (loc_of d)))"
    using d li by (simp add: view_eq_Some)
  have np: "i < 256 \<Longrightarrow> i \<noteq> li \<Longrightarrow> \<not> purges (luntbl ?e i)" for i
    using sce_wf_purges [OF wf] by (simp add: ending_luntbl(1))
  have sf: "safe ?e s'" by (rule collected_safe [OF c ei(1) li np])
  have pd: "i < 256 \<Longrightarrow> pend ?e i = (if i = li then pend s i - {unat n} else pend s i)" for i
    by (rule pend_fun_upd_view [OF ei(2)])
  have le: "lun_le (luntbl s i) (luntbl ?e i)" for i
    using ending_luntbl(2-5) [of failed s li "unat n" d i] by (simp add: lun_le_def)
  have vl: "\<And>y v l V. view s' y = Some (v, l, V) \<Longrightarrow> \<exists>V'. view ?e y = Some (v, l, V') \<and> V \<subseteq> V'"
    using sf by (simp add: safe_def view_le_def)
  show ?thesis
    unfolding ended_def
  proof (intro conjI allI impI)
    show "sce_wf s'" using sf by (simp add: safe_def)
    show "dev_le s s'" 
      using sf dev_le_trans [OF dev_le_same [OF ending_same_devs]] unfolding safe_def by blast
    fix i :: nat assume i: "i < 256"
    show "pend s' i = (if i = fst (li, unat n) then pend s i - {snd (li, unat n)} else pend s i)"
      using sf pd i by (simp add: safe_def)
    show "lun_le (luntbl s i) (luntbl s' i)"
      using sf le i lun_le_trans unfolding safe_def by blast
  next
    fix y v l V assume "y \<noteq> (li, unat n)" "view s' y = Some (v, l, V)"
    then show "\<exists>V'. view s y = Some (v, l, V') \<and> V \<subseteq> V'" using vl [of y v l V] ei(2) by auto
  next
    fix v l V assume a: "view s' (li, unat n) = Some (v, l, V)"
    then have "\<exists>V'. view ?e (li, unat n) = Some (v, l, V') \<and> V \<subseteq> V'" by (rule vl)
    then have "v \<and> \<not> failed \<and> l = loc_of d \<and> V \<subseteq> pages_of (frag_at (cdevtbl s) (loc_of d))"
      using ei(2) by (cases failed) auto
    then show "v" "\<not> failed" "\<exists>V'. view s (li, unat n) = Some (False, l, V') \<and> V \<subseteq> V'"
      using vx by simp_all
  qed
qed

text \<open>Unless the LUN goes with its last reference, the other fragments keep all their pages.\<close>

definition ends :: "bool \<Rightarrow> nat \<times> nat \<Rightarrow> sce \<Rightarrow> sce \<Rightarrow> bool" where
  "ends failed x s s' \<longleftrightarrow> l_waiting4deletion (luntbl s' (fst x)) = l_waiting4deletion (luntbl s (fst x))
     \<and> l_nr_service (luntbl s' (fst x)) = l_nr_service (luntbl s (fst x)) - 1
     \<and> (\<forall>j. j \<noteq> fst x \<longrightarrow> luntbl s' j = luntbl s j)
     \<and> (\<forall>v y. cell s' v y = (if y = x then if v \<and> \<not> failed then cell s False x else {} else cell s v y))"

lemma ending_ends:
  fixes n :: u32
  assumes wf: "sce_wf s" and li: "li < 256"
    and d: "fdesc_at (luntbl s) li (unat n) = Some d" "is_mapped d" "\<not> is_valid d"
    and w: "\<not> l_waiting4deletion (luntbl s li)"
    and c: "collected li (ending failed s li (unat n) d) s'"
  shows "ends failed (li, unat n) s s'"
proof -
  note ei = ending_inv [OF sce_wf_inv [OF wf] li d, where failed = failed]
  have "\<not> purges (luntbl (ending failed s li (unat n) d) li)" using w by (simp add: purges_def ending_luntbl(4))
  then have "cell s' = cell (ending failed s li (unat n) d)" and um: "unmaps li (ending failed s li (unat n) d) s'"
    using c by (simp_all add: collected_def)
  moreover have "view s (li, unat n) = Some (False, loc_of d, pages_of (frag_at (cdevtbl s) (loc_of d)))"
    using d li by (simp add: view_eq_Some)
  ultimately have "cell s' v y = (if y = (li, unat n) then if v \<and> \<not> failed then cell s False (li, unat n) else {}
      else cell s v y)" for v y
    by (cases v) (simp_all add: cell_def ei(2))
  moreover have "l_waiting4deletion (luntbl s' li) = l_waiting4deletion (luntbl s li)"
    "l_nr_service (luntbl s' li) = l_nr_service (luntbl s li) - 1"
    using same_lun_fields(1,2) [OF same_lun_unmaps [OF um]] by (simp_all add: ending_luntbl(4,6))
  moreover have "luntbl s' j = luntbl s j" if "j \<noteq> li" for j
    using c that by (simp add: collected_def ending_luntbl(1))
  ultimately show ?thesis by (simp add: ends_def)
qed

theorem sce_put4pop_correct:
  assumes wf: "sce_wf s" and lu: "lun_search s (pt_lunctx pt) = Some li"
    and d: "fdesc_at (luntbl s) li (unat (pt_lun_fragnum pt)) = Some d" "is_mapped d" "\<not> is_valid d"
  shows "returns (sce_put4pop s (Some pt) failed)
    (\<lambda>(r, s'). r = SCE_SUCCESS \<and> ended failed (li, unat (pt_lun_fragnum pt)) s s'
       \<and> (\<not> l_waiting4deletion (luntbl s li) \<longrightarrow> ends failed (li, unat (pt_lun_fragnum pt)) s s'))"
proof -
  have inv: "sce_inv {} s" by (rule sce_wf_inv [OF wf])
  have li: "li < 256" using lun_search_Some [OF lu] by simp
  show ?thesis
  proof (cases failed)
    case True
    obtain s' where "cancel_population s li (pt_lun_fragnum pt) = Some (SCE_SUCCESS, s')"
      and c: "collected li (ending True s li (unat (pt_lun_fragnum pt)) d) s'"
      using cancel_population_correct [OF inv li d] by (auto simp: returns_iff ending_def)
    then have "sce_put4pop s (Some pt) failed = Some (SCE_SUCCESS, s')"
      using lu True by (simp add: sce_put4pop_def)
    then show ?thesis using ending_ended [OF wf li d c] ending_ends [OF wf li d _ c] True by simp
  next
    case False
    obtain s' where s': "complete_population s li (pt_lun_fragnum pt) = Some (SCE_SUCCESS, s')"
      and c: "collected li (ending False s li (unat (pt_lun_fragnum pt)) d) s'"
      using complete_population_correct [OF inv li d] by (auto simp: returns_iff ending_def)
    note e = ending_ended [OF wf li d c]
    have st: "cell (stats_upd li g s') = cell s'" for g by (rule cell_view_cong) simp
    have "sce_wf s'" using e by (simp add: ended_def)
    from ended_safe [OF e stats_safe [OF this li]] ending_ends [OF wf li d _ c] show ?thesis
      using lu False s' st by (simp add: sce_put4pop_def ends_def stats_upd_other)
  qed
qed

section \<open>Configuration\<close>

lemma safe_pend_view:
  assumes "sce_wf s'" "view_le s' s" "dev_le s s'" "\<And>i. i < 256 \<Longrightarrow> lun_le (luntbl s i) (luntbl s' i)"
    and "\<And>i n l V. i < 256 \<Longrightarrow> view s (i, n) = Some (False, l, V) \<Longrightarrow> view s' (i, n) \<noteq> None"
  shows "safe s s'"
proof -
  have "pend s' i = pend s i" if i: "i < 256" for i
  proof (rule set_eqI)
    fix n
    show "n \<in> pend s' i \<longleftrightarrow> n \<in> pend s i"
    proof
      assume "n \<in> pend s' i"
      then obtain l V where "view s' (i, n) = Some (False, l, V)" using i by (auto simp: pend_view)
      then show "n \<in> pend s i" using assms(2) i unfolding view_le_def pend_view [OF i] by blast
    next
      assume "n \<in> pend s i"
      then obtain l V where v: "view s (i, n) = Some (False, l, V)" using i by (auto simp: pend_view)
      obtain y where y: "view s' (i, n) = Some y" using assms(5) [OF i v] by auto
      obtain w l' V' where "y = (w, l', V')" by (cases y)
      moreover from this have "\<exists>U. view s (i, n) = Some (w, l', U)"
        using assms(2) y unfolding view_le_def by blast
      ultimately show "n \<in> pend s' i" using v y i by (auto simp: pend_view)
    qed
  qed
  then show ?thesis using assms by (simp add: safe_def)
qed

lemma rmlun_safe:
  assumes wf: "sce_wf s" and li: "li < 256"
  shows "returns (sce_rmlun s (Some li)) (\<lambda>(r, s'). safe s s')"
proof (cases "l_scehndl (luntbl s li) \<and> l_fragmap (luntbl s li) \<noteq> None")
  case False
  then show ?thesis using safe_refl [OF wf] by (auto simp: sce_rmlun_def)
next
  case True
  obtain x where x: "sce_rmlun s (Some li) = Some x" and px: "case x of (r, s') \<Rightarrow> r = SCE_SUCCESS \<and> sce_wf s'
    \<and> same_devs (cdevtbl s) (cdevtbl s') \<and> (\<forall>j. j \<noteq> li \<longrightarrow> luntbl s' j = luntbl s j)
    \<and> (if l_nr_service (luntbl s li) = 0
       then luntbl s' li = lun_destroy (luntbl s li) \<and> nr_lun s' = nr_lun s - 1
            \<and> (\<forall>x. view s' x = (if fst x = li then None else view s x))
       else luntbl s' li = (luntbl s li)\<lparr>l_waiting4deletion := True\<rparr> \<and> view s' = view s)"
    by (rule returnsE [OF sce_rmlun_correct [OF wf li conjunct2 [OF True]]])
  obtain r s' where pair: "x = (r, s')" by (cases x)
  note s' = x [unfolded pair] px [unfolded pair prod.case, THEN conjunct2, THEN conjunct1]
    px [unfolded pair prod.case, THEN conjunct2, THEN conjunct2, THEN conjunct2, THEN conjunct1]
    px [unfolded pair prod.case, THEN conjunct2, THEN conjunct2, THEN conjunct1]
  note c = px [unfolded pair prod.case, THEN conjunct2, THEN conjunct2, THEN conjunct2, THEN conjunct2]
  have "safe s s'"
  proof (rule safe_pend_view [OF s'(2)])
    show "dev_le s s'" using s'(4) by (rule dev_le_same)
    show "view_le s' s" by (rule view_le_drop) (use c in \<open>auto split: if_splits\<close>)
    show "lun_le (luntbl s i) (luntbl s' i)" for i
      using c s'(3) by (cases "i = li") (auto simp: lun_le_def split: if_splits)
    show "view s' (i, n) \<noteq> None" if "i < 256" "view s (i, n) = Some (False, l, V)" for i n l V
    proof (cases "l_nr_service (luntbl s li) = 0")
      case True
      have "pend s li = {}" by (rule pend_idle [OF sce_wf_inv [OF wf] li True])
      then have "i \<noteq> li" using that by (auto simp: pend_view)
      then show ?thesis using c True that by simp
    next
      case False
      then show ?thesis using c that by simp
    qed
  qed
  then show ?thesis using s'(1) by simp
qed

text \<open>A device that was added: only its slot changes, and no other device has its context.\<close>

definition dev_added :: "nat \<Rightarrow> ptr \<Rightarrow> sce \<Rightarrow> sce \<Rightarrow> bool" where
  "dev_added dn ctx s s' \<longleftrightarrow> sce_wf s' \<and> view s' = view s \<and> luntbl s' = luntbl s \<and> dn < 16
     \<and> c_fragtbl (cdevtbl s dn) = None \<and> c_fragtbl (cdevtbl s' dn) \<noteq> None \<and> c_cdevctx (cdevtbl s' dn) = ctx
     \<and> (\<forall>d < 16. c_cdevctx (cdevtbl s d) \<noteq> ctx)
     \<and> (\<forall>d. d \<noteq> dn \<longrightarrow> c_cdevctx (cdevtbl s' d) = c_cdevctx (cdevtbl s d)
          \<and> (c_fragtbl (cdevtbl s' d) = None) = (c_fragtbl (cdevtbl s d) = None))"

lemma addcdev_outcome:
  assumes wf: "sce_wf s" and ns: "unat ns < 2048 * (2 ^ 24 + 1)"
  shows "returns (sce_addcdev ok s ns ctx) (\<lambda>(r, s'). case r of None \<Rightarrow> s' = s | Some dn \<Rightarrow> dev_added dn ctx s s')"
proof (cases "\<exists>dn s'. sce_addcdev ok s ns ctx = Some (Some dn, s') \<and> dev_added dn ctx s s'")
  case True
  then show ?thesis by auto
next
  case False
  have "sce_addcdev ok s ns ctx = Some (None, s)"
  proof (cases "ns = 0 \<or> \<not> unat (nr_cdev s) < 16 \<or> cdev_search s ctx \<noteq> None")
    case True
    then show ?thesis by (auto simp: sce_addcdev_def)
  next
    case guards: False
    show ?thesis
    proof (cases "List.find (\<lambda>d. c_fragtbl (cdevtbl s d) = None) [0..<16]")
      case None
      then show ?thesis using guards by (simp add: sce_addcdev_def)
    next
      case (Some dn)
      note i = find_slot(1,2) [OF Some]
      have "dev_ok (cdevtbl s dn)" using sce_inv_dev [OF sce_wf_inv [OF wf]] i(1) by (simp add: dev_inv_def)
      then have z: "cdevtbl s dn = cdev_zero" using i(2) by (simp add: dev_ok_def)
      then have upd: "(cdevtbl s)(dn := cdev_zero) = cdevtbl s" by (simp add: fun_upd_idem)
      have "ns < 2048 \<or> \<not> ok"
      proof (rule ccontr)
        assume "\<not> (ns < 2048 \<or> \<not> ok)"
        then have a: "2048 \<le> ns" "ok" by auto
        have g: "unat (nr_cdev s) < 16" "cdev_search s ctx = None" using guards by auto
        obtain dn s' where s': "sce_addcdev True s ns ctx = Some (Some dn, s')" "sce_wf s'" "view s' = view s"
          "dn < 16" "c_fragtbl (cdevtbl s dn) = None" "c_cdevctx (cdevtbl s' dn) = ctx" "luntbl s' = luntbl s"
          and fl: "flocs (cdevtbl s') = flocs (cdevtbl s) \<union> {dn} \<times> {..<unat ns div 2048}"
          and other: "\<And>d. d \<noteq> dn \<Longrightarrow> c_cdevctx (cdevtbl s' d) = c_cdevctx (cdevtbl s d)
            \<and> (c_fragtbl (cdevtbl s' d) = None) = (c_fragtbl (cdevtbl s d) = None)"
          by (rule sce_addcdev_correct [OF wf a(1) ns g]) blast
        have "0 < unat ns div 2048" using a(1) by (simp add: word_le_nat_alt div_greater_zero_iff)
        then have "(dn, 0) \<in> flocs (cdevtbl s')" unfolding fl by simp
        then have "c_fragtbl (cdevtbl s' dn) \<noteq> None" by (auto simp: flocs_def split: option.splits)
        then have "dev_added dn ctx s s'"
          unfolding dev_added_def using s' other cdev_search_None [OF g(2)] by simp
        then show False using False s'(1) a(2) by simp
      qed
      then have "snd (cdev_init ok (cdevtbl s dn) ns) = cdev_zero" "fst (cdev_init ok (cdevtbl s dn) ns) = SCE_ERROR"
        using z cdev_init_small [of ns ok] cdev_init_fail [of ns] by (cases "ns < 2048"; simp)+
      then have "cdev_init ok (cdevtbl s dn) ns = (SCE_ERROR, cdev_zero)" by (metis prod.collapse)
      then show ?thesis using guards Some upd by (simp add: sce_addcdev_def)
    qed
  qed
  then show ?thesis by simp
qed

text \<open>Removing a device drops exactly the fragments that are mapped to it.\<close>

lemma rmcdev_drops:
  assumes wf: "sce_wf s" and dn: "dn < 16"
  shows "returns (sce_rmcdev s (Some dn)) (\<lambda>(r, s'). sce_wf s' \<and> dev_le s s' \<and> (\<forall>i. lun_le (luntbl s i) (luntbl s' i))
    \<and> (if r = SCE_SUCCESS
       then (\<forall>x. view s' x = (if \<exists>v l V. view s x = Some (v, l, V) \<and> fst l = dn then None else view s x))
       else s' = s))"
proof (cases "c_fragtbl (cdevtbl s dn) = None")
  case True
  have "dev_ok (cdevtbl s dn)" using sce_inv_dev [OF sce_wf_inv [OF wf]] dn by (simp add: dev_inv_def)
  then have "\<not> c_scehndl (cdevtbl s dn)" using True by (simp add: dev_ok_def)
  then show ?thesis using wf by (simp add: sce_rmcdev_def)
next
  case False
  obtain s' where s': "sce_rmcdev s (Some dn) = Some (SCE_SUCCESS, s')" "sce_wf s'"
    and dz: "cdevtbl s' dn = cdev_zero" and dv: "\<And>d. d \<noteq> dn \<Longrightarrow> c_cdevctx (cdevtbl s' d) = c_cdevctx (cdevtbl s d)
      \<and> map_option length (c_fragtbl (cdevtbl s' d)) = map_option length (c_fragtbl (cdevtbl s d))"
    and vw: "\<And>i n. view s' (i, n) = (if \<exists>d. fdesc_at (luntbl s) i n = Some d \<and> is_mapped d \<and> fst (loc_of d) = dn
       then None else view s (i, n))"
    and lu: "\<And>j. l_lunctx (luntbl s' j) = l_lunctx (luntbl s j)
       \<and> l_waiting4deletion (luntbl s' j) = l_waiting4deletion (luntbl s j)
       \<and> (l_fragmap (luntbl s' j) = None) = (l_fragmap (luntbl s j) = None)
       \<and> l_nr_sctr (luntbl s' j) = l_nr_sctr (luntbl s j)"
    by (rule sce_rmcdev_correct [OF wf dn False]) (use that in blast)
  have "view s' x = (if \<exists>v l V. view s x = Some (v, l, V) \<and> fst l = dn then None else view s x)" for x
  proof (cases x)
    case (Pair i n)
    show ?thesis
    proof (cases "i < 256")
      case True
      then show ?thesis unfolding Pair by (auto simp: vw view_eq_Some)
    next
      case False
      then show ?thesis unfolding Pair by (simp add: vw view.simps)
    qed
  qed
  moreover have "dev_le s s'"
    unfolding dev_le_def using dz dv by (metis cdev_zero_simps(1) option.map_disc_iff)
  moreover have "lun_le (luntbl s i) (luntbl s' i)" for i using lu [of i] by (simp add: lun_le_def)
  ultimately show ?thesis using s' by simp
qed

lemma rmcdev_safe:
  assumes wf: "sce_wf s" and dn: "dn < 16" and idle: "\<And>x l V. view s x = Some (False, l, V) \<Longrightarrow> fst l \<noteq> dn"
  shows "returns (sce_rmcdev s (Some dn)) (\<lambda>(r, s'). safe s s')"
proof -
  obtain r s' where s': "sce_rmcdev s (Some dn) = Some (r, s')" "sce_wf s'" "dev_le s s'"
    "\<forall>i. lun_le (luntbl s i) (luntbl s' i)"
    and vw: "if r = SCE_SUCCESS
       then \<forall>x. view s' x = (if \<exists>v l V. view s x = Some (v, l, V) \<and> fst l = dn then None else view s x) else s' = s"
    using rmcdev_drops [OF wf dn] by (auto simp: returns_iff)
  have "safe s s'"
  proof (rule safe_pend_view [OF s'(2) _ s'(3)])
    show "view_le s' s" by (rule view_le_drop) (use vw in \<open>auto split: if_splits\<close>)
    show "lun_le (luntbl s i) (luntbl s' i)" for i using s'(4) by blast
    show "view s' (i, n) \<noteq> None" if "i < 256" "view s (i, n) = Some (False, l, V)" for i n l V
      using vw idle [OF that(2)] that by (auto split: if_splits)
  qed
  then show ?thesis using s'(1) by simp
qed

text \<open>A LUN that was added: it takes an empty slot, and nothing of it is cached.\<close>

definition lun_added :: "nat \<Rightarrow> sector_t \<Rightarrow> ptr \<Rightarrow> sce \<Rightarrow> sce \<Rightarrow> bool" where
  "lun_added i ns ctx s s' \<longleftrightarrow> sce_wf s' \<and> view s' = view s \<and> cdevtbl s' = cdevtbl s \<and> i < 256
     \<and> l_fragmap (luntbl s i) = None \<and> l_fragmap (luntbl s' i) \<noteq> None
     \<and> l_lunctx (luntbl s' i) = ctx \<and> l_nr_sctr (luntbl s' i) = ns \<and> \<not> l_waiting4deletion (luntbl s' i)
     \<and> (\<forall>j. j \<noteq> i \<longrightarrow> luntbl s' j = luntbl s j)"

lemma addlun_outcome:
  assumes wf: "sce_wf s" and ns: "unat ns \<le> 2048 * (2 ^ 32 - 2)"
    and log: "\<And>i. List.find (\<lambda>i. l_fragmap (luntbl s i) = None) [0..<256] = Some i \<Longrightarrow>
      log_fits s i (unat (nr_frag_of ns))"
  shows "case sce_addlun ok s ns ctx of (None, s') \<Rightarrow> safe s s' \<and> view s' = view s
    | (Some i, s') \<Rightarrow> lun_added i ns ctx s s'"
proof (cases "ok \<and> ns \<noteq> 0 \<and> List.find (\<lambda>i. l_fragmap (luntbl s i) = None) [0..<256] \<noteq> None")
  case True
  then have 1: "0 < ns" by (simp add: word_gt_0)
  from True obtain i where i: "List.find (\<lambda>i. l_fragmap (luntbl s i) = None) [0..<256] = Some i" by auto
  have "unat (nr_frag_of ns) = (unat ns + 2047) div 2048" by (rule nr_frag_of_unat) (use ns in simp)
  moreover have "0 < unat ns" using 1 by (simp add: word_less_nat_alt)
  ultimately have 2: "0 < unat (nr_frag_of ns)" by simp
  obtain s' where s': "sce_addlun True s ns ctx = (Some i, s')" "sce_wf s'" "view s' = view s"
    "i < 256" "cdevtbl s' = cdevtbl s" "\<And>j. j \<noteq> i \<Longrightarrow> luntbl s' j = luntbl s j"
    "l_lunctx (luntbl s' i) = ctx" "l_nr_sctr (luntbl s' i) = ns" "\<not> l_waiting4deletion (luntbl s' i)"
    "\<And>n. fdesc_at (luntbl s' ) i n = (if n < unat (nr_frag_of ns) then Some fragdesc_fill85 else None)"
    by (rule sce_addlun_correct [OF wf 1 ns i log [OF i], of ctx]) blast
  have "l_fragmap (luntbl s' i) \<noteq> None" using s'(10) [of 0] 2 by (auto simp: fdesc_at_eq_Some)
  then show ?thesis using s' True find_slot(2) [OF i] by (simp add: lun_added_def)
next
  case fails: False
  have "\<exists>s'. sce_addlun ok s ns ctx = (None, s') \<and> safe s s' \<and> view s' = view s"
  proof (cases "ns = 0 \<or> List.find (\<lambda>i. l_fragmap (luntbl s i) = None) [0..<256] = None")
    case True
    then show ?thesis using safe_refl [OF wf] by (auto simp: sce_addlun_def)
  next
    case False
    then have "\<not> ok" using fails by auto
    then obtain s' where s': "sce_addlun ok s ns ctx = (None, s')" "sce_wf s'" "view s' = view s"
      "cdevtbl s' = cdevtbl s"
      and lu: "\<forall>j. luntbl s' j = luntbl s j \<or> l_fragmap (luntbl s j) = None \<and> l_fragmap (luntbl s' j) = None
          \<and> l_lunctx (luntbl s' j) = l_lunctx (luntbl s j)"
      using sce_addlun_nomem [OF wf, of ns ctx] by auto
    have "safe s s'"
    proof (rule safe_pend_view [OF s'(2) view_le_eq [OF s'(3)]])
      show "dev_le s s'" using s'(4) by (simp add: dev_le_def)
      show "lun_le (luntbl s i) (luntbl s' i)" for i using spec [OF lu, of i] by (auto simp: lun_le_def)
    qed (use s'(3) in simp)
    then show ?thesis using s' by blast
  qed
  then show ?thesis by auto
qed

section \<open>Properties\<close>

text \<open>
  C13: the end of a population that succeeded makes the pages readable that are still valid, a failed
  one gives its fragment up; in both cases the other fragments keep all their pages, and the LUN
  gives back one reference. The LUN is not waiting for its deletion.
\<close>

theorem put4pop_ends:
  assumes "sce_wf s" "lun_search s (pt_lunctx pt) = Some li" "\<not> l_waiting4deletion (luntbl s li)"
    and "view s (li, unat (pt_lun_fragnum pt)) = Some (False, l, V)"
  shows "returns (sce_put4pop s (Some pt) failed) (\<lambda>(r, s'). r = SCE_SUCCESS \<and> sce_wf s'
    \<and> l_nr_service (luntbl s' li) = l_nr_service (luntbl s li) - 1
    \<and> (\<forall>v y. cell s' v y = (if y = (li, unat (pt_lun_fragnum pt)) then if v \<and> \<not> failed then V else {} else cell s v y)))"
proof -
  obtain d where d: "fdesc_at (luntbl s) li (unat (pt_lun_fragnum pt)) = Some d" "is_mapped d" "\<not> is_valid d"
    using assms(4) by (auto simp: view_eq_Some)
  have V: "cell s False (li, unat (pt_lun_fragnum pt)) = V" by (simp add: cell_view(1) [OF assms(4)])
  show ?thesis
  proof (rule returns_mono [OF sce_put4pop_correct [OF assms(1,2) d, of failed]])
    fix x assume post: "case x of (r, s') \<Rightarrow> r = SCE_SUCCESS \<and> ended failed (li, unat (pt_lun_fragnum pt)) s s'
       \<and> (\<not> l_waiting4deletion (luntbl s li) \<longrightarrow> ends failed (li, unat (pt_lun_fragnum pt)) s s')"
    obtain r s' where x: "x = (r, s')" by (cases x)
    have r: "r = SCE_SUCCESS" "sce_wf s'" and e: "ends failed (li, unat (pt_lun_fragnum pt)) s s'"
      using post assms(3) by (simp_all add: x ended_def)
    show "case x of (r, s') \<Rightarrow> r = SCE_SUCCESS \<and> sce_wf s'
      \<and> l_nr_service (luntbl s' li) = l_nr_service (luntbl s li) - 1
      \<and> (\<forall>v y. cell s' v y = (if y = (li, unat (pt_lun_fragnum pt)) then if v \<and> \<not> failed then V else {} else cell s v y))"
      unfolding x prod.case V [symmetric] using r e unfolding ends_def fst_conv by blast
  qed
qed

lemma put4pop_ends_witness:
  "returns (sce_put4pop (example False 1) (Some \<lparr>pt_lunctx = 9, pt_cdevctx = 7, pt_lun_fragnum = 1, pt_cdev_fragnum = 0\<rparr>) False)
    (\<lambda>(r, s'). r = SCE_SUCCESS \<and> sce_wf s' \<and> l_nr_service (luntbl s' 0) = 0)"
proof -
  let ?s = "example False 1" and ?pt = "\<lparr>pt_lunctx = 9, pt_cdevctx = 7, pt_lun_fragnum = 1, pt_cdev_fragnum = 0\<rparr>"
  have wf: "sce_wf ?s" by (rule example_wf) simp
  have "lun_search ?s (pt_lunctx ?pt) = Some 0" by (rule lun_search_unique) simp_all
  moreover have "view ?s (0, unat (pt_lun_fragnum ?pt)) = Some (False, (0, 0), pages_of (frag_at (cdevtbl ?s) (0, 0)))"
    by (simp add: view_eq_Some)
  ultimately have "returns (sce_put4pop ?s (Some ?pt) False) (\<lambda>(r, s'). r = SCE_SUCCESS \<and> sce_wf s'
    \<and> l_nr_service (luntbl s' 0) = l_nr_service (luntbl ?s 0) - 1
    \<and> (\<forall>v y. cell s' v y = (if y = (0, unat (pt_lun_fragnum ?pt))
        then if v \<and> \<not> False then pages_of (frag_at (cdevtbl ?s) (0, 0)) else {} else cell ?s v y)))"
    by (intro put4pop_ends [OF wf]) simp_all
  then show ?thesis by (rule returns_mono) auto
qed

text \<open>
  The device and the fragment that a task names play no part in its end: what is completed is
  whatever population of that LUN fragment is under way.
\<close>

theorem put4pop_ignores_device:
  "sce_put4pop s (Some (pt\<lparr>pt_cdevctx := a, pt_cdev_fragnum := b\<rparr>)) failed = sce_put4pop s (Some pt) failed"
  by (simp add: sce_put4pop_def cong: option.case_cong if_cong)

end
