(* ===== verification/Sce_System.thy ===== *)
theory Sce_System
  imports Sce_Safe
begin

text \<open>
  The engine among its users: the disks, the devices, and the population tasks that copy
  fragments. A world is the engine, what the pages of the LUNs and of the fragments of the devices
  hold, and the tasks that were handed out. Its steps are the calls of the module and the page
  copies of the tasks, in any order. The invariant of the reachable worlds gives the purpose of
  the cache: a read that is served from a device finds what the disk holds.
\<close>

section \<open>Worlds\<close>

text \<open>
  A device is named by its context, as in the tasks and in the answers to reads. A task keeps the
  pages of its buffer that it has read, and those that it has written to the device.
\<close>

record 'v task =
  t_pop :: sce_poptask_t
  t_buf :: "nat \<Rightarrow> 'v"
  t_read :: "nat set"
  t_done :: "nat set"

record 'v world =
  eng :: sce
  disk :: "nat \<Rightarrow> nat \<Rightarrow> 'v"
  flash :: "ptr \<times> nat \<Rightarrow> nat \<Rightarrow> 'v"
  tasks :: "nat \<times> nat \<Rightarrow> 'v task option"

definition t_addr :: "sce_poptask_t \<Rightarrow> ptr \<times> nat" where
  "t_addr pt = (pt_cdevctx pt, unat (pt_cdev_fragnum pt))"

definition addr :: "sce \<Rightarrow> floc \<Rightarrow> ptr \<times> nat" where
  "addr s l = (c_cdevctx (cdevtbl s (fst l)), snd l)"

text \<open>There is room for one more reference to every LUN.\<close>

definition roomy :: "sce \<Rightarrow> bool" where
  "roomy s \<longleftrightarrow> (\<forall>i < 256. unat (l_nr_service (luntbl s i)) + 1 < 2 ^ 32)"

section \<open>Steps\<close>

text \<open>
  The guards say what the callers have to see to. A request lies within its LUN, a write and its
  invalidation are one step, a device is not removed while a task copies to it, a task that
  reports success has written all pages of its fragment, and a LUN is added with a context of its
  own, below the 2 TiB that 32 bits of sectors can count, and to a slot whose logged misses it
  covers.
\<close>

inductive step :: "'v world \<Rightarrow> 'v world \<Rightarrow> bool" where
  get4read: "\<lbrakk>li < 256; unat sctr + unat nr < 2 ^ 64; roomy (eng w);
      sce_get4read (eng w) (Some li) sctr nr (Some out) = Some (r, out', s')\<rbrakk>
    \<Longrightarrow> step w (w\<lparr>eng := s'\<rparr>)"
| put4read: "\<lbrakk>li < 256; unat sctr + unat nr < 2 ^ 64; sce_put4read (eng w) (Some li) sctr nr = Some (r, s')\<rbrakk>
    \<Longrightarrow> step w (w\<lparr>eng := s'\<rparr>)"
| disk_write: "\<lbrakk>li < 256; req_ok (luntbl (eng w) li) sctr nr; sce_invalidate (eng w) (Some li) sctr nr = Some (r, s');
      \<forall>i p. dk i p \<noteq> disk w i p \<longrightarrow> i = li \<and> in_pages (req_first sctr) (req_count sctr nr) p\<rbrakk>
    \<Longrightarrow> step w (w\<lparr>eng := s', disk := dk\<rparr>)"
| take_task: "\<lbrakk>roomy (eng w); sce_get4pop (eng w) (Some out) = Some (SCE_SUCCESS, Some pt, s');
      lun_search s' (pt_lunctx pt) = Some li\<rbrakk>
    \<Longrightarrow> step w (w\<lparr>eng := s', tasks := (tasks w)((li, unat (pt_lun_fragnum pt)) \<mapsto>
          \<lparr>t_pop = pt, t_buf = b, t_read = {}, t_done = {}\<rparr>)\<rparr>)"
| no_task: "\<lbrakk>roomy (eng w); sce_get4pop (eng w) (Some out) = Some (r, out', s'); r \<noteq> SCE_SUCCESS\<rbrakk>
    \<Longrightarrow> step w (w\<lparr>eng := s'\<rparr>)"
| read_page: "\<lbrakk>tasks w (li, n) = Some t; p < 256\<rbrakk>
    \<Longrightarrow> step w (w\<lparr>tasks := (tasks w)((li, n) \<mapsto>
          t\<lparr>t_buf := (t_buf t)(p := disk w li (256 * n + p)), t_read := insert p (t_read t)\<rparr>)\<rparr>)"
| write_page: "\<lbrakk>tasks w (li, n) = Some t; p \<in> t_read t\<rbrakk>
    \<Longrightarrow> step w (w\<lparr>flash := (flash w)(t_addr (t_pop t) := (flash w (t_addr (t_pop t)))(p := t_buf t p)),
          tasks := (tasks w)((li, n) \<mapsto> t\<lparr>t_done := insert p (t_done t)\<rparr>)\<rparr>)"
| end_task: "\<lbrakk>tasks w (li, n) = Some t;
      failed \<or> (\<forall>p < 256. lun_page (luntbl (eng w) li) n p \<longrightarrow> p \<in> t_done t);
      sce_put4pop (eng w) (Some (t_pop t)) failed = Some (r, s')\<rbrakk>
    \<Longrightarrow> step w (w\<lparr>eng := s', tasks := (tasks w)((li, n) := None)\<rparr>)"
| addcdev: "\<lbrakk>unat ns < 2048 * (2 ^ 24 + 1); sce_addcdev ok (eng w) ns ctx = Some (r, s')\<rbrakk>
    \<Longrightarrow> step w (w\<lparr>eng := s'\<rparr>)"
| rmcdev: "\<lbrakk>dn < 16; \<forall>x t. tasks w x = Some t \<longrightarrow> pt_cdevctx (t_pop t) \<noteq> c_cdevctx (cdevtbl (eng w) dn);
      sce_rmcdev (eng w) (Some dn) = Some (r, s')\<rbrakk>
    \<Longrightarrow> step w (w\<lparr>eng := s'\<rparr>)"
| addlun: "\<lbrakk>ctx \<noteq> 0; \<forall>i < 256. l_lunctx (luntbl (eng w) i) \<noteq> ctx; unat ns < 2 ^ 32 - 2048;
      \<forall>i. List.find (\<lambda>i. l_fragmap (luntbl (eng w) i) = None) [0..<256] = Some i \<longrightarrow>
        log_fits (eng w) i (unat (nr_frag_of ns));
      sce_addlun ok (eng w) ns ctx = (r, s'); \<forall>i. r \<noteq> Some i \<longrightarrow> dk i = disk w i\<rbrakk>
    \<Longrightarrow> step w (w\<lparr>eng := s', disk := dk\<rparr>)"
| rmlun: "\<lbrakk>li < 256; sce_rmlun (eng w) (Some li) = Some (r, s')\<rbrakk>
    \<Longrightarrow> step w (w\<lparr>eng := s'\<rparr>)"

inductive reachable :: "'v world \<Rightarrow> bool" where
  start: "eng w = sce_zero \<Longrightarrow> tasks w = (\<lambda>_. None) \<Longrightarrow> reachable w"
| more: "reachable w \<Longrightarrow> step w w' \<Longrightarrow> reachable w'"

section \<open>The invariant\<close>

text \<open>Contexts name LUNs and devices uniquely.\<close>

definition used_ctx :: "sce \<Rightarrow> nat \<Rightarrow> nat \<Rightarrow> bool" where
  "used_ctx s d e \<longleftrightarrow> d < 16 \<and> e < 16 \<and> c_fragtbl (cdevtbl s d) \<noteq> None \<and> c_fragtbl (cdevtbl s e) \<noteq> None
     \<and> c_cdevctx (cdevtbl s d) = c_cdevctx (cdevtbl s e)"

definition ctxs :: "sce \<Rightarrow> bool" where
  "ctxs s \<longleftrightarrow> (\<forall>d e. used_ctx s d e \<longrightarrow> d = e)
     \<and> (\<forall>i < 256. l_fragmap (luntbl s i) = None \<longrightarrow> l_lunctx (luntbl s i) = 0)
     \<and> (\<forall>i < 256. l_fragmap (luntbl s i) \<noteq> None \<longrightarrow>
          l_lunctx (luntbl s i) \<noteq> 0 \<and> unat (l_nr_sctr (luntbl s i)) < 2 ^ 32 - 2048
          \<and> (\<forall>j < 256. l_lunctx (luntbl s j) = l_lunctx (luntbl s i) \<longrightarrow> j = i))"

text \<open>The pages of one mapped fragment: served ones are on the device.\<close>

definition page_ok :: "'v world \<Rightarrow> nat \<Rightarrow> nat \<Rightarrow> bool \<times> floc \<times> nat set \<Rightarrow> bool" where
  "page_ok w i n e = (case e of (v, l, V) \<Rightarrow>
     (\<forall>p \<in> V. p < 256 \<and> lun_page (luntbl (eng w) i) n p)
     \<and> (v \<longrightarrow> \<not> l_waiting4deletion (luntbl (eng w) i) \<longrightarrow>
          (\<forall>p \<in> V. flash w (addr (eng w) l) p = disk w i (256 * n + p))))"

text \<open>A task: what it has read or written of the valid pages is what the disk holds.\<close>

definition task_ok :: "'v world \<Rightarrow> nat \<Rightarrow> nat \<Rightarrow> 'v task \<Rightarrow> bool" where
  "task_ok w i n t \<longleftrightarrow> l_lunctx (luntbl (eng w) i) = pt_lunctx (t_pop t) \<and> unat (pt_lun_fragnum (t_pop t)) = n
     \<and> (\<exists>l V. view (eng w) (i, n) = Some (False, l, V) \<and> addr (eng w) l = t_addr (t_pop t)
          \<and> (\<not> l_waiting4deletion (luntbl (eng w) i) \<longrightarrow>
               (\<forall>p \<in> V. (p \<in> t_read t \<longrightarrow> t_buf t p = disk w i (256 * n + p))
                  \<and> (p \<in> t_done t \<longrightarrow> flash w (t_addr (t_pop t)) p = disk w i (256 * n + p)))))"

definition coh :: "'v world \<Rightarrow> bool" where
  "coh w \<longleftrightarrow> sce_wf (eng w) \<and> ctxs (eng w)
     \<and> (\<forall>i n. tasks w (i, n) \<noteq> None \<longleftrightarrow> i < 256 \<and> n \<in> pend (eng w) i)
     \<and> (\<forall>i n e. view (eng w) (i, n) = Some e \<longrightarrow> page_ok w i n e)
     \<and> (\<forall>i n t. tasks w (i, n) = Some t \<longrightarrow> task_ok w i n t)"

subsection \<open>Names\<close>

lemma ctxs_lun_search:
  assumes "ctxs s" "i < 256" "l_fragmap (luntbl s i) \<noteq> None" shows "lun_search s (l_lunctx (luntbl s i)) = Some i"
proof (rule lun_search_unique [OF assms(2) refl])
  fix j assume j: "j < i"
  have "j < 256 \<longrightarrow> l_lunctx (luntbl s j) = l_lunctx (luntbl s i) \<longrightarrow> j = i"
    using assms unfolding ctxs_def by blast
  then show "l_lunctx (luntbl s j) \<noteq> l_lunctx (luntbl s i)" using j assms(2) by auto
qed

lemma ctxs_lun: "ctxs s \<Longrightarrow> i < 256 \<Longrightarrow> l_fragmap (luntbl s i) = None \<longleftrightarrow> l_lunctx (luntbl s i) = 0"
  by (auto simp: ctxs_def)

lemma ctxs_le:
  assumes c: "ctxs s" and d: "dev_le s s'" and l: "\<And>i. i < 256 \<Longrightarrow> lun_le (luntbl s i) (luntbl s' i)"
  shows "ctxs s'"
  unfolding ctxs_def
proof (intro conjI allI impI)
  fix d e assume "used_ctx s' d e"
  then have "used_ctx s d e" using d by (auto simp: used_ctx_def dev_le_def)
  then show "d = e" using c by (simp add: ctxs_def)
next
  fix i :: nat assume i: "i < 256" "l_fragmap (luntbl s' i) = None"
  then show "l_lunctx (luntbl s' i) = 0" using l [OF i(1)] c by (auto simp: lun_le_def ctxs_def)
next
  fix i :: nat assume i: "i < 256" "l_fragmap (luntbl s' i) \<noteq> None"
  then have le: "l_fragmap (luntbl s i) \<noteq> None" "l_lunctx (luntbl s' i) = l_lunctx (luntbl s i)"
    "l_nr_sctr (luntbl s' i) = l_nr_sctr (luntbl s i)"
    using l [OF i(1)] by (simp_all add: lun_le_def)
  show "l_lunctx (luntbl s' i) \<noteq> 0" "unat (l_nr_sctr (luntbl s' i)) < 2 ^ 32 - 2048"
    using c i le by (auto simp: ctxs_def)
  fix j :: nat assume j: "j < 256" "l_lunctx (luntbl s' j) = l_lunctx (luntbl s' i)"
  have "l_lunctx (luntbl s' j) = l_lunctx (luntbl s j) \<or> l_lunctx (luntbl s' j) = 0"
    using l [OF j(1)] by (auto simp: lun_le_def split: if_splits)
  then have "l_lunctx (luntbl s j) = l_lunctx (luntbl s i)" using j(2) le c i by (auto simp: ctxs_def)
  then show "j = i" using c i le j by (auto simp: ctxs_def)
qed

text \<open>Different places have different addresses.\<close>

lemma addr_inj:
  assumes "ctxs s" "l \<in> flocs (cdevtbl s)" "k \<in> flocs (cdevtbl s)" "addr s l = addr s k"
  shows "l = k"
proof -
  have "used_ctx s (fst l) (fst k)"
    using assms(2-4) by (auto simp: used_ctx_def addr_def flocs_def split: option.splits)
  then show ?thesis using assms(1,4) by (simp add: ctxs_def addr_def prod_eq_iff)
qed

lemma view_flocs:
  assumes "sce_wf s" "view s x = Some (v, l, V)" shows "l \<in> flocs (cdevtbl s)"
proof -
  obtain i n where x: "x = (i, n)" by (cases x)
  show ?thesis
    using assms mapped_frag(1) [OF sce_wf_inv [OF assms(1)]] by (auto simp: x view_eq_Some)
qed

lemma view_distinct:
  assumes "sce_wf s" "view s x = Some (v, l, V)" "view s y = Some (w, l, U)" shows "x = y"
proof -
  obtain i n j k where x: "x = (i, n)" "y = (j, k)" by (cases x; cases y)
  then obtain d e where d: "i < 256" "fdesc_at (luntbl s) i n = Some d" "is_mapped d" "loc_of d = l"
    and e: "j < 256" "fdesc_at (luntbl s) j k = Some e" "is_mapped e" "loc_of e = l"
    using assms(2,3) by (auto simp: view_eq_Some)
  show ?thesis
    using mapped_distinct [OF sce_wf_inv [OF assms(1)] d(1-3) e(1-3)] d(4) e(4) x by simp
qed

lemma addr_le:
  assumes "dev_le s s'" "l \<in> flocs (cdevtbl s')" shows "addr s' l = addr s l"
  using assms by (auto simp: addr_def dev_le_def flocs_def split: option.splits)

lemma view_mapped: "view s (i, n) = Some e \<Longrightarrow> i < 256 \<and> l_fragmap (luntbl s i) \<noteq> None"
  by (cases e) (auto simp: view_eq_Some fdesc_at_eq_Some)

subsection \<open>Steps that keep it\<close>

lemma coh_parts:
  assumes "coh w"
  shows coh_wf: "sce_wf (eng w)" and coh_ctxs: "ctxs (eng w)"
    and coh_dom: "tasks w (i, n) \<noteq> None \<longleftrightarrow> i < 256 \<and> n \<in> pend (eng w) i"
    and coh_page: "view (eng w) (i, n) = Some e \<Longrightarrow> page_ok w i n e"
    and coh_task: "tasks w (i, n) = Some t \<Longrightarrow> task_ok w i n t"
  using assms unfolding coh_def by blast+

lemma lun_le_mapped:
  assumes "lun_le a b" "l_fragmap b \<noteq> None"
  shows "l_lunctx b = l_lunctx a" "lun_page b = lun_page a" "\<not> l_waiting4deletion b \<Longrightarrow> \<not> l_waiting4deletion a"
  using assms by (auto simp: lun_le_def lun_page_def fun_eq_iff)

text \<open>One fragment, when its pages only become fewer and the disk keeps those that remain.\<close>

lemma page_ok_le:
  assumes p: "page_ok w i n (v, l, V')" and V: "V \<subseteq> V'" and le: "lun_le (luntbl (eng w) i) (luntbl s' i)"
    and m: "l_fragmap (luntbl s' i) \<noteq> None" and a: "addr s' l = addr (eng w) l"
    and dk: "\<And>p. p \<in> V \<Longrightarrow> \<not> l_waiting4deletion (luntbl s' i) \<Longrightarrow> dk i (256 * n + p) = disk w i (256 * n + p)"
  shows "page_ok (w\<lparr>eng := s', disk := dk, tasks := tk\<rparr>) i n (v, l, V)"
  unfolding page_ok_def prod.case
proof (intro conjI ballI impI)
  fix p assume "p \<in> V"
  then have "p \<in> V'" using V by blast
  then show "p < 256" "lun_page (luntbl (eng (w\<lparr>eng := s', disk := dk, tasks := tk\<rparr>)) i) n p"
    using p lun_le_mapped(2) [OF le m] by (auto simp: page_ok_def)
next
  fix p assume v: v and w: "\<not> l_waiting4deletion (luntbl (eng (w\<lparr>eng := s', disk := dk, tasks := tk\<rparr>)) i)" and q: "p \<in> V"
  have "\<not> l_waiting4deletion (luntbl (eng w) i)" using lun_le_mapped(3) [OF le m] w by simp
  then have "flash w (addr (eng w) l) p = disk w i (256 * n + p)" using p v q V by (auto simp: page_ok_def)
  then show "flash (w\<lparr>eng := s', disk := dk, tasks := tk\<rparr>) (addr (eng (w\<lparr>eng := s', disk := dk, tasks := tk\<rparr>)) l) p
      = disk (w\<lparr>eng := s', disk := dk, tasks := tk\<rparr>) i (256 * n + p)"
    using a dk [OF q] w by simp
qed

lemma task_ok_le:
  assumes t: "task_ok w i n t" and v: "view (eng w) (i, n) = Some (False, l, V')"
    and v': "view s' (i, n) = Some (False, l, V)" and V: "V \<subseteq> V'"
    and le: "lun_le (luntbl (eng w) i) (luntbl s' i)" and a: "addr s' l = addr (eng w) l"
    and dk: "\<And>p. p \<in> V \<Longrightarrow> \<not> l_waiting4deletion (luntbl s' i) \<Longrightarrow> dk i (256 * n + p) = disk w i (256 * n + p)"
  shows "task_ok (w\<lparr>eng := s', disk := dk, tasks := tk\<rparr>) i n t"
proof -
  have m: "l_fragmap (luntbl s' i) \<noteq> None" using view_mapped [OF v'] by simp
  note lm = lun_le_mapped [OF le m]
  show ?thesis
    using t v v' V a dk lm(1,3) unfolding task_ok_def by (auto simp: subset_iff)
qed

lemma coh_safe:
  assumes c: "coh w" and sf: "safe (eng w) s'"
    and dk: "\<And>i n v l V p. view s' (i, n) = Some (v, l, V) \<Longrightarrow> p \<in> V \<Longrightarrow>
      \<not> l_waiting4deletion (luntbl s' i) \<Longrightarrow> dk i (256 * n + p) = disk w i (256 * n + p)"
  shows "coh (w\<lparr>eng := s', disk := dk\<rparr>)"
proof -
  have wf': "sce_wf s'" and dl: "dev_le (eng w) s'" and ll: "\<And>i. i < 256 \<Longrightarrow> lun_le (luntbl (eng w) i) (luntbl s' i)"
    and pd: "\<And>i. i < 256 \<Longrightarrow> pend s' i = pend (eng w) i"
    using sf by (simp_all add: safe_def)
  have vl: "view s' x = Some (v, l, V) \<Longrightarrow> \<exists>V'. view (eng w) x = Some (v, l, V') \<and> V \<subseteq> V'" for x v l V
    using sf by (simp add: safe_def view_le_def)
  have ad: "view s' x = Some (v, l, V) \<Longrightarrow> addr s' l = addr (eng w) l" for x v l V
    by (rule addr_le [OF dl view_flocs [OF wf']])
  show ?thesis
    unfolding coh_def
  proof (intro conjI allI impI)
    show "sce_wf (eng (w\<lparr>eng := s', disk := dk\<rparr>))" using wf' by simp
    show "ctxs (eng (w\<lparr>eng := s', disk := dk\<rparr>))" using ctxs_le [OF coh_ctxs [OF c] dl ll] by simp
    show "(tasks (w\<lparr>eng := s', disk := dk\<rparr>) (i, n) \<noteq> None) = (i < 256 \<and> n \<in> pend (eng (w\<lparr>eng := s', disk := dk\<rparr>)) i)" for i n
      using coh_dom [OF c, of i n] pd by auto
  next
    fix i n e assume "view (eng (w\<lparr>eng := s', disk := dk\<rparr>)) (i, n) = Some e"
    then obtain v l V where e: "e = (v, l, V)" "view s' (i, n) = Some (v, l, V)" by (cases e) simp
    note m = view_mapped [OF e(2)]
    obtain V' where V': "view (eng w) (i, n) = Some (v, l, V')" "V \<subseteq> V'" using vl [OF e(2)] by blast
    have "page_ok (w\<lparr>eng := s', disk := dk, tasks := tasks w\<rparr>) i n (v, l, V)"
      by (rule page_ok_le [OF coh_page [OF c V'(1)] V'(2) ll [OF conjunct1 [OF m]] conjunct2 [OF m] ad [OF e(2)]])
        (rule dk [OF e(2)])
    then show "page_ok (w\<lparr>eng := s', disk := dk\<rparr>) i n e" by (simp add: e(1))
  next
    fix i n t assume t: "tasks (w\<lparr>eng := s', disk := dk\<rparr>) (i, n) = Some t"
    then have "i < 256" "n \<in> pend s' i" using coh_dom [OF c, of i n] pd by auto
    then obtain l V where v': "view s' (i, n) = Some (False, l, V)" by (auto simp: pend_view)
    then obtain V' where V': "view (eng w) (i, n) = Some (False, l, V')" "V \<subseteq> V'" using vl by blast
    have "task_ok (w\<lparr>eng := s', disk := dk, tasks := tasks w\<rparr>) i n t"
      by (rule task_ok_le [OF _ V'(1) v' V'(2) ll [OF \<open>i < 256\<close>] ad [OF v']])
        (use t coh_task [OF c] in simp, rule dk [OF v'])
    then show "task_ok (w\<lparr>eng := s', disk := dk\<rparr>) i n t" by simp
  qed
qed

lemma coh_engine: "coh w \<Longrightarrow> safe (eng w) s' \<Longrightarrow> coh (w\<lparr>eng := s'\<rparr>)"
  using coh_safe [of w s' "disk w"] by simp

text \<open>The page copies of a task.\<close>

lemma coh_read_page:
  assumes c: "coh w" and t: "tasks w (li, n) = Some t"
  shows "coh (w\<lparr>tasks := (tasks w)((li, n) \<mapsto>
    t\<lparr>t_buf := (t_buf t)(p := disk w li (256 * n + p)), t_read := insert p (t_read t)\<rparr>)\<rparr>)" (is "coh ?w")
proof -
  have pg: "page_ok ?w i k e = page_ok w i k e" for i k e by (simp add: page_ok_def)
  have "task_ok ?w i k u" if "tasks ?w (i, k) = Some u" for i k u
  proof (cases "(i, k) = (li, n)")
    case True
    then show ?thesis using that coh_task [OF c t] by (auto simp: task_ok_def)
  next
    case False
    then have "tasks w (i, k) = Some u" using that by (auto split: if_splits)
    then show ?thesis using coh_task [OF c] by (fastforce simp: task_ok_def)
  qed
  moreover have "tasks ?w (i, k) \<noteq> None \<longleftrightarrow> tasks w (i, k) \<noteq> None" for i k using t by auto
  ultimately show ?thesis
    using coh_wf [OF c] coh_ctxs [OF c] coh_dom [OF c] coh_page [OF c] unfolding coh_def pg
    by (auto simp del: fun_upd_apply)
qed

lemma coh_write_page:
  assumes c: "coh w" and t: "tasks w (li, n) = Some t" and p: "p \<in> t_read t"
  shows "coh (w\<lparr>flash := (flash w)(t_addr (t_pop t) := (flash w (t_addr (t_pop t)))(p := t_buf t p)),
    tasks := (tasks w)((li, n) \<mapsto> t\<lparr>t_done := insert p (t_done t)\<rparr>)\<rparr>)" (is "coh ?w")
proof -
  obtain l V where v: "view (eng w) (li, n) = Some (False, l, V)" and a: "addr (eng w) l = t_addr (t_pop t)"
    using coh_task [OF c t] by (auto simp: task_ok_def)
  note wf = coh_wf [OF c]
  have other: "addr (eng w) k \<noteq> t_addr (t_pop t)"
    if "view (eng w) (i, m) = Some (u, k, U)" "(i, m) \<noteq> (li, n)" for i m u k U
  proof
    assume "addr (eng w) k = t_addr (t_pop t)"
    then have "k = l" using addr_inj [OF coh_ctxs [OF c] view_flocs [OF wf that(1)] view_flocs [OF wf v]] a by simp
    then show False using view_distinct [OF wf that(1) [unfolded \<open>k = l\<close>] v] that(2) by simp
  qed
  have "page_ok ?w i k e" if e: "view (eng w) (i, k) = Some e" for i k e
  proof -
    obtain u m U where em: "e = (u, m, U)" by (cases e)
    show ?thesis
    proof (cases "(i, k) = (li, n)")
      case True
      then show ?thesis using coh_page [OF c e] e v by (auto simp: page_ok_def)
    next
      case False
      then show ?thesis using coh_page [OF c e] other [OF e [unfolded em] False] by (simp add: em page_ok_def)
    qed
  qed
  moreover have "task_ok ?w i k u" if "tasks ?w (i, k) = Some u" for i k u
  proof (cases "(i, k) = (li, n)")
    case True
    then show ?thesis using that coh_task [OF c t] p v a by (auto simp: task_ok_def)
  next
    case False
    then have u: "tasks w (i, k) = Some u" using that by (auto split: if_splits)
    then obtain m U where m: "view (eng w) (i, k) = Some (False, m, U)" "addr (eng w) m = t_addr (t_pop u)"
      using coh_task [OF c u] by (auto simp: task_ok_def)
    then have "t_addr (t_pop u) \<noteq> t_addr (t_pop t)" using other [OF m(1) False] by simp
    then show ?thesis using coh_task [OF c u] by (auto simp: task_ok_def)
  qed
  moreover have "tasks ?w (i, k) \<noteq> None \<longleftrightarrow> tasks w (i, k) \<noteq> None" for i k using t by auto
  ultimately show ?thesis
    using wf coh_ctxs [OF c] coh_dom [OF c] unfolding coh_def by (auto simp del: fun_upd_apply)
qed

text \<open>The end of a task.\<close>

lemma coh_end_task:
  assumes c: "coh w" and t: "tasks w (li, n) = Some t" and e: "ended failed (li, n) (eng w) s'"
    and all: "\<not> failed \<Longrightarrow> \<forall>p < 256. lun_page (luntbl (eng w) li) n p \<longrightarrow> p \<in> t_done t"
  shows "coh (w\<lparr>eng := s', tasks := (tasks w)((li, n) := None)\<rparr>)" (is "coh ?w")
proof -
  have wf': "sce_wf s'" and dl: "dev_le (eng w) s'" and ll: "\<And>i. i < 256 \<Longrightarrow> lun_le (luntbl (eng w) i) (luntbl s' i)"
    and pd: "\<And>i. i < 256 \<Longrightarrow> pend s' i = (if i = li then pend (eng w) i - {n} else pend (eng w) i)"
    and oth: "\<And>y v l V. y \<noteq> (li, n) \<Longrightarrow> view s' y = Some (v, l, V) \<Longrightarrow> \<exists>V'. view (eng w) y = Some (v, l, V') \<and> V \<subseteq> V'"
    and own: "\<And>v l V. view s' (li, n) = Some (v, l, V) \<Longrightarrow>
      v \<and> \<not> failed \<and> (\<exists>V'. view (eng w) (li, n) = Some (False, l, V') \<and> V \<subseteq> V')"
    using e by (simp_all add: ended_def)
  have ad: "view s' x = Some (v, l, V) \<Longrightarrow> addr s' l = addr (eng w) l" for x v l V
    by (rule addr_le [OF dl view_flocs [OF wf']])
  have "page_ok ?w i k (v, l, V)" if v: "view s' (i, k) = Some (v, l, V)" for i k v l V
  proof -
    note m = view_mapped [OF v]
    have le: "lun_le (luntbl (eng w) i) (luntbl s' i)" using ll m by blast
    have "page_ok w i k (v, l, V) \<and> addr s' l = addr (eng w) l"
    proof (cases "(i, k) = (li, n)")
      case False
      then obtain V' where V': "view (eng w) (i, k) = Some (v, l, V')" "V \<subseteq> V'" using oth [OF False v] by blast
      then show ?thesis using coh_page [OF c V'(1)] ad [OF v] by (auto simp: page_ok_def)
    next
      case True
      then have ik: "i = li" "k = n" by simp_all
      obtain V' where nf: "\<not> failed" and V': "view (eng w) (li, n) = Some (False, l, V')" "V \<subseteq> V'"
        using own v True by blast
      have "p \<in> t_done t" if "p \<in> V" for p
        using all [OF nf] coh_page [OF c V'(1)] V'(2) that by (auto simp: page_ok_def)
      then have "page_ok w li n (v, l, V)"
        using coh_page [OF c V'(1)] coh_task [OF c t] V' by (auto simp: page_ok_def task_ok_def subset_iff)
      then show ?thesis using ad [OF v] ik by simp
    qed
    then have "page_ok (w\<lparr>eng := s', disk := disk w, tasks := (tasks w)((li, n) := None)\<rparr>) i k (v, l, V)"
      using m by (intro page_ok_le [of w i k v l V V]) (use le in auto)
    then show ?thesis by simp
  qed
  moreover have "task_ok ?w i k u" if u: "tasks ?w (i, k) = Some u" for i k u
  proof -
    have ne: "(i, k) \<noteq> (li, n)" and u': "tasks w (i, k) = Some u" using u by (auto split: if_splits)
    then have i: "i < 256" "k \<in> pend s' i" using coh_dom [OF c, of i k] pd ne by auto
    then obtain l V where v: "view s' (i, k) = Some (False, l, V)" by (auto simp: pend_view)
    then obtain V' where V': "view (eng w) (i, k) = Some (False, l, V')" "V \<subseteq> V'" using oth [OF ne] by blast
    have "task_ok (w\<lparr>eng := s', disk := disk w, tasks := (tasks w)((li, n) := None)\<rparr>) i k u"
      by (rule task_ok_le [OF coh_task [OF c u'] V'(1) v V'(2) ll [OF i(1)] ad [OF v]]) (rule refl)
    then show ?thesis by simp
  qed
  moreover have "tasks ?w (i, k) \<noteq> None \<longleftrightarrow> i < 256 \<and> k \<in> pend s' i" for i k
    using coh_dom [OF c, of i k] pd [of i] by (cases "i < 256") (auto split: if_splits)
  ultimately show ?thesis
    using wf' ctxs_le [OF coh_ctxs [OF c] dl ll] unfolding coh_def by (auto simp del: fun_upd_apply)
qed

text \<open>A new task.\<close>

lemma coh_take_task:
  assumes c: "coh w" and sd: "same_devs (cdevtbl (eng w)) (cdevtbl s')" and wf': "sce_wf s'"
    and tk: "tasked (eng w) i n p pt s'" and lu: "lun_search s' (pt_lunctx pt) = Some li"
  shows "coh (w\<lparr>eng := s', tasks := (tasks w)((li, unat (pt_lun_fragnum pt)) \<mapsto>
    \<lparr>t_pop = pt, t_buf = b, t_read = {}, t_done = {}\<rparr>)\<rparr>)" (is "coh ?w")
proof -
  let ?s = "eng w"
  have i: "i < 256" and pop: "populating ?s i (unat n) (SCE_SUCCESS, p, s')"
    and w: "\<not> l_waiting4deletion (luntbl ?s i)"
    and pt: "pt = \<lparr>pt_lunctx = l_lunctx (luntbl ?s i), pt_cdevctx = c_cdevctx (cdevtbl ?s (fst (loc_of p))),
         pt_lun_fragnum = n, pt_cdev_fragnum = of_nat (snd (loc_of p))\<rparr>"
    using tk by (auto simp: tasked_def)
  note pl = populating_luntbl [OF pop]
  have dl: "dev_le ?s s'" by (rule dev_le_same [OF sd])
  have ll: "lun_le (luntbl ?s j) (luntbl s' j)" for j using pl [of j] by (simp add: lun_le_def)
  have cx: "ctxs s'" by (rule ctxs_le [OF coh_ctxs [OF c] dl ll])
  obtain d where d: "fdesc_at (luntbl s') i (unat n) = Some d" using pop by (auto simp: populating_def)
  then have m: "l_fragmap (luntbl s' i) \<noteq> None" by (auto simp: fdesc_at_eq_Some)
  have li: "li = i" using ctxs_lun_search [OF cx i m] lu pl(1) [of i] by (simp add: pt)
  have "unat (l_nr_sctr (luntbl ?s i)) < 2 ^ 32 - 2048"
    using coh_ctxs [OF c] i m pl(5) [of i] by (auto simp: ctxs_def)
  then obtain vw V where vw: "vw = view ?s \<or> (\<exists>x. vw = (view ?s)(x := None))"
    and v': "view s' = vw((i, unat n) := Some (False, loc_of p, V))"
    and V: "V = {q. q < 256 \<and> lun_page (luntbl ?s i) (unat n) q}"
    using pop by (auto simp: populating_def)
  have pd: "j < 256 \<Longrightarrow> pend s' j = (if j = i then insert (unat n) (pend ?s j) else pend ?s j)" for j
    using pop by (simp add: populating_def)
  have old: "y \<noteq> (i, unat n) \<Longrightarrow> view s' y = Some e \<Longrightarrow> view ?s y = Some e" for y e
    using vw v' by (auto split: if_splits)
  have ad: "view s' x = Some (v, l, U) \<Longrightarrow> addr s' l = addr ?s l" for x v l U
    by (rule addr_le [OF dl view_flocs [OF wf']])
  have "page_ok ?w j k (v, l, U)" if e: "view s' (j, k) = Some (v, l, U)" for j k v l U
  proof (cases "(j, k) = (i, unat n)")
    case True
    then show ?thesis using e v' pl(2) [of i] by (auto simp: page_ok_def V lun_page_def)
  next
    case False
    note o = old [OF False e] and vm = view_mapped [OF e]
    have "page_ok (w\<lparr>eng := s', disk := disk w, tasks := tasks ?w\<rparr>) j k (v, l, U)"
      by (rule page_ok_le [OF coh_page [OF c o] order_refl ll conjunct2 [OF vm] ad [OF e]]) (rule refl)
    then show ?thesis by simp
  qed
  moreover have "task_ok ?w j k u" if u: "tasks ?w (j, k) = Some u" for j k u
  proof (cases "(j, k) = (i, unat n)")
    case True
    have "snd (loc_of p) < 2 ^ 24" by (simp only: loc_of_def snd_conv unat_PFIDOFF_less)
    then have "unat (of_nat (snd (loc_of p)) :: u32) = snd (loc_of p)" by (simp add: unat_of_nat)
    then have "addr s' (loc_of p) = t_addr pt"
      using sd by (simp add: addr_def t_addr_def pt same_devs_def)
    then show ?thesis using True u v' pl(1) [of i] by (auto simp: task_ok_def pt li)
  next
    case False
    then have u': "tasks w (j, k) = Some u" using u by (auto simp: pt li split: if_splits)
    then have j: "j < 256" "k \<in> pend s' j" using coh_dom [OF c, of j k] pd by auto
    then obtain l U where e: "view s' (j, k) = Some (False, l, U)" by (auto simp: pend_view)
    have "task_ok (w\<lparr>eng := s', disk := disk w, tasks := tasks ?w\<rparr>) j k u"
      by (rule task_ok_le [OF coh_task [OF c u'] old [OF False e] e order_refl ll ad [OF e]]) (rule refl)
    then show ?thesis by simp
  qed
  moreover have "tasks ?w (j, k) \<noteq> None \<longleftrightarrow> j < 256 \<and> k \<in> pend s' j" for j k
    using coh_dom [OF c, of j k] pd [of j] i by (cases "j < 256") (auto simp: pt li split: if_splits)
  ultimately show ?thesis
    using wf' cx unfolding coh_def by (auto simp del: fun_upd_apply)
qed

text \<open>A new device, a new LUN.\<close>

lemma coh_addcdev:
  assumes c: "coh w" and a: "dev_added dn ctx (eng w) s'" shows "coh (w\<lparr>eng := s'\<rparr>)"
proof -
  have wf': "sce_wf s'" and vw: "view s' = view (eng w)" and lt: "luntbl s' = luntbl (eng w)" and dn: "dn < 16"
    and none: "c_fragtbl (cdevtbl (eng w) dn) = None" and nw: "c_cdevctx (cdevtbl s' dn) = ctx"
    and new: "\<And>d. d < 16 \<Longrightarrow> c_cdevctx (cdevtbl (eng w) d) \<noteq> ctx"
    and oth: "\<And>d. d \<noteq> dn \<Longrightarrow> c_cdevctx (cdevtbl s' d) = c_cdevctx (cdevtbl (eng w) d)
          \<and> (c_fragtbl (cdevtbl s' d) = None) = (c_fragtbl (cdevtbl (eng w) d) = None)"
    using a by (auto simp: dev_added_def)
  have ad: "addr s' l = addr (eng w) l" if v: "view (eng w) x = Some (v, l, V)" for x v l V
  proof -
    have "fst l \<noteq> dn" using view_flocs [OF coh_wf [OF c] v] none by (auto simp: flocs_def)
    then show ?thesis using oth by (simp add: addr_def)
  qed
  have "ctxs s'"
    unfolding ctxs_def
  proof (intro conjI)
    have "d = e" if u: "used_ctx s' d e" for d e
    proof (cases "d = dn \<or> e = dn")
      case True
      then show ?thesis using u oth nw new by (metis used_ctx_def)
    next
      case False
      then have "used_ctx (eng w) d e" using u oth by (simp add: used_ctx_def)
      then show ?thesis using coh_ctxs [OF c] by (simp add: ctxs_def)
    qed
    then show "\<forall>d e. used_ctx s' d e \<longrightarrow> d = e" by blast
  qed (use coh_ctxs [OF c] lt in \<open>simp_all add: ctxs_def\<close>)
  moreover have "page_ok (w\<lparr>eng := s'\<rparr>) i n (v, l, V)" if v: "view s' (i, n) = Some (v, l, V)" for i n v l V
    using coh_page [OF c, of i n "(v, l, V)"] ad v vw lt by (simp add: page_ok_def)
  moreover have "task_ok (w\<lparr>eng := s'\<rparr>) i n t" if "tasks w (i, n) = Some t" for i n t
    using coh_task [OF c that] ad by (auto simp: task_ok_def vw lt)
  moreover have "pend s' = pend (eng w)" by (rule slack_cong(2) [OF lt])
  ultimately show ?thesis
    using wf' coh_dom [OF c] unfolding coh_def by auto
qed

lemma coh_addlun:
  assumes c: "coh w" and a: "lun_added i ns ctx (eng w) s'" and ctx: "ctx \<noteq> 0"
    and new: "\<And>j. j < 256 \<Longrightarrow> l_lunctx (luntbl (eng w) j) \<noteq> ctx" and ns: "unat ns < 2 ^ 32 - 2048"
    and dk: "\<And>j. j \<noteq> i \<Longrightarrow> dk j = disk w j"
  shows "coh (w\<lparr>eng := s', disk := dk\<rparr>)"
proof -
  have wf': "sce_wf s'" and vw: "view s' = view (eng w)" and cd: "cdevtbl s' = cdevtbl (eng w)"
    and i: "i < 256" "l_fragmap (luntbl (eng w) i) = None" "l_fragmap (luntbl s' i) \<noteq> None"
    and nw: "l_lunctx (luntbl s' i) = ctx" "l_nr_sctr (luntbl s' i) = ns"
    and oth: "\<And>j. j \<noteq> i \<Longrightarrow> luntbl s' j = luntbl (eng w) j"
    using a by (auto simp: lun_added_def)
  have ad: "addr s' = addr (eng w)" by (simp add: addr_def cd fun_eq_iff)
  have ne: "view (eng w) (j, n) = Some e \<Longrightarrow> j \<noteq> i" for j n e
    using i(2) view_mapped by blast
  have pd: "pend s' j = pend (eng w) j" if "j < 256" for j
    using that vw by (simp add: pend_view)
  have "ctxs s'"
    unfolding ctxs_def
  proof (intro conjI allI impI)
    show "used_ctx s' d e \<Longrightarrow> d = e" for d e
      using coh_ctxs [OF c] cd by (simp add: ctxs_def used_ctx_def)
    show "j < 256 \<Longrightarrow> l_fragmap (luntbl s' j) = None \<Longrightarrow> l_lunctx (luntbl s' j) = 0" for j
      using coh_ctxs [OF c] oth [of j] i(3) by (cases "j = i") (simp_all add: ctxs_def)
    fix j :: nat assume j: "j < 256" "l_fragmap (luntbl s' j) \<noteq> None"
    show "l_lunctx (luntbl s' j) \<noteq> 0" "unat (l_nr_sctr (luntbl s' j)) < 2 ^ 32 - 2048"
      using coh_ctxs [OF c] oth [of j] j nw ctx ns by (cases "j = i"; auto simp: ctxs_def)+
    fix k :: nat assume k: "k < 256" "l_lunctx (luntbl s' k) = l_lunctx (luntbl s' j)"
    show "k = j"
    proof (cases "j = i \<or> k = i")
      case True
      then show ?thesis using k j(1) oth nw(1) new by metis
    next
      case False
      then show ?thesis using coh_ctxs [OF c] j k oth [of j] oth [of k] by (auto simp: ctxs_def)
    qed
  qed
  moreover have "page_ok (w\<lparr>eng := s', disk := dk\<rparr>) j n e" if v: "view s' (j, n) = Some e" for j n e
    using coh_page [OF c, of j n e] v vw ad oth [OF ne, of j n] dk [OF ne, of j n]
    by (auto simp: page_ok_def)
  moreover have "task_ok (w\<lparr>eng := s', disk := dk\<rparr>) j n t" if t: "tasks w (j, n) = Some t" for j n t
  proof -
    obtain l V where "view (eng w) (j, n) = Some (False, l, V)" using coh_task [OF c t] by (auto simp: task_ok_def)
    then have "j \<noteq> i" by (rule ne)
    then show ?thesis using coh_task [OF c t] vw ad oth dk by (auto simp: task_ok_def)
  qed
  ultimately show ?thesis
    using wf' coh_dom [OF c] pd unfolding coh_def by auto
qed

section \<open>Reachable worlds\<close>

lemma coh_start:
  assumes "eng w = sce_zero" "tasks w = (\<lambda>_. None)" shows "coh w"
proof -
  have lt: "luntbl sce_zero i = lun_zero" "cdevtbl sce_zero d = cdev_zero" for i d by (simp_all add: sce_zero_def)
  have none: "fdesc_at (luntbl sce_zero) i n = None" for i n by (simp add: fdesc_at_def lt)
  then have "view sce_zero (i, n) = None" "pend sce_zero i = {}" for i n
    by (auto simp: view.simps pend_def)
  moreover have "ctxs sce_zero" by (auto simp: ctxs_def used_ctx_def lt)
  ultimately show ?thesis using assms sce_zero_wf by (simp add: coh_def)
qed

lemma coh_disk_write:
  assumes c: "coh w" and li: "li < 256" and req: "req_ok (luntbl (eng w) li) sctr nr"
    and inval: "sce_invalidate (eng w) (Some li) sctr nr = Some (r, s')"
    and dk: "\<forall>i p. dk i p \<noteq> disk w i p \<longrightarrow> i = li \<and> in_pages (req_first sctr) (req_count sctr nr) p"
  shows "coh (w\<lparr>eng := s', disk := dk\<rparr>)"
proof -
  have ov: "unat sctr + unat nr < 2 ^ 64" using req by (simp add: req_ok_def)
  have sf: "safe (eng w) s'"
    and ok: "r = SCE_SUCCESS \<longleftrightarrow> l_scehndl (luntbl (eng w) li) \<and> l_fragmap (luntbl (eng w) li) \<noteq> None
         \<and> req_ok (luntbl (eng w) li) sctr nr \<and> \<not> l_waiting4deletion (luntbl (eng w) li)"
    and wr: "if r = SCE_SUCCESS then written li (req_first sctr) (req_count sctr nr) (eng w) s' else s' = eng w"
    using invalidate_safe [OF coh_wf [OF c] li ov] inval by simp_all
  show ?thesis
  proof (rule coh_safe [OF c sf])
    fix i n v l V p assume v: "view s' (i, n) = Some (v, l, V)" and p: "p \<in> V"
      and w: "\<not> l_waiting4deletion (luntbl s' i)"
    show "dk i (256 * n + p) = disk w i (256 * n + p)"
    proof (rule ccontr)
      assume "dk i (256 * n + p) \<noteq> disk w i (256 * n + p)"
      then have i: "i = li" "in_pages (req_first sctr) (req_count sctr nr) (256 * n + p)" using dk by blast+
      have m: "l_fragmap (luntbl s' li) \<noteq> None" using view_mapped [OF v] i(1) by simp
      have le: "lun_le (luntbl (eng w) li) (luntbl s' li)" using sf li by (simp add: safe_def)
      have lm: "l_fragmap (luntbl (eng w) li) \<noteq> None" using le m by (simp add: lun_le_def)
      have "lun_ok (luntbl (eng w) li)"
        using sce_inv_lun [OF sce_wf_inv [OF coh_wf [OF c]]] li by (simp add: lun_inv_def)
      then have "l_scehndl (luntbl (eng w) li)" using lm by (auto simp: lun_ok_def)
      then have "r = SCE_SUCCESS" using ok lm req lun_le_mapped(3) [OF le m] w i(1) by simp
      then have "cell s' v (i, n) = {q \<in> cell (eng w) v (i, n). \<not> in_pages (req_first sctr) (req_count sctr nr) (256 * n + q)}"
        using wr i(1) by (simp add: written_def)
      then show False using v p i(2) by auto
    qed
  qed
qed

text \<open>The end of a task does what the engine promises.\<close>

lemma coh_put4pop:
  assumes c: "coh w" and t: "tasks w (li, n) = Some t"
  shows "returns (sce_put4pop (eng w) (Some (t_pop t)) failed) (\<lambda>(r, s'). r = SCE_SUCCESS
    \<and> ended failed (li, n) (eng w) s'
    \<and> (\<not> l_waiting4deletion (luntbl (eng w) li) \<longrightarrow> ends failed (li, n) (eng w) s'))"
proof -
  obtain l V where tk: "l_lunctx (luntbl (eng w) li) = pt_lunctx (t_pop t)" "unat (pt_lun_fragnum (t_pop t)) = n"
    and v: "view (eng w) (li, n) = Some (False, l, V)"
    using coh_task [OF c t] by (auto simp: task_ok_def)
  obtain d where d: "fdesc_at (luntbl (eng w)) li n = Some d" "is_mapped d" "\<not> is_valid d"
    using v by (auto simp: view_eq_Some)
  have lu: "lun_search (eng w) (pt_lunctx (t_pop t)) = Some li"
    using ctxs_lun_search [OF coh_ctxs [OF c]] view_mapped [OF v] tk(1) by metis
  show ?thesis
    using sce_put4pop_correct [OF coh_wf [OF c] lu d [folded tk(2)], of failed] tk(2) by simp
qed

lemma coh_step:
  assumes "step w w'" "coh w" shows "coh w'"
  using assms(1)
proof cases
  case (get4read li sctr nr out r out' s')
  have "unat (l_nr_service (luntbl (eng w) li)) + 1 < 2 ^ 32" using get4read(2,4) by (simp add: roomy_def)
  then have "safe (eng w) s'"
    using get4read_safe [OF coh_wf [OF assms(2)] get4read(2,3), of out] get4read(5) by simp
  then show ?thesis using coh_engine [OF assms(2)] get4read(1) by simp
next
  case (put4read li sctr nr r s')
  then have "safe (eng w) s'" using put4read_safe [OF coh_wf [OF assms(2)] put4read(2,3)] by simp
  then show ?thesis using coh_engine [OF assms(2)] put4read(1) by simp
next
  case (disk_write li sctr nr r s' dk)
  show ?thesis unfolding disk_write(1) by (rule coh_disk_write [OF assms(2) disk_write(2-5)])
next
  case (take_task out pt s' li b)
  have "\<exists>i n p. tasked (eng w) i n p pt s' \<and> sce_wf s' \<and> same_devs (cdevtbl (eng w)) (cdevtbl s')"
    using sce_get4pop_correct [OF coh_wf [OF assms(2)], of out] take_task(2,3) by (auto simp: roomy_def)
  then obtain i n p where "tasked (eng w) i n p pt s'" "sce_wf s'" "same_devs (cdevtbl (eng w)) (cdevtbl s')" by blast
  then show ?thesis unfolding take_task(1) using coh_take_task [OF assms(2) _ _ _ take_task(4)] by blast
next
  case (no_task out r out' s')
  have *: "sce_wf s'" "same_devs (cdevtbl (eng w)) (cdevtbl s')" "view s' = view (eng w)" "luntbl s' = luntbl (eng w)"
    using sce_get4pop_correct [OF coh_wf [OF assms(2)], of out] no_task(2-4) by (auto simp: roomy_def)
  have "safe (eng w) s'"
    by (rule safe_pend_view [OF *(1) view_le_eq [OF *(3)] dev_le_same [OF *(2)]]) (simp_all add: *(3,4))
  then show ?thesis using coh_engine [OF assms(2)] no_task(1) by simp
next
  case (read_page li n t p)
  then show ?thesis using coh_read_page [OF assms(2)] by simp
next
  case (write_page li n t p)
  then show ?thesis using coh_write_page [OF assms(2)] by simp
next
  case (end_task li n t failed r s')
  have "ended failed (li, n) (eng w) s'"
    using coh_put4pop [OF assms(2) end_task(2), of failed] end_task(4) by simp
  then show ?thesis unfolding end_task(1) by (rule coh_end_task [OF assms(2) end_task(2)]) (use end_task(3) in auto)
next
  case (addcdev ns ok ctx r s')
  have "returns (Some (r, s')) (\<lambda>(r, s'). case r of None \<Rightarrow> s' = eng w | Some dn \<Rightarrow> dev_added dn ctx (eng w) s')"
    unfolding addcdev(3) [symmetric] by (rule addcdev_outcome [OF coh_wf [OF assms(2)] addcdev(2)])
  then have "case r of None \<Rightarrow> s' = eng w | Some dn \<Rightarrow> dev_added dn ctx (eng w) s'" by simp
  then show ?thesis using coh_addcdev [OF assms(2)] assms(2) addcdev(1) by (cases r) auto
next
  case (rmcdev dn r s')
  have "fst l \<noteq> dn" if v: "view (eng w) x = Some (False, l, V)" for x l V
  proof
    obtain i n where x: "x = (i, n)" by (cases x)
    have i: "i < 256" "n \<in> pend (eng w) i" using v view_mapped [of "eng w" i n] by (auto simp: x pend_view)
    then obtain t where t: "tasks w (i, n) = Some t" using coh_dom [OF assms(2), of i n] by auto
    have "addr (eng w) l = t_addr (t_pop t)" using coh_task [OF assms(2) t] v by (auto simp: task_ok_def x)
    moreover assume "fst l = dn"
    ultimately show False using rmcdev(3) t by (auto simp: addr_def t_addr_def)
  qed
  then have "safe (eng w) s'" using rmcdev_safe [OF coh_wf [OF assms(2)] rmcdev(2)] rmcdev(4) by simp
  then show ?thesis using coh_engine [OF assms(2)] rmcdev(1) by simp
next
  case (addlun ctx ns ok r s' dk)
  have ns: "unat ns \<le> 2048 * (2 ^ 32 - 2)" using addlun(4) by simp
  have out: "case (r, s') of (None, s') \<Rightarrow> safe (eng w) s' \<and> view s' = view (eng w)
    | (Some i, s') \<Rightarrow> lun_added i ns ctx (eng w) s'"
    unfolding addlun(6) [symmetric] by (rule addlun_outcome [OF coh_wf [OF assms(2)] ns]) (use addlun(5) in blast)
  show ?thesis
  proof (cases r)
    case None
    then show ?thesis unfolding addlun(1) by (intro coh_safe [OF assms(2)]) (use out addlun(7) in auto)
  next
    case (Some i)
    then have "lun_added i ns ctx (eng w) s'" using out by simp
    then show ?thesis unfolding addlun(1)
      by (rule coh_addlun [OF assms(2) _ addlun(2)]) (use addlun(3,4,7) Some in auto)
  qed
next
  case (rmlun li r s')
  then have "safe (eng w) s'" using rmlun_safe [OF coh_wf [OF assms(2)] rmlun(2)] by simp
  then show ?thesis using coh_engine [OF assms(2)] rmlun(1) by simp
qed

theorem reachable_coh: "reachable w \<Longrightarrow> coh w"
  by (induction rule: reachable.induct) (auto intro: coh_start coh_step)

end
