(* ===== verification/Iostash_Types.thy ===== *)
theory Iostash_Types
  imports Sce_System
begin

text \<open>
  The data of the module around the engine, after \<^verbatim>\<open>src/iostash.h\<close>. A structure is known by its
  address, which also is the context the engine knows the disk or the SSD by. Of the kernel objects
  a structure points to only whether the pointer is NULL matters here, and of the block device of a
  disk (\<open>h_bdev\<close>) also the number \<open>h_disk\<close> of the disk whose request queue it has. An atomic counter is an
  integer. The build is the default one (no \<^verbatim>\<open>SCE_AWT\<close>), for kernels from 4.4 on.
\<close>

abbreviation (input) IOSTASH_HEADERSCT :: "'a::numeral" where "IOSTASH_HEADERSCT \<equiv> 2048"
abbreviation (input) IOSTASH_MAXSSD_BCKTS :: nat where "IOSTASH_MAXSSD_BCKTS \<equiv> 32"
abbreviation (input) IOSTASH_MAXHDD_BCKTS :: nat where "IOSTASH_MAXHDD_BCKTS \<equiv> 512"

type_synonym dev_t = u32

record ssd_info =
  s_bdev :: bool
  s_dev_t :: dev_t
  s_path :: string
  s_nr_sctr :: sector_t
  s_cdev :: "nat option"
  s_online :: bool
  s_queue_max_hw_sectors :: u32
  s_nr_ref :: int

record hdd_info =
  h_bdev :: bool
  h_disk :: dev_t
  h_dev_t :: dev_t
  h_path :: string
  h_nr_sctr :: sector_t
  h_part_start :: sector_t
  h_part_end :: sector_t
  h_lun :: "nat option"
  h_online :: bool
  h_nr_ref :: int
  h_io_pool :: bool
  h_bs :: bool
  h_io_queue :: bool
  h_org_mapreq :: bool
  h_io_pending :: int

text \<open>What \<^verbatim>\<open>kzalloc\<close> gives.\<close>

definition ssd_zero :: ssd_info where
  "ssd_zero = \<lparr>s_bdev = False, s_dev_t = 0, s_path = [], s_nr_sctr = 0, s_cdev = None, s_online = False,
     s_queue_max_hw_sectors = 0, s_nr_ref = 0\<rparr>"

definition hdd_zero :: hdd_info where
  "hdd_zero = \<lparr>h_bdev = False, h_disk = 0, h_dev_t = 0, h_path = [], h_nr_sctr = 0, h_part_start = 0, h_part_end = 0,
     h_lun = None, h_online = False, h_nr_ref = 0, h_io_pool = False, h_bs = False, h_io_queue = False,
     h_org_mapreq = False, h_io_pending = 0\<rparr>"

text \<open>A block I/O request: \<^verbatim>\<open>start_sect\<close> is where its partition starts, the size is in bytes.\<close>

record bio =
  bi_sector :: sector_t
  bi_size :: u32
  bi_write :: bool
  bi_start_sect :: sector_t

definition to_sector :: "u32 \<Rightarrow> u32" where
  "to_sector n = drop_bit 9 n"

end
