(* ===== verification/Iostash_Table.thy ===== *)
theory Iostash_Table
  imports Iostash_Types
begin

text \<open>
  The hash tables of the disks and of the SSDs: an array of buckets, each the list of the addresses
  of the structures in it. \<^verbatim>\<open>iostash_hdd.c\<close> and \<^verbatim>\<open>iostash_ssd.c\<close> have the same code for them with
  another number of buckets. \<^verbatim>\<open>hash_32\<close> is the kernel's and a parameter; \<open>dev\<close> gives the device
  number in a structure, \<open>None\<close> when it is not allocated, and an access to it then is an error.
\<close>

type_synonym htable = "nat \<Rightarrow> ptr list"

definition bucket_of :: "(dev_t \<Rightarrow> u32) \<Rightarrow> nat \<Rightarrow> dev_t \<Rightarrow> nat" where
  "bucket_of hash n d = unat (hash d) mod n"

fun find_dev :: "(ptr \<Rightarrow> dev_t option) \<Rightarrow> dev_t \<Rightarrow> ptr list \<Rightarrow> ptr option option" where
  "find_dev dev d [] = Some None"
| "find_dev dev d (p # ps) = do { e \<leftarrow> dev p; if d = e then Some (Some p) else find_dev dev d ps }"

definition table_search :: "(dev_t \<Rightarrow> u32) \<Rightarrow> nat \<Rightarrow> htable \<Rightarrow> (ptr \<Rightarrow> dev_t option) \<Rightarrow> dev_t \<Rightarrow> ptr option option" where
  "table_search hash n tbl dev d = (if d = 0 then Some None else find_dev dev d (tbl (bucket_of hash n d)))"

definition table_insert :: "(dev_t \<Rightarrow> u32) \<Rightarrow> nat \<Rightarrow> htable \<Rightarrow> (ptr \<Rightarrow> dev_t option) \<Rightarrow> ptr \<Rightarrow> htable option" where
  "table_insert hash n tbl dev p = do {
     d \<leftarrow> dev p;
     bug_on (d = 0);
     let b = bucket_of hash n d;
     Some (tbl(b := p # tbl b))
   }"

text \<open>\<^verbatim>\<open>list_del_rcu\<close>: the entry leaves the list it is on.\<close>

definition table_delete :: "ptr \<Rightarrow> htable \<Rightarrow> htable" where
  "table_delete p tbl = (\<lambda>b. removeAll p (tbl b))"

text \<open>Each entry is allocated, in its bucket, once, and the only one with its device number.\<close>

definition table_ok :: "(dev_t \<Rightarrow> u32) \<Rightarrow> nat \<Rightarrow> htable \<Rightarrow> (ptr \<Rightarrow> dev_t option) \<Rightarrow> bool" where
  "table_ok hash n tbl dev \<longleftrightarrow>
     (\<forall>b. distinct (tbl b) \<and> (\<forall>p \<in> set (tbl b). \<exists>d. dev p = Some d \<and> d \<noteq> 0 \<and> b = bucket_of hash n d
        \<and> (\<forall>q \<in> set (tbl b). dev q = Some d \<longrightarrow> q = p)))"

lemma table_ok_entry:
  assumes "table_ok hash n tbl dev" "p \<in> set (tbl b)"
  obtains d where "dev p = Some d" "d \<noteq> 0" "b = bucket_of hash n d" "\<forall>q \<in> set (tbl b). dev q = Some d \<longrightarrow> q = p"
  using assms unfolding table_ok_def by blast

lemma table_empty_ok: "table_ok hash n (\<lambda>_. []) dev"
  by (simp add: table_ok_def)

text \<open>The entries of a table; a search finds the entry with the number, if there is one.\<close>

definition entries :: "htable \<Rightarrow> ptr set" where
  "entries tbl = (\<Union>b. set (tbl b))"

lemma mem_entries: "p \<in> entries tbl \<longleftrightarrow> (\<exists>b. p \<in> set (tbl b))"
  by (simp add: entries_def)

lemma find_dev_list:
  assumes "\<And>p. p \<in> set ps \<Longrightarrow> dev p \<noteq> None"
  shows "find_dev dev d ps = Some (List.find (\<lambda>p. dev p = Some d) ps)"
  using assms
proof (induction ps)
  case (Cons p ps)
  obtain e where "dev p = Some e" using Cons.prems [of p] by auto
  then show ?case using Cons.IH Cons.prems by (cases "d = e") auto
qed simp

lemma table_search_iff:
  assumes ok: "table_ok hash n tbl dev"
  shows "table_search hash n tbl dev d = Some (Some p) \<longleftrightarrow> p \<in> entries tbl \<and> dev p = Some d"
proof -
  let ?b = "bucket_of hash n d"
  have f: "find_dev dev d (tbl ?b) = Some (List.find (\<lambda>p. dev p = Some d) (tbl ?b))"
    by (rule find_dev_list) (auto elim: table_ok_entry [OF ok])
  have "List.find (\<lambda>p. dev p = Some d) (tbl ?b) = Some p \<longleftrightarrow> p \<in> set (tbl ?b) \<and> dev p = Some d" (is "?f = Some p \<longleftrightarrow> ?m")
  proof
    show "?f = Some p \<Longrightarrow> ?m" by (auto simp: find_Some_iff)
    assume m: ?m
    then have "?f \<noteq> None" by (auto simp: find_None_iff)
    then obtain q where q: "?f = Some q" by blast
    then have "q \<in> set (tbl ?b)" "dev q = Some d" by (auto simp: find_Some_iff)
    then show "?f = Some p" using q m table_ok_entry [OF ok, of p ?b] by (metis option.inject)
  qed
  moreover have "p \<in> entries tbl \<and> dev p = Some d \<longleftrightarrow> d \<noteq> 0 \<and> p \<in> set (tbl ?b) \<and> dev p = Some d"
    by (metis mem_entries option.inject table_ok_entry [OF ok])
  ultimately show ?thesis by (simp add: table_search_def f)
qed

lemma table_search_returns: "table_ok hash n tbl dev \<Longrightarrow> table_search hash n tbl dev d \<noteq> None"
proof -
  assume ok: "table_ok hash n tbl dev"
  have "find_dev dev d (tbl (bucket_of hash n d)) = Some (List.find (\<lambda>p. dev p = Some d) (tbl (bucket_of hash n d)))"
    by (rule find_dev_list) (auto elim: table_ok_entry [OF ok])
  then show ?thesis by (simp add: table_search_def)
qed

lemma table_search_none:
  assumes "table_ok hash n tbl dev"
  shows "table_search hash n tbl dev d = Some None \<longleftrightarrow> (\<forall>p \<in> entries tbl. dev p \<noteq> Some d)"
proof -
  obtain r where r: "table_search hash n tbl dev d = Some r" using table_search_returns [OF assms, of d] by auto
  show ?thesis using table_search_iff [OF assms, of d] r by (cases r) auto
qed

lemma entries_insert: "table_insert hash n tbl dev p = Some tbl' \<Longrightarrow> entries tbl' = insert p (entries tbl)"
  by (auto simp: table_insert_def entries_def bug_on_def Let_def split: Option.bind_splits if_splits)

lemma entries_delete: "entries (table_delete p tbl) = entries tbl - {p}"
  by (auto simp: table_delete_def entries_def)

lemma table_insert_ok:
  assumes ok: "table_ok hash n tbl dev" and d: "dev p = Some d" "d \<noteq> 0" "table_search hash n tbl dev d = Some None"
  obtains tbl' where "table_insert hash n tbl dev p = Some tbl'" "table_ok hash n tbl' dev" "entries tbl' = insert p (entries tbl)"
proof -
  let ?b = "bucket_of hash n d"
  let ?t = "tbl(?b := p # tbl ?b)"
  have i: "table_insert hash n tbl dev p = Some ?t" using d by (simp add: table_insert_def bug_on_def Let_def)
  have new: "dev q \<noteq> Some d" if "q \<in> set (tbl b)" for q b
    using that d(3) table_search_none [OF ok, of d] by (auto simp: mem_entries)
  have "table_ok hash n ?t dev"
    unfolding table_ok_def
  proof (intro allI conjI ballI)
    fix b
    show "distinct (?t b)" using ok new [of p ?b] d(1) by (auto simp: table_ok_def)
    fix q assume q: "q \<in> set (?t b)"
    show "\<exists>e. dev q = Some e \<and> e \<noteq> 0 \<and> b = bucket_of hash n e \<and> (\<forall>r \<in> set (?t b). dev r = Some e \<longrightarrow> r = q)"
    proof (cases "q = p")
      case True
      have "p \<notin> set (tbl b)" using new d(1) by blast
      then have "b = ?b" using q True by (auto split: if_splits)
      then show ?thesis using True d(1,2) new by auto
    next
      case False
      then have qb: "q \<in> set (tbl b)" using q by (auto split: if_splits)
      obtain e where e: "dev q = Some e" "e \<noteq> 0" "b = bucket_of hash n e" "\<forall>r \<in> set (tbl b). dev r = Some e \<longrightarrow> r = q"
        by (rule table_ok_entry [OF ok qb])
      have "e \<noteq> d" using new [OF qb] e(1) by auto
      then show ?thesis using e d(1) by (auto split: if_splits)
    qed
  qed
  then show thesis using that i entries_insert [OF i] by blast
qed

lemma table_delete_ok: "table_ok hash n tbl dev \<Longrightarrow> table_ok hash n (table_delete p tbl) dev"
  unfolding table_ok_def table_delete_def by (simp add: distinct_removeAll) blast

lemma table_ok_cong:
  assumes "table_ok hash n tbl dev" "\<And>p. p \<in> entries tbl \<Longrightarrow> dev' p = dev p" shows "table_ok hash n tbl dev'"
  using assms unfolding table_ok_def mem_entries by metis

lemma table_search_cong:
  assumes "table_ok hash n tbl dev" "\<And>p. p \<in> entries tbl \<Longrightarrow> dev' p = dev p"
  shows "table_search hash n tbl dev' d = table_search hash n tbl dev d"
proof -
  have "find_dev dev' d ps = find_dev dev d ps" if "set ps \<subseteq> entries tbl" for ps
    using that
  proof (induction ps)
    case (Cons p ps)
    then show ?case using assms(2) [of p] by (cases "dev p") simp_all
  qed simp
  moreover have "set (tbl (bucket_of hash n d)) \<subseteq> entries tbl" by (auto simp: mem_entries)
  ultimately show ?thesis by (simp add: table_search_def)
qed

text \<open>The loops that empty a table take the entries of a bucket from the front.\<close>

lemma table_delete_head:
  assumes ok: "table_ok hash n tbl dev" and tbl: "tbl = t(i := p # ps)"
  shows "table_delete p tbl = t(i := ps)" "p \<in> entries tbl"
proof -
  have pi: "p \<in> set (tbl i)" by (simp add: tbl)
  then show "p \<in> entries tbl" by (auto simp: mem_entries)
  have "p \<notin> set (tbl j)" if "j \<noteq> i" for j
  proof
    assume "p \<in> set (tbl j)"
    from table_ok_entry [OF ok this] table_ok_entry [OF ok pi] show False using that by (metis option.inject)
  qed
  moreover have "distinct (p # ps)" using ok by (auto simp: table_ok_def tbl dest: spec [of _ i])
  ultimately show "table_delete p tbl = t(i := ps)"
    unfolding table_delete_def tbl by (auto simp: fun_eq_iff removeAll_id)
qed

lemma table_outside:
  assumes ok: "table_ok hash n tbl dev" and n: "0 < n" "n \<le> j" shows "tbl j = []"
proof -
  have "p \<notin> set (tbl j)" for p
  proof
    assume "p \<in> set (tbl j)"
    then obtain d where "j = bucket_of hash n d" by (rule table_ok_entry [OF ok])
    moreover have "bucket_of hash n d < n" for d using n(1) by (simp add: bucket_of_def)
    ultimately show False using n(2) by (metis not_less)
  qed
  then show ?thesis by (cases "tbl j") auto
qed

section \<open>The contract of a registry\<close>

text \<open>
  What the rest of the module relies on: a search finds the member with the number, and an insert of
  a structure whose number is not taken adds it.
\<close>

locale registry =
  fixes search :: "'g \<Rightarrow> dev_t \<Rightarrow> ptr option option"
    and insrt :: "'g \<Rightarrow> ptr \<Rightarrow> 'g option"
    and dev :: "'g \<Rightarrow> ptr \<Rightarrow> dev_t option"
    and members :: "'g \<Rightarrow> ptr set"
    and invar :: "'g \<Rightarrow> bool"
  assumes search_returns: "invar g \<Longrightarrow> search g d \<noteq> None"
    and search_iff: "invar g \<Longrightarrow> search g d = Some (Some p) \<longleftrightarrow> p \<in> members g \<and> dev g p = Some d"
    and insert_new: "invar g \<Longrightarrow> dev g p = Some d \<Longrightarrow> d \<noteq> 0 \<Longrightarrow> search g d = Some None \<Longrightarrow>
      \<exists>g'. insrt g p = Some g' \<and> invar g' \<and> dev g' = dev g \<and> members g' = insert p (members g)"
begin

lemma search_none: "invar g \<Longrightarrow> search g d = Some None \<longleftrightarrow> (\<forall>p \<in> members g. dev g p \<noteq> Some d)"
proof -
  assume i: "invar g"
  obtain r where r: "search g d = Some r" using search_returns [OF i, of d] by auto
  show ?thesis using search_iff [OF i, of d] r by (cases r) auto
qed

lemma search_unique: "invar g \<Longrightarrow> p \<in> members g \<Longrightarrow> q \<in> members g \<Longrightarrow> dev g p = Some d \<Longrightarrow> dev g q = Some d \<Longrightarrow> p = q"
  using search_iff [of g d p] search_iff [of g d q] by simp

lemma search_insert:
  assumes "invar g" "dev g p = Some d" "d \<noteq> 0" "search g d = Some None"
  shows "\<exists>g'. insrt g p = Some g' \<and> invar g' \<and> search g' = (search g)(d := Some (Some p))"
proof -
  obtain g' where g': "insrt g p = Some g'" "invar g'" "dev g' = dev g" "members g' = insert p (members g)"
    using insert_new [OF assms] by blast
  have "search g' e = ((search g)(d := Some (Some p))) e" for e
  proof (cases "e = d")
    case True
    then show ?thesis using search_iff [OF g'(2)] g'(3,4) assms(2) by simp
  next
    case False
    obtain r where r: "search g e = Some r" using search_returns [OF assms(1)] by auto
    show ?thesis
    proof (cases r)
      case None
      then have "search g' e = Some None"
        using r search_none [OF assms(1)] search_none [OF g'(2)] g'(3,4) assms(2) False by simp
      then show ?thesis using r None False by simp
    next
      case (Some q)
      then have "search g' e = Some (Some q)"
        using r search_iff [OF assms(1)] search_iff [OF g'(2)] g'(3,4) by simp
      then show ?thesis using r Some False by simp
    qed
  qed
  then show ?thesis using g'(1,2) by blast
qed

end

end
