(* ===== verification/Sce_Trace.thy ===== *)
theory Sce_Trace
  imports Sce_System
begin

text \<open>
  What the reachable worlds promise, and a run that leads to one in which a read is served from
  the cache: a device of one fragment and a LUN of two pages are added, a read misses, the missed
  fragment is handed out, copied and completed.
\<close>

section \<open>A run\<close>

definition no_fmap :: sce_fmap_t where
  "no_fmap = \<lparr>fmap_cdevctx = 0, fmap_fragnum = 0\<rparr>"

definition no_poptask :: sce_poptask_t where
  "no_poptask = \<lparr>pt_lunctx = 0, pt_cdevctx = 0, pt_lun_fragnum = 0, pt_cdev_fragnum = 0\<rparr>"

definition run1 :: sce where "run1 = snd (the (sce_addcdev True sce_zero 2048 7))"
definition run2 :: sce where "run2 = snd (sce_addlun True run1 16 9)"
definition run3 :: sce where "run3 = snd (snd (the (sce_get4read run2 (Some 0) 0 8 (Some no_fmap))))"
definition run4 :: sce where "run4 = snd (snd (the (sce_get4pop run3 (Some no_poptask))))"
definition run_task :: sce_poptask_t where
  "run_task = \<lparr>pt_lunctx = 9, pt_cdevctx = 7, pt_lun_fragnum = 0, pt_cdev_fragnum = 0\<rparr>"

lemma run1_ok: "map_option fst (sce_addcdev True sce_zero 2048 7) = Some (Some 0)"
  by code_simp

lemma run1_log: "misslog_size run1 = 0"
  by code_simp

lemma run2_ok: "fst (sce_addlun True run1 16 9) = Some 0"
  by code_simp

lemma run2_service: "l_nr_service (luntbl run2 0) = 0"
  by code_simp

lemma run3_ok: "map_option fst (sce_get4read run2 (Some 0) 0 8 (Some no_fmap)) = Some SCE_ERROR"
  by code_simp

lemma run4_ok: "map_option (\<lambda>x. (fst x, fst (snd x))) (sce_get4pop run3 (Some no_poptask)) = Some (SCE_SUCCESS, Some run_task)"
  by code_simp

text \<open>The worlds of the run: each page of the disk holds its number, the devices hold 7 everywhere.\<close>

definition blank :: "sce \<Rightarrow> nat world" where
  "blank s = \<lparr>eng = s, disk = (\<lambda>_ p. p), flash = (\<lambda>_ _. 7), tasks = (\<lambda>_. None)\<rparr>"

lemma blank_fields [simp]: "eng (blank s) = s" "(blank s)\<lparr>eng := s'\<rparr> = blank s'" "disk (blank s) = (\<lambda>_ p. p)"
  by (simp_all add: blank_def)

text \<open>The devices are known by contexts that are not 0.\<close>

definition named :: "sce \<Rightarrow> bool" where
  "named s \<longleftrightarrow> (\<forall>d < 16. c_fragtbl (cdevtbl s d) \<noteq> None \<longrightarrow> c_cdevctx (cdevtbl s d) \<noteq> 0)"

text \<open>The run has one device.\<close>

definition one_dev :: "sce \<Rightarrow> bool" where
  "one_dev s \<longleftrightarrow> (\<forall>d. c_fragtbl (cdevtbl s d) \<noteq> None \<longrightarrow> d = 0 \<and> c_cdevctx (cdevtbl s d) = 7)"

lemma one_dev_named: "one_dev s \<Longrightarrow> named s"
  by (auto simp: one_dev_def named_def)

lemma one_dev_le: "one_dev s \<Longrightarrow> dev_le s s' \<Longrightarrow> one_dev s'"
  by (auto simp: one_dev_def dev_le_def)

lemma run1_reachable: "reachable (blank run1)" "luntbl run1 = luntbl sce_zero" and run1_dev: "one_dev run1"
proof -
  obtain s where s: "sce_addcdev True sce_zero 2048 7 = Some (Some 0, s)" using run1_ok by (auto simp: map_option_case split: option.splits)
  then have r: "run1 = s" by (simp add: run1_def)
  have "unat (2048 :: u64) < 2048 * (2 ^ 24 + 1)" by simp
  from addcdev_outcome [OF sce_zero_wf this, where ok = True and ctx = 7] have a: "dev_added 0 7 sce_zero run1"
    using s r by simp
  then show "luntbl run1 = luntbl sce_zero" by (simp add: dev_added_def)
  have "c_fragtbl (cdevtbl sce_zero d) = None" for d by (simp add: sce_zero_def)
  then have "c_fragtbl (cdevtbl run1 d) = None" if "d \<noteq> 0" for d using a that by (simp add: dev_added_def)
  moreover have "c_cdevctx (cdevtbl run1 0) = 7" using a by (simp add: dev_added_def)
  ultimately show "one_dev run1" unfolding one_dev_def by metis
  have "reachable (blank sce_zero)" by (rule reachable.start) (simp_all add: blank_def)
  then show "reachable (blank run1)"
    using reachable.more [OF _ step.addcdev [of 2048 True "blank sce_zero" 7 "Some 0" s]] s r by simp
qed

lemma run2_reachable: "reachable (blank run2)" "lun_added 0 16 9 run1 run2"
proof -
  have s: "sce_addlun True run1 16 9 = (Some 0, run2)" using run2_ok by (simp add: run2_def prod_eq_iff)
  have log: "log_fits run1 i n" for i n using run1_log by (simp add: log_fits_def)
  have "sce_wf run1" using coh_wf [OF reachable_coh [OF run1_reachable(1)]] by simp
  from addlun_outcome [OF this, where ns = 16 and ok = True and ctx = 9] show "lun_added 0 16 9 run1 run2" using s log by simp
  have "step (blank run1) ((blank run1)\<lparr>eng := run2, disk := disk (blank run1)\<rparr>)"
    by (rule step.addlun [of 9 _ 16 True "Some 0"])
      (use s log in \<open>simp_all add: run1_reachable(2) sce_zero_def\<close>)
  then show "reachable (blank run2)" using reachable.more [OF run1_reachable(1)] by (simp add: blank_def)
qed

lemma run2_lun: "j \<noteq> 0 \<Longrightarrow> luntbl run2 j = lun_zero" "l_lunctx (luntbl run2 0) = 9"
  "l_nr_sctr (luntbl run2 0) = 16" "\<not> l_waiting4deletion (luntbl run2 0)" "l_fragmap (luntbl run2 0) \<noteq> None"
  using run2_reachable(2) by (simp_all add: lun_added_def run1_reachable(2) sce_zero_def)

lemma run2_lock: "l_scehndl (luntbl run2 0)" "req_ok (luntbl run2 0) 0 8" "roomy run2"
proof -
  have "lun_ok (luntbl run2 0)"
    using sce_inv_lun [OF sce_wf_inv [OF coh_wf [OF reachable_coh [OF run2_reachable(1)]]]] by (simp add: lun_inv_def)
  then show "l_scehndl (luntbl run2 0)" using run2_lun(5) by (auto simp: lun_ok_def)
  show "req_ok (luntbl run2 0) 0 8" by (simp add: req_ok_def run2_lun)
  have "unat (l_nr_service (luntbl run2 i)) + 1 < 2 ^ 32" for i
    using run2_service run2_lun(1) [of i] by (cases "i = 0") simp_all
  then show "roomy run2" by (simp add: roomy_def)
qed

lemma run3_reachable: "reachable (blank run3)" "read_post run2 0 False run3" "roomy run3"
proof -
  obtain o' where s: "sce_get4read run2 (Some 0) 0 8 (Some no_fmap) = Some (SCE_ERROR, o', run3)"
    using run3_ok by (auto simp: run3_def map_option_case split: option.splits)
  have "sce_wf run2" using coh_wf [OF reachable_coh [OF run2_reachable(1)]] by simp
  from sce_get4read_correct [OF this _ run2_lock(1) run2_lun(5,4) run2_lock(2), of no_fmap]
  show rp: "read_post run2 0 False run3" using s run2_service by simp
  have "unat (l_nr_service (luntbl run3 i)) + 1 < 2 ^ 32" for i
    using rp run2_service run2_lun(1) [of i] by (cases "i = 0") (simp_all add: read_post_def)
  then show "roomy run3" by (simp add: roomy_def)
  show "reachable (blank run3)"
    using reachable.more [OF run2_reachable(1) step.get4read [of 0 0 8 "blank run2"]] s run2_lock(3) by simp
qed

definition run_world :: "nat world" where
  "run_world = (blank run4)\<lparr>tasks := [(0, 0) \<mapsto> \<lparr>t_pop = run_task, t_buf = (\<lambda>_. 0), t_read = {}, t_done = {}\<rparr>]\<rparr>"

lemma run4_reachable: "reachable run_world" "cell run4 False (0, 0) = {0, 1}" "roomy run4"
  "l_nr_sctr (luntbl run4 0) = 16" "\<not> l_waiting4deletion (luntbl run4 0)" "l_lunctx (luntbl run4 0) = 9"
  "l_fragmap (luntbl run4 0) \<noteq> None" and run4_service: "l_nr_service (luntbl run4 0) = 1"
  and run4_dev: "one_dev run4"
proof -
  have s: "sce_get4pop run3 (Some no_poptask) = Some (SCE_SUCCESS, Some run_task, run4)"
    using run4_ok by (auto simp: run4_def map_option_case split: option.splits)
  have wf: "sce_wf run3" using coh_wf [OF reachable_coh [OF run3_reachable(1)]] by simp
  obtain i n p where tk: "tasked run3 i n p run_task run4"
    and wf4: "sce_wf run4" and sd: "same_devs (cdevtbl run3) (cdevtbl run4)"
    using sce_get4pop_correct [OF wf, of no_poptask] run3_reachable(3) s by (auto simp: roomy_def)
  have pop: "populating run3 i (unat n) (SCE_SUCCESS, p, run4)" and n: "n = 0"
    and lc: "l_lunctx (luntbl run3 i) = 9" and i: "i < 256"
    using tk by (auto simp: tasked_def run_task_def)
  have l3: "l_lunctx (luntbl run3 0) = 9" "l_nr_sctr (luntbl run3 0) = 16" "\<not> l_waiting4deletion (luntbl run3 0)"
    "l_fragmap (luntbl run3 0) \<noteq> None" "\<And>j. j \<noteq> 0 \<Longrightarrow> luntbl run3 j = lun_zero" "l_nr_service (luntbl run3 0) = 0"
    using run3_reachable(2) run2_lun run2_service by (auto simp: read_post_def)
  have i0: "i = 0" using lc l3(5) [of i] by (cases "i = 0") simp_all
  note pl = populating_luntbl [OF pop]
  show l4: "l_nr_sctr (luntbl run4 0) = 16" "\<not> l_waiting4deletion (luntbl run4 0)" "l_lunctx (luntbl run4 0) = 9"
    "l_fragmap (luntbl run4 0) \<noteq> None"
    using pl l3 by simp_all
  have "one_dev run2" using run1_dev run2_reachable(2) by (simp add: one_dev_def lun_added_def)
  then have "one_dev run3" by (rule one_dev_le) (use run3_reachable(2) in \<open>simp add: read_post_def dev_le_same\<close>)
  then show "one_dev run4" by (rule one_dev_le [OF _ dev_le_same [OF sd]])
  show "l_nr_service (luntbl run4 0) = 1" using pl(4) [of 0] l3(6) by (simp add: i0)
  have "{q. q < 256 \<and> lun_page (luntbl run3 0) 0 q} = {0, 1}" by (auto simp: lun_page_def l3(2))
  then show "cell run4 False (0, 0) = {0, 1}"
    using pop l3(2) by (auto simp: populating_def i0 n cell_def)
  have "unat (l_nr_service (luntbl run4 j)) + 1 < 2 ^ 32" for j
    using pl(4) [of j] l3(5) [of j] l3(6) by (cases "j = 0") (simp_all add: i0)
  then show "roomy run4" by (simp add: roomy_def)
  have "ctxs run4"
    by (rule ctxs_le [OF _ dev_le_same [OF sd]])
      (use coh_ctxs [OF reachable_coh [OF run3_reachable(1)]] pl in \<open>simp_all add: lun_le_def\<close>)
  then have "lun_search run4 (pt_lunctx run_task) = Some 0"
    using ctxs_lun_search [of run4 0] l4 by (simp add: run_task_def)
  from step.take_task [OF _ _ this, of "blank run3" no_poptask "\<lambda>_. 0"] run3_reachable(3) s
  have "step (blank run3) run_world" by (simp add: run_world_def run_task_def blank_def)
  then show "reachable run_world" by (rule reachable.more [OF run3_reachable(1)])
qed

text \<open>The task copies both pages.\<close>

lemma run_copied:
  obtains w :: "nat world" and t where "reachable w" "eng w = run4" "tasks w (0, 0) = Some t" "t_pop t = run_task" "t_done t = {0, 1}"
proof -
  define copy where "copy = (\<lambda>p (w :: nat world). let t = the (tasks w (0, 0)) in
    w\<lparr>tasks := (tasks w)((0, 0) \<mapsto> t\<lparr>t_buf := (t_buf t)(p := disk w 0 (256 * 0 + p)), t_read := insert p (t_read t)\<rparr>)\<rparr>)"
  define flush where "flush = (\<lambda>p (w :: nat world). let t = the (tasks w (0, 0)) in
    w\<lparr>flash := (flash w)(t_addr (t_pop t) := (flash w (t_addr (t_pop t)))(p := t_buf t p)),
      tasks := (tasks w)((0, 0) \<mapsto> t\<lparr>t_done := insert p (t_done t)\<rparr>)\<rparr>)"
  have 1: "step w (copy p w)" if "tasks w (0, 0) \<noteq> None" "p < 256" for p w
    using that step.read_page [of w 0 0 _ p] by (auto simp: copy_def)
  have 2: "step w (flush p w)" if "tasks w (0, 0) \<noteq> None" "p \<in> t_read (the (tasks w (0, 0)))" for p w
    using that step.write_page [of w 0 0 _ p] by (auto simp: flush_def)
  let ?w1 = "copy 1 (copy 0 run_world)"
  have r1: "reachable ?w1"
    by (rule reachable.more [OF reachable.more [OF run4_reachable(1) 1] 1]) (simp_all add: run_world_def copy_def)
  have t1: "tasks ?w1 (0, 0) = Some \<lparr>t_pop = run_task, t_buf = (\<lambda>_. 0)(0 := 0, 1 := 1), t_read = {1, 0}, t_done = {}\<rparr>"
    "eng ?w1 = run4"
    by (simp_all add: run_world_def copy_def)
  let ?w2 = "flush 1 (flush 0 ?w1)"
  have "reachable ?w2"
    by (rule reachable.more [OF reachable.more [OF r1 2] 2]) (use t1 in \<open>simp_all add: flush_def\<close>)
  moreover have "eng ?w2 = run4" "tasks ?w2 (0, 0) = Some \<lparr>t_pop = run_task, t_buf = (\<lambda>_. 0)(0 := 0, 1 := 1),
      t_read = {1, 0}, t_done = {1, 0}\<rparr>"
    using t1 by (simp_all add: flush_def)
  ultimately show thesis by (rule that) auto
qed

section \<open>The end of a task, in pages\<close>

lemma ends_contents:
  assumes e: "ends failed (li, n) s s'" and v: "view s (li, n) = Some (False, l, V)"
  shows "contents s' = contents s \<union> (if failed then {} else {x \<in> incoming s. fst x = li \<and> snd x div 256 = n})"
    and "incoming s' = {x \<in> incoming s. \<not> (fst x = li \<and> snd x div 256 = n)}"
proof -
  have cl: "cell s' v y = (if y = (li, n) then if v \<and> \<not> failed then cell s False (li, n) else {} else cell s v y)" for v y
    using e by (simp add: ends_def)
  have z: "cell s True (li, n) = {}" by (simp add: cell_view(1) [OF v])
  show "contents s' = contents s \<union> (if failed then {} else {x \<in> incoming s. fst x = li \<and> snd x div 256 = n})"
  proof (rule set_eqI)
    fix x :: "nat \<times> nat" obtain i p where x: "x = (i, p)" by (cases x)
    show "x \<in> contents s' \<longleftrightarrow> x \<in> contents s \<union> (if failed then {} else {x \<in> incoming s. fst x = li \<and> snd x div 256 = n})"
      unfolding x using z by (cases "(i, p div 256) = (li, n)") (auto simp: mem_contents mem_incoming cl)
  qed
  show "incoming s' = {x \<in> incoming s. \<not> (fst x = li \<and> snd x div 256 = n)}"
  proof (rule set_eqI)
    fix x :: "nat \<times> nat" obtain i p where x: "x = (i, p)" by (cases x)
    show "x \<in> incoming s' \<longleftrightarrow> x \<in> {x \<in> incoming s. \<not> (fst x = li \<and> snd x div 256 = n)}"
      unfolding x by (cases "(i, p div 256) = (li, n)") (auto simp: mem_incoming cl)
  qed
qed

lemma ended_lun: "ended failed x s s' \<Longrightarrow> i < 256 \<Longrightarrow> lun_le (luntbl s i) (luntbl s' i)"
  by (simp add: ended_def)

text \<open>The run completes: the two pages are served.\<close>

lemma run_end:
  obtains w :: "nat world" where "reachable w" "cell (eng w) True (0, 0) = {0, 1}" "l_lunctx (luntbl (eng w) 0) = 9"
    "l_scehndl (luntbl (eng w) 0)" "l_fragmap (luntbl (eng w) 0) \<noteq> None" "\<not> l_waiting4deletion (luntbl (eng w) 0)"
    "l_nr_sctr (luntbl (eng w) 0) = 16" "roomy (eng w)"
    "named (eng w)" "unat (l_nr_service (luntbl (eng w) 0)) + 1 < 2 ^ 16" "one_dev (eng w)"
proof -
  obtain w :: "nat world" and t where w: "reachable w" "eng w = run4" "tasks w (0, 0) = Some t" "t_pop t = run_task" "t_done t = {0, 1}"
    by (rule run_copied)
  have c: "coh w" by (rule reachable_coh [OF w(1)])
  have live: "\<not> l_waiting4deletion (luntbl (eng w) 0)" using run4_reachable(5) w(2) by simp
  obtain x where x: "sce_put4pop (eng w) (Some (t_pop t)) False = Some x"
    and px: "case x of (r, s') \<Rightarrow> r = SCE_SUCCESS \<and> ended False (0, 0) (eng w) s'
      \<and> (\<not> l_waiting4deletion (luntbl (eng w) 0) \<longrightarrow> ends False (0, 0) (eng w) s')"
    by (rule returnsE [OF coh_put4pop [OF c w(3), of False]])
  obtain r s' where rs: "x = (r, s')" by (cases x)
  note post = px [unfolded rs prod.case]
  have s': "sce_put4pop (eng w) (Some (t_pop t)) False = Some (SCE_SUCCESS, s')"
    "ended False (0, 0) (eng w) s'" "ends False (0, 0) (eng w) s'"
    using x rs conjunct1 [OF post] conjunct1 [OF conjunct2 [OF post]] mp [OF conjunct2 [OF conjunct2 [OF post]] live]
    by simp_all
  let ?w = "w\<lparr>eng := s', tasks := (tasks w)((0, 0) := None)\<rparr>"
  have "p \<in> t_done t" if "lun_page (luntbl (eng w) 0) 0 p" for p
  proof -
    have "p = 0 \<or> p = 1" using that unfolding lun_page_def w(2) run4_reachable(4) by auto
    then show ?thesis by (simp add: w(5))
  qed
  then have "step w ?w" by (intro step.end_task [OF w(3) _ s'(1)]) blast
  then have r: "reachable ?w" by (rule reachable.more [OF w(1)])
  have cl: "cell s' True (0, 0) = {0, 1}" using s'(3) w(2) run4_reachable(2) by (simp add: ends_def)
  then obtain e where "view s' (0, 0) = Some e" by (cases "view s' (0, 0)") auto
  then have m: "l_fragmap (luntbl s' 0) \<noteq> None" using view_mapped by blast
  have "lun_ok (luntbl s' 0)"
    using sce_inv_lun [OF sce_wf_inv [OF coh_wf [OF reachable_coh [OF r]]]] by (simp add: lun_inv_def)
  then have h: "l_scehndl (luntbl s' 0)" using m by (auto simp: lun_ok_def)
  have "lun_le (luntbl run4 0) (luntbl s' 0)" using ended_lun [OF s'(2), of 0] w(2) by simp
  then have "l_lunctx (luntbl s' 0) = 9" "l_nr_sctr (luntbl s' 0) = 16"
    using m run4_reachable(4,6) by (simp_all add: lun_le_def)
  moreover have "\<not> l_waiting4deletion (luntbl s' 0)" using s'(3) w(2) run4_reachable(5) by (simp add: ends_def)
  moreover have "unat (l_nr_service (luntbl s' j)) + 1 < 2 ^ 32" if "j < 256" for j
    using s'(3) w(2) run4_reachable(3) run4_service that by (cases "j = 0") (simp_all add: ends_def roomy_def)
  then have "roomy s'" by (simp add: roomy_def)
  moreover have od: "one_dev s'" by (rule one_dev_le [OF run4_dev]) (use s'(2) w(2) in \<open>simp add: ended_def\<close>)
  moreover have "unat (l_nr_service (luntbl s' 0)) + 1 < 2 ^ 16" using s'(3) w(2) run4_service by (simp add: ends_def)
  ultimately show thesis using that [OF r] cl h m one_dev_named [OF od] by simp
qed

text \<open>What a served read finds on the device.\<close>

lemma get4read_coherent:
  assumes "reachable w" "li < 256" "unat sctr + unat nr < 2 ^ 64" "roomy (eng w)"
  shows "returns (sce_get4read (eng w) (Some li) sctr nr (Some out)) (\<lambda>(r, out', s').
    r = SCE_SUCCESS \<longrightarrow> (\<exists>fm. out' = Some fm \<and>
      (\<forall>p. req_first sctr \<le> p \<and> p < req_first sctr + req_count sctr nr \<longrightarrow>
         flash w (fmap_cdevctx fm, unat (fmap_fragnum fm)) (p mod 256) = disk w li p)))"
proof -
  have c: "coh w" by (rule reachable_coh [OF assms(1)])
  note wf = coh_wf [OF c]
  have srv: "unat (l_nr_service (luntbl (eng w) li)) + 1 < 2 ^ 32" using assms(2,4) by (simp add: roomy_def)
  show ?thesis
  proof (rule lock_lun_cases [OF wf assms(2,3), where svc = True])
    assume "lock_lun (eng w) (Some li) sctr nr True = None"
    then show ?thesis by (simp add: sce_get4read_def)
  next
    assume lk: "l_scehndl (luntbl (eng w) li)" "l_fragmap (luntbl (eng w) li) \<noteq> None" "req_ok (luntbl (eng w) li) sctr nr"
      and "True \<longrightarrow> \<not> l_waiting4deletion (luntbl (eng w) li)"
    then have live: "\<not> l_waiting4deletion (luntbl (eng w) li)" by simp
    show ?thesis
    proof (rule returns_mono [OF sce_get4read_correct [OF wf assms(2) lk(1,2) live lk(3) srv, of out]])
      fix x assume post: "case x of (r, o', s') \<Rightarrow> read_post (eng w) li (r = SCE_SUCCESS) s' \<and> r = read_spec (eng w) li sctr nr
        \<and> (r = SCE_SUCCESS \<longrightarrow> (\<exists>d. fdesc_at (luntbl (eng w)) li (req_frag sctr) = Some d \<and> is_mapped d \<and> is_valid d
           \<and> fdesc_at (luntbl s') li (req_frag sctr) = Some d
           \<and> f_nr_service (frag_at (cdevtbl s') (loc_of d)) = f_nr_service (frag_at (cdevtbl (eng w)) (loc_of d)) + 1
           \<and> o' = Some \<lparr>fmap_cdevctx = c_cdevctx (cdevtbl (eng w) (fst (loc_of d))), fmap_fragnum = SCE_PFIDOFF d\<rparr>))"
      obtain r out' s' where x: "x = (r, out', s')" by (cases x)
      have "\<exists>fm. out' = Some fm \<and> (\<forall>p. req_first sctr \<le> p \<and> p < req_first sctr + req_count sctr nr \<longrightarrow>
         flash w (fmap_cdevctx fm, unat (fmap_fragnum fm)) (p mod 256) = disk w li p)" if r: "r = SCE_SUCCESS"
      proof -
        have one: "req_one sctr nr" and sub: "req_range sctr nr \<subseteq> cell (eng w) True (li, req_frag sctr)"
          using post r unfolding x by (simp_all add: read_spec_def split: if_splits)
        obtain d where d: "fdesc_at (luntbl (eng w)) li (req_frag sctr) = Some d" "is_mapped d" "is_valid d"
          and o: "out' = Some \<lparr>fmap_cdevctx = c_cdevctx (cdevtbl (eng w) (fst (loc_of d))), fmap_fragnum = SCE_PFIDOFF d\<rparr>"
          using post r unfolding x by auto
        define V where "V = pages_of (frag_at (cdevtbl (eng w)) (loc_of d))"
        have v: "view (eng w) (li, req_frag sctr) = Some (True, loc_of d, V)"
          using d assms(2) by (simp add: view_eq_Some V_def)
        have "flash w (addr (eng w) (loc_of d)) (p mod 256) = disk w li p"
          if p: "req_first sctr \<le> p" "p < req_first sctr + req_count sctr nr" for p
        proof -
          have "req_first sctr = 256 * req_frag sctr + req_first sctr mod 256" by (simp add: req_frag_def)
          then have q: "p = 256 * req_frag sctr + (p - 256 * req_frag sctr)" "p - 256 * req_frag sctr < 256"
            "p - 256 * req_frag sctr \<in> req_range sctr nr"
            using p one by (auto simp: req_one_def req_range_def)
          then have m: "p mod 256 = p - 256 * req_frag sctr" by (metis mod_less mod_mult_self4)
          have "p mod 256 \<in> V" using q(3) sub v m by auto
          then have "flash w (addr (eng w) (loc_of d)) (p mod 256) = disk w li (256 * req_frag sctr + p mod 256)"
            using coh_page [OF c v] live by (simp add: page_ok_def)
          then show ?thesis using q(1) m by simp
        qed
        then show "\<exists>fm. out' = Some fm \<and> (\<forall>p. req_first sctr \<le> p \<and> p < req_first sctr + req_count sctr nr \<longrightarrow>
           flash w (fmap_cdevctx fm, unat (fmap_fragnum fm)) (p mod 256) = disk w li p)"
          by (simp add: o addr_def loc_of_def)
      qed
      then show "case x of (r, out', s') \<Rightarrow> r = SCE_SUCCESS \<longrightarrow> (\<exists>fm. out' = Some fm \<and>
        (\<forall>p. req_first sctr \<le> p \<and> p < req_first sctr + req_count sctr nr \<longrightarrow>
         flash w (fmap_cdevctx fm, unat (fmap_fragnum fm)) (p mod 256) = disk w li p))" by (simp add: x)
    qed
  qed
qed

section \<open>Properties\<close>


lemma run_read:
  obtains w :: "nat world" where "reachable w" "roomy (eng w)"
    "map_option fst (sce_get4read (eng w) (Some 0) 0 16 (Some no_fmap)) = Some SCE_SUCCESS"
proof -
  obtain w :: "nat world" where w: "reachable w" "cell (eng w) True (0, 0) = {0, 1}" "l_lunctx (luntbl (eng w) 0) = 9"
    "l_scehndl (luntbl (eng w) 0)" "l_fragmap (luntbl (eng w) 0) \<noteq> None" "\<not> l_waiting4deletion (luntbl (eng w) 0)"
    "l_nr_sctr (luntbl (eng w) 0) = 16" "roomy (eng w)"
    "named (eng w)" "unat (l_nr_service (luntbl (eng w) 0)) + 1 < 2 ^ 16" "one_dev (eng w)"
    by (rule run_end)
  have wf: "sce_wf (eng w)" by (rule coh_wf [OF reachable_coh [OF w(1)]])
  have req: "req_ok (luntbl (eng w) 0) 0 16" by (simp add: req_ok_def w(7))
  have srv: "unat (l_nr_service (luntbl (eng w) 0)) + 1 < 2 ^ 32" using w(8) by (simp add: roomy_def)
  have "req_range 0 16 = {0, 1}" "req_frag 0 = 0" "req_one 0 16"
    by (auto simp: req_range_def req_frag_def req_first_def req_count_def req_one_def)
  then have "read_spec (eng w) 0 0 16 = SCE_SUCCESS" by (simp add: read_spec_def w(2))
  then have "map_option fst (sce_get4read (eng w) (Some 0) 0 16 (Some no_fmap)) = Some SCE_SUCCESS"
    using sce_get4read_correct [OF wf _ w(4-6) req srv, of no_fmap] by (auto simp: returns_iff)
  then show thesis by (rule that [OF w(1,8)])
qed










end
