(* ===== verification/Iostash_Hook.thy ===== *)
theory Iostash_Hook
  imports Iostash_Types Sce_Trace
begin

text \<open>
  The requests of the cached disks: \<^verbatim>\<open>src/iostash_iohook.c\<close>, and the copies of the population tasks
  in \<^verbatim>\<open>src/iostash_population.c\<close>. The first part computes addresses, the second decides what becomes
  of a request, the third follows a request that is served from a device until it ends.
\<close>

section \<open>Addresses\<close>

text \<open>The product of a 32-bit fragment number and the sectors of a fragment has 32 bits.\<close>

definition clone_sector :: "u32 \<Rightarrow> sector_t \<Rightarrow> sector_t" where
  "clone_sector fragnum psn = ucast (fragnum * SCE_SCTRPERFRAG) + psn mod SCE_SCTRPERFRAG + IOSTASH_HEADERSCT"

text \<open>\<^verbatim>\<open>_clone_init\<close>: the place of a clone on the SSD, \<open>None\<close> when it is offline (result -1).\<close>

definition clone_init :: "ssd_info \<Rightarrow> u32 \<Rightarrow> sector_t \<Rightarrow> bool \<Rightarrow> sector_t option" where
  "clone_init ssd fragnum psn is4ssd =
     (if is4ssd then if s_online ssd then Some (clone_sector fragnum psn) else None else Some psn)"

definition poptask_read_range :: "u32 \<Rightarrow> sector_t \<Rightarrow> sector_t \<times> u32" where
  "poptask_read_range lun_fragnum hdd_nr_sctr =
     (let sctrnum = ucast (lun_fragnum * SCE_SCTRPERFRAG) :: sector_t
      in (sctrnum, if sctrnum + SCE_SCTRPERFRAG \<ge> hdd_nr_sctr then ucast (hdd_nr_sctr - sctrnum) else SCE_SCTRPERFRAG))"

definition poptask_write_range :: "u32 \<Rightarrow> sector_t \<times> u32" where
  "poptask_write_range cdev_fragnum = (ucast (cdev_fragnum * SCE_SCTRPERFRAG + IOSTASH_HEADERSCT), SCE_SCTRPERFRAG)"

text \<open>
  A transfer: \<open>dm_io\<close> is the kernel's synchronous I/O, the result 0 means success; \<open>io_client\<close> tells
  whether the client exists.
\<close>

definition do_rw :: "(bool \<Rightarrow> sector_t \<Rightarrow> u32 \<Rightarrow> int) \<Rightarrow> bool \<Rightarrow> bool \<Rightarrow> bool \<Rightarrow> sector_t \<Rightarrow> u32 \<Rightarrow> int" where
  "do_rw dm_io io_client bdev rw lsn sctcnt = (if bdev \<and> io_client then dm_io rw lsn sctcnt else -1)"

definition poptask_read :: "(bool \<Rightarrow> sector_t \<Rightarrow> u32 \<Rightarrow> int) \<Rightarrow> bool \<Rightarrow> hdd_info \<Rightarrow> sce_poptask_t \<Rightarrow> rc option" where
  "poptask_read dm_io io_client hdd poptask =
     (if \<not> h_bdev hdd then None
      else let (sctrnum, nr_sctr) = poptask_read_range (pt_lun_fragnum poptask) (h_nr_sctr hdd);
               ret = do_rw dm_io io_client True False sctrnum nr_sctr
           in Some (if ret \<noteq> 0 then SCE_ERROR else SCE_SUCCESS))"

text \<open>The result -1 of an SSD that is offline is \<open>SCE_ERROR\<close> here: the caller only tests for success.\<close>

definition poptask_write :: "(bool \<Rightarrow> sector_t \<Rightarrow> u32 \<Rightarrow> int) \<Rightarrow> bool \<Rightarrow> ssd_info \<Rightarrow> sce_poptask_t \<Rightarrow> rc" where
  "poptask_write dm_io io_client ssd poptask =
     (let (sctrnum, nr_sctr) = poptask_write_range (pt_cdev_fragnum poptask)
      in if s_cdev ssd \<noteq> None \<and> s_bdev ssd \<and> s_online ssd
         then if do_rw dm_io io_client (s_bdev ssd) True sctrnum nr_sctr \<noteq> 0 then SCE_ERROR else SCE_SUCCESS
         else SCE_ERROR)"

section \<open>What becomes of a request\<close>

text \<open>
  The engine, the references of the disk and of the SSDs, and the statistics. A request is passed to
  the original function of the queue, refused (the disk is not known), or an I/O from the cache is
  begun with the fragment number, the sector, the length and the SSD it goes to.
\<close>

record hook =
  k_sce :: sce
  k_hdd_ref :: int
  k_ssd_ref :: "ptr \<Rightarrow> int"
  k_st_read :: u32
  k_st_write :: u32

datatype route = Orig | Dangling | Cached ptr u32 sector_t u32

definition hdd_put :: "hook \<Rightarrow> hook" where
  "hdd_put k = k\<lparr>k_hdd_ref := k_hdd_ref k - 1\<rparr>"

definition ssd_add :: "ptr \<Rightarrow> int \<Rightarrow> hook \<Rightarrow> hook" where
  "ssd_add p n k = k\<lparr>k_ssd_ref := (k_ssd_ref k)(p := k_ssd_ref k p + n)\<rparr>"

text \<open>The branch of \<^verbatim>\<open>iostash_mkrequest\<close> for reads, up to the label \<^verbatim>\<open>out\<close>.\<close>

definition mkrequest_read :: "bool \<Rightarrow> (ptr \<Rightarrow> ssd_info) \<Rightarrow> hdd_info \<Rightarrow> sector_t \<Rightarrow> u32 \<Rightarrow> hook \<Rightarrow> (route \<times> hook) option" where
  "mkrequest_read alloc_ok ssds hdd psn nr_sctr k0 = (let k = k0\<lparr>k_st_read := k_st_read k0 + 1\<rparr> in
     if (psn + ucast nr_sctr - 1) div SCE_SCTRPERFRAG \<noteq> psn div SCE_SCTRPERFRAG then Some (Orig, hdd_put k)
     else do {
       (r, out, s1) \<leftarrow> sce_get4read (k_sce k) (h_lun hdd) psn nr_sctr (Some \<lparr>fmap_cdevctx = 0, fmap_fragnum = 0\<rparr>);
       let k1 = k\<lparr>k_sce := s1\<rparr>;
       if r \<noteq> SCE_SUCCESS then Some (Orig, hdd_put k1)
       else do {
         fmap \<leftarrow> out;
         bug_on (fmap_cdevctx fmap = 0);
         let k2 = ssd_add (fmap_cdevctx fmap) 1 k1;
         let ssd = ssds (fmap_cdevctx fmap);
         if \<not> s_online ssd \<or> s_queue_max_hw_sectors ssd < nr_sctr
         then do {
           (_, s2) \<leftarrow> sce_put4read s1 (h_lun hdd) psn nr_sctr;
           Some (Orig, hdd_put (ssd_add (fmap_cdevctx fmap) (-1) (k2\<lparr>k_sce := s2\<rparr>)))
         }
         else if \<not> alloc_ok then Some (Orig, hdd_put (ssd_add (fmap_cdevctx fmap) (-1) k2))
         else Some (Cached (fmap_cdevctx fmap) (fmap_fragnum fmap) psn nr_sctr, hdd_put k2)
       }
     })"

text \<open>The branch for writes, in the build without \<^verbatim>\<open>SCE_AWT\<close>.\<close>

definition mkrequest_write :: "hdd_info \<Rightarrow> sector_t \<Rightarrow> u32 \<Rightarrow> hook \<Rightarrow> (route \<times> hook) option" where
  "mkrequest_write hdd psn nr_sctr k = do {
     (_, s1) \<leftarrow> sce_invalidate (k_sce k) (h_lun hdd) psn nr_sctr;
     Some (Orig, hdd_put (k\<lparr>k_sce := s1\<rparr>))
   }"

definition iostash_mkrequest :: "bool \<Rightarrow> (ptr \<Rightarrow> ssd_info) \<Rightarrow> hdd_info option \<Rightarrow> bio \<Rightarrow> hook \<Rightarrow> (route \<times> hook) option" where
  "iostash_mkrequest alloc_ok ssds hdd_search bio k0 =
     (case hdd_search of
        None \<Rightarrow> Some (Dangling, k0)
      | Some hdd \<Rightarrow>
          let k = k0\<lparr>k_hdd_ref := k_hdd_ref k0 + 1\<rparr>;
              psn = bi_sector bio + bi_start_sect bio;
              nr_sctr = to_sector (bi_size bio)
          in if \<not> h_online hdd then Some (Orig, hdd_put k)
             else if to_sector (bi_size bio) = 0 then Some (Orig, hdd_put k)
             else if psn < h_part_start hdd \<or> psn + ucast nr_sctr > h_part_end hdd then Some (Orig, hdd_put k)
             else if bi_write bio
             then mkrequest_write hdd psn nr_sctr (k\<lparr>k_st_write := k_st_write k + 1\<rparr>)
             else mkrequest_read alloc_ok ssds hdd psn nr_sctr k)"

section \<open>An I/O from the cache\<close>

text \<open>
  The counter \<^verbatim>\<open>io_pending\<close> of an I/O, its error, the clones that are out, and the runs of
  \<^verbatim>\<open>_io_worker\<close>: the first in the context of the request, a second one from the queue after the SSD
  reported an error; their parts may interleave with the ends of the clones. \<open>io_ended\<close> counts how
  often the base request was ended, \<open>io_puts\<close> the calls of \<^verbatim>\<open>sce_put4read\<close>, and \<open>io_uaf\<close> tells that
  the counter was touched after the structure had been freed. The SSD being online and the
  allocations are parameters of the events.
\<close>

datatype phase = Idle | Queued | Begun | Ending | Done

record iost =
  io_pending :: int
  io_error :: bool
  io_ssd :: bool
  io_hdd :: bool
  io_run1 :: phase
  io_run2 :: phase
  io_ended :: nat
  io_base_error :: bool
  io_puts :: nat
  io_uaf :: bool

definition io_start :: iost where
  "io_start = \<lparr>io_pending = 0, io_error = False, io_ssd = False, io_hdd = False, io_run1 = Queued,
     io_run2 = Idle, io_ended = 0, io_base_error = False, io_puts = 0, io_uaf = False\<rparr>"

definition inc_pending :: "iost \<Rightarrow> iost" where
  "inc_pending io = io\<lparr>io_pending := io_pending io + 1, io_uaf := io_uaf io \<or> io_ended io > 0\<rparr>"

text \<open>From 4.2 on \<^verbatim>\<open>bio_endio\<close> has no error argument: the base request keeps its own error.\<close>

definition dec_pending :: "iost \<Rightarrow> iost" where
  "dec_pending io =
     (let io1 = io\<lparr>io_pending := io_pending io - 1, io_uaf := io_uaf io \<or> io_ended io > 0\<rparr>
      in if io_pending io1 = 0 then io1\<lparr>io_ended := io_ended io1 + 1\<rparr> else io1)"

text \<open>The loop body of \<^verbatim>\<open>_io_worker_run\<close> for a read, between its two changes of the counter.\<close>

definition worker_hdd :: "bool \<Rightarrow> iost \<Rightarrow> iost" where
  "worker_hdd hdd_alloc io =
     (if \<not> hdd_alloc then io\<lparr>io_error := True\<rparr> else (inc_pending io)\<lparr>io_hdd := True\<rparr>)"

definition worker_body :: "bool \<Rightarrow> bool \<Rightarrow> bool \<Rightarrow> iost \<Rightarrow> iost" where
  "worker_body ssd_alloc ssd_online hdd_alloc io =
     (if \<not> io_error io
      then if \<not> ssd_alloc then io\<lparr>io_error := True\<rparr>
           else if ssd_online then (inc_pending io)\<lparr>io_ssd := True\<rparr>
           else worker_hdd hdd_alloc (io\<lparr>io_puts := io_puts io + 1\<rparr>)
      else worker_hdd hdd_alloc io)"

datatype ioev = Begin1 | Body1 bool bool bool | End1 | Begin2 | Body2 bool bool bool | End2 | SsdDone bool | HddDone bool

text \<open>\<^verbatim>\<open>_endio4read\<close>, for the clone of the SSD and for that of the disk.\<close>

definition endio_ssd :: "bool \<Rightarrow> iost \<Rightarrow> iost" where
  "endio_ssd error io0 =
     (let io = io0\<lparr>io_error := error, io_ssd := False\<rparr>
      in dec_pending (if error then (inc_pending io)\<lparr>io_run2 := Queued\<rparr> else io\<lparr>io_puts := io_puts io + 1\<rparr>))"

definition endio_hdd :: "bool \<Rightarrow> iost \<Rightarrow> iost" where
  "endio_hdd error io0 = dec_pending (dec_pending (io0\<lparr>io_error := error, io_hdd := False\<rparr>))"

fun io_step :: "ioev \<Rightarrow> iost \<Rightarrow> iost option" where
  "io_step Begin1 io = (if io_run1 io = Queued then Some ((inc_pending io)\<lparr>io_run1 := Begun\<rparr>) else None)"
| "io_step (Body1 a ol h) io = (if io_run1 io = Begun then Some ((worker_body a ol h io)\<lparr>io_run1 := Ending\<rparr>) else None)"
| "io_step End1 io = (if io_run1 io = Ending then Some ((dec_pending io)\<lparr>io_run1 := Done\<rparr>) else None)"
| "io_step Begin2 io = (if io_run2 io = Queued then Some ((inc_pending io)\<lparr>io_run2 := Begun\<rparr>) else None)"
| "io_step (Body2 a ol h) io = (if io_run2 io = Begun then Some ((worker_body a ol h io)\<lparr>io_run2 := Ending\<rparr>) else None)"
| "io_step End2 io = (if io_run2 io = Ending then Some ((dec_pending io)\<lparr>io_run2 := Done\<rparr>) else None)"
| "io_step (SsdDone e) io = (if io_ssd io then Some (endio_ssd e io) else None)"
| "io_step (HddDone e) io = (if io_hdd io then Some (endio_hdd e io) else None)"

text \<open>A sequence of events; \<open>None\<close>: it is not possible.\<close>

definition io_run :: "ioev list \<Rightarrow> iost \<Rightarrow> iost option" where
  "io_run evs io = for_each evs io_step io"

text \<open>Nothing of the I/O is under way any more.\<close>

definition io_quiet :: "iost \<Rightarrow> bool" where
  "io_quiet io \<longleftrightarrow> \<not> io_ssd io \<and> \<not> io_hdd io \<and> io_run1 io = Done \<and> (io_run2 io = Idle \<or> io_run2 io = Done)"

section \<open>The counter of an I/O\<close>

text \<open>The events for which the counter works out: see the properties for the others.\<close>

fun good_event :: "ioev \<Rightarrow> bool" where
  "good_event (Body1 a ol h) = ol"
| "good_event (Body2 a ol h) = h"
| "good_event _ = True"

definition in_run :: "phase \<Rightarrow> bool" where
  "in_run p \<longleftrightarrow> p = Begun \<or> p = Ending"

text \<open>
  Every part of the I/O that is under way holds one count, and between the error of the SSD and the
  end of the second clone there is one more.
\<close>

definition io_counts :: "iost \<Rightarrow> int" where
  "io_counts io = of_bool (in_run (io_run1 io)) + of_bool (in_run (io_run2 io)) + of_bool (io_ssd io) + of_bool (io_hdd io)
     + of_bool (io_run2 io = Queued \<or> io_run2 io = Begun \<or> io_hdd io)"

definition io_inv :: "iost \<Rightarrow> bool" where
  "io_inv io \<longleftrightarrow> io_pending io = io_counts io \<and> \<not> io_uaf io \<and> \<not> io_base_error io
     \<and> io_ended io = (if io_run1 io \<noteq> Queued \<and> io_counts io = 0 then 1 else 0)
     \<and> io_run1 io \<noteq> Idle
     \<and> (io_run1 io = Queued \<or> io_run1 io = Begun \<longrightarrow> \<not> io_error io \<and> \<not> io_ssd io \<and> \<not> io_hdd io \<and> io_run2 io = Idle \<and> io_puts io = 0)
     \<and> (io_ssd io \<longrightarrow> io_run2 io = Idle \<and> \<not> io_hdd io \<and> \<not> io_error io \<and> io_puts io = 0)
     \<and> (io_hdd io \<longrightarrow> io_run2 io = Ending \<or> io_run2 io = Done)
     \<and> (io_run2 io = Queued \<or> io_run2 io = Begun \<longrightarrow> io_error io)
     \<and> (io_run2 io \<noteq> Idle \<longrightarrow> io_puts io = 0) \<and> io_puts io \<le> 1"

lemma io_inv_start: "io_inv io_start"
  by (simp add: io_inv_def io_start_def io_counts_def in_run_def)

lemma io_inv_parts:
  assumes "io_inv io"
  shows "io_pending io = io_counts io" "\<not> io_uaf io" "\<not> io_base_error io" "io_run1 io \<noteq> Idle" "io_puts io \<le> 1"
    "io_ended io = (if io_run1 io \<noteq> Queued \<and> io_counts io = 0 then 1 else 0)"
    "io_run1 io = Queued \<or> io_run1 io = Begun \<Longrightarrow> \<not> io_error io \<and> \<not> io_ssd io \<and> \<not> io_hdd io \<and> io_run2 io = Idle \<and> io_puts io = 0"
    "io_ssd io \<Longrightarrow> io_run2 io = Idle \<and> \<not> io_hdd io \<and> \<not> io_error io \<and> io_puts io = 0"
    "io_hdd io \<Longrightarrow> io_run2 io = Ending \<or> io_run2 io = Done"
    "io_run2 io = Queued \<or> io_run2 io = Begun \<Longrightarrow> io_error io" "io_run2 io \<noteq> Idle \<Longrightarrow> io_puts io = 0"
  using assms unfolding io_inv_def by blast+

lemma run1_late: "io_inv io \<Longrightarrow> io_ssd io \<or> io_hdd io \<or> io_run2 io \<noteq> Idle \<Longrightarrow> io_run1 io = Ending \<or> io_run1 io = Done"
  using io_inv_parts(4,7) [of io] by (cases "io_run1 io") auto

lemma io_inv_step:
  assumes inv: "io_inv io" and good: "good_event ev" and st: "io_step ev io = Some io'"
  shows "io_inv io'"
proof -
  note defs = io_inv_def io_counts_def in_run_def inc_pending_def dec_pending_def
  note ip = io_inv_parts [OF inv]
  show ?thesis
  proof (cases ev)
    case Begin1
    then have h: "io_run1 io = Queued" "io' = (inc_pending io)\<lparr>io_run1 := Begun\<rparr>" using st by (auto split: if_splits)
    show ?thesis unfolding h(2) using ip(1-6) ip(7) [OF disjI1 [OF h(1)]] h(1) by (simp add: defs)
  next
    case (Body1 a ol h)
    then have h: "io_run1 io = Begun" "io' = (worker_body a ol h io)\<lparr>io_run1 := Ending\<rparr>" "ol"
      using st good by (auto split: if_splits)
    show ?thesis unfolding h(2) using ip(1-6) ip(7) [OF disjI2 [OF h(1)]] h(1,3)
      by (cases a) (simp_all add: defs worker_body_def)
  next
    case End1
    then have h: "io_run1 io = Ending" "io' = (dec_pending io)\<lparr>io_run1 := Done\<rparr>" using st by (auto split: if_splits)
    show ?thesis unfolding h(2) using ip(1-6) ip(8-11) h(1)
      by (cases "io_run2 io"; cases "io_ssd io"; cases "io_hdd io"; simp add: defs Let_def)
  next
    case Begin2
    then have h: "io_run2 io = Queued" "io' = (inc_pending io)\<lparr>io_run2 := Begun\<rparr>" using st by (auto split: if_splits)
    have r1: "io_run1 io = Ending \<or> io_run1 io = Done" by (rule run1_late [OF inv]) (simp add: h(1))
    have c: "\<not> io_ssd io" "\<not> io_hdd io" "io_error io" "io_puts io = 0" using ip(8-11) h(1) by auto
    show ?thesis unfolding h(2) using r1 by (elim disjE) (use ip(1-6) c h(1) in \<open>simp_all add: defs\<close>)
  next
    case (Body2 a ol h)
    then have h: "io_run2 io = Begun" "io' = (worker_body a ol h io)\<lparr>io_run2 := Ending\<rparr>" "h"
      using st good by (auto split: if_splits)
    have r1: "io_run1 io = Ending \<or> io_run1 io = Done" by (rule run1_late [OF inv]) (simp add: h(1))
    have c: "\<not> io_ssd io" "\<not> io_hdd io" "io_error io" "io_puts io = 0" using ip(8-11) h(1) by auto
    show ?thesis unfolding h(2) using r1
      by (elim disjE) (use ip(1-6) c h(1,3) in \<open>simp_all add: defs worker_body_def worker_hdd_def\<close>)
  next
    case End2
    then have h: "io_run2 io = Ending" "io' = (dec_pending io)\<lparr>io_run2 := Done\<rparr>" using st by (auto split: if_splits)
    have r1: "io_run1 io = Ending \<or> io_run1 io = Done" by (rule run1_late [OF inv]) (simp add: h(1))
    have c: "\<not> io_ssd io" "io_puts io = 0" using ip(8,11) h(1) by auto
    show ?thesis unfolding h(2) using r1
      by (elim disjE; cases "io_hdd io") (use ip(1-6) c h(1) in \<open>simp_all add: defs Let_def\<close>)
  next
    case (SsdDone e)
    then have h: "io_ssd io" "io' = endio_ssd e io" using st by (auto split: if_splits)
    have r1: "io_run1 io = Ending \<or> io_run1 io = Done" by (rule run1_late [OF inv]) (simp add: h(1))
    note c = ip(8) [OF h(1)]
    show ?thesis unfolding h(2) using r1
      by (elim disjE; cases e) (use ip(1-6) c h(1) in \<open>simp_all add: defs endio_ssd_def Let_def\<close>)
  next
    case (HddDone e)
    then have h: "io_hdd io" "io' = endio_hdd e io" using st by (auto split: if_splits)
    have r1: "io_run1 io = Ending \<or> io_run1 io = Done" by (rule run1_late [OF inv]) (simp add: h(1))
    have c: "\<not> io_ssd io" "io_puts io = 0" using ip(8,9,11) h(1) by auto
    show ?thesis unfolding h(2) using r1 ip(9) [OF h(1)]
      by (elim disjE) (use ip(1-6) c h(1) in \<open>simp_all add: defs endio_hdd_def Let_def\<close>)
  qed
qed

lemma io_inv_run: "io_inv io \<Longrightarrow> \<forall>ev \<in> set evs. good_event ev \<Longrightarrow> io_run evs io = Some io' \<Longrightarrow> io_inv io'"
proof (induction evs arbitrary: io)
  case Nil
  then show ?case by (simp add: io_run_def)
next
  case (Cons ev evs)
  then obtain io1 where "io_step ev io = Some io1" "io_run evs io1 = Some io'"
    by (auto simp: io_run_def split: Option.bind_splits)
  then show ?case using Cons.IH [of io1] Cons.prems io_inv_step [of io ev io1] by auto
qed

section \<open>The request and the engine\<close>

text \<open>A request for the LUN of a disk is accounted for: it holds a reference only while it is served.\<close>

definition one_more :: "nat \<Rightarrow> bool \<Rightarrow> sce \<Rightarrow> sce \<Rightarrow> bool" where
  "one_more li b s s' \<longleftrightarrow> sce_wf s' \<and> l_nr_service (luntbl s' li) = l_nr_service (luntbl s li) + of_bool b"

lemma invalidate_one_more:
  assumes "sce_wf s" "li < 256" "unat psn + unat nr < 2 ^ 64"
  shows "returns (sce_invalidate s (Some li) psn nr) (\<lambda>(r, s'). one_more li False s s')"
proof (rule returns_mono [OF invalidate_safe [OF assms]])
  fix x assume post: "case x of (r, s') \<Rightarrow> safe s s'
    \<and> (r = SCE_SUCCESS \<longleftrightarrow> l_scehndl (luntbl s li) \<and> l_fragmap (luntbl s li) \<noteq> None
         \<and> req_ok (luntbl s li) psn nr \<and> \<not> l_waiting4deletion (luntbl s li))
    \<and> (if r = SCE_SUCCESS then written li (req_first psn) (req_count psn nr) s s' else s' = s)"
  obtain r s' where x: "x = (r, s')" by (cases x)
  have "sce_wf s'" using post by (simp add: x safe_def)
  moreover have "l_nr_service (luntbl s' li) = l_nr_service (luntbl s li)"
    using post same_lun_fields(1) by (cases "r = SCE_SUCCESS") (auto simp: x written_def)
  ultimately show "case x of (r, s') \<Rightarrow> one_more li False s s'" by (simp add: x one_more_def)
qed

text \<open>
  A read that was accepted: the device is known, and giving it back restores the counter.
\<close>

lemma get4read_one_more:
  assumes wf: "sce_wf s" and li: "li < 256" and ov: "unat psn + unat nr < 2 ^ 64"
    and srv: "unat (l_nr_service (luntbl s li)) + 1 < 2 ^ 16"
    and ctx: "named s"
  shows "returns (sce_get4read s (Some li) psn nr (Some out)) (\<lambda>(r, out', s').
    one_more li (r = SCE_SUCCESS) s s' \<and> (r = SCE_SUCCESS \<longrightarrow> (\<exists>fm. out' = Some fm \<and> fmap_cdevctx fm \<noteq> 0)
      \<and> returns (sce_put4read s' (Some li) psn nr) (\<lambda>(r2, s2). one_more li False s s2)))"
proof (rule lock_lun_cases [OF wf li ov, where svc = True])
  assume "lock_lun s (Some li) psn nr True = None"
  then show ?thesis using wf by (simp add: sce_get4read_def one_more_def)
next
  assume lk: "l_scehndl (luntbl s li)" "l_fragmap (luntbl s li) \<noteq> None" "req_ok (luntbl s li) psn nr"
    and "True \<longrightarrow> \<not> l_waiting4deletion (luntbl s li)"
  then have live: "\<not> l_waiting4deletion (luntbl s li)" by simp
  have srv32: "unat (l_nr_service (luntbl s li)) + 1 < 2 ^ 32" using srv by simp
  show ?thesis
  proof (rule returns_mono [OF sce_get4read_correct [OF wf li lk(1,2) live lk(3) srv32, of out]])
    fix x assume post: "case x of (r, o', s') \<Rightarrow> read_post s li (r = SCE_SUCCESS) s' \<and> r = read_spec s li psn nr
      \<and> (r = SCE_SUCCESS \<longrightarrow> (\<exists>d. fdesc_at (luntbl s) li (req_frag psn) = Some d \<and> is_mapped d \<and> is_valid d
           \<and> fdesc_at (luntbl s') li (req_frag psn) = Some d
           \<and> f_nr_service (frag_at (cdevtbl s') (loc_of d)) = f_nr_service (frag_at (cdevtbl s) (loc_of d)) + 1
           \<and> o' = Some \<lparr>fmap_cdevctx = c_cdevctx (cdevtbl s (fst (loc_of d))), fmap_fragnum = SCE_PFIDOFF d\<rparr>))"
    obtain r o' s' where x: "x = (r, o', s')" by (cases x)
    have rp: "read_post s li (r = SCE_SUCCESS) s'" and r: "r = read_spec s li psn nr"
      using post unfolding x prod.case by blast+
    have om: "one_more li (r = SCE_SUCCESS) s s'" using rp by (simp add: one_more_def read_post_def)
    have "(\<exists>fm. o' = Some fm \<and> fmap_cdevctx fm \<noteq> 0)
      \<and> returns (sce_put4read s' (Some li) psn nr) (\<lambda>(r2, s2). one_more li False s s2)" if hit: "r = SCE_SUCCESS"
    proof
      obtain d where d: "fdesc_at (luntbl s) li (req_frag psn) = Some d" "is_mapped d" "is_valid d"
        and d': "fdesc_at (luntbl s') li (req_frag psn) = Some d"
        and sv: "f_nr_service (frag_at (cdevtbl s') (loc_of d)) = f_nr_service (frag_at (cdevtbl s) (loc_of d)) + 1"
        and o: "o' = Some \<lparr>fmap_cdevctx = c_cdevctx (cdevtbl s (fst (loc_of d))), fmap_fragnum = SCE_PFIDOFF d\<rparr>"
        using post hit unfolding x prod.case by blast
      have inv: "sce_inv {} s" by (rule sce_wf_inv [OF wf])
      have "loc_of d \<in> flocs (cdevtbl s)" by (rule mapped_frag(1) [OF inv li d(1,2)])
      then have "fst (loc_of d) < 16" "c_fragtbl (cdevtbl s (fst (loc_of d))) \<noteq> None"
        by (auto simp: flocs_def split: option.splits)
      then show "\<exists>fm. o' = Some fm \<and> fmap_cdevctx fm \<noteq> 0" using o ctx by (simp add: named_def)
      have "unat (f_nr_service (frag_at (cdevtbl s) (loc_of d))) + 1 < 2 ^ 16"
        using srv_pos [OF inv li d(1,2)] srv by simp
      then have "unat (f_nr_service (frag_at (cdevtbl s) (loc_of d)) + 1) = unat (f_nr_service (frag_at (cdevtbl s) (loc_of d))) + 1"
        by (simp add: unat_inc)
      then have "unat (f_nr_service (frag_at (cdevtbl s') (loc_of d))) \<noteq> 0" unfolding sv by simp
      then have nz: "f_nr_service (frag_at (cdevtbl s') (loc_of d)) \<noteq> 0" by (metis unat_0)
      have one: "req_one psn nr" using r hit by (simp add: read_spec_def split: if_splits)
      have wf': "sce_wf s'" using om by (simp add: one_more_def)
      have same: "l_fragmap (luntbl s' li) \<noteq> None" "l_nr_sctr (luntbl s' li) = l_nr_sctr (luntbl s li)"
        "\<not> l_waiting4deletion (luntbl s' li)"
        using rp lk(2) live by (auto simp: read_post_def dest: option.map_disc_iff [THEN iffD2])
      have "lun_ok (luntbl s' li)" using sce_inv_lun [OF sce_wf_inv [OF wf']] li by (simp add: lun_inv_def)
      then have h: "l_scehndl (luntbl s' li)" using same(1) by (auto simp: lun_ok_def)
      have req: "req_ok (luntbl s' li) psn nr" using lk(3) same(2) by (simp add: req_ok_def)
      show "returns (sce_put4read s' (Some li) psn nr) (\<lambda>(r2, s2). one_more li False s s2)"
        by (rule returns_mono [OF put4read_released [OF wf' li h req one d' d(2,3) nz]])
          (use om hit same(3) in \<open>auto simp: one_more_def\<close>)
    qed
    then show "case x of (r, out', s') \<Rightarrow> one_more li (r = SCE_SUCCESS) s s'
      \<and> (r = SCE_SUCCESS \<longrightarrow> (\<exists>fm. out' = Some fm \<and> fmap_cdevctx fm \<noteq> 0)
        \<and> returns (sce_put4read s' (Some li) psn nr) (\<lambda>(r2, s2). one_more li False s s2))"
      using om by (simp add: x)
  qed
qed

section \<open>The steps of an I/O are bounded\<close>

text \<open>Every event lowers this number, which is 8 at the start.\<close>

definition io_left :: "iost \<Rightarrow> nat" where
  "io_left io = (case io_run1 io of Queued \<Rightarrow> 8 | Begun \<Rightarrow> 7 | Ending \<Rightarrow> 1 | _ \<Rightarrow> 0)
     + (case io_run2 io of Queued \<Rightarrow> 4 | Begun \<Rightarrow> 3 | Ending \<Rightarrow> 1 | _ \<Rightarrow> 0) + (if io_ssd io then 5 else 0) + of_bool (io_hdd io)"

lemma io_left_step:
  assumes inv: "io_inv io" and st: "io_step ev io = Some io'"
  shows "io_left io' < io_left io"
proof -
  note defs = io_left_def inc_pending_def dec_pending_def Let_def
  note ip = io_inv_parts(7,8) [OF inv]
  have worker: "io_left ((worker_hdd h io)\<lparr>io_run2 := Ending\<rparr>) < io_left io" if "io_run2 io = Begun" for h
    using that by (cases "io_hdd io") (simp_all add: defs worker_hdd_def)
  show ?thesis
  proof (cases ev)
    case Begin1
    then show ?thesis using st by (auto simp: defs split: if_splits)
  next
    case (Body1 a ol h)
    then have h: "io_run1 io = Begun" "io' = (worker_body a ol h io)\<lparr>io_run1 := Ending\<rparr>" using st by (auto split: if_splits)
    show ?thesis unfolding h(2) using ip(1) h(1)
      by (cases a; cases ol; cases h) (simp_all add: defs worker_body_def worker_hdd_def)
  next
    case End1
    then have h: "io_run1 io = Ending" "io' = (dec_pending io)\<lparr>io_run1 := Done\<rparr>" using st by (auto split: if_splits)
    show ?thesis unfolding h(2) using h(1) by (simp add: defs)
  next
    case Begin2
    then show ?thesis using st by (auto simp: defs split: if_splits)
  next
    case (Body2 a ol h)
    then have h: "io_run2 io = Begun" "io' = (worker_body a ol h io)\<lparr>io_run2 := Ending\<rparr>" using st by (auto split: if_splits)
    have e: "io_error io" by (rule io_inv_parts(10) [OF inv]) (simp add: h(1))
    show ?thesis unfolding h(2) using worker [OF h(1)] e by (simp add: worker_body_def)
  next
    case End2
    then have h: "io_run2 io = Ending" "io' = (dec_pending io)\<lparr>io_run2 := Done\<rparr>" using st by (auto split: if_splits)
    show ?thesis unfolding h(2) using h(1) by (simp add: defs)
  next
    case (SsdDone e)
    then have h: "io_ssd io" "io' = endio_ssd e io" using st by (auto split: if_splits)
    show ?thesis unfolding h(2) using h(1) ip(2) by (cases e) (simp_all add: defs endio_ssd_def)
  next
    case (HddDone e)
    then have h: "io_hdd io" "io' = endio_hdd e io" using st by (auto split: if_splits)
    show ?thesis unfolding h(2) using h(1) by (simp add: defs endio_hdd_def)
  qed
qed

lemma io_left_run:
  "io_inv io \<Longrightarrow> \<forall>ev \<in> set evs. good_event ev \<Longrightarrow> io_run evs io = Some io' \<Longrightarrow> length evs + io_left io' \<le> io_left io"
proof (induction evs arbitrary: io)
  case Nil
  then show ?case by (simp add: io_run_def)
next
  case (Cons ev evs)
  then obtain io1 where "io_step ev io = Some io1" "io_run evs io1 = Some io'"
    by (auto simp: io_run_def split: Option.bind_splits)
  then show ?case using Cons.IH [of io1] Cons.prems io_inv_step [of io ev io1] io_left_step [of io ev io1] by auto
qed

text \<open>As long as something is under way, an event is possible.\<close>

lemma io_progress:
  assumes "io_inv io" "\<not> io_quiet io"
  shows "\<exists>ev. good_event ev \<and> io_step ev io \<noteq> None"
proof (cases "io_ssd io \<or> io_hdd io")
  case True
  then have "io_step (SsdDone False) io \<noteq> None \<or> io_step (HddDone False) io \<noteq> None" by auto
  then show ?thesis by (metis good_event.simps(7,8))
next
  case False
  then consider "io_run1 io \<noteq> Done" | "io_run2 io \<noteq> Idle" "io_run2 io \<noteq> Done" using assms(2) by (auto simp: io_quiet_def)
  then show ?thesis
  proof cases
    case 1
    then have "io_step Begin1 io \<noteq> None \<or> io_step (Body1 True True True) io \<noteq> None \<or> io_step End1 io \<noteq> None"
      using io_inv_parts(4) [OF assms(1)] by (cases "io_run1 io") auto
    then show ?thesis by (metis good_event.simps(1,3,4))
  next
    case 2
    then have "io_step Begin2 io \<noteq> None \<or> io_step (Body2 True True True) io \<noteq> None \<or> io_step End2 io \<noteq> None"
      by (cases "io_run2 io") auto
    then show ?thesis by (metis good_event.simps(2,5,6))
  qed
qed

text \<open>The base request has been ended exactly when nothing is under way.\<close>

lemma io_inv_quiet: "io_inv io \<Longrightarrow> io_quiet io \<longleftrightarrow> io_ended io = 1"
  using io_inv_parts(4,6,9) [of io]
  by (cases "io_run1 io"; cases "io_run2 io") (auto simp: io_quiet_def io_counts_def in_run_def)

text \<open>After an error of the SSD the second run is never idle again.\<close>

lemma io_run2_stays:
  "io_inv io \<Longrightarrow> \<forall>ev \<in> set evs. good_event ev \<Longrightarrow> io_run evs io = Some io' \<Longrightarrow> SsdDone True \<in> set evs \<or> io_run2 io \<noteq> Idle
    \<Longrightarrow> io_run2 io' \<noteq> Idle"
proof (induction evs arbitrary: io)
  case Nil
  then show ?case by (simp add: io_run_def)
next
  case (Cons ev evs)
  then obtain io1 where io1: "io_step ev io = Some io1" "io_run evs io1 = Some io'"
    by (auto simp: io_run_def split: Option.bind_splits)
  have "io_run2 io1 \<noteq> Idle" if "ev = SsdDone True \<or> io_run2 io \<noteq> Idle"
    using that io1(1) io_inv_parts(8) [OF Cons.prems(1)]
    by (cases ev) (auto simp: inc_pending_def dec_pending_def worker_body_def worker_hdd_def endio_ssd_def endio_hdd_def
        Let_def split: if_splits)
  then show ?case using Cons.IH [of io1] Cons.prems io1 io_inv_step [of io ev io1] by auto
qed

section \<open>Places\<close>

lemma unat_scale:
  fixes f :: u32 assumes "unat f < 2 ^ 21" shows "unat (f * 2048) = unat f * 2048"
  using assms by (subst unat_mult_lem [THEN iffD1]) simp_all

lemma unat_mod_2048 [simp]: "unat ((w :: u64) mod 2048) = unat w mod 2048"
  by (simp add: unat_mod_distrib)

lemma clone_sector_place:
  assumes "unat f < 2 ^ 21"
  shows "unat (clone_sector f psn) = unat f * 2048 + unat psn mod 2048 + 2048"
proof -
  have f: "unat (f * 2048) = unat f * 2048" by (rule unat_scale [OF assms])
  have "unat (ucast (f * 2048) :: u64) = unat f * 2048" by (simp add: f)
  moreover have "unat psn mod 2048 < 2048" by simp
  ultimately show ?thesis using assms
    unfolding clone_sector_def by (simp add: unat_word_ariths)
qed

lemma read_range_place:
  assumes "unat lf < 2 ^ 21" "unat lf * 2048 \<le> unat n" "unat n < 2 ^ 63"
  shows "unat (fst (poptask_read_range lf n)) = unat lf * 2048
    \<and> unat (snd (poptask_read_range lf n)) = min 2048 (unat n - unat lf * 2048)"
proof -
  have f: "unat (lf * 2048) = unat lf * 2048" by (rule unat_scale [OF assms(1)])
  have e: "unat (ucast (lf * 2048) + 2048 :: u64) = unat lf * 2048 + 2048" using assms(1) by (simp add: unat_word_ariths f)
  show ?thesis
  proof (cases "unat lf * 2048 + 2048 \<ge> unat n")
    case True
    have d: "unat (n - ucast (lf * 2048)) = unat n - unat lf * 2048" using assms(2) f by (simp add: unat_sub word_le_nat_alt)
    have "unat (ucast (n - ucast (lf * 2048)) :: u32) = unat n - unat lf * 2048"
      using True by (simp add: unat_ucast_mod d)
    then show ?thesis using True by (simp add: poptask_read_range_def Let_def f e word_le_nat_alt)
  next
    case False
    then show ?thesis by (simp add: poptask_read_range_def Let_def f e word_le_nat_alt)
  qed
qed

lemma write_range_place:
  assumes "unat cf + 1 < 2 ^ 21" shows "unat (fst (poptask_write_range cf)) = unat cf * 2048 + 2048"
proof -
  have "unat cf < 2 ^ 21" using assms by simp
  then have "unat (cf * 2048 + 2048) = unat cf * 2048 + 2048" using assms by (simp add: unat_word_ariths unat_scale)
  then show ?thesis by (simp add: poptask_write_range_def)
qed

section \<open>Properties\<close>

text \<open>
  C3: an I/O that is served from the cache, whatever the order of its parts and whichever device
  fails, takes at most 8 steps, can always go on until nothing of it is under way, and ends its
  request exactly once, then; the structure is never touched after that. Excluded are only an SSD
  that goes offline before the first trial and a lack of memory in the second.
\<close>

theorem io_ends_once:
  assumes "io_run evs io_start = Some io" "\<forall>ev \<in> set evs. good_event ev"
  shows "length evs \<le> 8 \<and> io_ended io \<le> 1 \<and> (io_ended io = 1 \<longleftrightarrow> io_quiet io) \<and> \<not> io_uaf io
    \<and> (\<not> io_quiet io \<longrightarrow> (\<exists>ev. good_event ev \<and> io_step ev io \<noteq> None))"
proof (intro conjI impI)
  have inv: "io_inv io" by (rule io_inv_run [OF io_inv_start assms(2,1)])
  show "length evs \<le> 8" using io_left_run [OF io_inv_start assms(2,1)] by (simp add: io_left_def io_start_def)
  show "io_ended io \<le> 1" using io_inv_parts(6) [OF inv] by simp
  show "(io_ended io = 1) = io_quiet io" using io_inv_quiet [OF inv] by simp
  show "\<not> io_uaf io" by (rule io_inv_parts(2) [OF inv])
  show "\<exists>ev. good_event ev \<and> io_step ev io \<noteq> None" if "\<not> io_quiet io" by (rule io_progress [OF inv that])
qed

lemma io_ends_once_witness:
  "\<exists>io. io_run [Begin1, Body1 True True True, SsdDone True, Begin2, End1, Body2 True True True, HddDone False, End2] io_start = Some io
     \<and> io_quiet io \<and> io_ended io = 1"
proof -
  let ?evs = "[Begin1, Body1 True True True, SsdDone True, Begin2, End1, Body2 True True True, HddDone False, End2]"
  have "case io_run ?evs io_start of Some io \<Rightarrow> io_quiet io | None \<Rightarrow> False" by code_simp
  then obtain io where "io_run ?evs io_start = Some io" "io_quiet io" by (auto split: option.splits)
  then show ?thesis using io_ends_once [of ?evs io] by simp
qed

text \<open>
  When the SSD reports an error for a clone, the reference that the read holds in the engine is
  never given back, although the disk serves the request in the end; and the base request is ended
  without an error even when the disk fails too.
\<close>

theorem io_error_leaks:
  assumes "io_run evs io_start = Some io" "\<forall>ev \<in> set evs. good_event ev" "SsdDone True \<in> set evs"
  shows "io_puts io = 0 \<and> \<not> io_base_error io"
proof -
  have inv: "io_inv io" by (rule io_inv_run [OF io_inv_start assms(2,1)])
  have "io_run2 io \<noteq> Idle" by (rule io_run2_stays [OF io_inv_start assms(2,1)]) (simp add: assms(3))
  then show ?thesis using io_inv_parts(3,11) [OF inv] by blast
qed

lemma io_error_leaks_witness:
  "\<exists>io. io_run [Begin1, Body1 True True True, SsdDone True, Begin2, End1, Body2 True True True, HddDone True, End2] io_start = Some io
     \<and> io_quiet io \<and> io_error io \<and> io_puts io = 0 \<and> \<not> io_base_error io"
proof -
  let ?evs = "[Begin1, Body1 True True True, SsdDone True, Begin2, End1, Body2 True True True, HddDone True, End2]"
  have "case io_run ?evs io_start of Some io \<Rightarrow> io_quiet io \<and> io_error io | None \<Rightarrow> False" by code_simp
  then obtain io where "io_run ?evs io_start = Some io" "io_quiet io" "io_error io" by (auto split: option.splits)
  then show ?thesis using io_error_leaks [of ?evs io] by simp
qed

text \<open>
  The two cases left out. When the SSD is found offline in the first trial, the end of the disk's
  clone takes two counts although only one was added, and the structure is used after it was freed;
  when the second trial finds no memory, the count taken for it stays, and the request never ends.
\<close>

theorem io_counter_defects:
  "(\<exists>io. io_run [Begin1, Body1 True False True, End1, HddDone e] io_start = Some io \<and> io_quiet io \<and> io_uaf io)
   \<and> (\<exists>io. io_run [Begin1, Body1 True False True, HddDone e, End1] io_start = Some io \<and> io_quiet io \<and> io_uaf io)
   \<and> (\<exists>io. io_run [Begin1, Body1 True True h, End1, SsdDone True, Begin2, Body2 b ol False, End2] io_start = Some io
        \<and> io_quiet io \<and> io_ended io = 0 \<and> io_pending io = 1)"
  by (simp add: io_run_def io_start_def inc_pending_def dec_pending_def worker_body_def worker_hdd_def endio_ssd_def
      endio_hdd_def io_quiet_def Let_def)



end
