(* ===== verification/Iostash_Request.thy ===== *)
theory Iostash_Request
  imports Iostash_Hook
begin

text \<open>
  What \<^verbatim>\<open>iostash_mkrequest\<close> does with the engine and the references: the counters balance, a write
  invalidates what it touches, and what is served from the cache is what the disk holds.
\<close>

section \<open>Requests\<close>

abbreviation bio_psn :: "bio \<Rightarrow> sector_t" where
  "bio_psn b \<equiv> bi_sector b + bi_start_sect b"

abbreviation bio_nr :: "bio \<Rightarrow> u32" where
  "bio_nr b \<equiv> to_sector (bi_size b)"

definition in_part :: "hdd_info \<Rightarrow> bio \<Rightarrow> bool" where
  "in_part hdd b \<longleftrightarrow> h_part_start hdd \<le> bio_psn b \<and> bio_psn b + ucast (bio_nr b) \<le> h_part_end hdd"

lemma mkrequest_refused:
  "\<not> h_online hdd \<or> bio_nr b = 0 \<or> \<not> in_part hdd b \<Longrightarrow> iostash_mkrequest ao ssds (Some hdd) b k = Some (Orig, k)"
  by (auto simp: iostash_mkrequest_def in_part_def hdd_put_def Let_def not_less)

lemma mkrequest_taken:
  assumes "h_online hdd" "bio_nr b \<noteq> 0" "in_part hdd b"
  shows "iostash_mkrequest ao ssds (Some hdd) b k =
     (if bi_write b
      then do {
        (_, s1) \<leftarrow> sce_invalidate (k_sce k) (h_lun hdd) (bio_psn b) (bio_nr b);
        Some (Orig, k\<lparr>k_st_write := k_st_write k + 1, k_sce := s1\<rparr>)
      }
      else mkrequest_read ao ssds hdd (bio_psn b) (bio_nr b) (k\<lparr>k_hdd_ref := k_hdd_ref k + 1\<rparr>))"
proof -
  have "\<not> bio_psn b < h_part_start hdd" "\<not> h_part_end hdd < bio_psn b + ucast (bio_nr b)"
    using assms(3) by (simp_all add: in_part_def not_less)
  then show ?thesis using assms(1,2) by (cases k) (simp add: iostash_mkrequest_def mkrequest_write_def hdd_put_def Let_def)
qed

text \<open>What one request leaves of the references.\<close>

definition balanced :: "bool \<Rightarrow> (ptr \<Rightarrow> ssd_info) \<Rightarrow> nat \<Rightarrow> bio \<Rightarrow> hook \<Rightarrow> route \<times> hook \<Rightarrow> bool" where
  "balanced ao ssds li b k = (\<lambda>(rt, k'). k_hdd_ref k' = k_hdd_ref k
     \<and> (case rt of
          Orig \<Rightarrow> k_ssd_ref k' = k_ssd_ref k \<and> (ao \<longrightarrow> one_more li False (k_sce k) (k_sce k'))
        | Dangling \<Rightarrow> False
        | Cached p f psn nr \<Rightarrow> ao \<and> \<not> bi_write b \<and> psn = bio_psn b \<and> nr = bio_nr b \<and> s_online (ssds p)
            \<and> nr \<le> s_queue_max_hw_sectors (ssds p)
            \<and> k_ssd_ref k' = (k_ssd_ref k)(p := k_ssd_ref k p + 1) \<and> one_more li True (k_sce k) (k_sce k')))"

lemma hdd_put_twice [simp]: "hdd_put (k\<lparr>k_hdd_ref := k_hdd_ref k + 1\<rparr>) = k"
  by (simp add: hdd_put_def)

lemma mkrequest_read_balanced:
  assumes wf: "sce_wf (k_sce k)" and lun: "h_lun hdd = Some li" "li < 256" and ov: "unat (bio_psn b) + unat (bio_nr b) < 2 ^ 64"
    and srv: "unat (l_nr_service (luntbl (k_sce k) li)) + 1 < 2 ^ 16"
    and ctx: "named (k_sce k)"
    and rd: "\<not> bi_write b"
  shows "returns (mkrequest_read ao ssds hdd (bio_psn b) (bio_nr b) (k\<lparr>k_hdd_ref := k_hdd_ref k + 1\<rparr>)) (balanced ao ssds li b k)"
proof (cases "(bio_psn b + ucast (bio_nr b) - 1) div 2048 \<noteq> bio_psn b div 2048")
  case True
  then show ?thesis using wf by (simp add: mkrequest_read_def Let_def balanced_def one_more_def hdd_put_def)
next
  case False
  obtain x where x: "sce_get4read (k_sce k) (Some li) (bio_psn b) (bio_nr b) (Some \<lparr>fmap_cdevctx = 0, fmap_fragnum = 0\<rparr>) = Some x"
    and px: "case x of (r, out', s') \<Rightarrow> one_more li (r = SCE_SUCCESS) (k_sce k) s'
      \<and> (r = SCE_SUCCESS \<longrightarrow> (\<exists>fm. out' = Some fm \<and> fmap_cdevctx fm \<noteq> 0)
      \<and> returns (sce_put4read s' (Some li) (bio_psn b) (bio_nr b)) (\<lambda>(r2, s2). one_more li False (k_sce k) s2))"
    by (rule returnsE [OF get4read_one_more [OF wf lun(2) ov srv ctx]])
  obtain r o' s' where rs: "x = (r, o', s')" by (cases x)
  note post = px [unfolded rs prod.case]
  show ?thesis
  proof (cases "r = SCE_SUCCESS")
    case miss: False
    then show ?thesis using False post
      by (simp add: mkrequest_read_def Let_def balanced_def lun x rs hdd_put_def)
  next
    case hit: True
    obtain fm where fm: "o' = Some fm" "fmap_cdevctx fm \<noteq> 0" using post hit by blast
    obtain y where y: "sce_put4read s' (Some li) (bio_psn b) (bio_nr b) = Some y"
      "case y of (r2, s2) \<Rightarrow> one_more li False (k_sce k) s2"
      using post hit by (auto elim: returnsE)
    obtain r2 s2 where y': "y = (r2, s2)" by (cases y)
    have one: "one_more li True (k_sce k) s'" using post hit by simp
    show ?thesis using False one y(2)
      by (simp add: mkrequest_read_def Let_def balanced_def lun x rs y(1) y' fm hit hdd_put_def ssd_add_def bug_on_def
          fun_upd_idem rd not_less)
  qed
qed

lemma mkrequest_balance:
  assumes wf: "sce_wf (k_sce k)" and lun: "h_lun hdd = Some li" "li < 256" and ov: "unat (bio_psn b) + unat (bio_nr b) < 2 ^ 64"
    and srv: "unat (l_nr_service (luntbl (k_sce k) li)) + 1 < 2 ^ 16"
    and ctx: "named (k_sce k)"
  shows "returns (iostash_mkrequest ao ssds (Some hdd) b k) (balanced ao ssds li b k)"
proof (cases "h_online hdd \<and> bio_nr b \<noteq> 0 \<and> in_part hdd b")
  case False
  then have "iostash_mkrequest ao ssds (Some hdd) b k = Some (Orig, k)" by (intro mkrequest_refused) blast
  then show ?thesis using wf by (simp add: balanced_def one_more_def)
next
  case True
  then have taken: "h_online hdd" "bio_nr b \<noteq> 0" "in_part hdd b" by blast+
  show ?thesis
  proof (cases "bi_write b")
    case True
    obtain r s1 where "sce_invalidate (k_sce k) (Some li) (bio_psn b) (bio_nr b) = Some (r, s1)" "one_more li False (k_sce k) s1"
      using invalidate_one_more [OF wf lun(2) ov] by (auto elim!: returnsE)
    then show ?thesis using True by (simp add: mkrequest_taken [OF taken] lun balanced_def)
  next
    case False
    then show ?thesis
      by (simp only: mkrequest_taken [OF taken] if_False) (rule mkrequest_read_balanced [OF wf lun ov srv ctx False])
  qed
qed

text \<open>A request is served from the cache only if the engine has said so, and whenever the SSD can take it.\<close>

lemma mkrequest_read_cached:
  assumes "mkrequest_read ao ssds hdd psn nr k = Some (Cached p f psn' nr', k')"
  shows "\<exists>s1. sce_get4read (k_sce k) (h_lun hdd) psn nr (Some no_fmap)
      = Some (SCE_SUCCESS, Some \<lparr>fmap_cdevctx = p, fmap_fragnum = f\<rparr>, s1) \<and> psn' = psn \<and> nr' = nr"
proof (cases "(psn + ucast nr - 1) div 2048 \<noteq> psn div 2048")
  case True
  then show ?thesis using assms by (simp add: mkrequest_read_def Let_def)
next
  case False
  obtain r o' s' where g: "sce_get4read (k_sce k) (h_lun hdd) psn nr (Some no_fmap) = Some (r, o', s')"
    using assms False by (auto simp: mkrequest_read_def Let_def no_fmap_def split: Option.bind_splits)
  have r: "r = SCE_SUCCESS" using assms False g
    by (cases "r = SCE_SUCCESS") (simp_all add: mkrequest_read_def Let_def flip: no_fmap_def)
  obtain fm where fm: "o' = Some fm" using assms False g r
    by (cases o') (simp_all add: mkrequest_read_def Let_def flip: no_fmap_def)
  show ?thesis using assms False g r fm
    by (cases fm) (auto simp: mkrequest_read_def Let_def bug_on_def simp flip: no_fmap_def split: if_splits Option.bind_splits)
qed

lemma mkrequest_cached:
  assumes m: "iostash_mkrequest ao ssds (Some hdd) b k = Some (Cached p f psn nr, k')"
  shows "\<exists>s1. sce_get4read (k_sce k) (h_lun hdd) (bio_psn b) (bio_nr b) (Some no_fmap)
      = Some (SCE_SUCCESS, Some \<lparr>fmap_cdevctx = p, fmap_fragnum = f\<rparr>, s1) \<and> psn = bio_psn b \<and> nr = bio_nr b"
proof (cases "h_online hdd \<and> bio_nr b \<noteq> 0 \<and> in_part hdd b")
  case False
  then have "iostash_mkrequest ao ssds (Some hdd) b k = Some (Orig, k)" by (intro mkrequest_refused) blast
  then show ?thesis using m by simp
next
  case True
  then have taken: "h_online hdd" "bio_nr b \<noteq> 0" "in_part hdd b" by blast+
  show ?thesis
  proof (cases "bi_write b")
    case True
    then show ?thesis using m by (auto simp: mkrequest_taken [OF taken] split: Option.bind_splits)
  next
    case False
    then have "mkrequest_read ao ssds hdd (bio_psn b) (bio_nr b) (k\<lparr>k_hdd_ref := k_hdd_ref k + 1\<rparr>) = Some (Cached p f psn nr, k')"
      using m by (simp add: mkrequest_taken [OF taken])
    from mkrequest_read_cached [OF this] show ?thesis by simp
  qed
qed

lemma mkrequest_served:
  assumes wf: "sce_wf (k_sce k)" and hdd: "h_online hdd" "h_lun hdd = Some li" "li < 256" "in_part hdd b"
    and lun: "l_scehndl (luntbl (k_sce k) li)" "l_fragmap (luntbl (k_sce k) li) \<noteq> None" "\<not> l_waiting4deletion (luntbl (k_sce k) li)"
      "req_ok (luntbl (k_sce k) li) (bio_psn b) (bio_nr b)" "unat (l_nr_service (luntbl (k_sce k) li)) + 1 < 2 ^ 16"
      "named (k_sce k)"
    and rd: "\<not> bi_write b" "(bio_psn b + ucast (bio_nr b) - 1) div 2048 = bio_psn b div 2048"
      "req_range (bio_psn b) (bio_nr b) \<subseteq> cell (k_sce k) True (li, req_frag (bio_psn b))" "req_one (bio_psn b) (bio_nr b)"
    and ssd: "\<And>p. s_online (ssds p)" "\<And>p. bio_nr b \<le> s_queue_max_hw_sectors (ssds p)"
  shows "\<exists>p f k'. iostash_mkrequest True ssds (Some hdd) b k = Some (Cached p f (bio_psn b) (bio_nr b), k')"
proof -
  have nr: "bio_nr b \<noteq> 0" and ov: "unat (bio_psn b) + unat (bio_nr b) < 2 ^ 64" using lun(4) by (auto simp: req_ok_def)
  obtain x where x: "sce_get4read (k_sce k) (Some li) (bio_psn b) (bio_nr b) (Some no_fmap) = Some x"
    and px: "case x of (r, out', s') \<Rightarrow> one_more li (r = SCE_SUCCESS) (k_sce k) s'
      \<and> (r = SCE_SUCCESS \<longrightarrow> (\<exists>fm. out' = Some fm \<and> fmap_cdevctx fm \<noteq> 0)
      \<and> returns (sce_put4read s' (Some li) (bio_psn b) (bio_nr b)) (\<lambda>(r2, s2). one_more li False (k_sce k) s2))"
    by (rule returnsE [OF get4read_one_more [OF wf hdd(3) ov lun(5,6)]])
  have "unat (l_nr_service (luntbl (k_sce k) li)) + 1 < 2 ^ 32" using lun(5) by simp
  from sce_get4read_correct [OF wf hdd(3) lun(1,2,3,4) this, of no_fmap]
  have "fst x = read_spec (k_sce k) li (bio_psn b) (bio_nr b)" using x by (cases x) simp
  then have "fst x = SCE_SUCCESS" using rd(3,4) by (simp add: read_spec_def)
  then obtain s1 fm where "x = (SCE_SUCCESS, Some fm, s1)" "fmap_cdevctx fm \<noteq> 0" using px by (cases x) auto
  then show ?thesis using x rd(1,2) ssd(1) ssd(2) [unfolded linorder_not_less [symmetric]]
    by (simp add: mkrequest_taken [OF hdd(1) nr hdd(4)] mkrequest_read_def Let_def hdd(2) bug_on_def no_fmap_def)
qed

section \<open>A disk on the run\<close>

definition run_hdd :: hdd_info where
  "run_hdd = hdd_zero\<lparr>h_bdev := True, h_dev_t := 3, h_nr_sctr := 16, h_part_end := 15, h_lun := Some 0, h_online := True\<rparr>"

definition run_ssds :: "ptr \<Rightarrow> ssd_info" where
  "run_ssds p = ssd_zero\<lparr>s_bdev := True, s_online := True, s_queue_max_hw_sectors := 128\<rparr>"

definition run_hook :: "sce \<Rightarrow> hook" where
  "run_hook s = \<lparr>k_sce = s, k_hdd_ref = 0, k_ssd_ref = (\<lambda>_. 0), k_st_read = 0, k_st_write = 0\<rparr>"

definition run_bio :: "bool \<Rightarrow> sector_t \<Rightarrow> u32 \<Rightarrow> bio" where
  "run_bio w p n = \<lparr>bi_sector = p, bi_size = n, bi_write = w, bi_start_sect = 0\<rparr>"

lemma run_bio_fields [simp]: "bi_write (run_bio w p n) = w" "bio_psn (run_bio w p n) = p"
  by (simp_all add: run_bio_def)

lemma run_bio_nr [simp]: "bio_nr (run_bio w p n) = to_sector n" "to_sector 4096 = 8" "to_sector 3584 = 7"
  by (simp_all add: run_bio_def to_sector_def)

lemma run_serves:
  assumes "reachable w" "cell (eng w) True (0, 0) = {0, 1}" "l_lunctx (luntbl (eng w) 0) = 9"
    "l_scehndl (luntbl (eng w) 0)" "l_fragmap (luntbl (eng w) 0) \<noteq> None" "\<not> l_waiting4deletion (luntbl (eng w) 0)"
    "l_nr_sctr (luntbl (eng w) 0) = 16" "roomy (eng w)"
    "named (eng w)" "unat (l_nr_service (luntbl (eng w) 0)) + 1 < 2 ^ 16" "one_dev (eng w)"
  shows "\<exists>p f k'. iostash_mkrequest True run_ssds (Some run_hdd) (run_bio False 8 3584) (run_hook (eng w)) = Some (Cached p f 8 7, k')"
proof -
  have "req_range 8 7 = {1}" "req_one 8 7" "req_frag 8 = 0"
    by (auto simp: req_range_def req_first_def req_count_def req_one_def req_frag_def)
  then have "\<exists>p f k'. iostash_mkrequest True run_ssds (Some run_hdd) (run_bio False 8 3584) (run_hook (eng w))
      = Some (Cached p f (bio_psn (run_bio False 8 3584)) (bio_nr (run_bio False 8 3584)), k')"
    by (intro mkrequest_served [where li = 0])
      (use assms coh_wf [OF reachable_coh [OF assms(1)]] in \<open>simp_all add: run_hook_def run_hdd_def hdd_zero_def run_ssds_def in_part_def req_ok_def\<close>)
  then show ?thesis by simp
qed

lemma run_served:
  obtains w :: "nat world" and p f k' where "reachable w" "roomy (eng w)"
    "iostash_mkrequest True run_ssds (Some run_hdd) (run_bio False 8 3584) (run_hook (eng w)) = Some (Cached p f 8 7, k')"
proof -
  obtain w :: "nat world" where w: "reachable w" "cell (eng w) True (0, 0) = {0, 1}" "l_lunctx (luntbl (eng w) 0) = 9"
    "l_scehndl (luntbl (eng w) 0)" "l_fragmap (luntbl (eng w) 0) \<noteq> None" "\<not> l_waiting4deletion (luntbl (eng w) 0)"
    "l_nr_sctr (luntbl (eng w) 0) = 16" "roomy (eng w)"
    "named (eng w)" "unat (l_nr_service (luntbl (eng w) 0)) + 1 < 2 ^ 16" "one_dev (eng w)"
    by (rule run_end)
  show thesis using run_serves [OF w] that [OF w(1,8)] by blast
qed

section \<open>Properties\<close>

text \<open>
  C4: whatever becomes of a request of a cached disk, the counters balance: the reference of the disk
  is given back; a request that is passed on leaves the references of the SSDs and of the LUN as they
  were; one that is served from the cache is a read, goes to an SSD that is online and allows its
  length, and holds one reference of that SSD and one of the LUN. (Only if no memory is found for the
  I/O the reference of the LUN is kept although the request is passed on.)
\<close>

theorem mkrequest_balances:
  assumes "sce_wf (k_sce k)" "h_lun hdd = Some li" "li < 256" "unat (bio_psn b) + unat (bio_nr b) < 2 ^ 64"
    "unat (l_nr_service (luntbl (k_sce k) li)) + 1 < 2 ^ 16" "named (k_sce k)"
  shows "returns (iostash_mkrequest ao ssds (Some hdd) b k) (balanced ao ssds li b k)"
  by (rule mkrequest_balance [OF assms])

lemma mkrequest_balances_witness:
  "\<exists>(w :: nat world) rt k'. reachable w
     \<and> iostash_mkrequest True run_ssds (Some run_hdd) (run_bio False 0 4096) (run_hook (eng w)) = Some (rt, k') \<and> k_hdd_ref k' = 0"
proof -
  obtain w :: "nat world" where w: "reachable w" "cell (eng w) True (0, 0) = {0, 1}" "l_lunctx (luntbl (eng w) 0) = 9"
    "l_scehndl (luntbl (eng w) 0)" "l_fragmap (luntbl (eng w) 0) \<noteq> None" "\<not> l_waiting4deletion (luntbl (eng w) 0)"
    "l_nr_sctr (luntbl (eng w) 0) = 16" "roomy (eng w)"
    "named (eng w)" "unat (l_nr_service (luntbl (eng w) 0)) + 1 < 2 ^ 16" "one_dev (eng w)"
    by (rule run_end)
  have "returns (iostash_mkrequest True run_ssds (Some run_hdd) (run_bio False 0 4096) (run_hook (eng w)))
      (balanced True run_ssds 0 (run_bio False 0 4096) (run_hook (eng w)))"
    by (rule mkrequest_balances)
      (use w coh_wf [OF reachable_coh [OF w(1)]] in \<open>simp_all add: run_hook_def run_hdd_def\<close>)
  then show ?thesis using w(1) by (auto simp: returns_iff balanced_def run_hook_def)
qed



text \<open>
  C5: a write to an online disk within its bounds is passed on, and the pages it touches, and no
  others, are gone from the cache when it is.
\<close>

theorem mkrequest_write_invalidates:
  assumes "sce_wf (k_sce k)" "h_online hdd" "h_lun hdd = Some li" "li < 256" "bi_write b" "in_part hdd b"
    "l_scehndl (luntbl (k_sce k) li)" "l_fragmap (luntbl (k_sce k) li) \<noteq> None" "req_ok (luntbl (k_sce k) li) (bio_psn b) (bio_nr b)"
    "\<not> l_waiting4deletion (luntbl (k_sce k) li)"
  shows "\<exists>k'. iostash_mkrequest ao ssds (Some hdd) b k = Some (Orig, k') \<and> sce_wf (k_sce k')
    \<and> (\<forall>v x. cell (k_sce k') v x = (if fst x = li
         then {p \<in> cell (k_sce k) v x. \<not> in_pages (req_first (bio_psn b)) (req_count (bio_psn b) (bio_nr b)) (256 * snd x + p)}
         else cell (k_sce k) v x))"
proof -
  obtain s' where s': "sce_invalidate (k_sce k) (Some li) (bio_psn b) (bio_nr b) = Some (SCE_SUCCESS, s')" "sce_wf s'"
    "written li (req_first (bio_psn b)) (req_count (bio_psn b) (bio_nr b)) (k_sce k) s'"
    using sce_invalidate_correct [OF assms(1,4,7,8)] assms(9,10) by (auto simp: returns_iff)
  have "bio_nr b \<noteq> 0" using assms(9) by (auto simp: req_ok_def)
  then show ?thesis using s' assms(5) by (simp add: mkrequest_taken [OF assms(2) _ assms(6)] assms(3) written_def)
qed

lemma mkrequest_write_invalidates_witness:
  "\<exists>(w :: nat world) k'. reachable w \<and> cell (eng w) True (0, 0) = {0, 1}
     \<and> iostash_mkrequest True run_ssds (Some run_hdd) (run_bio True 0 4096) (run_hook (eng w)) = Some (Orig, k')
     \<and> cell (k_sce k') True (0, 0) = {1}"
proof -
  obtain w :: "nat world" where w: "reachable w" "cell (eng w) True (0, 0) = {0, 1}" "l_lunctx (luntbl (eng w) 0) = 9"
    "l_scehndl (luntbl (eng w) 0)" "l_fragmap (luntbl (eng w) 0) \<noteq> None" "\<not> l_waiting4deletion (luntbl (eng w) 0)"
    "l_nr_sctr (luntbl (eng w) 0) = 16" "roomy (eng w)"
    "named (eng w)" "unat (l_nr_service (luntbl (eng w) 0)) + 1 < 2 ^ 16" "one_dev (eng w)"
    by (rule run_end)
  have "\<exists>k'. iostash_mkrequest True run_ssds (Some run_hdd) (run_bio True 0 4096) (run_hook (eng w)) = Some (Orig, k')
     \<and> sce_wf (k_sce k') \<and> (\<forall>v x. cell (k_sce k') v x = (if fst x = 0
         then {p \<in> cell (k_sce (run_hook (eng w))) v x. \<not> in_pages (req_first (bio_psn (run_bio True 0 4096)))
            (req_count (bio_psn (run_bio True 0 4096)) (bio_nr (run_bio True 0 4096))) (256 * snd x + p)}
         else cell (k_sce (run_hook (eng w))) v x))"
    by (rule mkrequest_write_invalidates)
      (use w coh_wf [OF reachable_coh [OF w(1)]] in \<open>simp_all add: run_hook_def run_hdd_def hdd_zero_def in_part_def req_ok_def\<close>)
  then obtain k' where k': "iostash_mkrequest True run_ssds (Some run_hdd) (run_bio True 0 4096) (run_hook (eng w)) = Some (Orig, k')"
    and c: "\<forall>v x. cell (k_sce k') v x = (if fst x = 0
         then {p \<in> cell (k_sce (run_hook (eng w))) v x. \<not> in_pages (req_first (bio_psn (run_bio True 0 4096)))
            (req_count (bio_psn (run_bio True 0 4096)) (bio_nr (run_bio True 0 4096))) (256 * snd x + p)}
         else cell (k_sce (run_hook (eng w))) v x)"
    by blast
  have "req_first 0 = 0" "req_count 0 8 = 1" by (simp_all add: req_first_def req_count_def)
  then have "cell (k_sce k') True (0, 0) = {p \<in> {0, 1}. \<not> in_pages 0 1 p}"
    using spec [OF spec [OF c], of True "(0, 0)"] w(2) by (simp add: run_hook_def)
  also have "\<dots> = {1}" by auto
  finally show ?thesis using w(1,2) k' by blast
qed

text \<open>
  The bound of the disk is its last sector, but it is tested as if it were the one behind it. A
  request that ends with the disk is passed on and the engine does not see it: a write of the last
  page leaves that page in the cache, from where a shorter read is then served.
\<close>

theorem last_sector_bypasses_cache:
  assumes "h_part_end hdd = h_nr_sctr hdd - 1" "h_nr_sctr hdd \<noteq> 0" "bio_psn b + ucast (bio_nr b) = h_nr_sctr hdd"
  shows "iostash_mkrequest ao ssds (Some hdd) b k = Some (Orig, k)"
proof -
  have "\<not> h_nr_sctr hdd \<le> h_nr_sctr hdd - 1" using assms(2) unat_dec [of "h_nr_sctr hdd"]
    by (metis bot_nat_0.not_eq_extremum diff_less not_le unat_eq_zero word_le_nat_alt zero_less_one)
  then show ?thesis by (intro mkrequest_refused) (simp add: in_part_def assms(1,3))
qed

lemma last_sector_bypasses_cache_witness:
  "\<exists>(w :: nat world) p f k'. reachable w
     \<and> iostash_mkrequest True run_ssds (Some run_hdd) (run_bio True 8 4096) (run_hook (eng w)) = Some (Orig, run_hook (eng w))
     \<and> iostash_mkrequest True run_ssds (Some run_hdd) (run_bio False 8 3584) (run_hook (eng w)) = Some (Cached p f 8 7, k')"
proof -
  obtain w :: "nat world" and p f k' where w: "reachable w" "roomy (eng w)"
    "iostash_mkrequest True run_ssds (Some run_hdd) (run_bio False 8 3584) (run_hook (eng w)) = Some (Cached p f 8 7, k')"
    by (rule run_served)
  have "iostash_mkrequest True run_ssds (Some run_hdd) (run_bio True 8 4096) (run_hook (eng w)) = Some (Orig, run_hook (eng w))"
    by (rule last_sector_bypasses_cache) (simp_all add: run_hdd_def)
  then show ?thesis using w(1,3) by blast
qed

end
