(* ===== verification/Iostash_Hdd.thy ===== *)
theory Iostash_Hdd
  imports Iostash_Table Iostash_Request
begin

text \<open>
  The cached disks: \<^verbatim>\<open>src/iostash_hdd.c\<close>. Every operation runs under \<^verbatim>\<open>ctl_mtx\<close> and is one step.
  The kernel is the environment \<open>kenv\<close>: what a path names, which device it opens, and whether the
  allocations succeed. \<open>None\<close> is a \<^verbatim>\<open>BUG_ON\<close>, an access to freed memory, a copy beyond
  the end of \<^verbatim>\<open>path\<close>, or a wait that is not over: a removal is modelled from the moment on at which the
  other threads have given back their references. The objects of sysfs are not modelled.
\<close>

section \<open>The global context and the kernel\<close>

text \<open>
  \<open>g_queue\<close> tells for each disk whether its request function is \<^verbatim>\<open>iostash_mkrequest\<close>.
\<close>

record gctx =
  g_sce :: sce
  g_hddtbl :: htable
  g_ssdtbl :: htable
  g_hdd :: "ptr \<Rightarrow> hdd_info option"
  g_ssd :: "ptr \<Rightarrow> ssd_info option"
  g_nr_hdd :: u32
  g_nr_ssd :: u32
  g_queue :: "dev_t \<Rightarrow> bool"

text \<open>A block device: \<^verbatim>\<open>bd_contains\<close> is the disk it is on, and the one whose queue it uses.\<close>

record bdev =
  bd_dev :: dev_t
  bd_contains :: dev_t
  bd_nr_sects :: sector_t
  bd_ssd_holder :: bool
  bd_openers :: int
  bd_max_hw :: u32

record kenv =
  e_lookup :: "string \<Rightarrow> dev_t option"
  e_open :: "string \<Rightarrow> bdev option"
  e_open_dev :: "dev_t \<Rightarrow> bdev option"
  e_alloc :: "ptr option"
  e_io_pool :: bool
  e_bioset :: bool
  e_workqueue :: bool
  e_vmalloc :: bool
  e_kobj :: int

abbreviation (input) IOSTASH_MAXPATH :: nat where "IOSTASH_MAXPATH \<equiv> 80"

definition wait_for :: "bool \<Rightarrow> unit option" where
  "wait_for c = (if c then Some () else None)"

definition upd_hdd :: "ptr \<Rightarrow> (hdd_info \<Rightarrow> hdd_info) \<Rightarrow> gctx \<Rightarrow> gctx" where
  "upd_hdd p f g = g\<lparr>g_hdd := (g_hdd g)(p := map_option f (g_hdd g p))\<rparr>"

definition hdd_dev :: "gctx \<Rightarrow> ptr \<Rightarrow> dev_t option" where
  "hdd_dev g p = map_option h_dev_t (g_hdd g p)"

section \<open>Operations\<close>

definition search_hdd :: "(dev_t \<Rightarrow> u32) \<Rightarrow> gctx \<Rightarrow> dev_t \<Rightarrow> ptr option option" where
  "search_hdd hash g d = table_search hash IOSTASH_MAXHDD_BCKTS (g_hddtbl g) (hdd_dev g) d"

definition insert_hdd :: "(dev_t \<Rightarrow> u32) \<Rightarrow> gctx \<Rightarrow> ptr \<Rightarrow> gctx option" where
  "insert_hdd hash g p = map_option (\<lambda>t. g\<lparr>g_hddtbl := t\<rparr>) (table_insert hash IOSTASH_MAXHDD_BCKTS (g_hddtbl g) (hdd_dev g) p)"

definition alloc_hdd :: "(dev_t \<Rightarrow> u32) \<Rightarrow> kenv \<Rightarrow> gctx \<Rightarrow> string \<Rightarrow> (ptr option \<times> gctx) option" where
  "alloc_hdd hash env g path =
     (case e_lookup env path of
        None \<Rightarrow> Some (None, g)
      | Some dev_t \<Rightarrow> do {
          hdd \<leftarrow> search_hdd hash g dev_t;
          if hdd \<noteq> None then Some (None, g)
          else case e_alloc env of
                 None \<Rightarrow> Some (None, g)
               | Some p \<Rightarrow> do {
                   bug_on (length path \<ge> IOSTASH_MAXPATH);
                   Some (Some p, g\<lparr>g_hdd := (g_hdd g)(p \<mapsto> hdd_zero\<lparr>h_path := path, h_dev_t := dev_t\<rparr>)\<rparr>)
                 }
        })"

definition unload_hdd :: "(dev_t \<Rightarrow> u32) \<Rightarrow> gctx \<Rightarrow> ptr \<Rightarrow> gctx option" where
  "unload_hdd hash g p = do {
     h \<leftarrow> g_hdd g p;
     let g1 = (if h_org_mapreq h \<and> h_bdev h then g\<lparr>g_queue := (g_queue g)(h_disk h := False)\<rparr> else g);
     e \<leftarrow> search_hdd hash g1 (h_dev_t h);
     g2 \<leftarrow> if e = Some p \<and> h_online h
           then do {
             wait_for (h_io_pending h = 0 \<and> h_nr_ref h = 0);
             Some ((upd_hdd p (\<lambda>h. h\<lparr>h_online := False\<rparr>) g1)\<lparr>g_nr_hdd := g_nr_hdd g1 - 1\<rparr>)
           }
           else Some g1;
     let g3 = upd_hdd p (\<lambda>h. h\<lparr>h_io_queue := False, h_io_pool := False, h_bs := False, h_bdev := False\<rparr>) g2;
     s \<leftarrow> case h_lun h of
            None \<Rightarrow> Some (g_sce g3)
          | Some li \<Rightarrow> map_option snd (sce_rmlun (g_sce g3) (Some li));
     Some (upd_hdd p (\<lambda>h. h\<lparr>h_lun := None\<rparr>) (g3\<lparr>g_sce := s\<rparr>))
   }"

definition destroy_hdd :: "(dev_t \<Rightarrow> u32) \<Rightarrow> gctx \<Rightarrow> ptr option \<Rightarrow> gctx option" where
  "destroy_hdd hash g hdd =
     (case hdd of
        None \<Rightarrow> Some g
      | Some p \<Rightarrow> do { g1 \<leftarrow> unload_hdd hash g p; Some (g1\<lparr>g_hdd := (g_hdd g1)(p := None)\<rparr>) })"

text \<open>The device of a disk: the whole one, also when the path names a partition.\<close>

definition open_whole :: "kenv \<Rightarrow> string \<Rightarrow> bdev option" where
  "open_whole env path =
     (case e_open env path of
        None \<Rightarrow> None
      | Some b \<Rightarrow> if bd_contains b \<noteq> bd_dev b then e_open_dev env (bd_contains b) else Some b)"

text \<open>
  \<^verbatim>\<open>hdd_register\<close> between the allocation of the structure and the end of its loop: the result and the
  context, which the caller undoes when the result is not 0.
\<close>

definition hdd_setup :: "(dev_t \<Rightarrow> u32) \<Rightarrow> kenv \<Rightarrow> gctx \<Rightarrow> string \<Rightarrow> ptr \<Rightarrow> (int \<times> gctx) option" where
  "hdd_setup hash env g path p =
     (case open_whole env path of
        None \<Rightarrow> Some (-1, g)
      | Some b \<Rightarrow>
          let g1 = upd_hdd p (\<lambda>h. h\<lparr>h_bdev := True, h_disk := bd_contains b\<rparr>) g
          in if bd_ssd_holder b then Some (-1, g1)
             else if g_queue g1 (bd_contains b) then Some (-1, g1)
             else let g2 = upd_hdd p (\<lambda>h. h\<lparr>h_nr_sctr := bd_nr_sects b, h_part_start := 0, h_part_end := 0 + bd_nr_sects b - 1\<rparr>) g1
             in if \<not> e_io_pool env then Some (-1, g2)
             else let g3 = upd_hdd p (\<lambda>h. h\<lparr>h_io_pool := True\<rparr>) g2
             in if \<not> e_bioset env then Some (-1, g3)
             else let g4 = upd_hdd p (\<lambda>h. h\<lparr>h_bs := True\<rparr>) g3
             in if \<not> e_workqueue env then Some (-1, g4)
             else let g5 = upd_hdd p (\<lambda>h. h\<lparr>h_io_queue := True\<rparr>) g4;
                      (lun, s) = sce_addlun (e_vmalloc env) (g_sce g5) (bd_nr_sects b) p;
                      g6 = (upd_hdd p (\<lambda>h. h\<lparr>h_lun := lun\<rparr>) g5)\<lparr>g_sce := s\<rparr>
             in if lun = None then Some (-1, g6)
             else if e_kobj env \<noteq> 0 then Some (e_kobj env, g6)
             else do {
               g7 \<leftarrow> insert_hdd hash g6 p;
               Some (0, (upd_hdd p (\<lambda>h. h\<lparr>h_online := True, h_org_mapreq := True\<rparr>) g7)
                 \<lparr>g_queue := (g_queue g7)(bd_contains b := True), g_nr_hdd := g_nr_hdd g7 + 1\<rparr>)
             })"

definition hdd_register :: "(dev_t \<Rightarrow> u32) \<Rightarrow> kenv \<Rightarrow> gctx \<Rightarrow> string \<Rightarrow> (int \<times> gctx) option" where
  "hdd_register hash env g path = do {
     (hdd, g1) \<leftarrow> alloc_hdd hash env g path;
     (ret, g2) \<leftarrow> case hdd of None \<Rightarrow> Some (-1, g1) | Some p \<Rightarrow> hdd_setup hash env g1 path p;
     if ret \<noteq> 0 then do { g3 \<leftarrow> destroy_hdd hash g2 hdd; Some (ret, g3) } else Some (ret, g2)
   }"

definition hdd_remove :: "(dev_t \<Rightarrow> u32) \<Rightarrow> gctx \<Rightarrow> ptr option \<Rightarrow> gctx option" where
  "hdd_remove hash g hdd = (case hdd of None \<Rightarrow> Some g | Some p \<Rightarrow> unload_hdd hash g p)"

definition hdd_unregister_by_hdd :: "(dev_t \<Rightarrow> u32) \<Rightarrow> gctx \<Rightarrow> ptr \<Rightarrow> gctx option" where
  "hdd_unregister_by_hdd hash g hdd = hdd_remove hash g (Some hdd)"

definition hdd_unregister :: "(dev_t \<Rightarrow> u32) \<Rightarrow> kenv \<Rightarrow> gctx \<Rightarrow> string \<Rightarrow> gctx option" where
  "hdd_unregister hash env g path =
     (case e_lookup env path of
        None \<Rightarrow> Some g
      | Some dev_t \<Rightarrow> do { hdd \<leftarrow> search_hdd hash g dev_t; hdd_remove hash g hdd })"

text \<open>
  The loop over the entries of a bucket: each is removed and moved to the list of those to be freed.
\<close>

definition remove_entry :: "(dev_t \<Rightarrow> u32) \<Rightarrow> ptr \<Rightarrow> gctx \<times> ptr list \<Rightarrow> (gctx \<times> ptr list) option" where
  "remove_entry hash p = (\<lambda>(g, l). do {
     g1 \<leftarrow> hdd_remove hash g (Some p);
     Some (g1\<lparr>g_hddtbl := table_delete p (g_hddtbl g1)\<rparr>, l @ [p])
   })"

definition hdd_unregister_all :: "(dev_t \<Rightarrow> u32) \<Rightarrow> gctx \<Rightarrow> gctx option" where
  "hdd_unregister_all hash g = do {
     (g1, l) \<leftarrow> for_each [0..<IOSTASH_MAXHDD_BCKTS] (\<lambda>i (g, l). for_each (g_hddtbl g i) (remove_entry hash) (g, l)) (g, []);
     let g2 = g1\<lparr>g_hdd := fold (\<lambda>p H. H(p := None)) l (g_hdd g1)\<rparr>;
     wait_for (g_nr_hdd g2 = 0);
     Some g2
   }"

text \<open>The search for the disk of a request, by the number of the device it is sent to.\<close>

definition hdd_search :: "(dev_t \<Rightarrow> u32) \<Rightarrow> gctx \<Rightarrow> dev_t \<Rightarrow> ptr option option" where
  "hdd_search hash g bi_dev = search_hdd hash g bi_dev"

section \<open>The table of the disks\<close>

definition hdds_ok :: "(dev_t \<Rightarrow> u32) \<Rightarrow> gctx \<Rightarrow> bool" where
  "hdds_ok hash g \<longleftrightarrow> table_ok hash 512 (g_hddtbl g) (hdd_dev g)"

lemma hdds_contract: "registry (search_hdd hash) (insert_hdd hash) hdd_dev (\<lambda>g. entries (g_hddtbl g)) (hdds_ok hash)"
proof unfold_locales
  fix g d p
  assume ok: "hdds_ok hash g"
  note t = ok [unfolded hdds_ok_def]
  show "search_hdd hash g d \<noteq> None" unfolding search_hdd_def by (rule table_search_returns [OF t])
  show "search_hdd hash g d = Some (Some p) \<longleftrightarrow> p \<in> entries (g_hddtbl g) \<and> hdd_dev g p = Some d"
    unfolding search_hdd_def by (rule table_search_iff [OF t])
  assume d: "hdd_dev g p = Some d" "d \<noteq> 0" "search_hdd hash g d = Some None"
  obtain tbl' where t': "table_insert hash 512 (g_hddtbl g) (hdd_dev g) p = Some tbl'" "table_ok hash 512 tbl' (hdd_dev g)"
    "entries tbl' = insert p (entries (g_hddtbl g))"
    by (rule table_insert_ok [OF t d(1,2)]) (use d(3) in \<open>simp add: search_hdd_def\<close>)
  have "hdd_dev (g\<lparr>g_hddtbl := tbl'\<rparr>) = hdd_dev g" by (simp add: hdd_dev_def fun_eq_iff)
  then show "\<exists>g'. insert_hdd hash g p = Some g' \<and> hdds_ok hash g' \<and> hdd_dev g' = hdd_dev g
      \<and> entries (g_hddtbl g') = insert p (entries (g_hddtbl g))"
    using t' by (simp add: insert_hdd_def hdds_ok_def)
qed

interpretation hdds: registry "search_hdd hash" "insert_hdd hash" hdd_dev "\<lambda>g. entries (g_hddtbl g)" "hdds_ok hash" for hash
  by (rule hdds_contract)

text \<open>
  An entry is online and complete, or it has been removed and holds nothing any more. Between the
  operations there are no other structures, a disk is hooked exactly as long as an online entry has
  it, and the counter is the number of these.
\<close>

definition hdd_shape :: "hdd_info \<Rightarrow> bool" where
  "hdd_shape h \<longleftrightarrow> (if h_online h
     then h_bdev h \<and> h_org_mapreq h \<and> h_io_pool h \<and> h_bs h \<and> h_io_queue h \<and> (\<exists>li < 256. h_lun h = Some li)
     else \<not> h_bdev h \<and> \<not> h_io_pool h \<and> \<not> h_bs h \<and> \<not> h_io_queue h \<and> h_lun h = None)"

definition on_disk :: "gctx \<Rightarrow> dev_t \<Rightarrow> ptr \<Rightarrow> bool" where
  "on_disk g d p \<longleftrightarrow> (\<exists>h. g_hdd g p = Some h \<and> h_online h \<and> h_disk h = d)"

definition online_hdds :: "gctx \<Rightarrow> ptr set" where
  "online_hdds g = {p. \<exists>h. g_hdd g p = Some h \<and> h_online h}"

text \<open>While all disks are removed, the structures in \<open>L\<close> have left the table and wait to be freed.\<close>

definition reg_but :: "(dev_t \<Rightarrow> u32) \<Rightarrow> ptr set \<Rightarrow> gctx \<Rightarrow> bool" where
  "reg_but hash L g \<longleftrightarrow> hdds_ok hash g \<and> dom (g_hdd g) = entries (g_hddtbl g) \<union> L \<and> finite (dom (g_hdd g))
     \<and> entries (g_hddtbl g) \<inter> L = {} \<and> online_hdds g \<inter> L = {}
     \<and> (\<forall>p h. g_hdd g p = Some h \<longrightarrow> hdd_shape h)
     \<and> g_nr_hdd g = of_nat (card (online_hdds g))
     \<and> (\<forall>d. g_queue g d \<longleftrightarrow> (\<exists>p. on_disk g d p)) \<and> (\<forall>d p q. on_disk g d p \<longrightarrow> on_disk g d q \<longrightarrow> p = q)
     \<and> sce_wf (g_sce g)"

abbreviation reg_ok :: "(dev_t \<Rightarrow> u32) \<Rightarrow> gctx \<Rightarrow> bool" where
  "reg_ok hash g \<equiv> reg_but hash {} g"

lemma reg_parts:
  assumes "reg_but hash L g"
  shows "hdds_ok hash g" "dom (g_hdd g) = entries (g_hddtbl g) \<union> L" "finite (dom (g_hdd g))"
    "\<And>p h. g_hdd g p = Some h \<Longrightarrow> hdd_shape h" "g_nr_hdd g = of_nat (card (online_hdds g))"
    "\<And>d. g_queue g d \<longleftrightarrow> (\<exists>p. on_disk g d p)" "\<And>d p q. on_disk g d p \<Longrightarrow> on_disk g d q \<Longrightarrow> p = q" "sce_wf (g_sce g)"
    "entries (g_hddtbl g) \<inter> L = {}" "online_hdds g \<inter> L = {}"
  using assms unfolding reg_but_def by blast+

lemma finite_online: "finite (dom (g_hdd g)) \<Longrightarrow> finite (online_hdds g)"
  by (rule finite_subset [of _ "dom (g_hdd g)"]) (auto simp: online_hdds_def)

section \<open>Unloading\<close>

definition unloaded :: "bool \<Rightarrow> hdd_info \<Rightarrow> hdd_info" where
  "unloaded b h = h\<lparr>h_online := h_online h \<and> \<not> b, h_io_queue := False, h_io_pool := False, h_bs := False, h_bdev := False, h_lun := None\<rparr>"

lemma unloaded_cases:
  "b \<and> h_online h \<Longrightarrow> unloaded b h = h\<lparr>h_online := False, h_io_queue := False, h_io_pool := False, h_bs := False, h_bdev := False, h_lun := None\<rparr>"
  "\<not> (b \<and> h_online h) \<Longrightarrow> unloaded b h = h\<lparr>h_io_queue := False, h_io_pool := False, h_bs := False, h_bdev := False, h_lun := None\<rparr>"
  by (cases h; auto simp: unloaded_def)+

definition hdd_quiet :: "gctx \<Rightarrow> ptr \<Rightarrow> bool" where
  "hdd_quiet g p \<longleftrightarrow> (\<forall>h. g_hdd g p = Some h \<longrightarrow> h_online h \<longrightarrow> h_io_pending h = 0 \<and> h_nr_ref h = 0)"

lemma search_hdd_same:
  "g_hddtbl g' = g_hddtbl g \<Longrightarrow> g_hdd g' = g_hdd g \<Longrightarrow> search_hdd hash g' = search_hdd hash g"
proof -
  assume a: "g_hddtbl g' = g_hddtbl g" "g_hdd g' = g_hdd g"
  have "hdd_dev g' = hdd_dev g" by (rule ext) (simp add: hdd_dev_def a(2))
  then show ?thesis by (intro ext) (simp add: search_hdd_def a(1))
qed

lemma unload_effect:
  fixes hash g p h
  defines "b \<equiv> p \<in> entries (g_hddtbl g)"
  assumes ok: "hdds_ok hash g" and h: "g_hdd g p = Some h" and lun: "\<And>li. h_lun h = Some li \<Longrightarrow> li < 256"
    and wf: "sce_wf (g_sce g)" and quiet: "b \<Longrightarrow> hdd_quiet g p"
  shows "returns (unload_hdd hash g p) (\<lambda>g'. \<exists>s. g' = g\<lparr>g_sce := s, g_hdd := (g_hdd g)(p \<mapsto> unloaded b h),
      g_nr_hdd := (if b \<and> h_online h then g_nr_hdd g - 1 else g_nr_hdd g),
      g_queue := (if h_org_mapreq h \<and> h_bdev h then (g_queue g)(h_disk h := False) else g_queue g)\<rparr>
    \<and> safe (g_sce g) s \<and> (h_lun h = None \<longrightarrow> s = g_sce g))"
proof -
  let ?g1 = "if h_org_mapreq h \<and> h_bdev h then g\<lparr>g_queue := (g_queue g)(h_disk h := False)\<rparr> else g"
  have "hdd_dev g p = Some (h_dev_t h)" using h by (simp add: hdd_dev_def)
  then have sb: "search_hdd hash g (h_dev_t h) = Some (Some p) \<longleftrightarrow> b" using hdds.search_iff [OF ok] by (simp add: b_def)
  obtain e where "search_hdd hash g (h_dev_t h) = Some e" using hdds.search_returns [OF ok, of "h_dev_t h"] by auto
  moreover have "search_hdd hash ?g1 = search_hdd hash g" by (rule search_hdd_same) simp_all
  ultimately have e: "search_hdd hash ?g1 (h_dev_t h) = Some e" "e = Some p \<longleftrightarrow> b" using sb by simp_all
  let ?g2 = "if b \<and> h_online h then (upd_hdd p (\<lambda>h. h\<lparr>h_online := False\<rparr>) ?g1)\<lparr>g_nr_hdd := g_nr_hdd ?g1 - 1\<rparr> else ?g1"
  obtain s where s: "case h_lun h of None \<Rightarrow> s = g_sce g | Some li \<Rightarrow> \<exists>r. sce_rmlun (g_sce g) (Some li) = Some (r, s)"
    "safe (g_sce g) s" "h_lun h = None \<longrightarrow> s = g_sce g"
  proof (cases "h_lun h")
    case None
    then show thesis using that safe_refl [OF wf] by simp
  next
    case (Some li)
    obtain r s' where "sce_rmlun (g_sce g) (Some li) = Some (r, s')" "safe (g_sce g) s'"
      using rmlun_safe [OF wf lun [OF Some]] by (auto elim!: returnsE)
    then show thesis using that [of s'] Some by simp
  qed
  have q: "b \<and> h_online h \<Longrightarrow> h_io_pending h = 0 \<and> h_nr_ref h = 0" using quiet h by (auto simp: hdd_quiet_def)
  let ?u = "\<lambda>h. h\<lparr>h_io_queue := False, h_io_pool := False, h_bs := False, h_bdev := False\<rparr>"
  have "unload_hdd hash g p = Some (upd_hdd p (\<lambda>h. h\<lparr>h_lun := None\<rparr>) ((upd_hdd p ?u ?g2)\<lparr>g_sce := s\<rparr>))"
  proof (cases "h_lun h")
    case None
    then show ?thesis using s(1) q by (simp add: unload_hdd_def h e Let_def wait_for_def upd_hdd_def)
  next
    case (Some li)
    then obtain r where "sce_rmlun (g_sce g) (Some li) = Some (r, s)" using s(1) by auto
    then show ?thesis using Some q by (simp add: unload_hdd_def h e Let_def wait_for_def upd_hdd_def)
  qed
  moreover have "upd_hdd p (\<lambda>h. h\<lparr>h_lun := None\<rparr>) ((upd_hdd p ?u ?g2)\<lparr>g_sce := s\<rparr>)
    = g\<lparr>g_sce := s, g_hdd := (g_hdd g)(p \<mapsto> unloaded b h),
      g_nr_hdd := (if b \<and> h_online h then g_nr_hdd g - 1 else g_nr_hdd g),
      g_queue := (if h_org_mapreq h \<and> h_bdev h then (g_queue g)(h_disk h := False) else g_queue g)\<rparr>"
    by (rule gctx.equality) (simp_all add: upd_hdd_def unloaded_cases h)
  ultimately show ?thesis using s(2,3) by auto
qed

section \<open>Registration\<close>

lemma hdds_same:
  assumes "g_hddtbl g' = g_hddtbl g" "hdd_dev g' = hdd_dev g"
  shows "hdds_ok hash g' = hdds_ok hash g" "search_hdd hash g' = search_hdd hash g"
  by (simp add: hdds_ok_def assms) (rule ext, simp add: search_hdd_def assms)

text \<open>
  What is documented of the kernel: a device number is not 0, an allocation gives a structure that
  is not in use. The path fits, the disk is not too large, and the log of missed reads names
  no fragment of the new LUN (see \<^verbatim>\<open>addlun_adds\<close>).
\<close>

definition env_ok :: "kenv \<Rightarrow> gctx \<Rightarrow> string \<Rightarrow> bool" where
  "env_ok env g path \<longleftrightarrow> length path < 80 \<and> e_lookup env path \<noteq> Some 0 \<and> (\<forall>p. e_alloc env = Some p \<longrightarrow> g_hdd g p = None)
     \<and> (\<forall>b. open_whole env path = Some b \<longrightarrow> unat (bd_nr_sects b) \<le> 2048 * (2 ^ 32 - 2)
         \<and> (\<forall>i. List.find (\<lambda>i. l_fragmap (luntbl (g_sce g) i) = None) [0..<256] = Some i \<longrightarrow>
              log_fits (g_sce g) i (unat (nr_frag_of (bd_nr_sects b)))))"

text \<open>A structure that is being set up, and one that is ready.\<close>

definition being_set_up :: "ptr \<Rightarrow> dev_t \<Rightarrow> gctx \<Rightarrow> gctx \<Rightarrow> bool" where
  "being_set_up p d g g2 \<longleftrightarrow> (\<exists>h s. g2 = g\<lparr>g_hdd := (g_hdd g)(p \<mapsto> h), g_sce := s\<rparr> \<and> sce_wf s \<and> view s = view (g_sce g)
     \<and> \<not> h_online h \<and> \<not> h_org_mapreq h \<and> h_dev_t h = d \<and> (\<forall>li. h_lun h = Some li \<longrightarrow> li < 256))"

definition hdd_ready :: "string \<Rightarrow> dev_t \<Rightarrow> bdev \<Rightarrow> nat \<Rightarrow> hdd_info" where
  "hdd_ready path d b li = hdd_zero\<lparr>h_path := path, h_dev_t := d, h_bdev := True, h_disk := bd_contains b,
     h_nr_sctr := bd_nr_sects b, h_part_end := bd_nr_sects b - 1, h_io_pool := True, h_bs := True, h_io_queue := True,
     h_lun := Some li, h_online := True, h_org_mapreq := True\<rparr>"

definition set_up :: "(dev_t \<Rightarrow> u32) \<Rightarrow> kenv \<Rightarrow> string \<Rightarrow> ptr \<Rightarrow> dev_t \<Rightarrow> gctx \<Rightarrow> gctx \<Rightarrow> bool" where
  "set_up hash env path p d g g2 \<longleftrightarrow> (\<exists>b li s tbl. open_whole env path = Some b \<and> \<not> bd_ssd_holder b \<and> \<not> g_queue g (bd_contains b)
     \<and> lun_added li (bd_nr_sects b) p (g_sce g) s
     \<and> g2 = g\<lparr>g_hdd := (g_hdd g)(p \<mapsto> hdd_ready path d b li), g_sce := s, g_hddtbl := tbl,
          g_queue := (g_queue g)(bd_contains b := True), g_nr_hdd := g_nr_hdd g + 1\<rparr>
     \<and> hdds_ok hash g2 \<and> entries tbl = insert p (entries (g_hddtbl g))
     \<and> search_hdd hash g2 = (search_hdd hash g)(d := Some (Some p)))"

lemma upd_hdd_at [simp]:
  "upd_hdd p f (g\<lparr>g_hdd := (g_hdd g)(p \<mapsto> h)\<rparr>) = g\<lparr>g_hdd := (g_hdd g)(p \<mapsto> f h)\<rparr>"
  "upd_hdd p f (g\<lparr>g_hdd := (g_hdd g)(p \<mapsto> h), g_sce := s\<rparr>) = g\<lparr>g_hdd := (g_hdd g)(p \<mapsto> f h), g_sce := s\<rparr>"
  "upd_hdd p f (g\<lparr>g_hdd := (g_hdd g)(p \<mapsto> h), g_sce := s, g_hddtbl := t\<rparr>)
     = g\<lparr>g_hdd := (g_hdd g)(p \<mapsto> f h), g_sce := s, g_hddtbl := t\<rparr>"
  by (simp_all add: upd_hdd_def)

lemma hdds_ok_at:
  assumes ok: "hdds_ok hash g" and p: "p \<notin> entries (g_hddtbl g)"
  shows "hdds_ok hash (g\<lparr>g_hdd := (g_hdd g)(p := x), g_sce := s\<rparr>)"
    "search_hdd hash (g\<lparr>g_hdd := (g_hdd g)(p := x), g_sce := s\<rparr>) = search_hdd hash g"
proof -
  let ?g = "g\<lparr>g_hdd := (g_hdd g)(p := x), g_sce := s\<rparr>"
  have dev: "hdd_dev ?g q = hdd_dev g q" if "q \<in> entries (g_hddtbl g)" for q
    using that p by (auto simp: hdd_dev_def)
  have "table_ok hash 512 (g_hddtbl g) (hdd_dev ?g)"
    by (rule table_ok_cong [OF ok [unfolded hdds_ok_def] dev])
  then show "hdds_ok hash ?g" by (simp add: hdds_ok_def)
  have "table_search hash 512 (g_hddtbl g) (hdd_dev ?g) e = table_search hash 512 (g_hddtbl g) (hdd_dev g) e" for e
    by (rule table_search_cong [OF ok [unfolded hdds_ok_def] dev])
  then show "search_hdd hash ?g = search_hdd hash g" by (intro ext) (simp add: search_hdd_def)
qed

lemma setup_inserts:
  assumes ok: "hdds_ok hash g" and p: "p \<notin> entries (g_hddtbl g)" and d: "d \<noteq> 0" "search_hdd hash g d = Some None"
    and b: "open_whole env path = Some b" "\<not> bd_ssd_holder b" "\<not> g_queue g (bd_contains b)"
    and lun: "lun_added li (bd_nr_sects b) p (g_sce g) s"
    and h: "h_dev_t h = d" "h\<lparr>h_online := True, h_org_mapreq := True\<rparr> = hdd_ready path d b li"
  obtains g7 where "insert_hdd hash (g\<lparr>g_hdd := (g_hdd g)(p \<mapsto> h), g_sce := s\<rparr>) p = Some g7"
    "set_up hash env path p d g ((upd_hdd p (\<lambda>h. h\<lparr>h_online := True, h_org_mapreq := True\<rparr>) g7)
       \<lparr>g_queue := (g_queue g7)(bd_contains b := True), g_nr_hdd := g_nr_hdd g7 + 1\<rparr>)"
proof -
  let ?g6 = "g\<lparr>g_hdd := (g_hdd g)(p \<mapsto> h), g_sce := s\<rparr>"
  note at = hdds_ok_at [OF ok p, where x = "Some h" and s = s]
  have dp: "hdd_dev ?g6 p = Some d" by (simp add: hdd_dev_def h(1))
  have s6: "search_hdd hash ?g6 d = Some None" using at(2) d(2) by simp
  obtain g7 where g7: "insert_hdd hash ?g6 p = Some g7" "hdds_ok hash g7" "hdd_dev g7 = hdd_dev ?g6"
    "entries (g_hddtbl g7) = insert p (entries (g_hddtbl g))"
    using hdds.insert_new [OF at(1) dp d(1) s6] by auto
  have se: "search_hdd hash g7 = (search_hdd hash g)(d := Some (Some p))"
    using hdds.search_insert [OF at(1) dp d(1) s6] g7(1) at(2) by auto
  obtain tbl where tbl: "g7 = ?g6\<lparr>g_hddtbl := tbl\<rparr>" using g7(1) by (auto simp: insert_hdd_def)
  let ?g8 = "(upd_hdd p (\<lambda>h. h\<lparr>h_online := True, h_org_mapreq := True\<rparr>) g7)
       \<lparr>g_queue := (g_queue g7)(bd_contains b := True), g_nr_hdd := g_nr_hdd g7 + 1\<rparr>"
  have g8: "?g8 = g\<lparr>g_hdd := (g_hdd g)(p \<mapsto> hdd_ready path d b li), g_sce := s, g_hddtbl := tbl,
          g_queue := (g_queue g)(bd_contains b := True), g_nr_hdd := g_nr_hdd g + 1\<rparr>"
    by (simp add: tbl h(2))
  have "h_dev_t (hdd_ready path d b li) = d" by (simp add: hdd_ready_def)
  then have "hdd_dev ?g8 = hdd_dev g7" unfolding g8 by (auto simp: hdd_dev_def fun_eq_iff tbl h(1))
  moreover have "g_hddtbl ?g8 = g_hddtbl g7" by (simp add: upd_hdd_def)
  ultimately have "hdds_ok hash ?g8" "search_hdd hash ?g8 = search_hdd hash g7"
    using g7(2) hdds_same [of ?g8 g7 hash] by simp_all
  then have "set_up hash env path p d g ?g8"
    unfolding set_up_def using b lun g8 g7(4) se tbl by auto
  then show thesis using that g7(1) by blast
qed

lemma setup_effect:
  fixes hash g path p d
  defines "g1 \<equiv> g\<lparr>g_hdd := (g_hdd g)(p \<mapsto> hdd_zero\<lparr>h_path := path, h_dev_t := d\<rparr>)\<rparr>"
  assumes ok: "hdds_ok hash g" and p: "p \<notin> entries (g_hddtbl g)" and d: "d \<noteq> 0" "search_hdd hash g d = Some None"
    and wf: "sce_wf (g_sce g)" and env: "env_ok env g path"
  shows "returns (hdd_setup hash env g1 path p) (\<lambda>(r, g2). if r = 0 then set_up hash env path p d g g2 else being_set_up p d g g2)"
proof -
  let ?h0 = "hdd_zero\<lparr>h_path := path, h_dev_t := d\<rparr>"
  have early: "being_set_up p d g (g\<lparr>g_hdd := (g_hdd g)(p \<mapsto> h)\<rparr>)"
    if "\<not> h_online h" "\<not> h_org_mapreq h" "h_dev_t h = d" "h_lun h = None" for h
    unfolding being_set_up_def by (rule exI [of _ h], rule exI [of _ "g_sce g"]) (use that wf in simp)
  have z: "\<not> h_online ?h0" "\<not> h_org_mapreq ?h0" "h_dev_t ?h0 = d" "h_lun ?h0 = None" by (simp_all add: hdd_zero_def)
  show ?thesis
  proof (cases "open_whole env path")
    case None
    then show ?thesis using early [OF z] by (simp add: hdd_setup_def g1_def)
  next
    case (Some b)
    define h5 where "h5 = ?h0\<lparr>h_bdev := True, h_disk := bd_contains b, h_nr_sctr := bd_nr_sects b, h_part_start := 0,
      h_part_end := 0 + bd_nr_sects b - 1, h_io_pool := True, h_bs := True, h_io_queue := True\<rparr>"
    show ?thesis
    proof (cases "bd_ssd_holder b \<or> g_queue g (bd_contains b) \<or> \<not> e_io_pool env \<or> \<not> e_bioset env \<or> \<not> e_workqueue env")
      case True
      then show ?thesis using early z by (auto simp: hdd_setup_def g1_def Some Let_def)
    next
      case False
      then have b: "\<not> bd_ssd_holder b" "\<not> g_queue g (bd_contains b)" and e: "e_io_pool env" "e_bioset env" "e_workqueue env"
        by blast+
      obtain lun s where a: "sce_addlun (e_vmalloc env) (g_sce g) (bd_nr_sects b) p = (lun, s)" by force
      let ?g6 = "g\<lparr>g_hdd := (g_hdd g)(p \<mapsto> h5\<lparr>h_lun := lun\<rparr>), g_sce := s\<rparr>"
      have hs: "hdd_setup hash env g1 path p = (if lun = None then Some (-1, ?g6)
        else if e_kobj env \<noteq> 0 then Some (e_kobj env, ?g6)
        else do {
          g7 \<leftarrow> insert_hdd hash ?g6 p;
          Some (0, (upd_hdd p (\<lambda>h. h\<lparr>h_online := True, h_org_mapreq := True\<rparr>) g7)
            \<lparr>g_queue := (g_queue g7)(bd_contains b := True), g_nr_hdd := g_nr_hdd g7 + 1\<rparr>)
        })"
        using b e a by (simp add: hdd_setup_def g1_def Some Let_def h5_def)
      have out: "case lun of None \<Rightarrow> safe (g_sce g) s \<and> view s = view (g_sce g)
          | Some i \<Rightarrow> lun_added i (bd_nr_sects b) p (g_sce g) s"
        using addlun_outcome [OF wf, where ns = "bd_nr_sects b" and ok = "e_vmalloc env" and ctx = p] env Some a by (simp add: env_ok_def split: option.splits)
      then have wf': "sce_wf s" "view s = view (g_sce g)" by (auto simp: safe_def lun_added_def split: option.splits)
      have li: "li < 256" if "lun = Some li" for li using out that by (simp add: lun_added_def)
      have pend: "being_set_up p d g ?g6"
        unfolding being_set_up_def
        by (rule exI [of _ "h5\<lparr>h_lun := lun\<rparr>"], rule exI [of _ s]) (use wf' z li in \<open>simp add: h5_def\<close>)
      show ?thesis
      proof (cases "lun = None \<or> e_kobj env \<noteq> 0")
        case True
        then show ?thesis using pend by (auto simp: hs)
      next
        case False
        then obtain l where l: "lun = Some l" by auto
        have "lun_added l (bd_nr_sects b) p (g_sce g) s" using out l by simp
        moreover have "h5\<lparr>h_lun := lun, h_online := True, h_org_mapreq := True\<rparr> = hdd_ready path d b l"
          by (simp add: h5_def hdd_ready_def l hdd_zero_def)
        ultimately obtain g7 where "insert_hdd hash ?g6 p = Some g7"
          "set_up hash env path p d g ((upd_hdd p (\<lambda>h. h\<lparr>h_online := True, h_org_mapreq := True\<rparr>) g7)
            \<lparr>g_queue := (g_queue g7)(bd_contains b := True), g_nr_hdd := g_nr_hdd g7 + 1\<rparr>)"
          using z(3) by (auto intro: setup_inserts [OF ok p d Some b, where h = "h5\<lparr>h_lun := lun\<rparr>" and s = s] simp: h5_def)
        then show ?thesis using False l by (simp add: hs)
      qed
    qed
  qed
qed

lemma register_refused:
  assumes ok: "hdds_ok hash g" and d: "e_lookup env path = Some d" "search_hdd hash g d = Some (Some p)"
  shows "hdd_register hash env g path = Some (-1, g)"
  using d by (simp add: hdd_register_def alloc_hdd_def destroy_hdd_def)

text \<open>
  A registration adds an online entry, or leaves everything but the engine as it was, in which no
  page is cached that was not.
\<close>

lemma register_effect:
  assumes reg: "reg_ok hash g" and env: "env_ok env g path"
  shows "returns (hdd_register hash env g path) (\<lambda>(r, g').
    if r = 0 then \<exists>p d. e_lookup env path = Some d \<and> d \<noteq> 0 \<and> g_hdd g p = None \<and> search_hdd hash g d = Some None
      \<and> set_up hash env path p d g g'
    else \<exists>s. g' = g\<lparr>g_sce := s\<rparr> \<and> sce_wf s \<and> view_le s (g_sce g))"
proof -
  note r = reg_parts [OF reg]
  have same: "\<exists>s. g = g\<lparr>g_sce := s\<rparr> \<and> sce_wf s \<and> view_le s (g_sce g)" by (rule exI [of _ "g_sce g"]) (simp add: r(8))
  show ?thesis
  proof (cases "e_lookup env path")
    case None
    then show ?thesis using same by (simp add: hdd_register_def alloc_hdd_def destroy_hdd_def)
  next
    case (Some d)
    then have d: "d \<noteq> 0" using env by (auto simp: env_ok_def)
    obtain e where e: "search_hdd hash g d = Some e" using hdds.search_returns [OF r(1), of d] by auto
    show ?thesis
    proof (cases "e \<noteq> None \<or> e_alloc env = None")
      case True
      then show ?thesis using same e Some
        by (auto simp: hdd_register_def alloc_hdd_def destroy_hdd_def split: option.splits)
    next
      case False
      then obtain p where p: "e_alloc env = Some p" and e0: "search_hdd hash g d = Some None" using e by auto
      have fresh: "g_hdd g p = None" and len: "length path < 80" using env p by (simp_all add: env_ok_def)
      then have np: "p \<notin> entries (g_hddtbl g)" using r(2) by auto
      let ?g1 = "g\<lparr>g_hdd := (g_hdd g)(p \<mapsto> hdd_zero\<lparr>h_path := path, h_dev_t := d\<rparr>)\<rparr>"
      have al: "alloc_hdd hash env g path = Some (Some p, ?g1)"
        using Some e0 p len by (simp add: alloc_hdd_def bug_on_def)
      obtain ret g2 where st: "hdd_setup hash env ?g1 path p = Some (ret, g2)"
        and post: "if ret = 0 then set_up hash env path p d g g2 else being_set_up p d g g2"
        using setup_effect [OF r(1) np d e0 r(8) env] by (auto elim!: returnsE)
      show ?thesis
      proof (cases "ret = 0")
        case True
        then show ?thesis using post Some d fresh e0 by (auto simp: hdd_register_def al st)
      next
        case False
        then obtain h s where g2: "g2 = g\<lparr>g_hdd := (g_hdd g)(p \<mapsto> h), g_sce := s\<rparr>" and s: "sce_wf s" "view s = view (g_sce g)"
          and h: "\<not> h_online h" "\<not> h_org_mapreq h" "h_dev_t h = d" "\<forall>li. h_lun h = Some li \<longrightarrow> li < 256"
          using post by (auto simp: being_set_up_def)
        have ok2: "hdds_ok hash g2" unfolding g2 by (rule hdds_ok_at(1) [OF r(1) np])
        have "returns (unload_hdd hash g2 p) (\<lambda>g'. \<exists>t. g' = g2\<lparr>g_sce := t, g_hdd := (g_hdd g2)(p \<mapsto> unloaded (p \<in> entries (g_hddtbl g2)) h),
            g_nr_hdd := (if p \<in> entries (g_hddtbl g2) \<and> h_online h then g_nr_hdd g2 - 1 else g_nr_hdd g2),
            g_queue := (if h_org_mapreq h \<and> h_bdev h then (g_queue g2)(h_disk h := False) else g_queue g2)\<rparr>
          \<and> safe (g_sce g2) t \<and> (h_lun h = None \<longrightarrow> t = g_sce g2))"
          by (rule unload_effect [OF ok2]) (use h(4) s(1) np in \<open>simp_all add: g2\<close>)
        then obtain t where t: "unload_hdd hash g2 p = Some (g2\<lparr>g_sce := t, g_hdd := (g_hdd g2)(p \<mapsto> unloaded False h)\<rparr>)" "safe s t"
          using np h(1,2) by (auto simp: g2 elim!: returnsE)
        have "destroy_hdd hash g2 (Some p) = Some (g\<lparr>g_sce := t\<rparr>)"
          using fresh by (simp add: destroy_hdd_def t(1)) (simp add: g2 fun_upd_idem)
        moreover have "sce_wf t" "view_le t (g_sce g)"
          using t(2) s(2) by (simp_all add: safe_def view_le_def)
        ultimately show ?thesis using False by (simp add: hdd_register_def al st) blast
      qed
    qed
  qed
qed

lemma set_up_reg_ok:
  assumes reg: "reg_ok hash g" and new: "g_hdd g p = None" and su: "set_up hash env path p d g g'"
  shows "reg_ok hash g'"
proof -
  note r = reg_parts [OF reg]
  obtain b li s tbl where b: "\<not> g_queue g (bd_contains b)" and lun: "lun_added li (bd_nr_sects b) p (g_sce g) s"
    and g': "g' = g\<lparr>g_hdd := (g_hdd g)(p \<mapsto> hdd_ready path d b li), g_sce := s, g_hddtbl := tbl,
          g_queue := (g_queue g)(bd_contains b := True), g_nr_hdd := g_nr_hdd g + 1\<rparr>"
    and ok: "hdds_ok hash g'" and en: "entries tbl = insert p (entries (g_hddtbl g))"
    using su by (auto simp: set_up_def)
  have h: "h_online (hdd_ready path d b li)" "h_disk (hdd_ready path d b li) = bd_contains b"
    "hdd_shape (hdd_ready path d b li)"
    using lun by (simp_all add: hdd_ready_def hdd_shape_def lun_added_def)
  have disk: "on_disk g' e q \<longleftrightarrow> (if q = p then e = bd_contains b else on_disk g e q)" for e q
    using h by (auto simp: on_disk_def g')
  have fresh: "\<not> on_disk g (bd_contains b) q" for q using b r(6) by blast
  have np: "\<not> on_disk g e p" for e using new by (simp add: on_disk_def)
  have on: "online_hdds g' = insert p (online_hdds g)" using h(1) by (auto simp: online_hdds_def g')
  have "p \<notin> online_hdds g" using new by (simp add: online_hdds_def)
  then have "card (online_hdds g') = card (online_hdds g) + 1" using finite_online [OF r(3)] on by simp
  then have nr: "g_nr_hdd g' = of_nat (card (online_hdds g'))" using r(5) by (simp add: g')
  show ?thesis
    unfolding reg_but_def
  proof (intro conjI allI impI)
    show "dom (g_hdd g') = entries (g_hddtbl g') \<union> {}" using r(2) en by (simp add: g')
    show "finite (dom (g_hdd g'))" using r(3) by (simp add: g')
    show "hdd_shape k" if "g_hdd g' q = Some k" for q k
      using that r(4) h(3) by (cases "q = p") (simp_all add: g')
    show "g_queue g' e \<longleftrightarrow> (\<exists>q. on_disk g' e q)" for e
    proof (cases "e = bd_contains b")
      case False
      then have "g_queue g' e \<longleftrightarrow> (\<exists>q. on_disk g e q)" using r(6) by (simp add: g')
      then show ?thesis using np disk False by metis
    next
      case True
      then have "on_disk g' e p" "g_queue g' e" using disk by (simp_all add: g')
      then show ?thesis by blast
    qed
    show "q = q'" if "on_disk g' e q" "on_disk g' e q'" for e q q'
      using that r(7) fresh unfolding disk by (auto split: if_splits)
    show "sce_wf (g_sce g')" using lun by (simp add: g' lun_added_def)
  qed (simp_all add: ok nr)
qed

text \<open>Removing an entry that is online unhooks its disk; an entry that is not is left as it is.\<close>

definition removed :: "ptr \<Rightarrow> hdd_info \<Rightarrow> gctx \<Rightarrow> gctx \<Rightarrow> bool" where
  "removed p h g g' \<longleftrightarrow> (\<exists>s. g' = g\<lparr>g_sce := s, g_hdd := (g_hdd g)(p \<mapsto> unloaded True h), g_nr_hdd := g_nr_hdd g - 1,
     g_queue := (g_queue g)(h_disk h := False)\<rparr> \<and> safe (g_sce g) s)"

lemma unload_entry:
  assumes reg: "reg_but hash L g" and p: "p \<in> entries (g_hddtbl g)" and h: "g_hdd g p = Some h" and quiet: "hdd_quiet g p"
  shows "returns (unload_hdd hash g p) (\<lambda>g'. if h_online h then removed p h g g' else g' = g)"
proof -
  note r = reg_parts [OF reg]
  have sh: "hdd_shape h" by (rule r(4) [OF h])
  have li: "h_lun h = Some li \<Longrightarrow> li < 256" for li using sh by (auto simp: hdd_shape_def split: if_splits)
  have u: "returns (unload_hdd hash g p) (\<lambda>g'. \<exists>s. g' = g\<lparr>g_sce := s, g_hdd := (g_hdd g)(p \<mapsto> unloaded (p \<in> entries (g_hddtbl g)) h),
      g_nr_hdd := (if p \<in> entries (g_hddtbl g) \<and> h_online h then g_nr_hdd g - 1 else g_nr_hdd g),
      g_queue := (if h_org_mapreq h \<and> h_bdev h then (g_queue g)(h_disk h := False) else g_queue g)\<rparr>
    \<and> safe (g_sce g) s \<and> (h_lun h = None \<longrightarrow> s = g_sce g))"
    by (rule unload_effect [OF r(1) h li r(8) quiet])
  show ?thesis
  proof (cases "h_online h")
    case True
    then have "h_org_mapreq h" "h_bdev h" using sh by (simp_all add: hdd_shape_def)
    then show ?thesis using u p True by (auto simp: removed_def elim!: returns_mono)
  next
    case False
    then have off: "\<not> h_bdev h" "h_lun h = None" "unloaded True h = h"
      using sh by (auto simp: hdd_shape_def unloaded_def)
    have "(g_hdd g)(p \<mapsto> h) = g_hdd g" using h by (simp add: fun_upd_idem)
    then show ?thesis using u p False off by (auto elim!: returns_mono)
  qed
qed

lemma removed_reg_ok:
  assumes reg: "reg_but hash L g" and h: "g_hdd g p = Some h" "h_online h" and rm: "removed p h g g'"
  shows "reg_but hash L g'" "search_hdd hash g' = search_hdd hash g" "online_hdds g' = online_hdds g - {p}"
proof -
  note r = reg_parts [OF reg]
  obtain s where g': "g' = g\<lparr>g_sce := s, g_hdd := (g_hdd g)(p \<mapsto> unloaded True h), g_nr_hdd := g_nr_hdd g - 1,
     g_queue := (g_queue g)(h_disk h := False)\<rparr>" and s: "safe (g_sce g) s"
    using rm by (auto simp: removed_def)
  have "h_dev_t (unloaded True h) = h_dev_t h" by (simp add: unloaded_def)
  then have dev: "hdd_dev g' = hdd_dev g" using h(1) by (auto simp: hdd_dev_def fun_eq_iff g')
  have tbl: "g_hddtbl g' = g_hddtbl g" by (simp add: g')
  note same = hdds_same [OF tbl dev, of hash]
  show "search_hdd hash g' = search_hdd hash g" by (rule same(2))
  have off: "\<not> h_online (unloaded True h)" "hdd_shape (unloaded True h)" by (simp_all add: unloaded_def hdd_shape_def)
  show on: "online_hdds g' = online_hdds g - {p}" using off(1) by (auto simp: online_hdds_def g')
  have pin: "p \<in> online_hdds g" using h by (simp add: online_hdds_def)
  then have "card (online_hdds g) = Suc (card (online_hdds g'))"
    unfolding on using finite_online [OF r(3)] by (metis card_Suc_Diff1)
  then have "(of_nat (card (online_hdds g)) :: u32) = of_nat (card (online_hdds g')) + 1" by simp
  moreover have "g_nr_hdd g' = g_nr_hdd g - 1" by (simp add: g')
  ultimately have nr: "g_nr_hdd g' = of_nat (card (online_hdds g'))" using r(5) by simp
  have ph: "on_disk g (h_disk h) p" using h by (simp add: on_disk_def)
  have disk: "on_disk g' e q \<longleftrightarrow> q \<noteq> p \<and> on_disk g e q" for e q using off(1) by (auto simp: on_disk_def g')
  show "reg_but hash L g'"
    unfolding reg_but_def
  proof (intro conjI allI impI)
    show "hdds_ok hash g'" using same(1) r(1) by simp
    show "dom (g_hdd g') = entries (g_hddtbl g') \<union> L" using r(2) h(1) by (auto simp: g')
    show "entries (g_hddtbl g') \<inter> L = {}" using r(9) by (simp add: g')
    show "online_hdds g' \<inter> L = {}" using r(10) on by blast
    show "finite (dom (g_hdd g'))" using r(3) by (simp add: g')
    show "hdd_shape k" if "g_hdd g' q = Some k" for q k
      using that r(4) off(2) by (cases "q = p") (simp_all add: g')
    show "g_queue g' e \<longleftrightarrow> (\<exists>q. on_disk g' e q)" for e
    proof (cases "e = h_disk h")
      case True
      then have "\<not> on_disk g e q" if "q \<noteq> p" for q using that r(7) ph by blast
      moreover have "\<not> g_queue g' e" using True by (simp add: g')
      ultimately show ?thesis using disk by blast
    next
      case False
      then have "\<not> on_disk g e p" using h by (auto simp: on_disk_def)
      moreover have "g_queue g' e = g_queue g e" using False by (simp add: g')
      ultimately show ?thesis using r(6) [of e] disk by metis
    qed
    show "q = q'" if "on_disk g' e q" "on_disk g' e q'" for e q q' using that r(7) disk by blast
    show "sce_wf (g_sce g')" using s by (simp add: g' safe_def)
  qed (fact nr)
qed

lemma reg_but_engine:
  assumes "reg_but hash L g" "sce_wf s" shows "reg_but hash L (g\<lparr>g_sce := s\<rparr>)"
proof -
  have "hdd_dev (g\<lparr>g_sce := s\<rparr>) = hdd_dev g" "on_disk (g\<lparr>g_sce := s\<rparr>) = on_disk g" "online_hdds (g\<lparr>g_sce := s\<rparr>) = online_hdds g"
    by (auto simp: hdd_dev_def on_disk_def online_hdds_def fun_eq_iff)
  then show ?thesis using assms unfolding reg_but_def hdds_ok_def by simp
qed

text \<open>What \<^verbatim>\<open>hdd_unregister\<close> leaves: the entry stays in its bucket.\<close>

lemma unregister_effect:
  assumes reg: "reg_ok hash g" and d: "e_lookup env path = Some d" and quiet: "\<And>p. hdd_quiet g p"
  shows "returns (hdd_unregister hash env g path) (\<lambda>g'. reg_ok hash g' \<and> search_hdd hash g' = search_hdd hash g
    \<and> (\<forall>p. search_hdd hash g d = Some (Some p) \<longrightarrow> p \<notin> online_hdds g' \<and> (\<exists>h. g_hdd g p = Some h
         \<and> (if h_online h then removed p h g g' else g' = g))))"
proof -
  note r = reg_parts [OF reg]
  obtain e where e: "search_hdd hash g d = Some e" using hdds.search_returns [OF r(1), of d] by auto
  show ?thesis
  proof (cases e)
    case None
    then show ?thesis using e d reg by (simp add: hdd_unregister_def hdd_remove_def)
  next
    case (Some p)
    then have p: "p \<in> entries (g_hddtbl g)" using hdds.search_iff [OF r(1), of d p] e by simp
    then obtain h where h: "g_hdd g p = Some h" using r(2) by blast
    obtain g' where g': "unload_hdd hash g p = Some g'" "if h_online h then removed p h g g' else g' = g"
      by (rule returnsE [OF unload_entry [OF reg p h quiet]])
    have "reg_ok hash g' \<and> search_hdd hash g' = search_hdd hash g \<and> p \<notin> online_hdds g'"
    proof (cases "h_online h")
      case True
      then show ?thesis using removed_reg_ok [OF reg h True, of g'] g'(2) by simp
    next
      case False
      then show ?thesis using reg g'(2) h by (simp add: online_hdds_def)
    qed
    then show ?thesis using e d Some h g' by (simp add: hdd_unregister_def hdd_remove_def)
  qed
qed

section \<open>Removing all disks\<close>

definition ssds_same :: "gctx \<Rightarrow> gctx \<Rightarrow> bool" where
  "ssds_same g g' \<longleftrightarrow> g_ssd g' = g_ssd g \<and> g_ssdtbl g' = g_ssdtbl g \<and> g_nr_ssd g' = g_nr_ssd g"

lemma reg_but_delete:
  assumes reg: "reg_but hash L g" and p: "p \<in> entries (g_hddtbl g)" "p \<notin> online_hdds g"
  shows "reg_but hash (insert p L) (g\<lparr>g_hddtbl := table_delete p (g_hddtbl g)\<rparr>)"
proof -
  note r = reg_parts [OF reg]
  let ?g = "g\<lparr>g_hddtbl := table_delete p (g_hddtbl g)\<rparr>"
  have "hdd_dev ?g = hdd_dev g" by (rule ext) (simp add: hdd_dev_def)
  then have "hdds_ok hash ?g" using table_delete_ok [OF r(1) [unfolded hdds_ok_def]] by (simp add: hdds_ok_def)
  moreover have "online_hdds ?g = online_hdds g" "\<And>d q. on_disk ?g d q = on_disk g d q"
    by (simp_all add: online_hdds_def on_disk_def)
  moreover have "entries (table_delete p (g_hddtbl g)) \<union> insert p L = entries (g_hddtbl g) \<union> L"
    using p(1) by (auto simp: entries_delete)
  ultimately show ?thesis
    unfolding reg_but_def using reg p(2) r(9) by (auto simp: reg_but_def entries_delete)
qed

lemma remove_entry_step:
  assumes reg: "reg_but hash (set l) g" and p: "p \<in> entries (g_hddtbl g)" and quiet: "\<And>q. hdd_quiet g q"
  shows "returns (remove_entry hash p (g, l)) (\<lambda>(g', l'). l' = l @ [p] \<and> reg_but hash (set l') g'
    \<and> g_hddtbl g' = table_delete p (g_hddtbl g) \<and> (\<forall>q. hdd_quiet g' q) \<and> ssds_same g g')"
proof -
  note r = reg_parts [OF reg]
  obtain h where h: "g_hdd g p = Some h" using r(2) p by blast
  obtain g1 where g1: "unload_hdd hash g p = Some g1" "if h_online h then removed p h g g1 else g1 = g"
    by (rule returnsE [OF unload_entry [OF reg p h quiet]])
  have "reg_but hash (set l) g1 \<and> g_hddtbl g1 = g_hddtbl g \<and> p \<notin> online_hdds g1 \<and> (\<forall>q. hdd_quiet g1 q) \<and> ssds_same g g1"
  proof (cases "h_online h")
    case True
    then have rm: "removed p h g g1" using g1(2) by simp
    then have "hdd_quiet g1 q" for q
      using quiet [of q] by (auto simp: removed_def hdd_quiet_def unloaded_def split: if_splits)
    then show ?thesis using removed_reg_ok [OF reg h True rm] rm by (auto simp: removed_def ssds_same_def)
  next
    case False
    then show ?thesis using g1(2) reg quiet h by (simp add: online_hdds_def ssds_same_def)
  qed
  then show ?thesis using reg_but_delete [of hash "set l" g1 p] p g1(1)
    by (auto simp: remove_entry_def hdd_remove_def hdd_quiet_def ssds_same_def)
qed

text \<open>A bucket is emptied, and the others stay.\<close>

lemma remove_bucket:
  assumes reg: "reg_but hash (set l) g" and quiet: "\<And>q. hdd_quiet g q"
  shows "returns (for_each (g_hddtbl g i) (remove_entry hash) (g, l)) (\<lambda>(g', l'). reg_but hash (set l') g'
    \<and> g_hddtbl g' = (g_hddtbl g)(i := []) \<and> (\<forall>q. hdd_quiet g' q) \<and> ssds_same g g')"
proof -
  note r = reg_parts [OF reg]
  let ?I = "\<lambda>xs (g', l'). reg_but hash (set l') g' \<and> g_hddtbl g' = (g_hddtbl g)(i := xs) \<and> (\<forall>q. hdd_quiet g' q) \<and> ssds_same g g'"
  have "returns (for_each (g_hddtbl g i) (remove_entry hash) (g, l)) (?I [])"
  proof (rule for_each_returns)
    show "?I (g_hddtbl g i) (g, l)" using reg quiet by (auto simp: ssds_same_def)
    fix p xs and s :: "gctx \<times> ptr list"
    assume inv: "?I (p # xs) s"
    obtain g' l' where s: "s = (g', l')" by (cases s)
    have g': "reg_but hash (set l') g'" "g_hddtbl g' = (g_hddtbl g)(i := p # xs)" "\<And>q. hdd_quiet g' q" "ssds_same g g'"
      using inv by (simp_all add: s)
    note ok = reg_parts(1) [OF g'(1), unfolded hdds_ok_def]
    note head = table_delete_head [OF ok g'(2)]
    show "returns (remove_entry hash p s) (?I xs)"
      unfolding s using remove_entry_step [OF g'(1) head(2) g'(3)] head(1) g'(4) by (auto simp: ssds_same_def elim!: returns_mono)
  qed
  then show ?thesis .
qed

lemma unregister_all_effect:
  assumes reg: "reg_ok hash g" and quiet: "\<And>q. hdd_quiet g q"
  shows "returns (hdd_unregister_all hash g) (\<lambda>g'. g_hddtbl g' = (\<lambda>_. []) \<and> g_hdd g' = (\<lambda>_. None) \<and> g_nr_hdd g' = 0
    \<and> g_queue g' = (\<lambda>_. False) \<and> sce_wf (g_sce g') \<and> ssds_same g g')"
proof -
  let ?I = "\<lambda>js (g', l'). reg_but hash (set l') g' \<and> (\<forall>j < 512. j \<notin> set js \<longrightarrow> g_hddtbl g' j = []) \<and> (\<forall>q. hdd_quiet g' q) \<and> ssds_same g g'"
  let ?f = "\<lambda>i (g, l). for_each (g_hddtbl g i) (remove_entry hash) (g, l)"
  have "returns (for_each [0..<512] ?f (g, [])) (?I [])"
  proof (rule for_each_returns)
    show "?I [0..<512] (g, [])" using reg quiet by (auto simp: ssds_same_def)
    fix i js and s :: "gctx \<times> ptr list"
    assume inv: "?I (i # js) s"
    obtain g' l' where s: "s = (g', l')" by (cases s)
    have g': "reg_but hash (set l') g'" "\<And>q. hdd_quiet g' q" "ssds_same g g'"
      "\<forall>j < 512. j \<notin> set (i # js) \<longrightarrow> g_hddtbl g' j = []"
      using inv by (simp_all add: s)
    show "returns (?f i s) (?I js)"
      unfolding s prod.case using remove_bucket [OF g'(1,2), of i] g'(3,4) by (auto simp: ssds_same_def elim!: returns_mono)
  qed
  then obtain g1 l where f: "for_each [0..<512] ?f (g, []) = Some (g1, l)" and reg1: "reg_but hash (set l) g1"
    and empty: "\<forall>j < 512. g_hddtbl g1 j = []" and same: "ssds_same g g1"
    by (auto elim!: returnsE)
  note r = reg_parts [OF reg1]
  have "g_hddtbl g1 j = []" for j
    using empty table_outside [OF r(1) [unfolded hdds_ok_def], of j] by (cases "j < 512") auto
  then have tbl: "g_hddtbl g1 = (\<lambda>_. [])" by (rule ext)
  then have dom: "dom (g_hdd g1) = set l" using r(2) by (simp add: entries_def)
  have off: "online_hdds g1 = {}" using r(10) dom by (auto simp: online_hdds_def)
  have q: "g_queue g1 = (\<lambda>_. False)" using r(6) off by (auto simp: on_disk_def online_hdds_def)
  have "fold (\<lambda>p H. H(p := None)) l H = H |` (- set l)" for l and H :: "ptr \<Rightarrow> hdd_info option"
    by (induction l arbitrary: H) (auto simp: fun_eq_iff restrict_map_def)
  then have "fold (\<lambda>p H. H(p := None)) l (g_hdd g1) = (\<lambda>_. None)"
    using dom by (auto simp: fun_eq_iff restrict_map_def)
  then show ?thesis using f r(5,8) off q tbl same
    by (simp add: hdd_unregister_all_def wait_for_def ssds_same_def)
qed

section \<open>Properties\<close>

text \<open>The context after the initialisation of the module, and a kernel that has one disk.\<close>

definition gctx_start :: gctx where
  "gctx_start = \<lparr>g_sce = sce_zero, g_hddtbl = (\<lambda>_. []), g_ssdtbl = (\<lambda>_. []), g_hdd = (\<lambda>_. None), g_ssd = (\<lambda>_. None),
     g_nr_hdd = 0, g_nr_ssd = 0, g_queue = (\<lambda>_. False)\<rparr>"

definition some_bdev :: bdev where
  "some_bdev = \<lparr>bd_dev = 16, bd_contains = 16, bd_nr_sects = 16, bd_ssd_holder = False, bd_openers = 1, bd_max_hw = 128\<rparr>"

definition some_env :: "dev_t \<Rightarrow> kenv" where
  "some_env d = \<lparr>e_lookup = (\<lambda>_. Some d), e_open = (\<lambda>_. Some (some_bdev\<lparr>bd_dev := d\<rparr>)), e_open_dev = (\<lambda>_. Some some_bdev), e_alloc = Some 77,
     e_io_pool = True, e_bioset = True, e_workqueue = True, e_vmalloc = True, e_kobj = 0\<rparr>"

lemma reg_ok_start: "reg_ok hash gctx_start"
proof -
  have "hdds_ok hash gctx_start" by (simp add: hdds_ok_def gctx_start_def table_empty_ok)
  then show ?thesis
    unfolding reg_but_def by (simp add: gctx_start_def entries_def online_hdds_def on_disk_def sce_zero_wf)
qed

lemma some_env_ok: "d \<noteq> 0 \<Longrightarrow> env_ok (some_env d) gctx_start ''/dev/sdb''"
proof -
  have "misslog_size (g_sce gctx_start) = 0" by (simp add: gctx_start_def sce_zero_def)
  then have "log_fits (g_sce gctx_start) i n" for i n by (simp add: log_fits_def)
  moreover assume "d \<noteq> 0"
  ultimately show ?thesis
    by (simp add: env_ok_def some_env_def open_whole_def some_bdev_def) (simp add: gctx_start_def)
qed

lemma some_registered: "map_option fst (hdd_register id (some_env 16) gctx_start ''/dev/sdb'') = Some 0"
  "map_option fst (hdd_register id (some_env 17) gctx_start ''/dev/sdb1'') = Some 0"
  by code_simp+

text \<open>
  C28: the registration of a disk returns and keeps the registry well formed. When it succeeds, the
  disk's number finds a structure that is complete and online, its LUN in the engine has the
  structure as its context, and its queue is hooked; when it fails, wherever it stops, everything
  but the engine is as before, and no page is cached that was not.
\<close>

theorem hdd_register_all_or_nothing:
  assumes "reg_ok hash g" "env_ok env g path"
  shows "returns (hdd_register hash env g path) (\<lambda>(r, g'). reg_ok hash g' \<and>
    (if r = 0
     then \<exists>p d b li. e_lookup env path = Some d \<and> open_whole env path = Some b
       \<and> search_hdd hash g' = (search_hdd hash g)(d := Some (Some p)) \<and> g_hdd g' p = Some (hdd_ready path d b li)
       \<and> l_fragmap (luntbl (g_sce g') li) \<noteq> None \<and> l_lunctx (luntbl (g_sce g') li) = p
       \<and> g_queue g' = (g_queue g)(bd_contains b := True)
     else g'\<lparr>g_sce := g_sce g\<rparr> = g \<and> view_le (g_sce g') (g_sce g)))"
proof (rule returns_mono [OF register_effect [OF assms]])
  fix x assume post: "case x of (r, g') \<Rightarrow>
    if r = 0 then \<exists>p d. e_lookup env path = Some d \<and> d \<noteq> 0 \<and> g_hdd g p = None \<and> search_hdd hash g d = Some None
      \<and> set_up hash env path p d g g'
    else \<exists>s. g' = g\<lparr>g_sce := s\<rparr> \<and> sce_wf s \<and> view_le s (g_sce g)"
  obtain r g' where x: "x = (r, g')" by (cases x)
  show "case x of (r, g') \<Rightarrow> reg_ok hash g' \<and>
    (if r = 0
     then \<exists>p d b li. e_lookup env path = Some d \<and> open_whole env path = Some b
       \<and> search_hdd hash g' = (search_hdd hash g)(d := Some (Some p)) \<and> g_hdd g' p = Some (hdd_ready path d b li)
       \<and> l_fragmap (luntbl (g_sce g') li) \<noteq> None \<and> l_lunctx (luntbl (g_sce g') li) = p
       \<and> g_queue g' = (g_queue g)(bd_contains b := True)
     else g'\<lparr>g_sce := g_sce g\<rparr> = g \<and> view_le (g_sce g') (g_sce g))"
  proof (cases "r = 0")
    case True
    then obtain p d where pd: "e_lookup env path = Some d" "g_hdd g p = None" and su: "set_up hash env path p d g g'"
      using post by (auto simp: x)
    have reg: "reg_ok hash g'" by (rule set_up_reg_ok [OF assms(1) pd(2) su])
    obtain b li s tbl where b: "open_whole env path = Some b" "lun_added li (bd_nr_sects b) p (g_sce g) s"
      and g': "g' = g\<lparr>g_hdd := (g_hdd g)(p \<mapsto> hdd_ready path d b li), g_sce := s, g_hddtbl := tbl,
          g_queue := (g_queue g)(bd_contains b := True), g_nr_hdd := g_nr_hdd g + 1\<rparr>"
      and se: "search_hdd hash g' = (search_hdd hash g)(d := Some (Some p))"
      using su by (auto simp: set_up_def)
    have "g_hdd g' p = Some (hdd_ready path d b li)" "l_fragmap (luntbl (g_sce g') li) \<noteq> None"
      "l_lunctx (luntbl (g_sce g') li) = p" "g_queue g' = (g_queue g)(bd_contains b := True)"
      using b(2) by (simp_all add: g' lun_added_def)
    then show ?thesis using True reg pd(1) b(1) se by (simp add: x) blast
  next
    case False
    then obtain s where s: "g' = g\<lparr>g_sce := s\<rparr>" "sce_wf s" "view_le s (g_sce g)" using post by (auto simp: x)
    have "reg_ok hash g'" unfolding s(1) by (rule reg_but_engine [OF assms(1) s(2)])
    then show ?thesis using False s by (simp add: x)
  qed
qed

lemma hdd_register_all_or_nothing_witness:
  "\<exists>g' p li. hdd_register id (some_env 16) gctx_start ''/dev/sdb'' = Some (0, g') \<and> reg_ok id g'
     \<and> search_hdd id g' 16 = Some (Some p) \<and> g_hdd g' p = Some (hdd_ready ''/dev/sdb'' 16 some_bdev li) \<and> g_queue g' 16"
proof -
  obtain g' where g': "hdd_register id (some_env 16) gctx_start ''/dev/sdb'' = Some (0, g')"
    using some_registered(1) by auto
  have "e_lookup (some_env 16) ''/dev/sdb'' = Some 16" "open_whole (some_env 16) ''/dev/sdb'' = Some some_bdev"
    "bd_contains some_bdev = 16"
    by (simp_all add: some_env_def open_whole_def some_bdev_def)
  then show ?thesis
    using hdd_register_all_or_nothing [OF reg_ok_start [of id] some_env_ok [of 16]] g' by auto
qed

text \<open>
  Removing a registered disk takes it offline, releases its LUN and gives its queue back, but its
  structure stays in the table: the number still finds it, and the disk can never be registered again.
\<close>

theorem removed_disk_stays:
  assumes "reg_ok hash g" "e_lookup env path = Some d" "search_hdd hash g d = Some (Some p)" "\<forall>q. hdd_quiet g q"
    "e_lookup env' path' = Some d"
  shows "returns (hdd_unregister hash env g path) (\<lambda>g'. reg_ok hash g' \<and> p \<notin> online_hdds g'
    \<and> (\<forall>h. g_hdd g p = Some h \<longrightarrow> h_online h \<longrightarrow> \<not> g_queue g' (h_disk h)) \<and> search_hdd hash g' d = Some (Some p)
    \<and> hdd_register hash env' g' path' = Some (-1, g'))"
proof (rule returns_mono [OF unregister_effect [OF assms(1,2) spec [OF assms(4)]]])
  fix g' assume g': "reg_ok hash g' \<and> search_hdd hash g' = search_hdd hash g
    \<and> (\<forall>p. search_hdd hash g d = Some (Some p) \<longrightarrow> p \<notin> online_hdds g' \<and> (\<exists>h. g_hdd g p = Some h
         \<and> (if h_online h then removed p h g g' else g' = g)))"
  then have p: "p \<notin> online_hdds g'" "\<exists>h. g_hdd g p = Some h \<and> (if h_online h then removed p h g g' else g' = g)"
    using assms(3) by blast+
  have "\<not> g_queue g' (h_disk h)" if "g_hdd g p = Some h" "h_online h" for h
    using p(2) that by (auto simp: removed_def)
  moreover have se: "search_hdd hash g' d = Some (Some p)" using g' assms(3) by simp
  moreover have "hdd_register hash env' g' path' = Some (-1, g')"
    by (rule register_refused [OF reg_parts(1) assms(5) se]) (use g' in blast)
  ultimately show "reg_ok hash g' \<and> p \<notin> online_hdds g'
    \<and> (\<forall>h. g_hdd g p = Some h \<longrightarrow> h_online h \<longrightarrow> \<not> g_queue g' (h_disk h)) \<and> search_hdd hash g' d = Some (Some p)
    \<and> hdd_register hash env' g' path' = Some (-1, g')"
    using g' p(1) by blast
qed

text \<open>A context with one registered disk.\<close>

lemma one_disk:
  obtains g p li where "hdd_register id (some_env 16) gctx_start ''/dev/sdb'' = Some (0, g)" "reg_ok id g"
    "search_hdd id g 16 = Some (Some p)" "g_hdd g p = Some (hdd_ready ''/dev/sdb'' 16 some_bdev li)" "\<forall>q. hdd_quiet g q"
proof -
  obtain g where g: "hdd_register id (some_env 16) gctx_start ''/dev/sdb'' = Some (0, g)"
    using some_registered(1) by auto
  have "\<exists>p d. e_lookup (some_env 16) ''/dev/sdb'' = Some d \<and> d \<noteq> 0 \<and> g_hdd gctx_start p = None
      \<and> search_hdd id gctx_start d = Some None \<and> set_up id (some_env 16) ''/dev/sdb'' p d gctx_start g"
    using register_effect [OF reg_ok_start [of id] some_env_ok [of 16]] g by auto
  then obtain p where new: "g_hdd gctx_start p = None" and su: "set_up id (some_env 16) ''/dev/sdb'' p 16 gctx_start g"
    by (auto simp: some_env_def)
  then obtain b li s tbl where b: "open_whole (some_env 16) ''/dev/sdb'' = Some b"
    and g': "g = gctx_start\<lparr>g_hdd := (g_hdd gctx_start)(p \<mapsto> hdd_ready ''/dev/sdb'' 16 b li), g_sce := s, g_hddtbl := tbl,
        g_queue := (g_queue gctx_start)(bd_contains b := True), g_nr_hdd := g_nr_hdd gctx_start + 1\<rparr>"
    and se: "search_hdd id g = (search_hdd id gctx_start)(16 := Some (Some p))"
    unfolding set_up_def by blast
  have "b = some_bdev" using b by (simp add: open_whole_def some_env_def some_bdev_def)
  moreover have "h_io_pending (hdd_ready ''/dev/sdb'' 16 b li) = 0" "h_nr_ref (hdd_ready ''/dev/sdb'' 16 b li) = 0"
    by (simp_all add: hdd_ready_def hdd_zero_def)
  then have "hdd_quiet g q" for q by (cases "q = p") (simp_all add: hdd_quiet_def g' gctx_start_def)
  ultimately show thesis using that [OF g set_up_reg_ok [OF reg_ok_start new su]] se by (auto simp: g')
qed

lemma removed_disk_stays_witness:
  "\<exists>g g'. hdd_register id (some_env 16) gctx_start ''/dev/sdb'' = Some (0, g)
     \<and> hdd_unregister id (some_env 16) g ''/dev/sdb'' = Some g' \<and> hdd_register id (some_env 16) g' ''/dev/sdb'' = Some (-1, g')"
proof -
  obtain g p li where g: "hdd_register id (some_env 16) gctx_start ''/dev/sdb'' = Some (0, g)" "reg_ok id g"
    "search_hdd id g 16 = Some (Some p)" "g_hdd g p = Some (hdd_ready ''/dev/sdb'' 16 some_bdev li)" "\<forall>q. hdd_quiet g q"
    by (rule one_disk)
  have l: "e_lookup (some_env 16) ''/dev/sdb'' = Some 16" by (simp add: some_env_def)
  show ?thesis using removed_disk_stays [OF g(2) l g(3,5) l] g(1) by (auto elim!: returnsE)
qed

text \<open>
  C32: at the end of the module every disk is removed, online or not, every structure is freed, every
  queue is given back, and the wait for the counter of the disks is over.
\<close>

theorem hdd_unregister_all_empties:
  assumes "reg_ok hash g" "\<forall>q. hdd_quiet g q"
  shows "returns (hdd_unregister_all hash g) (\<lambda>g'. g_hddtbl g' = (\<lambda>_. []) \<and> g_hdd g' = (\<lambda>_. None) \<and> g_nr_hdd g' = 0
    \<and> g_queue g' = (\<lambda>_. False) \<and> sce_wf (g_sce g') \<and> ssds_same g g')"
  by (rule unregister_all_effect [OF assms(1) spec [OF assms(2)]])

lemma hdd_unregister_all_empties_witness:
  "\<exists>g g'. hdd_register id (some_env 16) gctx_start ''/dev/sdb'' = Some (0, g) \<and> g_queue g 16
     \<and> hdd_unregister_all id g = Some g' \<and> g_nr_hdd g' = 0 \<and> \<not> g_queue g' 16"
proof -
  obtain g p li where g: "hdd_register id (some_env 16) gctx_start ''/dev/sdb'' = Some (0, g)" "reg_ok id g"
    "search_hdd id g 16 = Some (Some p)" "g_hdd g p = Some (hdd_ready ''/dev/sdb'' 16 some_bdev li)" "\<forall>q. hdd_quiet g q"
    by (rule one_disk)
  have "on_disk g 16 p" using g(4) by (simp add: on_disk_def hdd_ready_def some_bdev_def)
  then have "g_queue g 16" using reg_parts(6) [OF g(2)] by blast
  then show ?thesis using hdd_unregister_all_empties [OF g(2,5)] g(1) by (auto elim!: returnsE)
qed

text \<open>
  A path that names a partition is accepted: the queue of the whole disk is hooked, but the
  structure is filed under the number of the partition. The block layer sends requests for the whole
  disk, for which nothing is found: they are neither served nor passed on.
\<close>

theorem partition_requests_dangle:
  assumes "reg_ok hash g" "env_ok env g path" "hdd_register hash env g path = Some (0, g')"
    "e_lookup env path = Some d" "open_whole env path = Some b" "bd_contains b \<noteq> d" "search_hdd hash g (bd_contains b) = Some None"
  shows "g_queue g' (bd_contains b) \<and> hdd_search hash g' (bd_contains b) = Some None
    \<and> iostash_mkrequest ao ssds None bio k = Some (Dangling, k)"
proof -
  obtain p where su: "set_up hash env path p d g g'"
    using register_effect [OF assms(1,2)] assms(3,4) by auto
  have "g_queue g' (bd_contains b)" using su assms(5) by (auto simp: set_up_def)
  moreover have "hdd_search hash g' (bd_contains b) = Some None"
    using su assms(6,7) by (auto simp: set_up_def hdd_search_def)
  ultimately show ?thesis by (simp add: iostash_mkrequest_def)
qed

lemma partition_requests_dangle_witness:
  "\<exists>g'. hdd_register id (some_env 17) gctx_start ''/dev/sdb1'' = Some (0, g') \<and> g_queue g' 16 \<and> hdd_search id g' 16 = Some None"
proof -
  obtain g' where g': "hdd_register id (some_env 17) gctx_start ''/dev/sdb1'' = Some (0, g')"
    using some_registered(2) by auto
  have "length ''/dev/sdb1'' < 80" by simp
  then have ok: "env_ok (some_env 17) gctx_start ''/dev/sdb1''" using some_env_ok [of 17] by (simp add: env_ok_def some_env_def open_whole_def)
  have "search_hdd id gctx_start 16 = Some None" by (simp add: search_hdd_def table_search_def gctx_start_def)
  moreover have "e_lookup (some_env 17) ''/dev/sdb1'' = Some 17" "open_whole (some_env 17) ''/dev/sdb1'' = Some some_bdev"
    "bd_contains some_bdev = 16"
    by (simp_all add: some_env_def open_whole_def some_bdev_def)
  ultimately show ?thesis
    using partition_requests_dangle [OF reg_ok_start [of id] ok g', of 17 some_bdev] g' by simp
qed

end
