(* ===== verification/Iostash_Ssd.thy ===== *)
theory Iostash_Ssd
  imports Iostash_Hdd
begin

text \<open>
  The SSDs: \<^verbatim>\<open>src/iostash_ssd.c\<close>. As for the disks every operation is one step under \<^verbatim>\<open>ctl_mtx\<close>, and a
  removal is modelled from the moment on at which no request holds a reference of the SSD.
\<close>

section \<open>Operations\<close>

definition upd_ssd :: "ptr \<Rightarrow> (ssd_info \<Rightarrow> ssd_info) \<Rightarrow> gctx \<Rightarrow> gctx" where
  "upd_ssd p f g = g\<lparr>g_ssd := (g_ssd g)(p := map_option f (g_ssd g p))\<rparr>"

definition ssd_dev :: "gctx \<Rightarrow> ptr \<Rightarrow> dev_t option" where
  "ssd_dev g p = map_option s_dev_t (g_ssd g p)"

definition search_ssd :: "(dev_t \<Rightarrow> u32) \<Rightarrow> gctx \<Rightarrow> dev_t \<Rightarrow> ptr option option" where
  "search_ssd hash g d = table_search hash IOSTASH_MAXSSD_BCKTS (g_ssdtbl g) (ssd_dev g) d"

definition insert_ssd :: "(dev_t \<Rightarrow> u32) \<Rightarrow> gctx \<Rightarrow> ptr \<Rightarrow> gctx option" where
  "insert_ssd hash g p = map_option (\<lambda>t. g\<lparr>g_ssdtbl := t\<rparr>) (table_insert hash IOSTASH_MAXSSD_BCKTS (g_ssdtbl g) (ssd_dev g) p)"

definition alloc_ssd :: "(dev_t \<Rightarrow> u32) \<Rightarrow> kenv \<Rightarrow> gctx \<Rightarrow> string \<Rightarrow> (ptr option \<times> gctx) option" where
  "alloc_ssd hash env g path =
     (case e_lookup env path of
        None \<Rightarrow> Some (None, g)
      | Some dev_t \<Rightarrow> do {
          ssd \<leftarrow> search_ssd hash g dev_t;
          if ssd \<noteq> None then Some (None, g)
          else case e_alloc env of
                 None \<Rightarrow> Some (None, g)
               | Some p \<Rightarrow> do {
                   bug_on (length path \<ge> IOSTASH_MAXPATH);
                   Some (Some p, g\<lparr>g_ssd := (g_ssd g)(p \<mapsto> ssd_zero\<lparr>s_path := path, s_dev_t := dev_t\<rparr>)\<rparr>)
                 }
        })"

definition unload_ssd :: "gctx \<Rightarrow> ptr \<Rightarrow> gctx option" where
  "unload_ssd g p = do {
     ssd \<leftarrow> g_ssd g p;
     s \<leftarrow> case s_cdev ssd of
            None \<Rightarrow> Some (g_sce g)
          | Some c \<Rightarrow> map_option snd (sce_rmcdev (g_sce g) (Some c));
     let g1 = (upd_ssd p (\<lambda>s. s\<lparr>s_cdev := None\<rparr>) g)\<lparr>g_sce := s\<rparr>;
     g2 \<leftarrow> if s_online ssd
           then do {
             let g' = (upd_ssd p (\<lambda>s. s\<lparr>s_online := False\<rparr>) g1)\<lparr>g_ssdtbl := table_delete p (g_ssdtbl g1)\<rparr>;
             wait_for (s_nr_ref ssd = 0);
             Some (g'\<lparr>g_nr_ssd := g_nr_ssd g' - 1\<rparr>)
           }
           else Some g1;
     Some (upd_ssd p (\<lambda>s. s\<lparr>s_bdev := False\<rparr>) g2)
   }"

definition destroy_ssd :: "gctx \<Rightarrow> ptr option \<Rightarrow> gctx option" where
  "destroy_ssd g ssd =
     (case ssd of
        None \<Rightarrow> Some g
      | Some p \<Rightarrow> do { g1 \<leftarrow> unload_ssd g p; Some (g1\<lparr>g_ssd := (g_ssd g1)(p := None)\<rparr>) })"

text \<open>\<^verbatim>\<open>ssd_register\<close> between the allocation of the structure and the end of its loop.\<close>

definition ssd_setup :: "(dev_t \<Rightarrow> u32) \<Rightarrow> kenv \<Rightarrow> gctx \<Rightarrow> string \<Rightarrow> ptr \<Rightarrow> (int \<times> gctx) option" where
  "ssd_setup hash env g path p =
     (case e_open env path of
        None \<Rightarrow> Some (-1, g)
      | Some b \<Rightarrow>
          let g1 = upd_ssd p (\<lambda>s. s\<lparr>s_bdev := True\<rparr>) g
          in if 1 < bd_openers b then Some (-1, g1)
             else let g2 = upd_ssd p (\<lambda>s. s\<lparr>s_nr_sctr := bd_nr_sects b\<rparr>) g1
             in if bd_nr_sects b < IOSTASH_HEADERSCT then Some (-1, g2)
             else let g3 = upd_ssd p (\<lambda>s. s\<lparr>s_nr_sctr := bd_nr_sects b - IOSTASH_HEADERSCT, s_queue_max_hw_sectors := bd_max_hw b\<rparr>) g2
             in do {
               (cdev, s) \<leftarrow> sce_addcdev (e_vmalloc env) (g_sce g3) (bd_nr_sects b - IOSTASH_HEADERSCT) p;
               let g4 = (upd_ssd p (\<lambda>s. s\<lparr>s_cdev := cdev\<rparr>) g3)\<lparr>g_sce := s\<rparr>;
               if cdev = None then Some (-1, g4)
               else if e_kobj env \<noteq> 0 then Some (e_kobj env, g4)
               else do {
                 g5 \<leftarrow> insert_ssd hash g4 p;
                 Some (0, (upd_ssd p (\<lambda>s. s\<lparr>s_online := True\<rparr>) g5)\<lparr>g_nr_ssd := g_nr_ssd g5 + 1\<rparr>)
               }
             })"

definition ssd_register :: "(dev_t \<Rightarrow> u32) \<Rightarrow> kenv \<Rightarrow> gctx \<Rightarrow> string \<Rightarrow> (int \<times> gctx) option" where
  "ssd_register hash env g path = do {
     (ssd, g1) \<leftarrow> alloc_ssd hash env g path;
     (ret, g2) \<leftarrow> case ssd of None \<Rightarrow> Some (-1, g1) | Some p \<Rightarrow> ssd_setup hash env g1 path p;
     if ret \<noteq> 0 then do { g3 \<leftarrow> destroy_ssd g2 ssd; Some (ret, g3) } else Some (ret, g2)
   }"

definition ssd_remove :: "gctx \<Rightarrow> ptr option \<Rightarrow> gctx option" where
  "ssd_remove g ssd =
     (case ssd of
        None \<Rightarrow> Some g
      | Some p \<Rightarrow> do { g1 \<leftarrow> unload_ssd g p; Some (g1\<lparr>g_ssd := (g_ssd g1)(p := None)\<rparr>) })"

definition ssd_unregister :: "(dev_t \<Rightarrow> u32) \<Rightarrow> kenv \<Rightarrow> gctx \<Rightarrow> string \<Rightarrow> gctx option" where
  "ssd_unregister hash env g path =
     (case e_lookup env path of
        None \<Rightarrow> Some g
      | Some dev_t \<Rightarrow> do { ssd \<leftarrow> search_ssd hash g dev_t; ssd_remove g ssd })"

definition ssd_unregister_all :: "gctx \<Rightarrow> gctx option" where
  "ssd_unregister_all g =
     for_each [0..<IOSTASH_MAXSSD_BCKTS] (\<lambda>i g. for_each (g_ssdtbl g i) (\<lambda>p g. ssd_remove g (Some p)) g) g"

section \<open>The table of the SSDs\<close>

definition ssds_ok :: "(dev_t \<Rightarrow> u32) \<Rightarrow> gctx \<Rightarrow> bool" where
  "ssds_ok hash g \<longleftrightarrow> table_ok hash 32 (g_ssdtbl g) (ssd_dev g)"

lemma ssds_contract: "registry (search_ssd hash) (insert_ssd hash) ssd_dev (\<lambda>g. entries (g_ssdtbl g)) (ssds_ok hash)"
proof unfold_locales
  fix g d p
  assume ok: "ssds_ok hash g"
  note t = ok [unfolded ssds_ok_def]
  show "search_ssd hash g d \<noteq> None" unfolding search_ssd_def by (rule table_search_returns [OF t])
  show "search_ssd hash g d = Some (Some p) \<longleftrightarrow> p \<in> entries (g_ssdtbl g) \<and> ssd_dev g p = Some d"
    unfolding search_ssd_def by (rule table_search_iff [OF t])
  assume d: "ssd_dev g p = Some d" "d \<noteq> 0" "search_ssd hash g d = Some None"
  obtain tbl' where t': "table_insert hash 32 (g_ssdtbl g) (ssd_dev g) p = Some tbl'" "table_ok hash 32 tbl' (ssd_dev g)"
    "entries tbl' = insert p (entries (g_ssdtbl g))"
    by (rule table_insert_ok [OF t d(1,2)]) (use d(3) in \<open>simp add: search_ssd_def\<close>)
  have "ssd_dev (g\<lparr>g_ssdtbl := tbl'\<rparr>) = ssd_dev g" by (simp add: ssd_dev_def fun_eq_iff)
  then show "\<exists>g'. insert_ssd hash g p = Some g' \<and> ssds_ok hash g' \<and> ssd_dev g' = ssd_dev g
      \<and> entries (g_ssdtbl g') = insert p (entries (g_ssdtbl g))"
    using t' by (simp add: insert_ssd_def ssds_ok_def)
qed

interpretation ssds: registry "search_ssd hash" "insert_ssd hash" ssd_dev "\<lambda>g. entries (g_ssdtbl g)" "ssds_ok hash" for hash
  by (rule ssds_contract)

text \<open>
  A registered SSD is online and owns a device of the engine, whose context it is; the engine has no
  other devices, there are no other structures, and the counter is the number of them.
\<close>

definition is_cdev :: "sce \<Rightarrow> nat \<Rightarrow> bool" where
  "is_cdev s d \<longleftrightarrow> d < 16 \<and> c_fragtbl (cdevtbl s d) \<noteq> None"

definition ssd_owns :: "sce \<Rightarrow> ptr \<Rightarrow> ssd_info \<Rightarrow> bool" where
  "ssd_owns s p ssd \<longleftrightarrow> p \<noteq> 0 \<and> s_online ssd \<and> s_bdev ssd \<and> (\<exists>c. s_cdev ssd = Some c \<and> is_cdev s c \<and> c_cdevctx (cdevtbl s c) = p)"

definition ssd_ok :: "(dev_t \<Rightarrow> u32) \<Rightarrow> gctx \<Rightarrow> bool" where
  "ssd_ok hash g \<longleftrightarrow> ssds_ok hash g \<and> dom (g_ssd g) = entries (g_ssdtbl g) \<and> finite (dom (g_ssd g))
     \<and> (\<forall>p ssd. g_ssd g p = Some ssd \<longrightarrow> ssd_owns (g_sce g) p ssd)
     \<and> (\<forall>d. is_cdev (g_sce g) d \<longrightarrow> (\<exists>p ssd. g_ssd g p = Some ssd \<and> s_cdev ssd = Some d))
     \<and> g_nr_ssd g = of_nat (card (dom (g_ssd g))) \<and> sce_wf (g_sce g)"

lemma ssd_ok_parts:
  assumes "ssd_ok hash g"
  shows "ssds_ok hash g" "dom (g_ssd g) = entries (g_ssdtbl g)" "finite (dom (g_ssd g))"
    "\<And>p ssd. g_ssd g p = Some ssd \<Longrightarrow> ssd_owns (g_sce g) p ssd"
    "\<And>d. is_cdev (g_sce g) d \<Longrightarrow> \<exists>p ssd. g_ssd g p = Some ssd \<and> s_cdev ssd = Some d"
    "g_nr_ssd g = of_nat (card (dom (g_ssd g)))" "sce_wf (g_sce g)"
  using assms unfolding ssd_ok_def by blast+

lemma ssd_ok_start: "ssd_ok hash gctx_start"
proof -
  have "ssds_ok hash gctx_start" by (simp add: ssds_ok_def gctx_start_def table_empty_ok)
  moreover have "\<not> is_cdev sce_zero d" for d by (simp add: is_cdev_def sce_zero_def)
  ultimately show ?thesis
    unfolding ssd_ok_def by (simp add: gctx_start_def entries_def sce_zero_wf)
qed

lemma ssds_same:
  assumes "g_ssdtbl g' = g_ssdtbl g" "ssd_dev g' = ssd_dev g"
  shows "ssds_ok hash g' = ssds_ok hash g" "search_ssd hash g' = search_ssd hash g"
  by (simp add: ssds_ok_def assms) (rule ext, simp add: search_ssd_def assms)

section \<open>Removal\<close>

text \<open>The engine without the device \<open>c\<close>: what was cached on it is gone.\<close>

definition dev_dropped :: "nat \<Rightarrow> sce \<Rightarrow> sce \<Rightarrow> bool" where
  "dev_dropped c s s' \<longleftrightarrow> sce_wf s' \<and> (\<forall>d. is_cdev s' d \<longleftrightarrow> is_cdev s d \<and> d \<noteq> c)
     \<and> (\<forall>d. d \<noteq> c \<longrightarrow> c_cdevctx (cdevtbl s' d) = c_cdevctx (cdevtbl s d))
     \<and> (\<forall>x. view s' x = (if \<exists>v l V. view s x = Some (v, l, V) \<and> fst l = c then None else view s x))"

lemma rmcdev_dropped:
  assumes wf: "sce_wf s" and c: "is_cdev s c"
  shows "returns (sce_rmcdev s (Some c)) (\<lambda>(r, s'). dev_dropped c s s')"
proof -
  have dn: "c < 16" "c_fragtbl (cdevtbl s c) \<noteq> None" using c by (simp_all add: is_cdev_def)
  obtain s' where s': "sce_rmcdev s (Some c) = Some (SCE_SUCCESS, s')" "sce_wf s'"
    and dz: "cdevtbl s' c = cdev_zero" and dv: "\<And>d. d \<noteq> c \<Longrightarrow> c_cdevctx (cdevtbl s' d) = c_cdevctx (cdevtbl s d)
      \<and> map_option length (c_fragtbl (cdevtbl s' d)) = map_option length (c_fragtbl (cdevtbl s d))"
    by (rule sce_rmcdev_correct [OF wf dn]) (use that in blast)
  have "is_cdev s' d \<longleftrightarrow> is_cdev s d \<and> d \<noteq> c" for d
  proof (cases "d = c")
    case False
    then have "(c_fragtbl (cdevtbl s' d) = None) = (c_fragtbl (cdevtbl s d) = None)"
      using dv [of d] by (metis option.map_disc_iff)
    then show ?thesis using False by (simp add: is_cdev_def)
  qed (simp add: is_cdev_def dz)
  moreover have "\<forall>x. view s' x = (if \<exists>v l V. view s x = Some (v, l, V) \<and> fst l = c then None else view s x)"
    using rmcdev_drops [OF wf dn(1)] s'(1) by simp
  ultimately show ?thesis using s' dv by (simp add: dev_dropped_def)
qed

definition ssd_unloaded :: "ssd_info \<Rightarrow> ssd_info" where
  "ssd_unloaded ssd = ssd\<lparr>s_cdev := None, s_online := False, s_bdev := False\<rparr>"

definition ssd_quiet :: "gctx \<Rightarrow> ptr \<Rightarrow> bool" where
  "ssd_quiet g p \<longleftrightarrow> (\<forall>ssd. g_ssd g p = Some ssd \<longrightarrow> s_nr_ref ssd = 0)"

definition ssd_removed :: "ptr \<Rightarrow> ssd_info \<Rightarrow> gctx \<Rightarrow> gctx \<Rightarrow> bool" where
  "ssd_removed p ssd g g' \<longleftrightarrow> (\<exists>c s. s_cdev ssd = Some c \<and> dev_dropped c (g_sce g) s
     \<and> g' = g\<lparr>g_sce := s, g_ssd := (g_ssd g)(p := None), g_ssdtbl := table_delete p (g_ssdtbl g), g_nr_ssd := g_nr_ssd g - 1\<rparr>)"

lemma ssd_remove_entry:
  assumes ok: "ssd_ok hash g" and ssd: "g_ssd g p = Some ssd" and quiet: "ssd_quiet g p"
  shows "returns (ssd_remove g (Some p)) (\<lambda>g'. ssd_removed p ssd g g')"
proof -
  note r = ssd_ok_parts [OF ok]
  obtain c where c: "s_online ssd" "s_cdev ssd = Some c" "is_cdev (g_sce g) c"
    using r(4) [OF ssd] by (auto simp: ssd_owns_def)
  obtain rc s where s: "sce_rmcdev (g_sce g) (Some c) = Some (rc, s)" "dev_dropped c (g_sce g) s"
    using rmcdev_dropped [OF r(7) c(3)] by (auto elim!: returnsE)
  have q: "s_nr_ref ssd = 0" using quiet ssd by (simp add: ssd_quiet_def)
  have "ssd_remove g (Some p) = Some (g\<lparr>g_sce := s, g_ssd := (g_ssd g)(p := None), g_ssdtbl := table_delete p (g_ssdtbl g),
      g_nr_ssd := g_nr_ssd g - 1\<rparr>)"
    using c s q by (simp add: ssd_remove_def unload_ssd_def ssd Let_def upd_ssd_def wait_for_def)
  then show ?thesis using s(2) c(2) by (auto simp: ssd_removed_def)
qed

lemma ssd_removed_ok:
  assumes ok: "ssd_ok hash g" and ssd: "g_ssd g p = Some ssd" and rm: "ssd_removed p ssd g g'"
  shows "ssd_ok hash g'" "search_ssd hash g' = (search_ssd hash g)(s_dev_t ssd := Some None)"
proof -
  note r = ssd_ok_parts [OF ok]
  obtain c s where c: "s_cdev ssd = Some c" and s: "dev_dropped c (g_sce g) s"
    and g': "g' = g\<lparr>g_sce := s, g_ssd := (g_ssd g)(p := None), g_ssdtbl := table_delete p (g_ssdtbl g), g_nr_ssd := g_nr_ssd g - 1\<rparr>"
    using rm by (auto simp: ssd_removed_def)
  have en: "entries (g_ssdtbl g') = entries (g_ssdtbl g) - {p}" by (simp add: g' entries_delete)
  have dev: "ssd_dev g' q = ssd_dev g q" if "q \<in> entries (g_ssdtbl g')" for q
    using that en by (simp add: ssd_dev_def g')
  have "table_ok hash 32 (g_ssdtbl g') (ssd_dev g)"
    using table_delete_ok [OF r(1) [unfolded ssds_ok_def]] by (simp add: g')
  from table_ok_cong [OF this dev] have sok: "ssds_ok hash g'" by (simp add: ssds_ok_def)
  have dp: "ssd_dev g p = Some (s_dev_t ssd)" using ssd by (simp add: ssd_dev_def)
  have pin: "p \<in> entries (g_ssdtbl g)" using r(2) ssd by blast
  show "search_ssd hash g' = (search_ssd hash g)(s_dev_t ssd := Some None)"
  proof (rule ext)
    fix e
    obtain x where x: "search_ssd hash g e = Some x" using ssds.search_returns [OF r(1), of e] by auto
    obtain x' where x': "search_ssd hash g' e = Some x'" using ssds.search_returns [OF sok, of e] by auto
    have i: "x' = Some q \<longleftrightarrow> x = Some q \<and> q \<noteq> p" for q
    proof -
      have "x' = Some q \<longleftrightarrow> q \<in> entries (g_ssdtbl g') \<and> ssd_dev g' q = Some e"
        using ssds.search_iff [OF sok, of e q] x' by simp
      also have "\<dots> \<longleftrightarrow> q \<in> entries (g_ssdtbl g') \<and> ssd_dev g q = Some e" using dev [of q] by metis
      also have "\<dots> \<longleftrightarrow> x = Some q \<and> q \<noteq> p"
        unfolding en using ssds.search_iff [OF r(1), of e q] x by simp metis
      finally show ?thesis .
    qed
    have "x = Some p \<longleftrightarrow> e = s_dev_t ssd" using ssds.search_iff [OF r(1), of e p] x dp pin by auto
    moreover have "x' = (if x = Some p then None else x)"
    proof (cases x)
      case None
      then have "x' \<noteq> Some q" for q using i [of q] by simp
      from this [of "the x'"] show ?thesis using None by (cases x') simp_all
    next
      case (Some q)
      then show ?thesis using i [of q] i [of p] i [of "the x'"] by (cases x') auto
    qed
    ultimately show "search_ssd hash g' e = ((search_ssd hash g)(s_dev_t ssd := Some None)) e" using x x' by simp
  qed
  have d: "dom (g_ssd g') = dom (g_ssd g) - {p}" by (auto simp: g')
  have "card (dom (g_ssd g)) = Suc (card (dom (g_ssd g')))"
    unfolding d using r(3) ssd by (metis card_Suc_Diff1 domI)
  then have "(of_nat (card (dom (g_ssd g))) :: u32) = of_nat (card (dom (g_ssd g'))) + 1" by simp
  moreover have "g_nr_ssd g' = g_nr_ssd g - 1" by (simp add: g')
  ultimately have nr: "g_nr_ssd g' = of_nat (card (dom (g_ssd g')))" using r(6) by simp
  have pc: "c_cdevctx (cdevtbl (g_sce g) c) = p" using r(4) [OF ssd] c by (simp add: ssd_owns_def)
  show "ssd_ok hash g'"
    unfolding ssd_ok_def
  proof (intro conjI allI impI)
    show "dom (g_ssd g') = entries (g_ssdtbl g')" using r(2) d en by simp
    show "finite (dom (g_ssd g'))" using r(3) d by simp
    show "ssd_owns (g_sce g') q k" if q: "g_ssd g' q = Some k" for q k
    proof -
      have qp: "q \<noteq> p" "g_ssd g q = Some k" using q by (auto simp: g' split: if_splits)
      obtain e where e: "s_cdev k = Some e" "is_cdev (g_sce g) e" "c_cdevctx (cdevtbl (g_sce g) e) = q"
        using r(4) [OF qp(2)] by (auto simp: ssd_owns_def)
      then have "e \<noteq> c" using pc qp(1) by auto
      then show ?thesis using r(4) [OF qp(2)] e s by (auto simp: ssd_owns_def dev_dropped_def g')
    qed
    show "\<exists>q k. g_ssd g' q = Some k \<and> s_cdev k = Some e" if e: "is_cdev (g_sce g') e" for e
    proof -
      have ec: "is_cdev (g_sce g) e" "e \<noteq> c" using e s by (auto simp: g' dev_dropped_def)
      obtain q k where q: "g_ssd g q = Some k" "s_cdev k = Some e" using r(5) [OF ec(1)] by blast
      have "q \<noteq> p" using q ssd c ec(2) by auto
      then show ?thesis using q by (auto simp: g')
    qed
    show "sce_wf (g_sce g')" using s by (simp add: g' dev_dropped_def)
  qed (fact sok nr)+
qed

section \<open>Registration\<close>

definition ssd_env_ok :: "kenv \<Rightarrow> gctx \<Rightarrow> string \<Rightarrow> bool" where
  "ssd_env_ok env g path \<longleftrightarrow> length path < 80 \<and> e_lookup env path \<noteq> Some 0
     \<and> (\<forall>p. e_alloc env = Some p \<longrightarrow> p \<noteq> 0 \<and> g_ssd g p = None)
     \<and> (\<forall>b. e_open env path = Some b \<longrightarrow> unat (bd_nr_sects b) < 2048 * (2 ^ 24 + 2))"

text \<open>Engines with the same devices that hold the same.\<close>

definition same_cdevs :: "sce \<Rightarrow> sce \<Rightarrow> bool" where
  "same_cdevs s s' \<longleftrightarrow> sce_wf s' \<and> view s' = view s \<and> (\<forall>d. is_cdev s' d = is_cdev s d)
     \<and> (\<forall>d. is_cdev s d \<longrightarrow> c_cdevctx (cdevtbl s' d) = c_cdevctx (cdevtbl s d))"

definition ssd_being_set_up :: "ptr \<Rightarrow> dev_t \<Rightarrow> gctx \<Rightarrow> gctx \<Rightarrow> bool" where
  "ssd_being_set_up p d g g2 \<longleftrightarrow> (\<exists>ssd s. g2 = g\<lparr>g_ssd := (g_ssd g)(p \<mapsto> ssd), g_sce := s\<rparr> \<and> \<not> s_online ssd \<and> s_dev_t ssd = d
     \<and> (case s_cdev ssd of None \<Rightarrow> s = g_sce g | Some c \<Rightarrow> dev_added c p (g_sce g) s))"

definition ssd_ready :: "string \<Rightarrow> dev_t \<Rightarrow> bdev \<Rightarrow> nat \<Rightarrow> ssd_info" where
  "ssd_ready path d b c = ssd_zero\<lparr>s_path := path, s_dev_t := d, s_bdev := True, s_nr_sctr := bd_nr_sects b - 2048,
     s_queue_max_hw_sectors := bd_max_hw b, s_cdev := Some c, s_online := True\<rparr>"

definition ssd_set_up :: "(dev_t \<Rightarrow> u32) \<Rightarrow> kenv \<Rightarrow> string \<Rightarrow> ptr \<Rightarrow> dev_t \<Rightarrow> gctx \<Rightarrow> gctx \<Rightarrow> bool" where
  "ssd_set_up hash env path p d g g2 \<longleftrightarrow> (\<exists>b c s tbl. e_open env path = Some b \<and> dev_added c p (g_sce g) s
     \<and> g2 = g\<lparr>g_ssd := (g_ssd g)(p \<mapsto> ssd_ready path d b c), g_sce := s, g_ssdtbl := tbl, g_nr_ssd := g_nr_ssd g + 1\<rparr>
     \<and> ssds_ok hash g2 \<and> entries tbl = insert p (entries (g_ssdtbl g))
     \<and> search_ssd hash g2 = (search_ssd hash g)(d := Some (Some p)))"

lemma upd_ssd_at [simp]:
  "upd_ssd p f (g\<lparr>g_ssd := (g_ssd g)(p \<mapsto> h)\<rparr>) = g\<lparr>g_ssd := (g_ssd g)(p \<mapsto> f h)\<rparr>"
  "upd_ssd p f (g\<lparr>g_ssd := (g_ssd g)(p \<mapsto> h), g_sce := s\<rparr>) = g\<lparr>g_ssd := (g_ssd g)(p \<mapsto> f h), g_sce := s\<rparr>"
  "upd_ssd p f (g\<lparr>g_ssd := (g_ssd g)(p \<mapsto> h), g_sce := s, g_ssdtbl := t\<rparr>)
     = g\<lparr>g_ssd := (g_ssd g)(p \<mapsto> f h), g_sce := s, g_ssdtbl := t\<rparr>"
  by (simp_all add: upd_ssd_def)

lemma ssds_ok_at:
  assumes ok: "ssds_ok hash g" and p: "p \<notin> entries (g_ssdtbl g)"
  shows "ssds_ok hash (g\<lparr>g_ssd := (g_ssd g)(p := x), g_sce := s\<rparr>)"
    "search_ssd hash (g\<lparr>g_ssd := (g_ssd g)(p := x), g_sce := s\<rparr>) = search_ssd hash g"
proof -
  let ?g = "g\<lparr>g_ssd := (g_ssd g)(p := x), g_sce := s\<rparr>"
  have dev: "ssd_dev ?g q = ssd_dev g q" if "q \<in> entries (g_ssdtbl g)" for q
    using that p by (auto simp: ssd_dev_def)
  have "table_ok hash 32 (g_ssdtbl g) (ssd_dev ?g)"
    by (rule table_ok_cong [OF ok [unfolded ssds_ok_def] dev])
  then show "ssds_ok hash ?g" by (simp add: ssds_ok_def)
  have "table_search hash 32 (g_ssdtbl g) (ssd_dev ?g) e = table_search hash 32 (g_ssdtbl g) (ssd_dev g) e" for e
    by (rule table_search_cong [OF ok [unfolded ssds_ok_def] dev])
  then show "search_ssd hash ?g = search_ssd hash g" by (intro ext) (simp add: search_ssd_def)
qed

lemma ssd_setup_inserts:
  assumes ok: "ssds_ok hash g" and p: "p \<notin> entries (g_ssdtbl g)" and d: "d \<noteq> 0" "search_ssd hash g d = Some None"
    and b: "e_open env path = Some b" and cd: "dev_added c p (g_sce g) s"
    and h: "s_dev_t h = d" "h\<lparr>s_online := True\<rparr> = ssd_ready path d b c"
  obtains g5 where "insert_ssd hash (g\<lparr>g_ssd := (g_ssd g)(p \<mapsto> h), g_sce := s\<rparr>) p = Some g5"
    "ssd_set_up hash env path p d g ((upd_ssd p (\<lambda>s. s\<lparr>s_online := True\<rparr>) g5)\<lparr>g_nr_ssd := g_nr_ssd g5 + 1\<rparr>)"
proof -
  let ?g4 = "g\<lparr>g_ssd := (g_ssd g)(p \<mapsto> h), g_sce := s\<rparr>"
  note at = ssds_ok_at [OF ok p, where x = "Some h" and s = s]
  have dp: "ssd_dev ?g4 p = Some d" by (simp add: ssd_dev_def h(1))
  have s4: "search_ssd hash ?g4 d = Some None" using at(2) d(2) by simp
  obtain g5 where g5: "insert_ssd hash ?g4 p = Some g5" "ssds_ok hash g5" "ssd_dev g5 = ssd_dev ?g4"
    "entries (g_ssdtbl g5) = insert p (entries (g_ssdtbl g))"
    using ssds.insert_new [OF at(1) dp d(1) s4] by auto
  have se: "search_ssd hash g5 = (search_ssd hash g)(d := Some (Some p))"
    using ssds.search_insert [OF at(1) dp d(1) s4] g5(1) at(2) by auto
  obtain tbl where tbl: "g5 = ?g4\<lparr>g_ssdtbl := tbl\<rparr>" using g5(1) by (auto simp: insert_ssd_def)
  let ?g6 = "(upd_ssd p (\<lambda>s. s\<lparr>s_online := True\<rparr>) g5)\<lparr>g_nr_ssd := g_nr_ssd g5 + 1\<rparr>"
  have g6: "?g6 = g\<lparr>g_ssd := (g_ssd g)(p \<mapsto> ssd_ready path d b c), g_sce := s, g_ssdtbl := tbl, g_nr_ssd := g_nr_ssd g + 1\<rparr>"
    by (simp add: tbl h(2))
  have "s_dev_t (ssd_ready path d b c) = d" by (simp add: ssd_ready_def)
  then have "ssd_dev ?g6 = ssd_dev g5" unfolding g6 by (auto simp: ssd_dev_def fun_eq_iff tbl h(1))
  moreover have "g_ssdtbl ?g6 = g_ssdtbl g5" by (simp add: upd_ssd_def)
  ultimately have "ssds_ok hash ?g6" "search_ssd hash ?g6 = search_ssd hash g5"
    using g5(2) ssds_same [of ?g6 g5 hash] by simp_all
  then have "ssd_set_up hash env path p d g ?g6"
    unfolding ssd_set_up_def using b cd g6 g5(4) se tbl by auto
  then show thesis using that g5(1) by blast
qed

lemma ssd_setup_effect:
  fixes hash g path p d
  defines "g1 \<equiv> g\<lparr>g_ssd := (g_ssd g)(p \<mapsto> ssd_zero\<lparr>s_path := path, s_dev_t := d\<rparr>)\<rparr>"
  assumes ok: "ssds_ok hash g" and p: "p \<notin> entries (g_ssdtbl g)" and d: "d \<noteq> 0" "search_ssd hash g d = Some None"
    and wf: "sce_wf (g_sce g)" and env: "ssd_env_ok env g path"
  shows "returns (ssd_setup hash env g1 path p) (\<lambda>(r, g2). if r = 0 then ssd_set_up hash env path p d g g2 else ssd_being_set_up p d g g2)"
proof -
  let ?h0 = "ssd_zero\<lparr>s_path := path, s_dev_t := d\<rparr>"
  have early: "ssd_being_set_up p d g (g\<lparr>g_ssd := (g_ssd g)(p \<mapsto> h)\<rparr>)"
    if "\<not> s_online h" "s_dev_t h = d" "s_cdev h = None" for h
    unfolding ssd_being_set_up_def by (rule exI [of _ h], rule exI [of _ "g_sce g"]) (use that in simp)
  have z: "\<not> s_online ?h0" "s_dev_t ?h0 = d" "s_cdev ?h0 = None" by (simp_all add: ssd_zero_def)
  show ?thesis
  proof (cases "e_open env path")
    case None
    then show ?thesis using early [OF z] by (simp add: ssd_setup_def g1_def)
  next
    case (Some b)
    show ?thesis
    proof (cases "1 < bd_openers b \<or> bd_nr_sects b < 2048")
      case True
      then show ?thesis using early z by (auto simp: ssd_setup_def g1_def Some Let_def)
    next
      case False
      define h3 where "h3 = ?h0\<lparr>s_bdev := True, s_nr_sctr := bd_nr_sects b - 2048, s_queue_max_hw_sectors := bd_max_hw b\<rparr>"
      let ?n = "bd_nr_sects b - 2048"
      have "unat ?n = unat (bd_nr_sects b) - 2048" using False by (simp add: unat_sub word_le_nat_alt word_less_nat_alt)
      moreover have "unat (bd_nr_sects b) < 2048 * (2 ^ 24 + 2)" using env Some by (simp add: ssd_env_ok_def)
      ultimately have "unat ?n < 2048 * (2 ^ 24 + 1)" by simp
      then obtain cd s where a: "sce_addcdev (e_vmalloc env) (g_sce g) ?n p = Some (cd, s)"
        and out: "case cd of None \<Rightarrow> s = g_sce g | Some c \<Rightarrow> dev_added c p (g_sce g) s"
        using addcdev_outcome [OF wf, of ?n "e_vmalloc env" p] by (auto elim!: returnsE)
      let ?g4 = "g\<lparr>g_ssd := (g_ssd g)(p \<mapsto> h3\<lparr>s_cdev := cd\<rparr>), g_sce := s\<rparr>"
      have hs: "ssd_setup hash env g1 path p = (if cd = None then Some (-1, ?g4)
        else if e_kobj env \<noteq> 0 then Some (e_kobj env, ?g4)
        else do {
          g5 \<leftarrow> insert_ssd hash ?g4 p;
          Some (0, (upd_ssd p (\<lambda>s. s\<lparr>s_online := True\<rparr>) g5)\<lparr>g_nr_ssd := g_nr_ssd g5 + 1\<rparr>)
        })"
        using False a by (simp add: ssd_setup_def g1_def Some Let_def h3_def)
      have pend: "ssd_being_set_up p d g ?g4"
        unfolding ssd_being_set_up_def
        by (rule exI [of _ "h3\<lparr>s_cdev := cd\<rparr>"], rule exI [of _ s]) (use out z in \<open>simp add: h3_def\<close>)
      show ?thesis
      proof (cases "cd = None \<or> e_kobj env \<noteq> 0")
        case True
        then show ?thesis using pend by (auto simp: hs)
      next
        case False
        then obtain c where c: "cd = Some c" by auto
        have "dev_added c p (g_sce g) s" using out c by simp
        moreover have "h3\<lparr>s_cdev := cd, s_online := True\<rparr> = ssd_ready path d b c"
          by (simp add: h3_def ssd_ready_def c ssd_zero_def)
        ultimately obtain g5 where "insert_ssd hash ?g4 p = Some g5"
          "ssd_set_up hash env path p d g ((upd_ssd p (\<lambda>s. s\<lparr>s_online := True\<rparr>) g5)\<lparr>g_nr_ssd := g_nr_ssd g5 + 1\<rparr>)"
          using z(2) by (auto intro: ssd_setup_inserts [OF ok p d Some, where h = "h3\<lparr>s_cdev := cd\<rparr>" and s = s] simp: h3_def)
        then show ?thesis using False c by (simp add: hs)
      qed
    qed
  qed
qed

text \<open>Adding a device and dropping it again leaves the devices and what they hold.\<close>

lemma add_drop:
  assumes wf: "sce_wf s" and a: "dev_added c p s t" and d: "dev_dropped c t u" shows "same_cdevs s u"
proof -
  have new: "\<not> is_cdev s c" using a by (simp add: dev_added_def is_cdev_def)
  have "fst l \<noteq> c" if "view t x = Some (v, l, V)" for x v l V
  proof -
    have "view s x = Some (v, l, V)" using that a by (simp add: dev_added_def)
    then have "l \<in> flocs (cdevtbl s)" using view_flocs [OF wf] by blast
    then show ?thesis using new by (auto simp: flocs_def is_cdev_def split: option.splits)
  qed
  then have none: "\<not> (\<exists>v l V. view t x = Some (v, l, V) \<and> fst l = c)" for x by blast
  have "view u x = (if \<exists>v l V. view t x = Some (v, l, V) \<and> fst l = c then None else view t x)" for x
    using d unfolding dev_dropped_def by blast
  then have "view u x = view t x" for x using none by (simp only: if_False)
  then have "view u = view s" using a by (simp add: dev_added_def fun_eq_iff)
  moreover have "is_cdev u e = is_cdev s e" for e
    using a d new by (cases "e = c") (auto simp: dev_dropped_def dev_added_def is_cdev_def)
  moreover have "c_cdevctx (cdevtbl u e) = c_cdevctx (cdevtbl s e)" if "is_cdev s e" for e
    using a d new that by (cases "e = c") (auto simp: dev_dropped_def dev_added_def)
  ultimately show ?thesis using d by (simp add: same_cdevs_def dev_dropped_def)
qed

lemma same_cdevs_refl: "sce_wf s \<Longrightarrow> same_cdevs s s"
  by (simp add: same_cdevs_def)

lemma ssd_register_effect:
  assumes ok: "ssd_ok hash g" and env: "ssd_env_ok env g path"
  shows "returns (ssd_register hash env g path) (\<lambda>(r, g').
    if r = 0 then \<exists>p d. e_lookup env path = Some d \<and> p \<noteq> 0 \<and> g_ssd g p = None \<and> ssd_set_up hash env path p d g g'
    else \<exists>s. g' = g\<lparr>g_sce := s\<rparr> \<and> same_cdevs (g_sce g) s)"
proof -
  note r = ssd_ok_parts [OF ok]
  have same: "\<exists>s. g = g\<lparr>g_sce := s\<rparr> \<and> same_cdevs (g_sce g) s"
    by (rule exI [of _ "g_sce g"]) (simp add: same_cdevs_refl r(7))
  show ?thesis
  proof (cases "e_lookup env path")
    case None
    then show ?thesis using same by (simp add: ssd_register_def alloc_ssd_def destroy_ssd_def)
  next
    case (Some d)
    then have d: "d \<noteq> 0" using env by (auto simp: ssd_env_ok_def)
    obtain e where e: "search_ssd hash g d = Some e" using ssds.search_returns [OF r(1), of d] by auto
    show ?thesis
    proof (cases "e \<noteq> None \<or> e_alloc env = None")
      case True
      then show ?thesis using same e Some
        by (auto simp: ssd_register_def alloc_ssd_def destroy_ssd_def split: option.splits)
    next
      case False
      then obtain p where p: "e_alloc env = Some p" and e0: "search_ssd hash g d = Some None" using e by auto
      have fresh: "g_ssd g p = None" and p0: "p \<noteq> 0" and len: "length path < 80" using env p by (simp_all add: ssd_env_ok_def)
      then have np: "p \<notin> entries (g_ssdtbl g)" using r(2) by auto
      let ?g1 = "g\<lparr>g_ssd := (g_ssd g)(p \<mapsto> ssd_zero\<lparr>s_path := path, s_dev_t := d\<rparr>)\<rparr>"
      have al: "alloc_ssd hash env g path = Some (Some p, ?g1)"
        using Some e0 p len by (simp add: alloc_ssd_def bug_on_def)
      obtain ret g2 where st: "ssd_setup hash env ?g1 path p = Some (ret, g2)"
        and post: "if ret = 0 then ssd_set_up hash env path p d g g2 else ssd_being_set_up p d g g2"
        using ssd_setup_effect [OF r(1) np d e0 r(7) env] by (auto elim!: returnsE)
      show ?thesis
      proof (cases "ret = 0")
        case True
        then show ?thesis using post Some fresh p0 by (auto simp: ssd_register_def al st)
      next
        case False
        then obtain h s where g2: "g2 = g\<lparr>g_ssd := (g_ssd g)(p \<mapsto> h), g_sce := s\<rparr>" and h: "\<not> s_online h"
          and s: "case s_cdev h of None \<Rightarrow> s = g_sce g | Some c \<Rightarrow> dev_added c p (g_sce g) s"
          using post by (auto simp: ssd_being_set_up_def)
        have "\<exists>t. destroy_ssd g2 (Some p) = Some (g\<lparr>g_sce := t\<rparr>) \<and> same_cdevs (g_sce g) t"
        proof (cases "s_cdev h")
          case None
          then have "destroy_ssd g2 (Some p) = Some (g\<lparr>g_sce := s\<rparr>)"
            using h fresh by (simp add: destroy_ssd_def unload_ssd_def g2 upd_ssd_def Let_def fun_upd_idem)
          then show ?thesis using s None same_cdevs_refl [OF r(7)] by (intro exI [of _ s]) simp
        next
          case (Some c)
          then have a: "dev_added c p (g_sce g) s" using s by simp
          then have "sce_wf s" "is_cdev s c" by (simp_all add: dev_added_def is_cdev_def)
          from rmcdev_dropped [OF this] obtain rc t where t: "sce_rmcdev s (Some c) = Some (rc, t)" "dev_dropped c s t"
            by (auto elim!: returnsE)
          have "destroy_ssd g2 (Some p) = Some (g\<lparr>g_sce := t\<rparr>)"
            using h fresh Some t(1) by (simp add: destroy_ssd_def unload_ssd_def g2 upd_ssd_def Let_def fun_upd_idem)
          then show ?thesis using add_drop [OF r(7) a t(2)] by blast
        qed
        then show ?thesis using False by (auto simp: ssd_register_def al st)
      qed
    qed
  qed
qed

lemma ssd_set_up_ok:
  assumes ok: "ssd_ok hash g" and new: "g_ssd g p = None" "p \<noteq> 0" and su: "ssd_set_up hash env path p d g g'"
  shows "ssd_ok hash g'"
proof -
  note r = ssd_ok_parts [OF ok]
  obtain b c s tbl where a: "dev_added c p (g_sce g) s"
    and g': "g' = g\<lparr>g_ssd := (g_ssd g)(p \<mapsto> ssd_ready path d b c), g_sce := s, g_ssdtbl := tbl, g_nr_ssd := g_nr_ssd g + 1\<rparr>"
    and sok: "ssds_ok hash g'" and en: "entries tbl = insert p (entries (g_ssdtbl g))"
    using su by (auto simp: ssd_set_up_def)
  have cd: "is_cdev s e \<longleftrightarrow> e = c \<or> is_cdev (g_sce g) e" for e
    using a by (cases "e = c") (auto simp: dev_added_def is_cdev_def)
  have "card (dom (g_ssd g')) = card (dom (g_ssd g)) + 1" using r(3) new(1) by (simp add: g' card_insert_if domIff)
  then have nr: "g_nr_ssd g' = of_nat (card (dom (g_ssd g')))" using r(6) by (simp add: g')
  show ?thesis
    unfolding ssd_ok_def
  proof (intro conjI allI impI)
    show "dom (g_ssd g') = entries (g_ssdtbl g')" using r(2) en by (simp add: g')
    show "finite (dom (g_ssd g'))" using r(3) by (simp add: g')
    show "ssd_owns (g_sce g') q k" if q: "g_ssd g' q = Some k" for q k
    proof (cases "q = p")
      case True
      then have "k = ssd_ready path d b c" using q by (simp add: g')
      then show ?thesis using a True new(2) by (simp add: ssd_owns_def ssd_ready_def g' dev_added_def is_cdev_def)
    next
      case False
      then have "ssd_owns (g_sce g) q k" using r(4) q by (simp add: g')
      then obtain e where e: "s_cdev k = Some e" "is_cdev (g_sce g) e" "c_cdevctx (cdevtbl (g_sce g) e) = q" "s_online k" "s_bdev k" "q \<noteq> 0"
        by (auto simp: ssd_owns_def)
      have "e \<noteq> c" using e(2) a by (auto simp: dev_added_def is_cdev_def)
      then show ?thesis using e a cd by (simp add: ssd_owns_def g' dev_added_def)
    qed
    show "\<exists>q k. g_ssd g' q = Some k \<and> s_cdev k = Some e" if e: "is_cdev (g_sce g') e" for e
    proof (cases "e = c")
      case True
      then show ?thesis by (intro exI [of _ p]) (simp add: g' ssd_ready_def)
    next
      case False
      then have "is_cdev (g_sce g) e" using e cd by (simp add: g')
      then obtain q k where q: "g_ssd g q = Some k" "s_cdev k = Some e" using r(5) by blast
      then have "q \<noteq> p" using new(1) by auto
      then show ?thesis using q by (intro exI [of _ q]) (simp add: g')
    qed
    show "sce_wf (g_sce g')" using a by (simp add: g' dev_added_def)
  qed (fact sok nr)+
qed

text \<open>The registry does not depend on more of the engine than its devices.\<close>

lemma ssd_ok_engine:
  assumes ok: "ssd_ok hash g" and s: "sce_wf s" "\<And>d. is_cdev s d = is_cdev (g_sce g) d"
    "\<And>d. is_cdev (g_sce g) d \<Longrightarrow> c_cdevctx (cdevtbl s d) = c_cdevctx (cdevtbl (g_sce g) d)"
  shows "ssd_ok hash (g\<lparr>g_sce := s\<rparr>)"
proof -
  note r = ssd_ok_parts [OF ok]
  have "ssd_dev (g\<lparr>g_sce := s\<rparr>) = ssd_dev g" by (rule ext) (simp add: ssd_dev_def)
  then have "ssds_ok hash (g\<lparr>g_sce := s\<rparr>)" using r(1) by (simp add: ssds_ok_def)
  moreover have "ssd_owns s p k" if "g_ssd g p = Some k" for p k
    using r(4) [OF that] s by (auto simp: ssd_owns_def)
  ultimately show ?thesis using r s unfolding ssd_ok_def by simp
qed

lemma ssd_unregister_effect:
  assumes ok: "ssd_ok hash g" and d: "e_lookup env path = Some d" and quiet: "\<And>p. ssd_quiet g p"
  shows "returns (ssd_unregister hash env g path) (\<lambda>g'. ssd_ok hash g' \<and> search_ssd hash g' = (search_ssd hash g)(d := Some None)
    \<and> (\<forall>p. search_ssd hash g d = Some (Some p) \<longrightarrow> (\<exists>ssd. g_ssd g p = Some ssd \<and> ssd_removed p ssd g g')))"
proof -
  note r = ssd_ok_parts [OF ok]
  obtain e where e: "search_ssd hash g d = Some e" using ssds.search_returns [OF r(1), of d] by auto
  show ?thesis
  proof (cases e)
    case None
    then have "search_ssd hash g = (search_ssd hash g)(d := Some None)" using e by (simp add: fun_upd_idem)
    then show ?thesis using e d ok None by (simp add: ssd_unregister_def ssd_remove_def)
  next
    case (Some p)
    then have p: "p \<in> entries (g_ssdtbl g)" "ssd_dev g p = Some d" using ssds.search_iff [OF r(1), of d p] e by simp_all
    then obtain ssd where ssd: "g_ssd g p = Some ssd" using r(2) by blast
    have sd: "s_dev_t ssd = d" using p(2) ssd by (simp add: ssd_dev_def)
    obtain g' where g': "ssd_remove g (Some p) = Some g'" "ssd_removed p ssd g g'"
      by (rule returnsE [OF ssd_remove_entry [OF ok ssd quiet]])
    show ?thesis using ssd_removed_ok [OF ok ssd g'(2)] g' ssd e d Some sd by (simp add: ssd_unregister_def)
  qed
qed

section \<open>Removing all SSDs\<close>

definition hdds_unchanged :: "gctx \<Rightarrow> gctx \<Rightarrow> bool" where
  "hdds_unchanged g g' \<longleftrightarrow> g_hdd g' = g_hdd g \<and> g_hddtbl g' = g_hddtbl g \<and> g_nr_hdd g' = g_nr_hdd g \<and> g_queue g' = g_queue g"

lemma ssd_remove_step:
  assumes ok: "ssd_ok hash g" and p: "p \<in> entries (g_ssdtbl g)" and quiet: "\<And>q. ssd_quiet g q"
  shows "returns (ssd_remove g (Some p)) (\<lambda>g'. ssd_ok hash g' \<and> g_ssdtbl g' = table_delete p (g_ssdtbl g)
    \<and> (\<forall>q. ssd_quiet g' q) \<and> hdds_unchanged g g')"
proof -
  obtain ssd where ssd: "g_ssd g p = Some ssd" using ssd_ok_parts(2) [OF ok] p by blast
  obtain g' where g': "ssd_remove g (Some p) = Some g'" "ssd_removed p ssd g g'"
    by (rule returnsE [OF ssd_remove_entry [OF ok ssd quiet]])
  have "ssd_quiet g' q" for q using quiet [of q] g'(2) by (auto simp: ssd_removed_def ssd_quiet_def split: if_splits)
  then show ?thesis using g' ssd_removed_ok(1) [OF ok ssd g'(2)] by (auto simp: ssd_removed_def hdds_unchanged_def)
qed

lemma ssd_remove_bucket:
  assumes ok: "ssd_ok hash g" and quiet: "\<And>q. ssd_quiet g q"
  shows "returns (for_each (g_ssdtbl g i) (\<lambda>p g. ssd_remove g (Some p)) g) (\<lambda>g'. ssd_ok hash g' \<and> g_ssdtbl g' = (g_ssdtbl g)(i := [])
    \<and> (\<forall>q. ssd_quiet g' q) \<and> hdds_unchanged g g')"
proof -
  let ?I = "\<lambda>xs g'. ssd_ok hash g' \<and> g_ssdtbl g' = (g_ssdtbl g)(i := xs) \<and> (\<forall>q. ssd_quiet g' q) \<and> hdds_unchanged g g'"
  have "returns (for_each (g_ssdtbl g i) (\<lambda>p g. ssd_remove g (Some p)) g) (?I [])"
  proof (rule for_each_returns)
    show "?I (g_ssdtbl g i) g" using ok quiet by (auto simp: hdds_unchanged_def)
    fix p xs g'
    assume inv: "?I (p # xs) g'"
    then have g': "ssd_ok hash g'" "g_ssdtbl g' = (g_ssdtbl g)(i := p # xs)" "\<And>q. ssd_quiet g' q" "hdds_unchanged g g'" by blast+
    note head = table_delete_head [OF ssd_ok_parts(1) [OF g'(1), unfolded ssds_ok_def] g'(2)]
    show "returns (ssd_remove g' (Some p)) (?I xs)"
      using ssd_remove_step [OF g'(1) head(2) g'(3)] head(1) g'(4) by (auto simp: hdds_unchanged_def elim!: returns_mono)
  qed
  then show ?thesis .
qed

lemma ssd_unregister_all_effect:
  assumes ok: "ssd_ok hash g" and quiet: "\<And>q. ssd_quiet g q"
  shows "returns (ssd_unregister_all g) (\<lambda>g'. ssd_ok hash g' \<and> g_ssdtbl g' = (\<lambda>_. []) \<and> g_ssd g' = (\<lambda>_. None) \<and> hdds_unchanged g g')"
proof -
  let ?I = "\<lambda>js g'. ssd_ok hash g' \<and> (\<forall>j < 32. j \<notin> set js \<longrightarrow> g_ssdtbl g' j = []) \<and> (\<forall>q. ssd_quiet g' q) \<and> hdds_unchanged g g'"
  let ?f = "\<lambda>i g. for_each (g_ssdtbl g i) (\<lambda>p g. ssd_remove g (Some p)) g"
  have "returns (for_each [0..<32] ?f g) (?I [])"
  proof (rule for_each_returns)
    show "?I [0..<32] g" using ok quiet by (auto simp: hdds_unchanged_def)
    fix i js g'
    assume "?I (i # js) g'"
    then have g': "ssd_ok hash g'" "\<And>q. ssd_quiet g' q" "hdds_unchanged g g'" "\<forall>j < 32. j \<notin> set (i # js) \<longrightarrow> g_ssdtbl g' j = []" by blast+
    show "returns (?f i g') (?I js)"
      using ssd_remove_bucket [OF g'(1,2), of i] g'(3,4) by (auto simp: hdds_unchanged_def elim!: returns_mono)
  qed
  then obtain g1 where f: "for_each [0..<32] ?f g = Some g1" and ok1: "ssd_ok hash g1"
    and empty: "\<forall>j < 32. g_ssdtbl g1 j = []" and same: "hdds_unchanged g g1"
    by (auto elim!: returnsE)
  have "g_ssdtbl g1 j = []" for j
    using empty table_outside [OF ssd_ok_parts(1) [OF ok1, unfolded ssds_ok_def], of j] by (cases "j < 32") auto
  then have tbl: "g_ssdtbl g1 = (\<lambda>_. [])" by (rule ext)
  then have "dom (g_ssd g1) = {}" using ssd_ok_parts(2) [OF ok1] by (simp add: entries_def)
  then show ?thesis using f ok1 tbl same by (simp add: ssd_unregister_all_def)
qed

section \<open>Reads and the registered SSDs\<close>

lemma ssd_ok_named: "ssd_ok hash g \<Longrightarrow> named (g_sce g)"
  unfolding named_def
proof (intro allI impI)
  fix d :: nat
  assume ok: "ssd_ok hash g" and d: "d < 16" "c_fragtbl (cdevtbl (g_sce g) d) \<noteq> None"
  obtain p k where k: "g_ssd g p = Some k" "s_cdev k = Some d" using ssd_ok_parts(5) [OF ok, of d] d by (auto simp: is_cdev_def)
  then show "c_cdevctx (cdevtbl (g_sce g) d) \<noteq> 0" using ssd_ok_parts(4) [OF ok k(1)] by (auto simp: ssd_owns_def)
qed

lemma served_by_registered:
  assumes ok: "ssd_ok hash g" and li: "li < 256" and ov: "unat psn + unat nr < 2 ^ 64"
    and srv: "unat (l_nr_service (luntbl (g_sce g) li)) + 1 < 2 ^ 32"
    and rd: "sce_get4read (g_sce g) (Some li) psn nr (Some out) = Some (SCE_SUCCESS, Some fm, s')"
  shows "\<exists>ssd. g_ssd g (fmap_cdevctx fm) = Some ssd \<and> s_online ssd"
proof -
  note wf = ssd_ok_parts(7) [OF ok]
  show ?thesis
  proof (rule lock_lun_cases [OF wf li ov, where svc = True])
    assume "lock_lun (g_sce g) (Some li) psn nr True = None"
    then show ?thesis using rd by (simp add: sce_get4read_def)
  next
    assume lk: "l_scehndl (luntbl (g_sce g) li)" "l_fragmap (luntbl (g_sce g) li) \<noteq> None" "req_ok (luntbl (g_sce g) li) psn nr"
      and "True \<longrightarrow> \<not> l_waiting4deletion (luntbl (g_sce g) li)"
    then have live: "\<not> l_waiting4deletion (luntbl (g_sce g) li)" by simp
    obtain d where d: "fdesc_at (luntbl (g_sce g)) li (req_frag psn) = Some d" "is_mapped d"
      and fm: "fmap_cdevctx fm = c_cdevctx (cdevtbl (g_sce g) (fst (loc_of d)))"
      using sce_get4read_correct [OF wf li lk(1,2) live lk(3) srv, of out] rd by auto
    have "loc_of d \<in> flocs (cdevtbl (g_sce g))" by (rule mapped_frag(1) [OF sce_wf_inv [OF wf] li d])
    then have "is_cdev (g_sce g) (fst (loc_of d))" by (auto simp: flocs_def is_cdev_def split: option.splits)
    then obtain p k where k: "g_ssd g p = Some k" "s_cdev k = Some (fst (loc_of d))" using ssd_ok_parts(5) [OF ok] by blast
    then show ?thesis using ssd_ok_parts(4) [OF ok k(1)] fm by (auto simp: ssd_owns_def)
  qed
qed

section \<open>Properties\<close>

lemma some_ssd_env_ok: "ssd_env_ok (some_env 16) gctx_start ''/dev/sdb''"
  by (simp add: ssd_env_ok_def some_env_def some_bdev_def) (simp add: gctx_start_def)

text \<open>A kernel with an SSD of one fragment behind the header.\<close>

definition ssd_env :: kenv where
  "ssd_env = (some_env 16)\<lparr>e_open := (\<lambda>_. Some (some_bdev\<lparr>bd_nr_sects := 4096\<rparr>))\<rparr>"

lemma ssd_env_fits: "ssd_env_ok ssd_env gctx_start ''/dev/sdb''"
  by (simp add: ssd_env_ok_def ssd_env_def some_env_def some_bdev_def) (simp add: gctx_start_def)

lemma ssd_registered: "map_option fst (ssd_register id ssd_env gctx_start ''/dev/sdb'') = Some 0"
  by code_simp

text \<open>
  C29: the registration of an SSD returns and keeps the registry well formed: each structure in it is
  online and owns the one device of the engine that has it as its context, and the engine has no
  other devices. When it succeeds the number finds the new SSD; when it fails everything but the
  engine is as before, and that has the same devices and holds the same pages.
\<close>

theorem ssd_register_all_or_nothing:
  assumes "ssd_ok hash g" "ssd_env_ok env g path"
  shows "returns (ssd_register hash env g path) (\<lambda>(r, g'). ssd_ok hash g' \<and>
    (if r = 0
     then \<exists>p d b c. e_lookup env path = Some d \<and> e_open env path = Some b
       \<and> search_ssd hash g' = (search_ssd hash g)(d := Some (Some p)) \<and> g_ssd g' p = Some (ssd_ready path d b c)
       \<and> is_cdev (g_sce g') c \<and> \<not> is_cdev (g_sce g) c \<and> c_cdevctx (cdevtbl (g_sce g') c) = p
     else g'\<lparr>g_sce := g_sce g\<rparr> = g \<and> same_cdevs (g_sce g) (g_sce g')))"
proof (rule returns_mono [OF ssd_register_effect [OF assms]])
  fix x assume post: "case x of (r, g') \<Rightarrow>
    if r = 0 then \<exists>p d. e_lookup env path = Some d \<and> p \<noteq> 0 \<and> g_ssd g p = None \<and> ssd_set_up hash env path p d g g'
    else \<exists>s. g' = g\<lparr>g_sce := s\<rparr> \<and> same_cdevs (g_sce g) s"
  obtain r g' where x: "x = (r, g')" by (cases x)
  show "case x of (r, g') \<Rightarrow> ssd_ok hash g' \<and>
    (if r = 0
     then \<exists>p d b c. e_lookup env path = Some d \<and> e_open env path = Some b
       \<and> search_ssd hash g' = (search_ssd hash g)(d := Some (Some p)) \<and> g_ssd g' p = Some (ssd_ready path d b c)
       \<and> is_cdev (g_sce g') c \<and> \<not> is_cdev (g_sce g) c \<and> c_cdevctx (cdevtbl (g_sce g') c) = p
     else g'\<lparr>g_sce := g_sce g\<rparr> = g \<and> same_cdevs (g_sce g) (g_sce g'))"
  proof (cases "r = 0")
    case True
    then obtain p d where pd: "e_lookup env path = Some d" "p \<noteq> 0" "g_ssd g p = None" and su: "ssd_set_up hash env path p d g g'"
      using post by (auto simp: x)
    have ok: "ssd_ok hash g'" by (rule ssd_set_up_ok [OF assms(1) pd(3,2) su])
    obtain b c s tbl where b: "e_open env path = Some b" "dev_added c p (g_sce g) s"
      and g': "g' = g\<lparr>g_ssd := (g_ssd g)(p \<mapsto> ssd_ready path d b c), g_sce := s, g_ssdtbl := tbl, g_nr_ssd := g_nr_ssd g + 1\<rparr>"
      and se: "search_ssd hash g' = (search_ssd hash g)(d := Some (Some p))"
      using su by (auto simp: ssd_set_up_def)
    have "g_ssd g' p = Some (ssd_ready path d b c)" "is_cdev (g_sce g') c" "\<not> is_cdev (g_sce g) c"
      "c_cdevctx (cdevtbl (g_sce g') c) = p"
      using b(2) by (simp_all add: g' dev_added_def is_cdev_def)
    then show ?thesis using True ok pd(1) b(1) se by (simp add: x) blast
  next
    case False
    then obtain s where s: "g' = g\<lparr>g_sce := s\<rparr>" "same_cdevs (g_sce g) s" using post by (auto simp: x)
    have "ssd_ok hash g'" unfolding s(1) by (rule ssd_ok_engine [OF assms(1)]) (use s(2) in \<open>simp_all add: same_cdevs_def\<close>)
    then show ?thesis using False s by (simp add: x)
  qed
qed

lemma ssd_register_all_or_nothing_witness:
  "\<exists>g' p c. ssd_register id ssd_env gctx_start ''/dev/sdb'' = Some (0, g') \<and> ssd_ok id g'
     \<and> search_ssd id g' 16 = Some (Some p) \<and> is_cdev (g_sce g') c"
proof -
  obtain g' where g': "ssd_register id ssd_env gctx_start ''/dev/sdb'' = Some (0, g')"
    using ssd_registered by auto
  have "e_lookup ssd_env ''/dev/sdb'' = Some 16" by (simp add: ssd_env_def some_env_def)
  then show ?thesis
    using ssd_register_all_or_nothing [OF ssd_ok_start [of id] ssd_env_fits] g' by auto
qed

text \<open>A context with one SSD.\<close>

lemma one_ssd:
  obtains g p ssd where "ssd_register id ssd_env gctx_start ''/dev/sdb'' = Some (0, g)" "ssd_ok id g"
    "search_ssd id g 16 = Some (Some p)" "g_ssd g p = Some ssd" "\<forall>q. ssd_quiet g q"
proof -
  obtain g where g: "ssd_register id ssd_env gctx_start ''/dev/sdb'' = Some (0, g)"
    using ssd_registered by auto
  have "\<exists>p d. e_lookup ssd_env ''/dev/sdb'' = Some d \<and> p \<noteq> 0 \<and> g_ssd gctx_start p = None
      \<and> ssd_set_up id ssd_env ''/dev/sdb'' p d gctx_start g"
    using ssd_register_effect [OF ssd_ok_start [of id] ssd_env_fits] g by auto
  then obtain p where new: "p \<noteq> 0" "g_ssd gctx_start p = None" and su: "ssd_set_up id ssd_env ''/dev/sdb'' p 16 gctx_start g"
    by (auto simp: ssd_env_def some_env_def)
  then obtain b c s tbl where
    g': "g = gctx_start\<lparr>g_ssd := (g_ssd gctx_start)(p \<mapsto> ssd_ready ''/dev/sdb'' 16 b c), g_sce := s, g_ssdtbl := tbl,
        g_nr_ssd := g_nr_ssd gctx_start + 1\<rparr>"
    and se: "search_ssd id g = (search_ssd id gctx_start)(16 := Some (Some p))"
    unfolding ssd_set_up_def by blast
  have "s_nr_ref (ssd_ready ''/dev/sdb'' 16 b c) = 0" by (simp add: ssd_ready_def ssd_zero_def)
  then have "ssd_quiet g q" for q by (cases "q = p") (simp_all add: ssd_quiet_def g' gctx_start_def)
  then show thesis using that [OF g ssd_set_up_ok [OF ssd_ok_start new(2,1) su]] se by (auto simp: g')
qed



text \<open>The run of the engine, with its device registered.\<close>

definition run_gctx :: "sce \<Rightarrow> gctx" where
  "run_gctx s = gctx_start\<lparr>g_sce := s, g_ssdtbl := (\<lambda>_. [])(16 := [7]),
     g_ssd := [7 \<mapsto> ssd_zero\<lparr>s_dev_t := 16, s_bdev := True, s_cdev := Some 0, s_online := True\<rparr>], g_nr_ssd := 1\<rparr>"

lemma run_gctx_ok:
  assumes wf: "sce_wf s" and one: "one_dev s" and cl: "cell s True (0, 0) \<noteq> {}" shows "ssd_ok id (run_gctx s)"
proof -
  obtain v l V where v: "view s (0, 0) = Some (v, l, V)" using cl by (cases "view s (0, 0)") auto
  have "l \<in> flocs (cdevtbl s)" by (rule view_flocs [OF wf v])
  then have "is_cdev s (fst l)" by (auto simp: flocs_def is_cdev_def split: option.splits)
  then have dev: "is_cdev s d \<longleftrightarrow> d = 0" "c_cdevctx (cdevtbl s 0) = 7" for d
    using one by (auto simp: one_dev_def is_cdev_def)
  have "ssd_dev (run_gctx s) 7 = Some 16" by (simp add: ssd_dev_def run_gctx_def)
  moreover have tbl: "g_ssdtbl (run_gctx s) b = (if b = 16 then [7] else [])" for b by (simp add: run_gctx_def)
  ultimately have "ssds_ok id (run_gctx s)"
    unfolding ssds_ok_def table_ok_def by (auto simp: bucket_of_def)
  moreover have "entries (g_ssdtbl (run_gctx s)) = {7}" by (auto simp: entries_def tbl split: if_splits)
  ultimately show ?thesis
    unfolding ssd_ok_def by (auto simp: run_gctx_def gctx_start_def ssd_owns_def dev wf)
qed



end
