(* ===== verification/Iostash_Module.thy ===== *)
theory Iostash_Module
  imports Iostash_Ssd
begin

text \<open>
  The commands of the control files and the life of the module: \<^verbatim>\<open>src/iostash_module.c\<close> and
  \<^verbatim>\<open>src/helpers.c\<close>. The objects of sysfs themselves are the kernel's.
\<close>

section \<open>Strings\<close>

text \<open>
  \<^verbatim>\<open>_basename\<close>: a C string is the list of its characters without the terminating 0. The loop finds the
  index of the last slash, 0 when there is none, and the result starts one character behind it.
\<close>

fun basename_loop :: "string \<Rightarrow> nat \<Rightarrow> nat \<Rightarrow> nat" where
  "basename_loop [] i last_slash = last_slash"
| "basename_loop (c # cs) i last_slash = basename_loop cs (i + 1) (if c = CHR ''/'' then i else last_slash)"

text \<open>\<open>None\<close>: of the empty string it returns the address behind the terminating 0.\<close>

definition basename :: "string \<Rightarrow> string option" where
  "basename path = (let n = basename_loop path 0 0 + 1 in if n \<le> length path then Some (drop n path) else None)"

text \<open>\<^verbatim>\<open>strstr\<close>: the rest of the line from the first occurrence of the pattern on.\<close>

fun strstr :: "string \<Rightarrow> string \<Rightarrow> string option" where
  "strstr [] pat = (if pat = [] then Some [] else None)"
| "strstr (c # cs) pat = (if take (length pat) (c # cs) = pat then Some (c # cs) else strstr cs pat)"

text \<open>Characters are signed: those from 128 on also count as not greater than a space.\<close>

definition le_space :: "char \<Rightarrow> bool" where
  "le_space c \<longleftrightarrow> of_char c \<le> (32 :: nat) \<or> of_char c \<ge> (128 :: nat)"

definition chkcmd :: "string \<Rightarrow> string \<Rightarrow> string option" where
  "chkcmd cmdline cmd =
     (case strstr cmdline cmd of
        None \<Rightarrow> None
      | Some arg \<Rightarrow> Some (takeWhile (\<lambda>c. \<not> le_space c) (dropWhile le_space (drop (length cmd) arg))))"

datatype command = Register string | Unregister string | Unknown

text \<open>The choice that \<^verbatim>\<open>caches_store\<close> and \<^verbatim>\<open>targets_store\<close> make.\<close>

definition parse_command :: "string \<Rightarrow> command" where
  "parse_command buffer =
     (case chkcmd buffer ''add'' of
        Some arg \<Rightarrow> Register arg
      | None \<Rightarrow> (case chkcmd buffer ''rm'' of Some arg \<Rightarrow> Unregister arg | None \<Rightarrow> Unknown))"

definition caches_store :: "(dev_t \<Rightarrow> u32) \<Rightarrow> kenv \<Rightarrow> gctx \<Rightarrow> string \<Rightarrow> gctx option" where
  "caches_store hash env g buffer =
     (case parse_command buffer of
        Register arg \<Rightarrow> map_option snd (ssd_register hash env g arg)
      | Unregister arg \<Rightarrow> ssd_unregister hash env g arg
      | Unknown \<Rightarrow> Some g)"

definition targets_store :: "(dev_t \<Rightarrow> u32) \<Rightarrow> kenv \<Rightarrow> gctx \<Rightarrow> string \<Rightarrow> gctx option" where
  "targets_store hash env g buffer =
     (case parse_command buffer of
        Register arg \<Rightarrow> map_option snd (hdd_register hash env g arg)
      | Unregister arg \<Rightarrow> hdd_unregister hash env g arg
      | Unknown \<Rightarrow> Some g)"

section \<open>The life of the module\<close>

text \<open>
  A pointer of the context: NULL, an error pointer, an object that is held, or one that has been given
  back already. \<open>None\<close> is an error: an object is released that is not held, or the lists of the
  tables, which the zeroed context does not have, are walked.
\<close>

datatype kobject = Null | ErrPtr | Obj | Gone

record module_state =
  m_io_pool :: kobject
  m_io_client :: kobject
  m_sce :: kobject
  m_pdm :: kobject
  m_lists :: bool
  m_ctl :: kobject
  m_ssd_kset :: kobject
  m_hdd_kset :: kobject

definition module_zero :: module_state where
  "module_zero = \<lparr>m_io_pool = Null, m_io_client = Null, m_sce = Null, m_pdm = Null, m_lists = False,
     m_ctl = Null, m_ssd_kset = Null, m_hdd_kset = Null\<rparr>"

text \<open>
  What the kernel grants: the slab cache, the client of \<^verbatim>\<open>dm_io\<close>, the memory of the engine and of the
  daemon, and the three objects of sysfs.
\<close>

record grants =
  gr_io_pool :: bool
  gr_io_client :: bool
  gr_sce :: bool
  gr_pdm :: bool
  gr_ctl :: bool
  gr_ssd_kset :: bool
  gr_hdd_kset :: bool

definition is_err :: "kobject \<Rightarrow> bool" where
  "is_err k \<longleftrightarrow> k = ErrPtr"

definition release :: "kobject \<Rightarrow> unit option" where
  "release k = bug_on (k \<noteq> Obj)"

text \<open>\<^verbatim>\<open>kset_unregister\<close> does nothing to NULL.\<close>

definition kset_release :: "kobject \<Rightarrow> unit option" where
  "kset_release k = bug_on (k \<noteq> Obj \<and> k \<noteq> Null)"

definition destroy_iostash_kobjects :: "module_state \<Rightarrow> module_state option" where
  "destroy_iostash_kobjects m = do {
     release (m_ctl m);
     kset_release (m_ssd_kset m);
     kset_release (m_hdd_kset m);
     Some (m\<lparr>m_ctl := Gone, m_ssd_kset := Gone, m_hdd_kset := Gone\<rparr>)
   }"

text \<open>
  The errors of the labels: \<^verbatim>\<open>kobj_del\<close> falls through to \<^verbatim>\<open>unreg_ssd_kset\<close>, and the latter leaves the
  control object. The result tells whether it failed.
\<close>

definition init_iostash_kobjects :: "grants \<Rightarrow> module_state \<Rightarrow> (bool \<times> module_state) option" where
  "init_iostash_kobjects gr m =
     (if \<not> gr_ctl gr then Some (True, m\<lparr>m_ctl := Gone\<rparr>)
      else let m1 = m\<lparr>m_ctl := Obj, m_ssd_kset := (if gr_ssd_kset gr then Obj else Null)\<rparr>
      in if m_ssd_kset m1 = Null then do {
           release (m_ctl m1);
           kset_release (m_ssd_kset m1);
           Some (True, m1\<lparr>m_ctl := Gone\<rparr>)
         }
      else let m2 = m1\<lparr>m_hdd_kset := (if gr_hdd_kset gr then Obj else Null)\<rparr>
      in if m_hdd_kset m2 = Null then do {
           kset_release (m_ssd_kset m2);
           Some (True, m2\<lparr>m_ssd_kset := Gone\<rparr>)
         }
      else Some (False, m2))"

text \<open>
  \<^verbatim>\<open>_free_resource\<close>: \<^verbatim>\<open>ssd_unregister_all\<close> and \<^verbatim>\<open>hdd_unregister_all\<close> need the lists; each pointer that is
  not NULL is released.
\<close>

definition free_ptr :: "kobject \<Rightarrow> unit option" where
  "free_ptr k = (if k = Null then Some () else release k)"

definition free_resource :: "module_state \<Rightarrow> module_state option" where
  "free_resource m = do {
     bug_on (\<not> m_lists m);
     free_ptr (m_pdm m);
     free_ptr (m_sce m);
     free_ptr (m_io_client m);
     free_ptr (m_io_pool m);
     Some (m\<lparr>m_pdm := Null, m_sce := Null, m_io_client := Null, m_io_pool := Null\<rparr>)
   }"

definition iostash_init :: "grants \<Rightarrow> (bool \<times> module_state) option" where
  "iostash_init gr = (let m = module_zero in
     if \<not> gr_io_pool gr then map_option (Pair False) (free_resource m)
     else let m1 = m\<lparr>m_io_pool := Obj, m_io_client := (if gr_io_client gr then Obj else ErrPtr)\<rparr> in
     if is_err (m_io_client m1) then map_option (Pair False) (free_resource m1)
     else if \<not> gr_sce gr then map_option (Pair False) (free_resource m1)
     else let m2 = m1\<lparr>m_sce := Obj, m_pdm := (if gr_pdm gr then Obj else Null)\<rparr> in do {
       (failed, m3) \<leftarrow> init_iostash_kobjects gr m2;
       m4 \<leftarrow> if failed then destroy_iostash_kobjects m3 else Some m3;
       Some (True, m4\<lparr>m_lists := True\<rparr>)
     })"

definition iostash_exit :: "module_state \<Rightarrow> module_state option" where
  "iostash_exit m = do { m1 \<leftarrow> free_resource m; destroy_iostash_kobjects m1 }"

section \<open>Searching\<close>

lemma strstr_none_append:
  assumes "x \<notin> set pat" "pat \<noteq> []" shows "strstr (cs @ x # ds) pat = (case strstr cs pat of None \<Rightarrow> strstr (x # ds) pat | Some r \<Rightarrow> Some (r @ x # ds))"
proof (induction cs)
  case Nil
  then show ?case using assms(2) by simp
next
  case (Cons c cs)
  have "take (length pat) (c # cs @ x # ds) = pat \<longleftrightarrow> take (length pat) (c # cs) = pat"
  proof (cases "length pat \<le> length (c # cs)")
    case True
    then have "take (length pat) ((c # cs) @ x # ds) = take (length pat) (c # cs)" by (simp only: take_append) simp
    then show ?thesis by simp
  next
    case False
    then have "take (length pat) ((c # cs) @ x # ds) = (c # cs) @ take (length pat - length (c # cs)) (x # ds)"
      by (simp only: take_append) simp
    moreover have "x \<in> set ((c # cs) @ take (length pat - length (c # cs)) (x # ds))"
      using False by (cases "length pat - length (c # cs)") auto
    moreover have "length (take (length pat) (c # cs)) \<noteq> length pat" using False by simp
    ultimately show ?thesis using assms(1) by (metis append_Cons)
  qed
  then show ?case using Cons by simp
qed

lemma strstr_Some: "strstr cs pat = Some r \<Longrightarrow> take (length pat) r = pat"
  by (induction cs) (auto split: if_splits)

text \<open>A word ends at the newline.\<close>

lemma takeWhile_word: "\<forall>c \<in> set w. \<not> le_space c \<Longrightarrow> le_space x \<Longrightarrow> takeWhile (\<lambda>c. \<not> le_space c) (w @ x # y) = w"
  by (simp add: takeWhile_append2)

lemma dropWhile_word: "\<forall>c \<in> set w. \<not> le_space c \<Longrightarrow> le_space x \<Longrightarrow>
  takeWhile (\<lambda>c. \<not> le_space c) (dropWhile le_space (w @ x # y)) = (if w = [] then takeWhile (\<lambda>c. \<not> le_space c) (dropWhile le_space y) else w)"
  by (cases w) (simp_all add: takeWhile_append2)

lemma strstr_set: "strstr cs pat = Some r \<Longrightarrow> set r \<subseteq> set cs"
  by (induction cs) (auto split: if_splits)

lemma le_space_newline [simp]: "le_space CHR 0x0A" "le_space CHR '' ''"
  by (simp_all add: le_space_def)

abbreviation (input) newline :: string where "newline \<equiv> [CHR 0x0A]"

lemma chkcmd_line:
  assumes "\<forall>c \<in> set path. \<not> le_space c" "cmd = ''add'' \<or> cmd = ''rm''"
  shows "chkcmd (cmd @ '' '' @ path @ newline) cmd = Some path"
proof -
  have "strstr (cmd @ '' '' @ path @ newline) cmd = Some (cmd @ '' '' @ path @ newline)" using assms(2) by auto
  moreover have "takeWhile (\<lambda>c. \<not> le_space c) (dropWhile le_space ('' '' @ path @ newline)) = path"
    using dropWhile_word [OF assms(1), of "CHR 0x0A" "[]"] by (simp split: if_splits)
  ultimately show ?thesis by (simp add: chkcmd_def)
qed

lemma chkcmd_rm_add: "chkcmd (''rm '' @ path @ newline) ''add'' =
   (case strstr path ''add'' of None \<Rightarrow> None
    | Some r \<Rightarrow> Some (takeWhile (\<lambda>c. \<not> le_space c) (dropWhile le_space (drop 3 (r @ newline)))))"
proof -
  have "strstr (path @ CHR 0x0A # []) ''add'' = (case strstr path ''add'' of None \<Rightarrow> None | Some r \<Rightarrow> Some (r @ newline))"
    by (subst strstr_none_append) (simp_all split: option.splits)
  then show ?thesis by (cases "strstr path ''add''") (simp_all add: chkcmd_def numeral_3_eq_3)
qed

section \<open>Properties\<close>

text \<open>
  C35: a line \<^verbatim>\<open>add PATH\<close> is read as the registration of the path, and a line \<^verbatim>\<open>rm PATH\<close> as its removal
  unless \<^verbatim>\<open>add\<close> occurs in the path: then the first word of the command is not looked at, and what
  follows the \<^verbatim>\<open>add\<close> is registered.
\<close>

theorem commands_parse:
  assumes "\<forall>c \<in> set path. \<not> le_space c"
  shows "parse_command (''add '' @ path @ newline) = Register path
    \<and> parse_command (''rm '' @ path @ newline)
       = (case strstr path ''add'' of None \<Rightarrow> Unregister path | Some r \<Rightarrow> Register (drop 3 r))"
proof
  have "chkcmd (''add'' @ '' '' @ path @ newline) ''add'' = Some path" by (rule chkcmd_line [OF assms]) simp
  then show "parse_command (''add '' @ path @ newline) = Register path" by (simp add: parse_command_def)
  have rm: "chkcmd (''rm'' @ '' '' @ path @ newline) ''rm'' = Some path" by (rule chkcmd_line [OF assms]) simp
  show "parse_command (''rm '' @ path @ newline)
       = (case strstr path ''add'' of None \<Rightarrow> Unregister path | Some r \<Rightarrow> Register (drop 3 r))"
  proof (cases "strstr path ''add''")
    case None
    then show ?thesis using rm chkcmd_rm_add [of path] by (simp add: parse_command_def)
  next
    case (Some r)
    have "length r \<ge> 3" using strstr_Some [OF Some] by (cases "length r \<ge> 3") (auto dest: arg_cong [where f = length])
    then have "drop 3 (r @ newline) = drop 3 r @ CHR 0x0A # []" by simp
    moreover have "\<forall>c \<in> set (drop 3 r). \<not> le_space c" using strstr_set [OF Some] assms set_drop_subset [of 3 r] by blast
    ultimately have "takeWhile (\<lambda>c. \<not> le_space c) (dropWhile le_space (drop 3 (r @ newline))) = drop 3 r"
      using dropWhile_word [of "drop 3 r" "CHR 0x0A" "[]"] by (simp split: if_splits)
    then show ?thesis using Some chkcmd_rm_add [of path] by (simp add: parse_command_def)
  qed
qed

lemma commands_parse_witness:
  "parse_command (''rm /dev/sdb'' @ newline) = Unregister ''/dev/sdb'' \<and> parse_command (''rm /dev/add1'' @ newline) = Register ''1''"
proof -
  have "parse_command (''rm '' @ ''/dev/sdb'' @ newline)
      = (case strstr ''/dev/sdb'' ''add'' of None \<Rightarrow> Unregister ''/dev/sdb'' | Some r \<Rightarrow> Register (drop 3 r))"
    by (rule conjunct2 [OF commands_parse]) (simp add: le_space_def)
  moreover have "parse_command (''rm '' @ ''/dev/add1'' @ newline)
      = (case strstr ''/dev/add1'' ''add'' of None \<Rightarrow> Unregister ''/dev/add1'' | Some r \<Rightarrow> Register (drop 3 r))"
    by (rule conjunct2 [OF commands_parse]) (simp add: le_space_def)
  ultimately show ?thesis by simp
qed

lemma basename_loop_append: "basename_loop (xs @ ys) i k = basename_loop ys (i + length xs) (basename_loop xs i k)"
  by (induction xs arbitrary: i k) simp_all

lemma basename_loop_none: "CHR ''/'' \<notin> set xs \<Longrightarrow> basename_loop xs i k = k"
  by (induction xs arbitrary: i) auto

text \<open>
  The name of a path is what follows its last slash; but of a path without a slash the first
  character is lost, and of the empty one memory behind it is read.
\<close>

theorem basename_of_path:
  assumes "CHR ''/'' \<notin> set name"
  shows "basename (dir @ ''/'' @ name) = Some name \<and> basename name = (case name of [] \<Rightarrow> None | _ # cs \<Rightarrow> Some cs)"
proof
  have "basename_loop (dir @ ''/'' @ name) 0 0 = length dir"
    using basename_loop_none [OF assms] by (simp add: basename_loop_append)
  then show "basename (dir @ ''/'' @ name) = Some name" by (simp add: basename_def)
  show "basename name = (case name of [] \<Rightarrow> None | _ # cs \<Rightarrow> Some cs)"
    using basename_loop_none [OF assms, of 0 0] by (cases name) (simp_all add: basename_def Let_def)
qed

lemma basename_of_path_witness: "basename ''/dev/sdb'' = Some ''sdb'' \<and> basename ''sdb'' = Some ''db''"
  using basename_of_path [of "''sdb''" "''/dev''"] by simp

text \<open>
  C36: the module starts exactly if everything but the daemon is granted; it then holds all its
  objects, and its end releases each of them once. No failure of the start is handled: the clean-up
  walks the tables before their lists exist, and what \<^verbatim>\<open>_init_iostash_kobjects\<close> has given back on its
  way out is released a second time.
\<close>

theorem module_starts_or_crashes:
  "iostash_init gr =
     (if gr_io_pool gr \<and> gr_io_client gr \<and> gr_sce gr \<and> gr_ctl gr \<and> gr_ssd_kset gr \<and> gr_hdd_kset gr
      then Some (True, \<lparr>m_io_pool = Obj, m_io_client = Obj, m_sce = Obj, m_pdm = (if gr_pdm gr then Obj else Null), m_lists = True,
        m_ctl = Obj, m_ssd_kset = Obj, m_hdd_kset = Obj\<rparr>)
      else None)
   \<and> (case iostash_init gr of None \<Rightarrow> True
      | Some (ok, m) \<Rightarrow> iostash_exit m = Some (module_zero\<lparr>m_lists := True, m_ctl := Gone, m_ssd_kset := Gone, m_hdd_kset := Gone\<rparr>))"
proof
  show init: "iostash_init gr =
     (if gr_io_pool gr \<and> gr_io_client gr \<and> gr_sce gr \<and> gr_ctl gr \<and> gr_ssd_kset gr \<and> gr_hdd_kset gr
      then Some (True, \<lparr>m_io_pool = Obj, m_io_client = Obj, m_sce = Obj, m_pdm = (if gr_pdm gr then Obj else Null), m_lists = True,
        m_ctl = Obj, m_ssd_kset = Obj, m_hdd_kset = Obj\<rparr>)
      else None)"
    by (simp add: iostash_init_def Let_def module_zero_def is_err_def free_resource_def init_iostash_kobjects_def
        destroy_iostash_kobjects_def release_def kset_release_def bug_on_def)
  show "case iostash_init gr of None \<Rightarrow> True | Some (ok, m) \<Rightarrow> iostash_exit m = Some (module_zero\<lparr>m_lists := True, m_ctl := Gone, m_ssd_kset := Gone, m_hdd_kset := Gone\<rparr>)"
    unfolding init
    by (simp add: iostash_exit_def free_resource_def free_ptr_def destroy_iostash_kobjects_def release_def kset_release_def bug_on_def module_zero_def)
qed

end
