(* ===== verification/Iostash_Show.thy ===== *)
theory Iostash_Show
  imports Iostash_Module
begin

text \<open>
  The texts of sysfs: the names of the objects of disks and SSDs and the contents of their attribute
  files (\<^verbatim>\<open>src/iostash_hdd.c\<close>, \<^verbatim>\<open>src/iostash_ssd.c\<close>, \<^verbatim>\<open>src/iostash_module.c\<close>). A text is the string that
  \<^verbatim>\<open>sprintf\<close> writes into the buffer, without the terminating 0; the buffer has the size of a page.
\<close>

section \<open>Formatted numbers\<close>

definition digit :: "nat \<Rightarrow> char" where
  "digit d = char_of (48 + d)"

fun decimal :: "nat \<Rightarrow> string" where
  "decimal n = (if n < 10 then [digit n] else decimal (n div 10) @ [digit (n mod 10)])"

declare decimal.simps [simp del]

text \<open>\<^verbatim>\<open>%lu\<close>, \<^verbatim>\<open>%u\<close>, and \<^verbatim>\<open>%d\<close> of an unsigned argument, which is read as a signed number.\<close>

definition fmt_lu :: "u64 \<Rightarrow> string" where
  "fmt_lu w = decimal (unat w)"

definition fmt_u :: "u32 \<Rightarrow> string" where
  "fmt_u w = decimal (unat w)"

definition fmt_d :: "u32 \<Rightarrow> string" where
  "fmt_d w = (if sint w < 0 then ''-'' @ decimal (nat (- sint w)) else decimal (nat (sint w)))"

abbreviation (input) newline :: string where "newline \<equiv> [char_of (10 :: nat)]"

abbreviation (input) PAGE_SIZE :: nat where "PAGE_SIZE \<equiv> 4096"

text \<open>What the show functions have in common: the length of the text, and the check against a page.\<close>

definition shown :: "string \<Rightarrow> (nat \<times> string) option" where
  "shown buffer = do { bug_on (length buffer > PAGE_SIZE); Some (length buffer, buffer) }"

section \<open>The code\<close>

definition name_show :: "string \<Rightarrow> (nat \<times> string) option" where
  "name_show path = shown (path @ newline)"

definition hdd_stats_text :: "lun_stats \<Rightarrow> string" where
  "hdd_stats_text st =
     ''Allocated sectors : '' @ fmt_lu (alloc_sctrs st * SCE_SCTRPERFRAG) @ newline @
     ''Valid sectors     : '' @ fmt_lu (valid_sctrs st) @ newline @
     ''Populations       : '' @ fmt_lu (populations st) @ newline @
     ''Read I/Os         : '' @ fmt_lu (reads st) @ newline @
     ''Read sectors      : '' @ fmt_lu (read_sctrs st) @ newline @
     ''Read Cache Hits   : '' @ fmt_lu (read_hits st) @ newline @
     ''Write I/Os        : '' @ fmt_lu (writes st) @ newline @
     ''Write sectors     : '' @ fmt_lu (write_sctrs st) @ newline @
     ''Write Invalidates : '' @ fmt_lu (write_hits st) @ newline"

definition hdd_stats_show :: "sce \<Rightarrow> hdd_info \<Rightarrow> (nat \<times> string) option" where
  "hdd_stats_show s hdd = do { li \<leftarrow> h_lun hdd; shown (hdd_stats_text (l_stats (luntbl s li))) }"

text \<open>The counters of the module that the statistics show, and the text.\<close>

record gstats =
  gs_nr_hdd :: u32
  gs_nr_ssd :: u32
  gs_read :: u32
  gs_write :: u32
  gs_cread :: u32
  gs_population :: u32

definition gstats_text :: "gstats \<Rightarrow> sce_status_t \<Rightarrow> string" where
  "gstats_text g st =
     ''l:'' @ fmt_d (gs_nr_hdd g) @ '',s:'' @ fmt_d (gs_nr_ssd g) @ '',r:'' @ fmt_d (gs_read g) @
     '',w:'' @ fmt_d (gs_write g) @ '',cr:'' @ fmt_d (gs_cread g) @ '',p:'' @ fmt_d (gs_population g) @
     '',tf:'' @ fmt_d (st_nr_totfrag st) @ '',ff:'' @ fmt_d (st_nr_freefrag st) @
     '',e:'' @ fmt_d (st_nr_eviction st) @ newline"

text \<open>The engine is \<open>None\<close> while the module has none: then the function stops with \<^verbatim>\<open>BUG\<close>.\<close>

definition gstats_show :: "sce option \<Rightarrow> gstats \<Rightarrow> (nat \<times> string) option" where
  "gstats_show engine g = do {
     s \<leftarrow> engine;
     st \<leftarrow> snd (sce_get_status s (Some \<lparr>st_nr_hit = 0, st_nr_miss = 0, st_nr_freefrag = 0, st_nr_totfrag = 0, st_nr_eviction = 0\<rparr>));
     shown (gstats_text g st)
   }"

text \<open>
  An attribute: its name and its \<^verbatim>\<open>show\<close> function, which may be NULL. Reading dispatches on it, writing
  the attributes of a disk or an SSD does nothing and reports that all was taken; the control files
  \<^verbatim>\<open>caches\<close> and \<^verbatim>\<open>targets\<close> show nothing.
\<close>

definition kobj_show :: "('a \<Rightarrow> (nat \<times> string) option) option \<Rightarrow> 'a \<Rightarrow> (nat \<times> string) option" where
  "kobj_show show obj = (case show of None \<Rightarrow> Some (0, []) | Some f \<Rightarrow> f obj)"

definition kobj_store :: "'a \<Rightarrow> string \<Rightarrow> nat \<Rightarrow> nat" where
  "kobj_store obj buffer sz = sz"

definition caches_show :: "nat \<times> string" where
  "caches_show = (0, [])"

definition targets_show :: "nat \<times> string" where
  "targets_show = (0, [])"

definition hdd_attrs :: "sce \<Rightarrow> (string \<times> (hdd_info \<Rightarrow> (nat \<times> string) option)) list" where
  "hdd_attrs s = [(''name'', \<lambda>hdd. name_show (h_path hdd)), (''stats'', hdd_stats_show s)]"

definition ssd_attrs :: "(string \<times> (ssd_info \<Rightarrow> (nat \<times> string) option)) list" where
  "ssd_attrs = [(''name'', \<lambda>ssd. name_show (s_path ssd))]"

text \<open>The control files, and the functions through which they are read and written.\<close>

definition ctl_show :: "(nat \<times> string) option option \<Rightarrow> (nat \<times> string) option" where
  "ctl_show show = (case show of None \<Rightarrow> Some (0, []) | Some r \<Rightarrow> r)"

definition ctl_store :: "('g \<Rightarrow> string \<Rightarrow> 'g option) option \<Rightarrow> 'g \<Rightarrow> string \<Rightarrow> nat \<Rightarrow> (nat \<times> 'g) option" where
  "ctl_store store g buffer sz =
     (case store of None \<Rightarrow> Some (sz, g) | Some f \<Rightarrow> map_option (Pair sz) (f g buffer))"

definition ctl_attrs :: "(dev_t \<Rightarrow> u32) \<Rightarrow> kenv \<Rightarrow> sce option \<Rightarrow> gstats
    \<Rightarrow> (string \<times> (nat \<times> string) option option \<times> (gctx \<Rightarrow> string \<Rightarrow> gctx option) option) list" where
  "ctl_attrs hash env engine st =
     [(''caches'', Some (Some caches_show), Some (caches_store hash env)),
      (''targets'', Some (Some targets_show), Some (targets_store hash env)),
      (''gstats'', Some (gstats_show engine st), None)]"

text \<open>The name of the object of a device: \<^verbatim>\<open>"%s-%u.%u"\<close>; a device number has 12 and 20 bits.\<close>

definition MAJOR :: "dev_t \<Rightarrow> u32" where
  "MAJOR dv = drop_bit 20 dv"

definition MINOR :: "dev_t \<Rightarrow> u32" where
  "MINOR dv = dv AND (push_bit 20 1 - 1)"

definition kobj_name :: "string \<Rightarrow> dev_t \<Rightarrow> string option" where
  "kobj_name path dv = do {
     b \<leftarrow> basename path;
     Some (b @ ''-'' @ fmt_u (MAJOR dv) @ ''.'' @ fmt_u (MINOR dv))
   }"

section \<open>Numbers\<close>

definition is_digit :: "char \<Rightarrow> bool" where
  "is_digit c \<longleftrightarrow> (48 :: nat) \<le> of_char c \<and> of_char c \<le> (57 :: nat)"

definition value_of :: "string \<Rightarrow> nat" where
  "value_of xs = foldl (\<lambda>n c. 10 * n + (of_char c - 48)) 0 xs"

lemma of_char_digit [simp]: "d < 10 \<Longrightarrow> of_char (digit d) = 48 + d"
  by (simp add: digit_def)

lemma decimal_digits: "\<forall>c \<in> set (decimal n). is_digit c"
proof (induction n rule: decimal.induct)
  case (1 n)
  have "is_digit (digit d)" if "d < 10" for d using that by (simp add: is_digit_def)
  then show ?case using 1 by (subst decimal.simps) auto
qed

lemma decimal_nonempty [simp]: "decimal n \<noteq> []"
  by (subst decimal.simps) simp

lemma value_of_decimal [simp]: "value_of (decimal n) = n"
proof (induction n rule: decimal.induct)
  case (1 n)
  have "value_of (xs @ [c]) = 10 * value_of xs + (of_char c - 48)" for xs c by (simp add: value_of_def)
  then show ?case using 1 by (subst decimal.simps) (simp add: value_of_def)
qed

lemma length_decimal: "n < 10 ^ Suc k \<Longrightarrow> length (decimal n) \<le> Suc k"
proof (induction k arbitrary: n)
  case 0
  then show ?case by (subst decimal.simps) simp
next
  case (Suc k)
  show ?case
  proof (cases "n < 10")
    case True
    then show ?thesis by (subst decimal.simps) simp
  next
    case False
    have "n div 10 < 10 ^ Suc k" using Suc.prems by (simp add: less_mult_imp_div_less)
    from Suc.IH [OF this] False show ?thesis by (subst decimal.simps) simp
  qed
qed

lemma length_fmt_lu: "length (fmt_lu w) \<le> 20"
proof -
  have "unat w < 2 ^ LENGTH(64)" by (rule unsigned_less)
  then have "unat w < 10 ^ Suc 19" by simp
  then show ?thesis unfolding fmt_lu_def using length_decimal [of "unat w" 19] by simp
qed

lemma length_fmt_d: "length (fmt_d w) \<le> 11"
proof -
  have "- (2 ^ 31) \<le> sint w" "sint w < 2 ^ 31"
    using sint_greater_eq [of w] sint_less [of w] by simp_all
  then have "nat (- sint w) < 10 ^ Suc 9" "nat (sint w) < 10 ^ Suc 9" by auto
  from this [THEN length_decimal] show ?thesis by (auto simp: fmt_d_def)
qed

text \<open>A number is read back from the end of a text, up to a character that is not a digit.\<close>

lemma decimal_suffix:
  assumes "\<not> is_digit c" "\<not> is_digit c'" and e: "xs @ c # decimal m = ys @ c' # decimal n"
  shows "xs = ys \<and> c = c' \<and> m = n"
proof -
  have t: "takeWhile is_digit (rev (zs @ x # decimal k)) = rev (decimal k)
      \<and> dropWhile is_digit (rev (zs @ x # decimal k)) = x # rev zs" if "\<not> is_digit x" for zs x k
    using that decimal_digits [of k] by (auto simp: takeWhile_append dropWhile_append)
  have "rev (decimal m) = rev (decimal n)" "c # rev xs = c' # rev ys"
    using t [OF assms(1), of xs m] t [OF assms(2), of ys n] e by simp_all
  then have "decimal m = decimal n" "c = c'" "xs = ys" by simp_all
  moreover have "m = n" using arg_cong [OF \<open>decimal m = decimal n\<close>, of value_of] by (simp only: value_of_decimal)
  ultimately show ?thesis by simp
qed

lemma dev_parts: "MAJOR d = MAJOR d' \<Longrightarrow> MINOR d = MINOR d' \<Longrightarrow> d = d'"
proof (rule bit_word_eqI)
  fix i assume e: "MAJOR d = MAJOR d'" "MINOR d = MINOR d'" and "i < LENGTH(32)"
  have hi: "bit w i = bit (MAJOR w) (i - 20)" if "20 \<le> i" for w :: u32
    using that by (simp add: MAJOR_def bit_drop_bit_eq)
  have lo: "bit w i = bit (MINOR w) i" if "i < 20" for w :: u32
    using that by (simp only: MINOR_def bit_and_iff bit_mask_word) simp
  show "bit d i = bit d' i"
    using hi [of d] hi [of d'] lo [of d] lo [of d'] e by (cases "i < 20") simp_all
qed

section \<open>Properties\<close>

text \<open>
  The texts of the attribute files fit their buffer of one page, whatever the counters hold: the
  check at the end of each show function never fires, and the length that is reported is that of the
  text. For the name of a device its path must fit the structure.
\<close>

theorem shows_fit:
  assumes "length path < 80" "h_lun hdd = Some li"
  shows "name_show path = Some (length path + 1, path @ newline)
    \<and> returns (hdd_stats_show s hdd) (\<lambda>(n, t). n = length t \<and> n \<le> PAGE_SIZE \<and> t = hdd_stats_text (l_stats (luntbl s li)))
    \<and> returns (gstats_show (Some s) g) (\<lambda>(n, t). n = length t \<and> n \<le> PAGE_SIZE)"
proof -
  have "length (hdd_stats_text st) \<le> 4096" for st
    using length_fmt_lu [of "alloc_sctrs st * 2048"] length_fmt_lu [of "valid_sctrs st"] length_fmt_lu [of "populations st"]
      length_fmt_lu [of "reads st"] length_fmt_lu [of "read_sctrs st"] length_fmt_lu [of "read_hits st"]
      length_fmt_lu [of "writes st"] length_fmt_lu [of "write_sctrs st"] length_fmt_lu [of "write_hits st"]
    by (simp add: hdd_stats_text_def)
  moreover have "length (gstats_text g st) \<le> 4096" for st
    using length_fmt_d [of "gs_nr_hdd g"] length_fmt_d [of "gs_nr_ssd g"] length_fmt_d [of "gs_read g"] length_fmt_d [of "gs_write g"]
      length_fmt_d [of "gs_cread g"] length_fmt_d [of "gs_population g"] length_fmt_d [of "st_nr_totfrag st"]
      length_fmt_d [of "st_nr_freefrag st"] length_fmt_d [of "st_nr_eviction st"]
    by (simp add: gstats_text_def)
  ultimately show ?thesis
    using assms by (simp add: name_show_def hdd_stats_show_def gstats_show_def shown_def bug_on_def sce_get_status_def not_less)
qed

lemma shows_fit_witness:
  "name_show ''/dev/sdb1'' = Some (10, ''/dev/sdb1'' @ newline)
    \<and> returns (hdd_stats_show (example True 0) (hdd_zero\<lparr>h_lun := Some 0\<rparr>)) (\<lambda>(n, t). n = length t \<and> n \<le> PAGE_SIZE)"
proof -
  have "length ''/dev/sdb1'' < 80" "h_lun (hdd_zero\<lparr>h_lun := Some 0\<rparr>) = Some 0" by simp_all
  note f = shows_fit [OF this, where s = "example True 0" and g = undefined]
  have "name_show ''/dev/sdb1'' = Some (10, ''/dev/sdb1'' @ newline)" using f by simp
  moreover have "returns (hdd_stats_show (example True 0) (hdd_zero\<lparr>h_lun := Some 0\<rparr>)) (\<lambda>(n, t). n = length t \<and> n \<le> PAGE_SIZE)"
    by (rule returns_mono [OF conjunct1 [OF conjunct2 [OF f]]]) auto
  ultimately show ?thesis by blast
qed

text \<open>
  The names of the objects in sysfs tell the devices apart: whatever the paths are, two devices
  with the same name are the same device.
\<close>

theorem kobj_names_differ:
  assumes "kobj_name path dv = Some name" "kobj_name path' dv' = Some name"
  shows "dv = dv' \<and> basename path = basename path'"
proof -
  obtain b b' where b: "basename path = Some b" "basename path' = Some b'"
    "(b @ ''-'' @ fmt_u (MAJOR dv)) @ CHR ''.'' # decimal (unat (MINOR dv))
      = (b' @ ''-'' @ fmt_u (MAJOR dv')) @ CHR ''.'' # decimal (unat (MINOR dv'))"
    using assms by (auto simp: kobj_name_def fmt_u_def split: Option.bind_splits)
  have nd: "\<not> is_digit (CHR ''.'')" "\<not> is_digit (CHR ''-'')" by (simp_all add: is_digit_def)
  have 1: "b @ ''-'' @ fmt_u (MAJOR dv) = b' @ ''-'' @ fmt_u (MAJOR dv')" "unat (MINOR dv) = unat (MINOR dv')"
    using decimal_suffix [OF nd(1,1) b(3)] by simp_all
  have "b = b' \<and> unat (MAJOR dv) = unat (MAJOR dv')"
    using decimal_suffix [OF nd(2,2), of b "unat (MAJOR dv)" b' "unat (MAJOR dv')"] 1(1) by (simp add: fmt_u_def)
  then show ?thesis using 1(2) b(1,2) dev_parts [of dv dv'] by (simp add: word_unat_eq_iff)
qed

lemma kobj_names_differ_witness:
  "kobj_name ''/dev/sdb'' 0x00800010 = Some ''sdb-8.16'' \<and> basename ''/dev/sdb'' = basename ''/mnt/sdb''"
proof -
  have n: "kobj_name ''/dev/sdb'' 0x00800010 = Some ''sdb-8.16''" "kobj_name ''/mnt/sdb'' 0x00800010 = Some ''sdb-8.16''"
    by code_simp+
  from kobj_names_differ [OF n] n(1) show ?thesis by simp
qed

end
