(* ===== verification/Iostash_Pdm.thy ===== *)
theory Iostash_Pdm
  imports Sce_System
begin

text \<open>
  The population daemon, \<^verbatim>\<open>src/pdm.c\<close>: the rates it compares, one pass of the loop of a daemon
  thread, and the creation and the end of the threads.

  The two functions that copy a fragment are arguments of \<^verbatim>\<open>pdm_create\<close>; here they are parameters
  that may change an environment \<open>'e\<close> (the buffer and the devices) and report a code. A pass is
  modelled as it runs when no other call comes between its own; interleavings are those of
  \<open>Sce_System\<close>. What \<^verbatim>\<open>kthread_run\<close> returns is a parameter: NULL, an error pointer, or a task.
\<close>

section \<open>Rates\<close>

record pdm_cfg_t =
  period_ms :: u32
  target_missrate :: u32
  min_freefragper :: u32

definition gpdmcfg :: "pdm_cfg_t list" where
  "gpdmcfg = [
     \<lparr>period_ms = 200, target_missrate = 50, min_freefragper = 35\<rparr>,
     \<lparr>period_ms = 300, target_missrate = 45, min_freefragper = 30\<rparr>,
     \<lparr>period_ms = 400, target_missrate = 40, min_freefragper = 25\<rparr>,
     \<lparr>period_ms = 500, target_missrate = 35, min_freefragper = 20\<rparr>,
     \<lparr>period_ms = 600, target_missrate = 50, min_freefragper = 0\<rparr>,
     \<lparr>period_ms = 700, target_missrate = 25, min_freefragper = 0\<rparr>,
     \<lparr>period_ms = 800, target_missrate = 13, min_freefragper = 0\<rparr>,
     \<lparr>period_ms = 5000, target_missrate = 0, min_freefragper = 0\<rparr>]"

abbreviation (input) PDM_NRTHREAD :: nat where "PDM_NRTHREAD \<equiv> 8"

definition calc_missrate :: "sce_status_t \<Rightarrow> sce_status_t \<Rightarrow> u32" where
  "calc_missrate prev now =
     (let hitcnt = (if st_nr_hit now > st_nr_hit prev then st_nr_hit now - st_nr_hit prev else st_nr_hit now);
          misscnt = (if st_nr_miss now > st_nr_miss prev then st_nr_miss now - st_nr_miss prev else st_nr_miss now);
          total = hitcnt + misscnt
      in if total \<noteq> 0 then (misscnt * 100) div total else 0)"

definition calc_freefragper :: "sce_status_t \<Rightarrow> u32" where
  "calc_freefragper st = (if st_nr_totfrag st \<noteq> 0 then st_nr_freefrag st * 100 div st_nr_totfrag st else 0)"

section \<open>The loop of a thread\<close>

abbreviation (input) SCE_POPCNT :: int where "SCE_POPCNT \<equiv> 1"

text \<open>The part of a pass that populates; every \<^verbatim>\<open>goto skip\<close> ends it.\<close>

definition pdm_populate ::
  "(sce_poptask_t \<Rightarrow> 'e \<Rightarrow> rc \<times> 'e) \<Rightarrow> (sce_poptask_t \<Rightarrow> 'e \<Rightarrow> rc \<times> 'e) \<Rightarrow> sce_poptask_t \<Rightarrow> sce \<times> 'e \<Rightarrow> (sce \<times> 'e) option" where
  "pdm_populate read_poptask write_poptask poptask0 = (\<lambda>(s, e). do {
     (r, out, s1) \<leftarrow> sce_get4pop s (Some poptask0);
     if r \<noteq> SCE_SUCCESS then Some (s1, e)
     else do {
       poptask \<leftarrow> out;
       let (rr, e1) = read_poptask poptask e;
       if rr \<noteq> SCE_SUCCESS then Some (s1, e1)
       else do {
         let (rw, e2) = write_poptask poptask e1;
         (_, s2) \<leftarrow> sce_put4pop s1 (Some poptask) (rw \<noteq> SCE_SUCCESS);
         Some (s2, e2)
       }
     }
   })"

text \<open>A pass: the state also holds the last status and the passes since the last sleep.\<close>

definition pdm_pass ::
  "pdm_cfg_t \<Rightarrow> (sce_poptask_t \<Rightarrow> 'e \<Rightarrow> rc \<times> 'e) \<Rightarrow> (sce_poptask_t \<Rightarrow> 'e \<Rightarrow> rc \<times> 'e) \<Rightarrow> sce_poptask_t
    \<Rightarrow> sce \<times> 'e \<times> sce_status_t \<times> int \<Rightarrow> (sce \<times> 'e \<times> sce_status_t \<times> int) option" where
  "pdm_pass cfg read_poptask write_poptask poptask0 = (\<lambda>(s, e, cur_st, popcnt). do {
     let pri_st = cur_st;
     let (rs, st) = sce_get_status s (Some cur_st);
     (s1, e1) \<leftarrow>
       (case st of
          None \<Rightarrow> Some (s, e)
        | Some cur \<Rightarrow>
            if rs \<noteq> SCE_SUCCESS then Some (s, e)
            else if calc_freefragper cur < min_freefragper cfg then Some (s, e)
            else if calc_missrate pri_st cur < target_missrate cfg then Some (s, e)
            else pdm_populate read_poptask write_poptask poptask0 (s, e));
     let popcnt1 = popcnt + 1;
     Some (s1, e1, case st of None \<Rightarrow> cur_st | Some cur \<Rightarrow> cur, if popcnt1 \<ge> SCE_POPCNT then 0 else popcnt1)
   })"

section \<open>Threads\<close>

datatype kptr = KNull | KErr | KTask

record pdm_thread_t =
  tid :: nat
  tcfg :: pdm_cfg_t
  stopped :: bool
  thread :: kptr

text \<open>\<^verbatim>\<open>kthread_stop\<close> of an error pointer does not return.\<close>

definition kthread_stop :: "kptr \<Rightarrow> unit option" where
  "kthread_stop k = (if k = KTask then Some () else None)"

fun kill_threads :: "pdm_thread_t list \<Rightarrow> pdm_thread_t list option" where
  "kill_threads [] = Some []"
| "kill_threads (t # ts) =
     (if thread t \<noteq> KNull
      then do {
        kthread_stop (thread t);
        ts' \<leftarrow> kill_threads ts;
        Some (t\<lparr>stopped := True, thread := KNull\<rparr> # ts')
      }
      else do { ts' \<leftarrow> kill_threads ts; Some (t # ts') })"

text \<open>The result \<open>None\<close> of the pair is a NULL handle; the list shows what became of the threads.\<close>

fun create_loop :: "(nat \<Rightarrow> kptr) \<Rightarrow> nat list \<Rightarrow> pdm_thread_t list \<Rightarrow> (bool \<times> pdm_thread_t list) option" where
  "create_loop kthread_run [] ts = Some (True, ts)"
| "create_loop kthread_run (i # is) ts =
     (let ts1 = ts[i := \<lparr>tid = i, tcfg = gpdmcfg ! i, stopped = False, thread = kthread_run i\<rparr>]
      in if kthread_run i = KNull
         then do { ts2 \<leftarrow> kill_threads ts1; Some (False, ts2) }
         else create_loop kthread_run is ts1)"

definition pdm_create :: "bool \<Rightarrow> bool \<Rightarrow> bool \<Rightarrow> bool \<Rightarrow> (nat \<Rightarrow> kptr) \<Rightarrow> (bool \<times> pdm_thread_t list) option" where
  "pdm_create scehndl read_fn write_fn kmalloc_ok kthread_run =
     (if \<not> scehndl \<or> \<not> read_fn \<or> \<not> write_fn then Some (False, [])
      else if \<not> kmalloc_ok then Some (False, [])
      else create_loop kthread_run [0..<PDM_NRTHREAD]
        (replicate PDM_NRTHREAD \<lparr>tid = 0, tcfg = \<lparr>period_ms = 0, target_missrate = 0, min_freefragper = 0\<rparr>,
           stopped = False, thread = KNull\<rparr>))"

definition pdm_destroy :: "pdm_thread_t list option \<Rightarrow> (rc \<times> pdm_thread_t list) option" where
  "pdm_destroy pdmhndl =
     (case pdmhndl of
        None \<Rightarrow> Some (SCE_ERROR, [])
      | Some ts \<Rightarrow> do { ts' \<leftarrow> kill_threads ts; Some (SCE_SUCCESS, ts') })"

section \<open>What the loop keeps\<close>

text \<open>A task that was handed out can be ended: the engine finds its LUN by the context.\<close>

lemma tasked_ends:
  assumes cx: "ctxs s" and wf1: "sce_wf s1" and sd: "same_devs (cdevtbl s) (cdevtbl s1)" and tk: "tasked s li n p t s1"
  shows "ctxs s1" "li < 256" "pt_lun_fragnum t = n" "lun_search s1 (pt_lunctx t) = Some li"
    "\<exists>d. fdesc_at (luntbl s1) li (unat n) = Some d \<and> is_mapped d \<and> \<not> is_valid d"
    "i < 256 \<Longrightarrow> pend s1 i = (if i = li then insert (unat n) (pend s i) else pend s i)" "unat n \<notin> pend s li"
proof -
  have pop: "populating s li (unat n) (SCE_SUCCESS, p, s1)" and pt: "pt_lunctx t = l_lunctx (luntbl s li)"
    using tk by (simp_all add: tasked_def)
  show li: "li < 256" and "pt_lun_fragnum t = n" using tk by (simp_all add: tasked_def)
  note pl = populating_luntbl [OF pop]
  have ll: "lun_le (luntbl s j) (luntbl s1 j)" for j using pl [of j] by (simp add: lun_le_def)
  show cx1: "ctxs s1" by (rule ctxs_le [OF cx dev_le_same [OF sd] ll])
  show d: "\<exists>d. fdesc_at (luntbl s1) li (unat n) = Some d \<and> is_mapped d \<and> \<not> is_valid d"
    using pop by (auto simp: populating_def)
  then have "l_fragmap (luntbl s1 li) \<noteq> None" by (auto simp: fdesc_at_eq_Some)
  then show "lun_search s1 (pt_lunctx t) = Some li"
    using ctxs_lun_search [OF cx1 li] pl(1) [of li] by (simp add: pt)
  show "i < 256 \<Longrightarrow> pend s1 i = (if i = li then insert (unat n) (pend s i) else pend s i)"
    using pop by (simp add: populating_def)
  show "unat n \<notin> pend s li" using tk by (auto simp: tasked_def pend_def)
qed

text \<open>
  What a pass leaves: the engine well formed, and the populations under way as before, but that the
  fragment of a task whose read failed stays with the cache.
\<close>

definition pdm_left :: "bool \<Rightarrow> sce \<Rightarrow> sce \<Rightarrow> bool" where
  "pdm_left lost s s' \<longleftrightarrow> sce_wf s' \<and> ctxs s' \<and>
     ((\<forall>i < 256. pend s' i = pend s i)
      \<or> lost \<and> (\<exists>li < 256. \<exists>n. n \<notin> pend s li \<and> l_nr_service (luntbl s' li) = l_nr_service (luntbl s li) + 1
           \<and> (\<forall>i < 256. pend s' i = (if i = li then insert n (pend s i) else pend s i))))"

lemma pdm_populate_left:
  assumes wf: "sce_wf s" and cx: "ctxs s" and srv: "roomy s"
  shows "returns (pdm_populate read_poptask write_poptask poptask0 (s, e))
    (\<lambda>(s', e'). pdm_left (\<exists>pt. fst (read_poptask pt e) \<noteq> SCE_SUCCESS) s s')"
proof -
  have sv: "\<And>i. i < 256 \<Longrightarrow> unat (l_nr_service (luntbl s i)) + 1 < 2 ^ 32" using srv by (simp add: roomy_def)
  obtain r out s1 where g: "sce_get4pop s (Some poptask0) = Some (r, out, s1)" and wf1: "sce_wf s1"
    and sd: "same_devs (cdevtbl s) (cdevtbl s1)"
    and post: "if r = SCE_SUCCESS then \<exists>li n p t. out = Some t \<and> tasked s li n p t s1
      else out = Some poptask0 \<and> view s1 = view s \<and> luntbl s1 = luntbl s \<and> (\<forall>i. books s s1 i)"
    using sce_get4pop_correct [OF wf sv, of poptask0] by (auto simp: returns_iff simp del: split_paired_All)
  show ?thesis
  proof (cases "r = SCE_SUCCESS")
    case False
    have "ctxs s1" by (rule ctxs_le [OF cx dev_le_same [OF sd]]) (use post False in simp)
    moreover have "pend s1 = pend s" by (rule slack_cong(2)) (use post False in simp)
    ultimately show ?thesis using g False wf1 by (simp add: pdm_populate_def pdm_left_def)
  next
    case True
    then obtain li n p t where out: "out = Some t" and tk: "tasked s li n p t s1" using post by auto
    note te = tasked_ends [OF cx wf1 sd tk]
    obtain rr e1 where rd: "read_poptask t e = (rr, e1)" by (cases "read_poptask t e")
    show ?thesis
    proof (cases "rr = SCE_SUCCESS")
      case False
      have pop: "populating s li (unat n) (SCE_SUCCESS, p, s1)" using tk by (simp add: tasked_def)
      have "l_nr_service (luntbl s1 li) = l_nr_service (luntbl s li) + 1" using populating_luntbl(4) [OF pop] by simp
      moreover have "\<exists>pt. fst (read_poptask pt e) \<noteq> SCE_SUCCESS" using rd False by (metis fst_conv)
      ultimately have "pdm_left (\<exists>pt. fst (read_poptask pt e) \<noteq> SCE_SUCCESS) s s1"
        using wf1 te(1,2,6,7) unfolding pdm_left_def by blast
      then show ?thesis using g True out rd False by (simp add: pdm_populate_def)
    next
      case ok: True
      obtain rw e2 where wr: "write_poptask t e1 = (rw, e2)" by (cases "write_poptask t e1")
      obtain d where d: "fdesc_at (luntbl s1) li (unat (pt_lun_fragnum t)) = Some d" "is_mapped d" "\<not> is_valid d"
        using te(3,5) by auto
      obtain s2 where p4: "sce_put4pop s1 (Some t) (rw \<noteq> SCE_SUCCESS) = Some (SCE_SUCCESS, s2)"
        and en: "ended (rw \<noteq> SCE_SUCCESS) (li, unat (pt_lun_fragnum t)) s1 s2"
        using sce_put4pop_correct [OF wf1 te(4) d] by (auto simp: returns_iff)
      have "pend s2 i = pend s i" if "i < 256" for i
        using en te(3,6,7) that by (simp add: ended_def) 
      moreover have "sce_wf s2" "ctxs s2"
        using en ctxs_le [OF te(1), of s2] by (auto simp: ended_def)
      ultimately have "pdm_left (\<exists>pt. fst (read_poptask pt e) \<noteq> SCE_SUCCESS) s s2" by (simp add: pdm_left_def)
      then show ?thesis using g True out rd ok wr p4 by (simp add: pdm_populate_def)
    qed
  qed
qed

lemma kill_threads_all:
  "\<forall>t \<in> set ts. thread t \<noteq> KErr \<Longrightarrow> \<exists>ts'. kill_threads ts = Some ts' \<and> length ts' = length ts \<and> (\<forall>t \<in> set ts'. thread t = KNull)"
proof (induction ts)
  case Nil
  then show ?case by simp
next
  case (Cons t ts)
  then obtain ts' where "kill_threads ts = Some ts'" "length ts' = length ts" "\<forall>t \<in> set ts'. thread t = KNull" by auto
  moreover have "thread t = KNull \<or> thread t = KTask" using Cons.prems by (cases "thread t") auto
  ultimately show ?case by (auto simp: kthread_stop_def)
qed

section \<open>Properties\<close>

text \<open>
  C34: a pass of a daemon thread returns and keeps the engine well formed; unless the copy from the
  disk fails it leaves no population open that was not open before. When there are fewer free
  fragments or misses than the thread is configured for, it leaves the engine as it is.
\<close>

theorem pdm_pass_balanced:
  assumes "sce_wf s" "ctxs s" "roomy s" "\<And>pt. fst (read_poptask pt e) = SCE_SUCCESS"
  shows "returns (pdm_pass cfg read_poptask write_poptask poptask0 (s, e, pri, popcnt)) (\<lambda>(s', e', cur, popcnt').
    sce_wf s' \<and> ctxs s' \<and> (\<forall>i < 256. pend s' i = pend s i) \<and> snd (sce_get_status s (Some pri)) = Some cur
    \<and> (calc_freefragper cur < min_freefragper cfg \<or> calc_missrate pri cur < target_missrate cfg \<longrightarrow> s' = s \<and> e' = e))"
proof -
  obtain cur where st: "sce_get_status s (Some pri) = (SCE_SUCCESS, Some cur)" by (simp add: sce_get_status_def)
  show ?thesis
  proof (cases "calc_freefragper cur < min_freefragper cfg \<or> calc_missrate pri cur < target_missrate cfg")
    case True
    then show ?thesis using assms(1,2) by (auto simp: pdm_pass_def st Let_def)
  next
    case False
    obtain s' e' where p: "pdm_populate read_poptask write_poptask poptask0 (s, e) = Some (s', e')"
      and l: "pdm_left (\<exists>pt. fst (read_poptask pt e) \<noteq> SCE_SUCCESS) s s'"
      using pdm_populate_left [OF assms(1-3), of read_poptask write_poptask poptask0 e] by (auto simp: returns_iff)
    then show ?thesis using False assms(4) by (simp add: pdm_pass_def st Let_def pdm_left_def)
  qed
qed

text \<open>The example as an engine whose names are unique.\<close>

lemma example_ctxs: "ctxs (example v k)" "k < 2 ^ 15 \<Longrightarrow> roomy (example v k)"
proof -
  show "ctxs (example v k)" by (auto simp: ctxs_def used_ctx_def split: if_splits)
  assume "k < 2 ^ 15"
  then have "unat k < 2 ^ 15" by (simp add: word_less_nat_alt)
  then show "roomy (example v k)" by (simp add: roomy_def unat_ucast_mod)
qed

lemma pdm_pass_balanced_witness:
  "returns (pdm_pass (gpdmcfg ! 7) (\<lambda>_ e. (SCE_SUCCESS, e)) (\<lambda>_ e. (SCE_ERROR, e))
      \<lparr>pt_lunctx = 0, pt_cdevctx = 0, pt_lun_fragnum = 0, pt_cdev_fragnum = 0\<rparr>
      (example True 0, (), \<lparr>st_nr_hit = 0, st_nr_miss = 0, st_nr_freefrag = 0, st_nr_totfrag = 0, st_nr_eviction = 0\<rparr>, 0))
    (\<lambda>(s', e', cur, popcnt'). sce_wf s' \<and> ctxs s' \<and> pend s' 0 = pend (example True 0) 0)"
proof -
  have "sce_wf (example True 0)" by (rule example_wf) simp
  note * = pdm_pass_balanced [OF this example_ctxs(1) example_ctxs(2)]
  show ?thesis by (rule returns_mono [OF *]) auto
qed

text \<open>
  When the copy from the disk fails, the pass keeps the task: the fragment stays mapped and not
  valid, and its reference stays with the LUN, so that the LUN can never be purged.
\<close>

theorem pdm_read_failure_leaks:
  assumes "sce_wf s" "ctxs s" "roomy s" "read_poptask = (\<lambda>pt e. (SCE_ERROR, e))"
    and "map_option fst (sce_get4pop s (Some poptask0)) = Some SCE_SUCCESS"
  shows "returns (pdm_populate read_poptask write_poptask poptask0 (s, e)) (\<lambda>(s', e'). \<exists>li < 256. \<exists>n.
    n \<notin> pend s li \<and> n \<in> pend s' li \<and> l_nr_service (luntbl s' li) = l_nr_service (luntbl s li) + 1)"
proof -
  have sv: "\<And>i. i < 256 \<Longrightarrow> unat (l_nr_service (luntbl s i)) + 1 < 2 ^ 32" using assms(3) by (simp add: roomy_def)
  obtain out s1 where g: "sce_get4pop s (Some poptask0) = Some (SCE_SUCCESS, out, s1)"
    using assms(5) by (auto simp: map_option_case split: option.splits)
  then obtain li n p t where out: "out = Some t" and tk: "tasked s li n p t s1" and wf1: "sce_wf s1"
    and sd: "same_devs (cdevtbl s) (cdevtbl s1)"
    using sce_get4pop_correct [OF assms(1) sv, of poptask0] by auto
  note te = tasked_ends [OF assms(2) wf1 sd tk]
  have pop: "populating s li (unat n) (SCE_SUCCESS, p, s1)" using tk by (simp add: tasked_def)
  have "l_nr_service (luntbl s1 li) = l_nr_service (luntbl s li) + 1" using populating_luntbl(4) [OF pop] by simp
  moreover have "unat n \<notin> pend s li" "unat n \<in> pend s1 li" using te(2,6,7) by auto
  ultimately show ?thesis using g out te(2) assms(4) by (auto simp: pdm_populate_def)
qed

lemma pdm_read_failure_leaks_witness:
  "returns (pdm_populate (\<lambda>pt e. (SCE_ERROR, e)) (\<lambda>pt e. (SCE_SUCCESS, e))
      \<lparr>pt_lunctx = 0, pt_cdevctx = 0, pt_lun_fragnum = 0, pt_cdev_fragnum = 0\<rparr> (example True 0, ()))
    (\<lambda>(s', e'). \<exists>li n. n \<notin> pend (example True 0) li \<and> n \<in> pend s' li)"
proof -
  let ?pt = "\<lparr>pt_lunctx = 0, pt_cdevctx = 0, pt_lun_fragnum = 0, pt_cdev_fragnum = 0\<rparr>"
  have wf: "sce_wf (example True 0)" by (rule example_wf) simp
  have "map_option fst (sce_get4pop (example True 0) (Some ?pt)) = Some SCE_SUCCESS" by code_simp
  note * = pdm_read_failure_leaks [OF wf example_ctxs(1) example_ctxs(2) refl this]
  show ?thesis by (rule returns_mono [OF *]) auto
qed

text \<open>
  The rates are percentages: with counters below 2^32 / 100 the miss rate is the share of the
  misses since the last status, rounded down, and the free rate that of the free fragments.
\<close>

theorem pdm_rates:
  assumes "unat (st_nr_hit prev) < unat (st_nr_hit now)" "unat (st_nr_miss prev) < unat (st_nr_miss now)"
    and "unat (st_nr_hit now) + unat (st_nr_miss now) < 2 ^ 32" "100 * unat (st_nr_miss now) < 2 ^ 32"
    and "unat (st_nr_freefrag now) \<le> unat (st_nr_totfrag now)" "100 * unat (st_nr_totfrag now) < 2 ^ 32"
  defines "h \<equiv> unat (st_nr_hit now) - unat (st_nr_hit prev)" and "m \<equiv> unat (st_nr_miss now) - unat (st_nr_miss prev)"
  shows "unat (calc_missrate prev now) = 100 * m div (h + m) \<and> unat (calc_missrate prev now) \<le> 100
    \<and> unat (calc_freefragper now) = 100 * unat (st_nr_freefrag now) div unat (st_nr_totfrag now)
    \<and> unat (calc_freefragper now) \<le> 100"
proof -
  have sub: "unat (st_nr_hit now - st_nr_hit prev) = h" "unat (st_nr_miss now - st_nr_miss prev) = m"
    using assms(1,2) by (simp_all add: h_def m_def unat_sub word_le_nat_alt)
  have t: "unat (st_nr_hit now - st_nr_hit prev + (st_nr_miss now - st_nr_miss prev)) = h + m"
    using assms(3) sub by (simp add: unat_word_ariths h_def m_def)
  have mul: "unat (x * 100) = 100 * unat x" if "100 * unat x < 2 ^ 32" for x :: u32
    using that by (simp add: unat_word_ariths)
  have "100 * unat (st_nr_miss now - st_nr_miss prev) < 2 ^ 32" unfolding sub(2) m_def using assms(4) by simp
  then have m100: "unat ((st_nr_miss now - st_nr_miss prev) * 100) = 100 * m" using mul sub(2) by metis
  have pos: "0 < h + m" using assms(1) by (simp add: h_def)
  then have nz: "st_nr_hit now - st_nr_hit prev + (st_nr_miss now - st_nr_miss prev) \<noteq> 0"
    using t by (metis less_irrefl unat_0)
  have "calc_missrate prev now = (st_nr_miss now - st_nr_miss prev) * 100
      div (st_nr_hit now - st_nr_hit prev + (st_nr_miss now - st_nr_miss prev))"
    using assms(1,2) nz by (simp add: calc_missrate_def word_less_nat_alt)
  then have r: "unat (calc_missrate prev now) = 100 * m div (h + m)"
    by (simp only: unat_div_distrib t m100)
  have "100 * m div (h + m) \<le> 100 * (h + m) div (h + m)" by (rule div_le_mono) simp
  moreover have "100 * (h + m) div (h + m) = 100" using pos by (intro nonzero_mult_div_cancel_right) simp
  ultimately have r100: "100 * m div (h + m) \<le> 100" by metis
  have f: "unat (calc_freefragper now) = 100 * unat (st_nr_freefrag now) div unat (st_nr_totfrag now)"
    using assms(5,6) by (simp add: calc_freefragper_def unat_div_distrib unat_word_ariths mult.commute)
  have "100 * unat (st_nr_freefrag now) div unat (st_nr_totfrag now) \<le> 100 * unat (st_nr_totfrag now) div unat (st_nr_totfrag now)"
    by (rule div_le_mono) (use assms(5) in simp)
  then have "100 * unat (st_nr_freefrag now) div unat (st_nr_totfrag now) \<le> 100"
    by (cases "unat (st_nr_totfrag now) = 0") simp_all
  then show ?thesis using r r100 f by simp
qed

lemma pdm_rates_witness:
  "unat (calc_missrate \<lparr>st_nr_hit = 10, st_nr_miss = 20, st_nr_freefrag = 0, st_nr_totfrag = 0, st_nr_eviction = 0\<rparr>
     \<lparr>st_nr_hit = 11, st_nr_miss = 22, st_nr_freefrag = 3, st_nr_totfrag = 8, st_nr_eviction = 0\<rparr>) = 66"
  using pdm_rates [of "\<lparr>st_nr_hit = 10, st_nr_miss = 20, st_nr_freefrag = 0, st_nr_totfrag = 0, st_nr_eviction = 0\<rparr>"
     "\<lparr>st_nr_hit = 11, st_nr_miss = 22, st_nr_freefrag = 3, st_nr_totfrag = 8, st_nr_eviction = 0\<rparr>"] by simp

text \<open>
  As long as the kernel reports a thread that could not be started by NULL, the daemon is created
  with all its threads running, each with its configuration, or with none left running; ending it
  stops every thread.
\<close>

theorem pdm_create_all_or_none:
  assumes "\<And>i. kthread_run i \<noteq> KErr"
  shows "returns (pdm_create h r w ok kthread_run) (\<lambda>(created, ts).
    if created then length ts = 8 \<and> (\<forall>i < 8. thread (ts ! i) = KTask \<and> tcfg (ts ! i) = gpdmcfg ! i)
        \<and> returns (pdm_destroy (Some ts)) (\<lambda>(rc, ts'). rc = SCE_SUCCESS \<and> (\<forall>t \<in> set ts'. thread t = KNull))
    else \<forall>t \<in> set ts. thread t = KNull)"
proof (cases "h \<and> r \<and> w \<and> ok")
  case False
  then show ?thesis by (auto simp: pdm_create_def)
next
  case True
  let ?ok = "\<lambda>k ts. \<forall>i < k. thread (ts ! i) = KTask \<and> tcfg (ts ! i) = gpdmcfg ! i"
  have "returns (create_loop kthread_run [k..<8] ts) (\<lambda>(created, ts).
      if created then length ts = 8 \<and> ?ok 8 ts \<and> (\<forall>t \<in> set ts. thread t \<noteq> KErr) else \<forall>t \<in> set ts. thread t = KNull)"
    if "k \<le> 8" "length ts = 8" "?ok k ts" "\<forall>t \<in> set ts. thread t \<noteq> KErr" for k ts
    using that
  proof (induction "8 - k" arbitrary: k ts)
    case 0
    then show ?case by simp
  next
    case (Suc j)
    let ?ts = "ts[k := \<lparr>tid = k, tcfg = gpdmcfg ! k, stopped = False, thread = kthread_run k\<rparr>]"
    have k: "k < 8" and u: "[k..<8] = k # [Suc k..<8]" using Suc.hyps(2) by (simp_all add: upt_conv_Cons)
    have e: "\<forall>t \<in> set ?ts. thread t \<noteq> KErr"
      using Suc.prems(4) assms set_update_subset_insert [of ts k] by fastforce
    show ?case
    proof (cases "kthread_run k = KNull")
      case True
      then show ?thesis unfolding u using kill_threads_all [OF e] by auto
    next
      case False
      then have "kthread_run k = KTask" using assms [of k] by (cases "kthread_run k") auto
      then have "?ok (Suc k) ?ts" using Suc.prems(2,3) k by (auto simp: nth_list_update less_Suc_eq)
      then show ?thesis unfolding u using False Suc.hyps(1) [of "Suc k" ?ts] Suc.hyps(2) Suc.prems(2) k e by simp
    qed
  qed
  from this [of 0 "replicate 8 \<lparr>tid = 0, tcfg = \<lparr>period_ms = 0, target_missrate = 0, min_freefragper = 0\<rparr>,
      stopped = False, thread = KNull\<rparr>"]
  have "returns (pdm_create h r w ok kthread_run) (\<lambda>(created, ts).
      if created then length ts = 8 \<and> ?ok 8 ts \<and> (\<forall>t \<in> set ts. thread t \<noteq> KErr) else \<forall>t \<in> set ts. thread t = KNull)"
    using True by (simp add: pdm_create_def)
  then show ?thesis
    by (rule returns_mono) (use kill_threads_all in \<open>fastforce simp: pdm_destroy_def split: if_splits\<close>)
qed

lemma pdm_create_all_or_none_witness:
  "returns (pdm_create True True True True (\<lambda>i. if i = 5 then KNull else KTask)) (\<lambda>(created, ts).
    \<not> created \<and> map thread ts = replicate 8 KNull)"
proof -
  have "returns (pdm_create True True True True (\<lambda>i. if i = 5 then KNull else KTask)) (\<lambda>(created, ts).
    if created then length ts = 8 \<and> (\<forall>i < 8. thread (ts ! i) = KTask \<and> tcfg (ts ! i) = gpdmcfg ! i)
        \<and> returns (pdm_destroy (Some ts)) (\<lambda>(rc, ts'). rc = SCE_SUCCESS \<and> (\<forall>t \<in> set ts'. thread t = KNull))
    else \<forall>t \<in> set ts. thread t = KNull)"
    by (rule pdm_create_all_or_none) simp
  moreover have "map_option (\<lambda>(c, ts). c \<or> length ts \<noteq> 8) (pdm_create True True True True (\<lambda>i. if i = 5 then KNull else KTask)) = Some False"
    by code_simp
  ultimately show ?thesis
    by (auto simp: returns_iff map_option_case intro!: replicate_eqI split: option.splits)
qed

text \<open>
  The kernel reports it by an error pointer: then the daemon counts as created, and ending it
  does not return.
\<close>

theorem pdm_error_pointer_crash:
  "\<exists>ts. pdm_create True True True True (\<lambda>i. if i = 5 then KErr else KTask) = Some (True, ts) \<and> pdm_destroy (Some ts) = None"
proof -
  have "map_option (\<lambda>(c, ts). c \<and> pdm_destroy (Some ts) = None) (pdm_create True True True True (\<lambda>i. if i = 5 then KErr else KTask)) = Some True"
    by (simp add: pdm_create_def upt_rec pdm_destroy_def kthread_stop_def numeral_eq_Suc)
  then show ?thesis by auto
qed

end
