(* ===== verification/Sce_Awt.thy ===== *)
theory Sce_Awt
  imports Sce_Util
begin

text \<open>
  The asynchronous write-through of \<^verbatim>\<open>src/sce_fragment.c\<close> and \<^verbatim>\<open>src/sce_freefraglist.c\<close>, which the
  macro \<^verbatim>\<open>SCE_AWT\<close> adds: while writes are under way a fragment has a second bitmap, taken from a
  pool, and the two bits of a page tell valid, invalid, being written, and written by more than one
  request apart. \<open>page_of\<close> reads the two bitmaps as a function from pages to these states, the
  locale \<open>page_walk\<close> proves once that a loop over a page range moves the pages of the range one by
  one, and the lemmas at the end describe every operation as a transition of the states.

  The fields that the macro adds to \<^verbatim>\<open>frag_t\<close> and \<^verbatim>\<open>sce_t\<close> are in a record of their own: the counter
  and the buffer of a fragment are functions of its place.
\<close>

section \<open>The code\<close>

text \<open>A buffer is a union: a bitmap while it is used, a link of the list of free buffers otherwise.\<close>

datatype awtbt = AwtBitmap "u32 list" | AwtNext "nat option"

record awt =
  awtbt_pool :: "nat \<Rightarrow> awtbt"
  free_awtbt :: "nat option"
  nr_awt :: "floc \<Rightarrow> u16"
  pending_awt :: "floc \<Rightarrow> nat option"

abbreviation (input) NR_AWTBITMAP :: nat where "NR_AWTBITMAP \<equiv> 512"

definition awtbt_put :: "nat option \<Rightarrow> awt \<Rightarrow> awt" where
  "awtbt_put abt a =
     (case abt of
        None \<Rightarrow> a
      | Some p \<Rightarrow> a\<lparr>awtbt_pool := (awtbt_pool a)(p := AwtNext (free_awtbt a)), free_awtbt := Some p\<rparr>)"

definition awtbt_get :: "awt \<Rightarrow> (nat option \<times> awt) option" where
  "awtbt_get a =
     (case free_awtbt a of
        None \<Rightarrow> Some (None, a)
      | Some p \<Rightarrow>
          (case awtbt_pool a p of
             AwtBitmap _ \<Rightarrow> None
           | AwtNext nxt \<Rightarrow> Some (Some p, a\<lparr>free_awtbt := nxt,
               awtbt_pool := (awtbt_pool a)(p := AwtBitmap (replicate BITMAPARRAYSIZE 0))\<rparr>)))"

text \<open>The part of \<^verbatim>\<open>sce_create\<close> that fills the list of free buffers.\<close>

definition awt_create :: awt where
  "awt_create = fold (\<lambda>i. awtbt_put (Some i)) [0..<NR_AWTBITMAP]
     \<lparr>awtbt_pool = \<lambda>_. AwtBitmap (replicate BITMAPARRAYSIZE 0), free_awtbt = None,
      nr_awt = \<lambda>_. 0, pending_awt = \<lambda>_. None\<rparr>"

text \<open>Following the pointer to a buffer whose union holds a bitmap.\<close>

definition awt_bitmap :: "awt \<Rightarrow> nat \<Rightarrow> u32 list option" where
  "awt_bitmap a p = (case awtbt_pool a p of AwtBitmap bm \<Rightarrow> Some bm | AwtNext _ \<Rightarrow> None)"

definition set_awt_bitmap :: "nat \<Rightarrow> u32 list \<Rightarrow> awt \<Rightarrow> awt" where
  "set_awt_bitmap p bm a = a\<lparr>awtbt_pool := (awtbt_pool a)(p := AwtBitmap bm)\<rparr>"

definition getabit :: "u32 list \<Rightarrow> u32 \<Rightarrow> bool option" where
  "getabit bitmap pgnum = do {
     w \<leftarrow> rd bitmap (unat (pgnum div BITMAPENT_SIZE));
     Some (w AND push_bit (unat (pgnum mod BITMAPENT_SIZE)) 1 \<noteq> 0)
   }"

definition setabit :: "u32 list \<Rightarrow> u32 \<Rightarrow> u32 list option" where
  "setabit bitmap pgnum = do {
     w \<leftarrow> rd bitmap (unat (pgnum div BITMAPENT_SIZE));
     Some (bitmap[unat (pgnum div BITMAPENT_SIZE) := w OR push_bit (unat (pgnum mod BITMAPENT_SIZE)) 1])
   }"

definition resetabit :: "u32 list \<Rightarrow> u32 \<Rightarrow> u32 list option" where
  "resetabit bitmap pgnum = do {
     w \<leftarrow> rd bitmap (unat (pgnum div BITMAPENT_SIZE));
     Some (bitmap[unat (pgnum div BITMAPENT_SIZE) := w AND NOT (push_bit (unat (pgnum mod BITMAPENT_SIZE)) 1)])
   }"

text \<open>The bodies of the three loops over pages, and the loops.\<close>

definition set4awt_page :: "u32 list \<times> u32 list \<times> int \<Rightarrow> u32 \<Rightarrow> (u32 list \<times> u32 list \<times> int) option" where
  "set4awt_page st pgnum = (case st of (bitmap0, bitmap1, nr_set) \<Rightarrow> do {
     b0 \<leftarrow> getabit bitmap0 pgnum;
     b1 \<leftarrow> getabit bitmap1 pgnum;
     if \<not> b0 \<and> \<not> b1 then do { bm \<leftarrow> setabit bitmap0 pgnum; Some (bm, bitmap1, nr_set + 1) }
     else if b0 \<and> b1 then do { bm \<leftarrow> resetabit bitmap0 pgnum; Some (bm, bitmap1, nr_set) }
     else Some (bitmap0, bitmap1, nr_set)
   })"

definition writestart_page ::
  "u32 list \<times> u32 list \<times> u16 \<times> int \<Rightarrow> u32 \<Rightarrow> (u32 list \<times> u32 list \<times> u16 \<times> int) option" where
  "writestart_page st pgnum = (case st of (bitmap0, bitmap1, nr_valid, validwrite) \<Rightarrow> do {
     b0 \<leftarrow> getabit bitmap0 pgnum;
     b1 \<leftarrow> getabit bitmap1 pgnum;
     if \<not> b1 \<and> \<not> b0 then do {
       bm0 \<leftarrow> setabit bitmap0 pgnum;
       bm1 \<leftarrow> setabit bitmap1 pgnum;
       Some (bm0, bm1, nr_valid - 1, validwrite + 1)
     }
     else if \<not> b1 \<and> b0 then do {
       bm1 \<leftarrow> setabit bitmap1 pgnum;
       Some (bitmap0, bm1, nr_valid, validwrite + 1)
     }
     else if b1 \<and> b0 then do {
       bm0 \<leftarrow> resetabit bitmap0 pgnum;
       Some (bm0, bitmap1, nr_valid, validwrite)
     }
     else Some (bitmap0, bitmap1, nr_valid, validwrite)
   })"

definition writeend_page ::
  "bool \<Rightarrow> u32 list \<times> u32 list \<times> u16 \<Rightarrow> u32 \<Rightarrow> (u32 list \<times> u32 list \<times> u16) option" where
  "writeend_page failed st pgnum = (case st of (bitmap0, bitmap1, nr_valid) \<Rightarrow> do {
     b1 \<leftarrow> getabit bitmap1 pgnum;
     bug_on (\<not> b1);
     b0 \<leftarrow> getabit bitmap0 pgnum;
     if b0
     then if \<not> failed then do {
            bm0 \<leftarrow> resetabit bitmap0 pgnum;
            bm1 \<leftarrow> resetabit bitmap1 pgnum;
            Some (bm0, bm1, nr_valid + 1)
          }
          else do { bm1 \<leftarrow> resetabit bitmap1 pgnum; Some (bitmap0, bm1, nr_valid) }
     else Some (bitmap0, bitmap1, nr_valid)
   })"

text \<open>\<^verbatim>\<open>for (; pgcnt > 0; pgnum++, pgcnt--)\<close>, the head the three loops have in common.\<close>

function page_loop :: "('s \<Rightarrow> u32 \<Rightarrow> 's option) \<Rightarrow> 's \<Rightarrow> u32 \<Rightarrow> u32 \<Rightarrow> 's option" where
  "page_loop body st pgnum pgcnt =
     (if pgcnt > 0
      then case body st pgnum of
             None \<Rightarrow> None
           | Some st' \<Rightarrow> page_loop body st' (pgnum + 1) (pgcnt - 1)
      else Some st)"
  by pat_completeness auto
termination
  by (relation "measure (\<lambda>(body, st, pgnum, pgcnt). unat pgcnt)") (auto simp: measure_unat)

declare page_loop.simps [simp del]

definition set_bitmap4awt :: "u32 list \<Rightarrow> u32 list \<Rightarrow> u32 \<Rightarrow> u32 \<Rightarrow> (int \<times> u32 list) option" where
  "set_bitmap4awt bitmap0 bitmap1 pgnum pgcnt = do {
     (bm0, _, nr_set) \<leftarrow> page_loop set4awt_page (bitmap0, bitmap1, 0) pgnum pgcnt;
     Some (nr_set, bm0)
   }"

text \<open>\<^verbatim>\<open>_frag_invalidate\<close> and \<^verbatim>\<open>_frag_isvalid\<close> in the build with \<^verbatim>\<open>SCE_AWT\<close>.\<close>

definition frag_invalidate_awt :: "awt \<Rightarrow> floc \<Rightarrow> frag \<Rightarrow> u32 \<Rightarrow> u32 \<Rightarrow> (int \<times> frag) option" where
  "frag_invalidate_awt a fl fr pgnum pgcnt = do {
     bug_on (pgcnt = 0);
     bug_on (pgnum + pgcnt > SCE_PAGEPERFRAG);
     (n, bm) \<leftarrow> (case pending_awt a fl of
        None \<Rightarrow> set_bitmap (f_bitmap fr) pgnum pgcnt
      | Some p \<Rightarrow> do { bm1 \<leftarrow> awt_bitmap a p; set_bitmap4awt (f_bitmap fr) bm1 pgnum pgcnt });
     bug_on (uint (f_nr_valid fr) < n);
     Some (n, fr\<lparr>f_bitmap := bm, f_nr_valid := f_nr_valid fr - word_of_int n\<rparr>)
   }"

definition frag_isvalid_awt :: "awt \<Rightarrow> floc \<Rightarrow> frag \<Rightarrow> u32 \<Rightarrow> u32 \<Rightarrow> rc option" where
  "frag_isvalid_awt a fl fr pgnum pgcnt = do {
     bug_on (pgcnt = 0);
     bug_on (pgnum + pgcnt > SCE_PAGEPERFRAG);
     r \<leftarrow> check_bitmap (f_bitmap fr) pgnum pgcnt;
     (case pending_awt a fl of
        None \<Rightarrow> Some r
      | Some p \<Rightarrow> if r = SCE_SUCCESS
                  then do { bm1 \<leftarrow> awt_bitmap a p; check_bitmap bm1 pgnum pgcnt } else Some r)
   }"

definition frag_writestart :: "awt \<Rightarrow> floc \<Rightarrow> frag \<Rightarrow> u32 \<Rightarrow> u32 \<Rightarrow> (rc \<times> frag \<times> awt) option" where
  "frag_writestart a fl fr pgnum pgcnt = do {
     bug_on (pgcnt = 0);
     bug_on (pgnum + pgcnt > SCE_PAGEPERFRAG);
     (case pending_awt a fl of
        None \<Rightarrow> do {
          (_, fr1) \<leftarrow> frag_invalidate_awt a fl fr pgnum pgcnt;
          Some (SCE_ERROR, fr1, a)
        }
      | Some p \<Rightarrow> do {
          bitmap1 \<leftarrow> awt_bitmap a p;
          (bm0, bm1, nr_valid, validwrite) \<leftarrow>
            page_loop writestart_page (f_bitmap fr, bitmap1, f_nr_valid fr, 0) pgnum pgcnt;
          Some (if validwrite \<noteq> 0 then SCE_SUCCESS else SCE_ERROR,
            fr\<lparr>f_bitmap := bm0, f_nr_valid := nr_valid\<rparr>, set_awt_bitmap p bm1 a)
        })
   }"

definition frag_writeend :: "awt \<Rightarrow> floc \<Rightarrow> frag \<Rightarrow> u32 \<Rightarrow> u32 \<Rightarrow> bool \<Rightarrow> (frag \<times> awt) option" where
  "frag_writeend a fl fr pgnum pgcnt failed = do {
     bug_on (pgcnt = 0);
     bug_on (pgnum + pgcnt > SCE_PAGEPERFRAG);
     bug_on (pending_awt a fl = None);
     p \<leftarrow> pending_awt a fl;
     bitmap1 \<leftarrow> awt_bitmap a p;
     (bm0, bm1, nr_valid) \<leftarrow> page_loop (writeend_page failed) (f_bitmap fr, bitmap1, f_nr_valid fr) pgnum pgcnt;
     Some (fr\<lparr>f_bitmap := bm0, f_nr_valid := nr_valid\<rparr>, set_awt_bitmap p bm1 a)
   }"

definition frag_mergebitmap :: "awt \<Rightarrow> floc \<Rightarrow> frag \<Rightarrow> frag option" where
  "frag_mergebitmap a fl fr = do {
     p \<leftarrow> pending_awt a fl;
     bitmap1 \<leftarrow> awt_bitmap a p;
     bm \<leftarrow> for_each [0..<BITMAPARRAYSIZE]
            (\<lambda>i bm. do { w0 \<leftarrow> rd bm i; w1 \<leftarrow> rd bitmap1 i; Some (bm[i := w0 OR w1]) }) (f_bitmap fr);
     Some (fr\<lparr>f_bitmap := bm\<rparr>)
   }"

text \<open>
  The part of \<^verbatim>\<open>sce_get4write\<close> from the allocation of the second bitmap to the counters of the
  fragment, and the part of \<^verbatim>\<open>sce_put4write\<close> from \<^verbatim>\<open>_frag_writeend\<close> to the counters.
\<close>

definition awt_release :: "awt \<Rightarrow> floc \<Rightarrow> frag \<Rightarrow> (frag \<times> awt) option" where
  "awt_release a fl fr = do {
     fr1 \<leftarrow> frag_mergebitmap a fl fr;
     Some (fr1, (awtbt_put (pending_awt a fl) a)\<lparr>pending_awt := (pending_awt a)(fl := None)\<rparr>)
   }"

definition awt_begin :: "awt \<Rightarrow> floc \<Rightarrow> frag \<Rightarrow> u32 \<Rightarrow> u32 \<Rightarrow> (rc \<times> frag \<times> awt) option" where
  "awt_begin a0 fl fr pgoff pgcnt = do {
     a \<leftarrow> (if pending_awt a0 fl = None
          then do { (b, a1) \<leftarrow> awtbt_get a0; Some (a1\<lparr>pending_awt := (pending_awt a1)(fl := b)\<rparr>) }
          else Some a0);
     (ret, fr1, a2) \<leftarrow> frag_writestart a fl fr pgoff pgcnt;
     if ret \<noteq> SCE_SUCCESS
     then do {
       (fr2, a3) \<leftarrow> (if pending_awt a2 fl \<noteq> None \<and> nr_awt a2 fl = 0 then awt_release a2 fl fr1 else Some (fr1, a2));
       Some (SCE_ERROR, fr2, a3)
     }
     else Some (SCE_SUCCESS, fr1\<lparr>f_nr_service := f_nr_service fr1 + 1\<rparr>,
            a2\<lparr>nr_awt := (nr_awt a2)(fl := nr_awt a2 fl + 1)\<rparr>)
   }"

definition awt_end :: "awt \<Rightarrow> floc \<Rightarrow> frag \<Rightarrow> u32 \<Rightarrow> u32 \<Rightarrow> bool \<Rightarrow> (frag \<times> awt) option" where
  "awt_end a fl fr pgoff pgcnt failed = do {
     (fr1, a1) \<leftarrow> frag_writeend a fl fr pgoff pgcnt failed;
     let a2 = a1\<lparr>nr_awt := (nr_awt a1)(fl := nr_awt a1 fl - 1)\<rparr>;
     (fr2, a3) \<leftarrow> (if nr_awt a2 fl = 0 then awt_release a2 fl fr1 else Some (fr1, a2));
     Some (fr2\<lparr>f_nr_service := f_nr_service fr2 - 1\<rparr>, a3)
   }"

section \<open>Single bits\<close>

lemma getabit_eq: "length bm = 8 \<Longrightarrow> unat pg < 256 \<Longrightarrow> getabit bm pg = Some (pagebit bm (unat pg))"
  by (simp only: getabit_def and_shl_eq_0 pagebit_def) simp

lemma setabit_eq:
  assumes "length bm = 8" "unat pg < 256"
  obtains bm' where "setabit bm pg = Some bm'" "length bm' = 8"
    "\<And>q. q < 256 \<Longrightarrow> pagebit bm' q \<longleftrightarrow> q = unat pg \<or> pagebit bm q"
proof
  let ?i = "unat pg div 32"
  show "setabit bm pg = Some (bm[?i := bm ! ?i OR push_bit (unat pg mod 32) 1])"
    using assms by (simp add: setabit_def)
  show "length (bm[?i := bm ! ?i OR push_bit (unat pg mod 32) 1]) = 8" using assms by simp
  fix q :: nat assume "q < 256"
  have *: "q div 32 = ?i \<and> q mod 32 = unat pg mod 32 \<longleftrightarrow> q = unat pg"
    by (metis div_mod_decomp)
  have "bit (bm ! ?i OR push_bit (unat pg mod 32) 1) (q mod 32)
      \<longleftrightarrow> bit (bm ! ?i) (q mod 32) \<or> q mod 32 = unat pg mod 32"
    by (simp only: bit_or_iff bit_one_shl) simp
  then show "pagebit (bm[?i := bm ! ?i OR push_bit (unat pg mod 32) 1]) q \<longleftrightarrow> q = unat pg \<or> pagebit bm q"
    using assms * by (subst pagebit_update) (auto simp: pagebit_def)
qed

lemma resetabit_eq:
  assumes "length bm = 8" "unat pg < 256"
  obtains bm' where "resetabit bm pg = Some bm'" "length bm' = 8"
    "\<And>q. q < 256 \<Longrightarrow> pagebit bm' q \<longleftrightarrow> q \<noteq> unat pg \<and> pagebit bm q"
proof
  let ?i = "unat pg div 32"
  let ?w = "bm ! ?i AND NOT (push_bit (unat pg mod 32) 1)"
  show "resetabit bm pg = Some (bm[?i := ?w])" using assms by (simp add: resetabit_def)
  show "length (bm[?i := ?w]) = 8" using assms by simp
  fix q :: nat assume "q < 256"
  have *: "q div 32 = ?i \<and> q mod 32 = unat pg mod 32 \<longleftrightarrow> q = unat pg"
    by (metis div_mod_decomp)
  have "bit ?w (q mod 32) \<longleftrightarrow> bit (bm ! ?i) (q mod 32) \<and> q mod 32 \<noteq> unat pg mod 32"
    by (simp only: bit_and_iff bit_not_iff bit_one_shl possible_bit_word) auto
  then show "pagebit (bm[?i := ?w]) q \<longleftrightarrow> q \<noteq> unat pg \<and> pagebit bm q"
    using assms * by (subst pagebit_update) (auto simp: pagebit_def)
qed

section \<open>The states of a page\<close>

datatype page = Page_valid | Page_invalid | Page_writing | Page_dirty

text \<open>The second bit of a page and the first one, in the order of the comments in the code.\<close>

fun page_bits :: "bool \<Rightarrow> bool \<Rightarrow> page" where
  "page_bits False False = Page_valid"
| "page_bits False True = Page_invalid"
| "page_bits True True = Page_writing"
| "page_bits True False = Page_dirty"

definition page_of :: "u32 list \<Rightarrow> u32 list \<Rightarrow> nat \<Rightarrow> page" where
  "page_of bm0 bm1 p = page_bits (pagebit bm1 p) (pagebit bm0 p)"

text \<open>What a write that begins, a write that ends, and an invalidation do to a page.\<close>

fun page_begin :: "page \<Rightarrow> page" where
  "page_begin Page_valid = Page_writing"
| "page_begin Page_invalid = Page_writing"
| "page_begin Page_writing = Page_dirty"
| "page_begin Page_dirty = Page_dirty"

fun page_end :: "bool \<Rightarrow> page \<Rightarrow> page" where
  "page_end failed Page_writing = (if failed then Page_invalid else Page_valid)"
| "page_end failed pg = pg"

fun page_inval :: "page \<Rightarrow> page" where
  "page_inval Page_valid = Page_invalid"
| "page_inval Page_writing = Page_dirty"
| "page_inval pg = pg"

text \<open>What is left of a page when the second bitmap is merged into the first.\<close>

fun page_merge :: "page \<Rightarrow> page" where
  "page_merge Page_valid = Page_valid"
| "page_merge pg = Page_invalid"

lemma page_bits_cases:
  "page_of bm0 bm1 p = Page_valid \<longleftrightarrow> \<not> pagebit bm1 p \<and> \<not> pagebit bm0 p"
  "page_of bm0 bm1 p = Page_invalid \<longleftrightarrow> \<not> pagebit bm1 p \<and> pagebit bm0 p"
  "page_of bm0 bm1 p = Page_writing \<longleftrightarrow> pagebit bm1 p \<and> pagebit bm0 p"
  "page_of bm0 bm1 p = Page_dirty \<longleftrightarrow> pagebit bm1 p \<and> \<not> pagebit bm0 p"
  by (cases "pagebit bm1 p"; cases "pagebit bm0 p"; simp add: page_of_def)+

lemma page_of_eq_iff:
  "page_of bm0 bm1 p = page_of bm0' bm1' q
    \<longleftrightarrow> pagebit bm0 p = pagebit bm0' q \<and> pagebit bm1 p = pagebit bm1' q"
  by (cases "pagebit bm1 p"; cases "pagebit bm0 p"; cases "pagebit bm1' q"; cases "pagebit bm0' q"; simp add: page_of_def)

text \<open>
  A loop body that moves one page by \<open>tr\<close> and updates the rest of the loop's state by \<open>upd\<close>,
  run over the pages of a range in which \<open>okay\<close> holds.
\<close>

locale page_walk =
  fixes body :: "u32 list \<times> u32 list \<times> 'c \<Rightarrow> u32 \<Rightarrow> (u32 list \<times> u32 list \<times> 'c) option"
    and tr :: "page \<Rightarrow> page" and upd :: "page \<Rightarrow> 'c \<Rightarrow> 'c" and okay :: "page \<Rightarrow> bool"
  assumes body_page: "length bm0 = 8 \<Longrightarrow> length bm1 = 8 \<Longrightarrow> unat pg < 256 \<Longrightarrow> okay (page_of bm0 bm1 (unat pg)) \<Longrightarrow>
      \<exists>bm0' bm1'. body (bm0, bm1, c) pg = Some (bm0', bm1', upd (page_of bm0 bm1 (unat pg)) c)
        \<and> length bm0' = 8 \<and> length bm1' = 8
        \<and> (\<forall>q < 256. page_of bm0' bm1' q = (if q = unat pg then tr (page_of bm0 bm1 q) else page_of bm0 bm1 q))"
begin

lemma loop_pages:
  assumes "length bm0 = 8" "length bm1 = 8" "unat pg + unat n \<le> 256"
    and "\<forall>q. in_pages (unat pg) (unat n) q \<longrightarrow> okay (page_of bm0 bm1 q)"
  shows "\<exists>bm0' bm1'. page_loop body (bm0, bm1, c) pg n
      = Some (bm0', bm1', fold (\<lambda>q. upd (page_of bm0 bm1 q)) [unat pg..<unat pg + unat n] c)
    \<and> length bm0' = 8 \<and> length bm1' = 8
    \<and> (\<forall>q < 256. page_of bm0' bm1' q =
         (if in_pages (unat pg) (unat n) q then tr (page_of bm0 bm1 q) else page_of bm0 bm1 q))"
  using assms
proof (induction "unat n" arbitrary: bm0 bm1 c pg n)
  case 0
  then show ?case by (subst page_loop.simps) (auto simp: word_gt_0 unat_eq_zero)
next
  case (Suc k)
  have "n \<noteq> 0" using Suc.hyps(2) by auto
  then have n: "n \<noteq> 0" "unat (n - 1) = k" "0 < n"
    using Suc.hyps(2) by (simp_all add: unat_dec word_gt_0)
  have pg: "unat pg < 256" "unat (pg + 1) = Suc (unat pg)"
    using Suc.prems(3) Suc.hyps(2) by (simp, subst unat_inc) simp_all
  obtain bm0a bm1a where a: "body (bm0, bm1, c) pg = Some (bm0a, bm1a, upd (page_of bm0 bm1 (unat pg)) c)"
      "length bm0a = 8" "length bm1a = 8"
      "\<forall>q < 256. page_of bm0a bm1a q = (if q = unat pg then tr (page_of bm0 bm1 q) else page_of bm0 bm1 q)"
    using body_page [OF Suc.prems(1,2) pg(1)] Suc.prems(4) Suc.hyps(2) by force
  have rest: "page_of bm0a bm1a q = page_of bm0 bm1 q" if "in_pages (Suc (unat pg)) k q" for q
    using a(4) that Suc.prems(3) Suc.hyps(2) by simp
  have "\<forall>q. in_pages (unat (pg + 1)) (unat (n - 1)) q \<longrightarrow> okay (page_of bm0a bm1a q)"
    using Suc.prems(4) rest Suc.hyps(2) n(2) pg(2) by (simp add: Suc_le_eq)
  then obtain bm0' bm1' where b: "page_loop body (bm0a, bm1a, upd (page_of bm0 bm1 (unat pg)) c) (pg + 1) (n - 1)
      = Some (bm0', bm1', fold (\<lambda>q. upd (page_of bm0a bm1a q)) [Suc (unat pg)..<Suc (unat pg) + k]
          (upd (page_of bm0 bm1 (unat pg)) c))"
      "length bm0' = 8" "length bm1' = 8"
      "\<forall>q < 256. page_of bm0' bm1' q =
         (if in_pages (Suc (unat pg)) k q then tr (page_of bm0a bm1a q) else page_of bm0a bm1a q)"
    using Suc.hyps(1) [of "n - 1" bm0a bm1a "pg + 1" "upd (page_of bm0 bm1 (unat pg)) c"]
      a(2,3) n(2) pg(2) Suc.prems(3) Suc.hyps(2) by auto
  have f: "fold (\<lambda>q. upd (page_of bm0a bm1a q)) [Suc (unat pg)..<Suc (unat pg) + k] d
      = fold (\<lambda>q. upd (page_of bm0 bm1 q)) [Suc (unat pg)..<Suc (unat pg) + k] d" for d
    by (rule fold_cong) (auto simp: rest)
  have step: "page_loop body (bm0, bm1, c) pg n = page_loop body (bm0a, bm1a, upd (page_of bm0 bm1 (unat pg)) c) (pg + 1) (n - 1)"
    using n(3) a(1) by (subst page_loop.simps) simp
  have l: "[unat pg..<unat pg + unat n] = unat pg # [Suc (unat pg)..<Suc (unat pg) + k]"
    using Suc.hyps(2) by (simp add: upt_conv_Cons flip: Suc.hyps(2) del: upt_Suc)
  show ?case
  proof (intro exI conjI)
    show "page_loop body (bm0, bm1, c) pg n
        = Some (bm0', bm1', fold (\<lambda>q. upd (page_of bm0 bm1 q)) [unat pg..<unat pg + unat n] c)"
      unfolding step b(1) f l by simp
    show "\<forall>q < 256. page_of bm0' bm1' q =
        (if in_pages (unat pg) (unat n) q then tr (page_of bm0 bm1 q) else page_of bm0 bm1 q)"
      using a(4) b(4) Suc.hyps(2) by (auto simp: Suc_le_eq)
  qed (fact b)+
qed

end

text \<open>The three bodies.\<close>

lemma set4awt_page_eq:
  assumes "length bm0 = 8" "length bm1 = 8" "unat pg < 256"
  shows "\<exists>bm0' bm1'. set4awt_page (bm0, bm1, c) pg = Some (bm0', bm1', c + of_bool (page_of bm0 bm1 (unat pg) = Page_valid))
      \<and> length bm0' = 8 \<and> length bm1' = 8
      \<and> (\<forall>q < 256. page_of bm0' bm1' q = (if q = unat pg then page_inval (page_of bm0 bm1 q) else page_of bm0 bm1 q))"
proof -
  obtain s where s: "setabit bm0 pg = Some s" "length s = 8" "\<And>q. q < 256 \<Longrightarrow> pagebit s q \<longleftrightarrow> q = unat pg \<or> pagebit bm0 q"
    using setabit_eq [OF assms(1,3)] by metis
  obtain r where r: "resetabit bm0 pg = Some r" "length r = 8" "\<And>q. q < 256 \<Longrightarrow> pagebit r q \<longleftrightarrow> q \<noteq> unat pg \<and> pagebit bm0 q"
    using resetabit_eq [OF assms(1,3)] by metis
  show ?thesis
    using assms s(1,2) r(1,2)
    by (cases "pagebit bm0 (unat pg)"; cases "pagebit bm1 (unat pg)")
      (auto simp: set4awt_page_def getabit_eq page_of_def s(3) r(3))
qed

lemma writestart_page_eq:
  assumes "length bm0 = 8" "length bm1 = 8" "unat pg < 256"
  shows "\<exists>bm0' bm1'. writestart_page (bm0, bm1, c) pg
      = Some (bm0', bm1', (\<lambda>(nv, vw). (if page_of bm0 bm1 (unat pg) = Page_valid then nv - 1 else nv,
          vw + of_bool (page_of bm0 bm1 (unat pg) = Page_valid \<or> page_of bm0 bm1 (unat pg) = Page_invalid))) c)
      \<and> length bm0' = 8 \<and> length bm1' = 8
      \<and> (\<forall>q < 256. page_of bm0' bm1' q = (if q = unat pg then page_begin (page_of bm0 bm1 q) else page_of bm0 bm1 q))"
proof -
  obtain s where s: "setabit bm0 pg = Some s" "length s = 8" "\<And>q. q < 256 \<Longrightarrow> pagebit s q \<longleftrightarrow> q = unat pg \<or> pagebit bm0 q"
    using setabit_eq [OF assms(1,3)] by metis
  obtain t where t: "setabit bm1 pg = Some t" "length t = 8" "\<And>q. q < 256 \<Longrightarrow> pagebit t q \<longleftrightarrow> q = unat pg \<or> pagebit bm1 q"
    using setabit_eq [OF assms(2,3)] by metis
  obtain r where r: "resetabit bm0 pg = Some r" "length r = 8" "\<And>q. q < 256 \<Longrightarrow> pagebit r q \<longleftrightarrow> q \<noteq> unat pg \<and> pagebit bm0 q"
    using resetabit_eq [OF assms(1,3)] by metis
  show ?thesis
    using assms s(1,2) r(1,2) t(1,2)
    by (cases c; cases "pagebit bm0 (unat pg)"; cases "pagebit bm1 (unat pg)")
      (auto simp: writestart_page_def getabit_eq page_of_def s(3) r(3) t(3))
qed

lemma writeend_page_eq:
  assumes "length bm0 = 8" "length bm1 = 8" "unat pg < 256"
    and "page_of bm0 bm1 (unat pg) = Page_writing \<or> page_of bm0 bm1 (unat pg) = Page_dirty"
  shows "\<exists>bm0' bm1'. writeend_page failed (bm0, bm1, nv) pg
      = Some (bm0', bm1', (if page_of bm0 bm1 (unat pg) = Page_writing \<and> \<not> failed then nv + 1 else nv))
      \<and> length bm0' = 8 \<and> length bm1' = 8
      \<and> (\<forall>q < 256. page_of bm0' bm1' q = (if q = unat pg then page_end failed (page_of bm0 bm1 q) else page_of bm0 bm1 q))"
proof -
  obtain t where t: "resetabit bm1 pg = Some t" "length t = 8" "\<And>q. q < 256 \<Longrightarrow> pagebit t q \<longleftrightarrow> q \<noteq> unat pg \<and> pagebit bm1 q"
    using resetabit_eq [OF assms(2,3)] by metis
  obtain r where r: "resetabit bm0 pg = Some r" "length r = 8" "\<And>q. q < 256 \<Longrightarrow> pagebit r q \<longleftrightarrow> q \<noteq> unat pg \<and> pagebit bm0 q"
    using resetabit_eq [OF assms(1,3)] by metis
  have b1: "pagebit bm1 (unat pg)" using assms(4) by (auto simp: page_bits_cases)
  show ?thesis
    using assms(1-3) r(1,2) t(1,2) b1
    by (cases "pagebit bm0 (unat pg)"; cases failed)
      (auto simp: writeend_page_def getabit_eq page_of_def bug_on_def r(3) t(3))
qed

section \<open>The pool\<close>

text \<open>The list of free buffers as the path its links take.\<close>

primrec awt_chain :: "(nat \<Rightarrow> awtbt) \<Rightarrow> nat option \<Rightarrow> nat list \<Rightarrow> bool" where
  "awt_chain pool h [] \<longleftrightarrow> h = None"
| "awt_chain pool h (x # xs) \<longleftrightarrow> h = Some x \<and> (\<exists>n. pool x = AwtNext n \<and> awt_chain pool n xs)"

lemma awt_chain_upd [simp]: "x \<notin> set xs \<Longrightarrow> awt_chain (pool(x := b)) h xs = awt_chain pool h xs"
  by (induction xs arbitrary: h) auto

text \<open>
  No buffer is on the list twice, and the buffers of the fragments are not on the list, hold a
  bitmap, and belong to one fragment each.
\<close>

definition pool_ok :: "awt \<Rightarrow> bool" where
  "pool_ok a \<longleftrightarrow> (\<exists>xs. awt_chain (awtbt_pool a) (free_awtbt a) xs \<and> distinct xs
     \<and> (\<forall>fl q. pending_awt a fl = Some q \<longrightarrow>
          q \<notin> set xs \<and> (\<exists>bm. awtbt_pool a q = AwtBitmap bm \<and> length bm = 8)
          \<and> (\<forall>fl'. pending_awt a fl' = Some q \<longrightarrow> fl' = fl)))"

lemma pool_okD:
  assumes "pool_ok a" "pending_awt a fl = Some q"
  obtains bm where "awtbt_pool a q = AwtBitmap bm" "length bm = 8" "awt_bitmap a q = Some bm"
  using assms unfolding pool_ok_def awt_bitmap_def by fastforce

lemma pool_ok_inj: "pool_ok a \<Longrightarrow> pending_awt a fl = Some q \<Longrightarrow> pending_awt a fl' = Some q \<Longrightarrow> fl' = fl"
  unfolding pool_ok_def by blast

lemma pool_ok_create: "pool_ok awt_create"
proof -
  define put where "put = fold (\<lambda>i. awtbt_put (Some i))"
  have "\<exists>xs. awt_chain (awtbt_pool (put is a)) (free_awtbt (put is a)) xs \<and> distinct xs
      \<and> pending_awt (put is a) = pending_awt a"
    if "distinct is" "awt_chain (awtbt_pool a) (free_awtbt a) ys" "distinct ys" "set is \<inter> set ys = {}"
    for "is" ys a
    using that
  proof (induction "is" arbitrary: a ys)
    case Nil
    then show ?case by (auto simp: put_def)
  next
    case (Cons i js)
    have "awt_chain (awtbt_pool (awtbt_put (Some i) a)) (free_awtbt (awtbt_put (Some i) a)) (i # ys)"
      using Cons.prems by (simp add: awtbt_put_def)
    moreover have "pending_awt (awtbt_put (Some i) a) = pending_awt a" by (simp add: awtbt_put_def)
    moreover have "put (i # js) a = put js (awtbt_put (Some i) a)" by (simp add: put_def)
    ultimately show ?case
      using Cons.IH [of "awtbt_put (Some i) a" "i # ys"] Cons.prems by simp
  qed
  note put = this [of "[0..<512]" _ "[]"]
  let ?z = "\<lparr>awtbt_pool = \<lambda>_. AwtBitmap (replicate 8 0), free_awtbt = None,
      nr_awt = \<lambda>_. 0, pending_awt = \<lambda>_. None\<rparr>"
  have "awt_create = put [0..<512] ?z" by (simp only: awt_create_def put_def)
  then show ?thesis using put [of ?z] unfolding pool_ok_def by auto
qed

lemma awt_create_simps [simp]:
  "pending_awt awt_create = (\<lambda>_. None)" "nr_awt awt_create = (\<lambda>_. 0)" "free_awtbt awt_create \<noteq> None"
proof -
  have p: "pending_awt (fold (\<lambda>i. awtbt_put (Some i)) is a) = pending_awt a
      \<and> nr_awt (fold (\<lambda>i. awtbt_put (Some i)) is a) = nr_awt a" for "is" a
    by (induction "is" arbitrary: a) (simp_all add: awtbt_put_def)
  then show "pending_awt awt_create = (\<lambda>_. None)" "nr_awt awt_create = (\<lambda>_. 0)"
    by (simp_all only: awt_create_def) simp_all
  have "[0..<512] = [0..<511] @ [511]" using upt_Suc_append [of 0 511] by simp
  then show "free_awtbt awt_create \<noteq> None"
    by (simp only: awt_create_def fold_append) (simp add: awtbt_put_def)
qed

lemma pool_ok_nr_awt [simp]: "pool_ok (a\<lparr>nr_awt := n\<rparr>) = pool_ok a"
  by (simp add: pool_ok_def)

lemma pool_ok_set:
  assumes "pool_ok a" "pending_awt a fl = Some q" "length bm = 8"
  shows "pool_ok (set_awt_bitmap q bm a)"
proof -
  obtain xs where "awt_chain (awtbt_pool a) (free_awtbt a) xs" "distinct xs"
    "\<forall>fl q. pending_awt a fl = Some q \<longrightarrow>
       q \<notin> set xs \<and> (\<exists>bm. awtbt_pool a q = AwtBitmap bm \<and> length bm = 8)
       \<and> (\<forall>fl'. pending_awt a fl' = Some q \<longrightarrow> fl' = fl)"
    using assms(1) unfolding pool_ok_def by blast
  with assms(2,3) show ?thesis
    unfolding pool_ok_def set_awt_bitmap_def by (intro exI [of _ xs]) auto
qed

lemma awtbt_get_ok:
  assumes "pool_ok a" "pending_awt a fl = None"
  shows "(free_awtbt a = None \<and> awtbt_get a = Some (None, a)) \<or>
    (\<exists>q a1. awtbt_get a = Some (Some q, a1) \<and> nr_awt a1 = nr_awt a \<and> pending_awt a1 = pending_awt a
      \<and> awtbt_pool a1 = (awtbt_pool a)(q := AwtBitmap (replicate 8 0))
      \<and> pool_ok (a1\<lparr>pending_awt := (pending_awt a1)(fl := Some q)\<rparr>)
      \<and> (\<forall>fl'. pending_awt a fl' \<noteq> Some q))"
proof (cases "free_awtbt a")
  case None
  then show ?thesis by (simp add: awtbt_get_def)
next
  case (Some q)
  obtain xs where xs: "awt_chain (awtbt_pool a) (Some q) xs" "distinct xs"
    "\<forall>fl q. pending_awt a fl = Some q \<longrightarrow>
       q \<notin> set xs \<and> (\<exists>bm. awtbt_pool a q = AwtBitmap bm \<and> length bm = 8)
       \<and> (\<forall>fl'. pending_awt a fl' = Some q \<longrightarrow> fl' = fl)"
    using assms(1) Some unfolding pool_ok_def by metis
  then obtain ys n where ys: "xs = q # ys" "awtbt_pool a q = AwtNext n" "awt_chain (awtbt_pool a) n ys"
    by (cases xs) auto
  let ?a = "a\<lparr>free_awtbt := n, awtbt_pool := (awtbt_pool a)(q := AwtBitmap (replicate 8 0))\<rparr>"
  have g: "awtbt_get a = Some (Some q, ?a)" using Some ys(2) by (simp add: awtbt_get_def)
  have np: "\<forall>fl'. pending_awt a fl' \<noteq> Some q" using xs(3) ys(1) by (metis list.set_intros(1))
  have "pool_ok (?a\<lparr>pending_awt := (pending_awt ?a)(fl := Some q)\<rparr>)"
    unfolding pool_ok_def using xs(2,3) ys np by (intro exI [of _ ys]) auto
  with g np show ?thesis by auto
qed

lemma awtbt_put_ok:
  assumes "pool_ok a" "pending_awt a fl = Some q"
  shows "pool_ok ((awtbt_put (Some q) a)\<lparr>pending_awt := (pending_awt a)(fl := None)\<rparr>)"
proof -
  obtain xs where xs: "awt_chain (awtbt_pool a) (free_awtbt a) xs" "distinct xs"
    "\<forall>fl q. pending_awt a fl = Some q \<longrightarrow>
       q \<notin> set xs \<and> (\<exists>bm. awtbt_pool a q = AwtBitmap bm \<and> length bm = 8)
       \<and> (\<forall>fl'. pending_awt a fl' = Some q \<longrightarrow> fl' = fl)"
    using assms(1) unfolding pool_ok_def by blast
  moreover from this assms(2) have "q \<notin> set xs" by blast
  ultimately show ?thesis
    unfolding pool_ok_def awtbt_put_def using assms(2) by (intro exI [of _ "q # xs"]) auto
qed

section \<open>What the operations do to the pages\<close>

definition pending_bitmap :: "awt \<Rightarrow> floc \<Rightarrow> u32 list" where
  "pending_bitmap a fl =
     (case pending_awt a fl of None \<Rightarrow> replicate 8 0
      | Some q \<Rightarrow> (case awtbt_pool a q of AwtBitmap bm \<Rightarrow> bm | AwtNext _ \<Rightarrow> replicate 8 0))"

definition awt_page :: "awt \<Rightarrow> floc \<Rightarrow> frag \<Rightarrow> nat \<Rightarrow> page" where
  "awt_page a fl fr = page_of (f_bitmap fr) (pending_bitmap a fl)"

text \<open>The counter of valid pages is right: only pages with both bits clear count.\<close>

definition awt_ok :: "awt \<Rightarrow> floc \<Rightarrow> frag \<Rightarrow> bool" where
  "awt_ok a fl fr \<longleftrightarrow> length (f_bitmap fr) = 8
     \<and> unat (f_nr_valid fr) = card {p. p < 256 \<and> awt_page a fl fr p = Page_valid}"

definition move_pages :: "nat \<Rightarrow> nat \<Rightarrow> (page \<Rightarrow> page) \<Rightarrow> (nat \<Rightarrow> page) \<Rightarrow> (nat \<Rightarrow> page) \<Rightarrow> bool" where
  "move_pages pg n tr P P' \<longleftrightarrow> (\<forall>q < 256. P' q = (if in_pages pg n q then tr (P q) else P q))"

lemma move_pages_none:
  assumes "move_pages pg n tr P P'" "pg + n \<le> 256" and tr: "\<And>x. tr x \<noteq> Page_valid"
  shows "{q. q < 256 \<and> P' q = Page_valid}
    = {q. q < 256 \<and> P q = Page_valid} - {q. in_pages pg n q \<and> P q = Page_valid}"
proof (rule set_eqI)
  fix q
  show "q \<in> {q. q < 256 \<and> P' q = Page_valid}
      \<longleftrightarrow> q \<in> {q. q < 256 \<and> P q = Page_valid} - {q. in_pages pg n q \<and> P q = Page_valid}"
    using assms(1,2) tr [of "P q"] by (cases "in_pages pg n q") (auto simp: move_pages_def)
qed

lemma move_pages_some:
  assumes "move_pages pg n tr P P'" "pg + n \<le> 256" and tr: "\<And>x. tr x = Page_valid \<longleftrightarrow> x = Page_valid \<or> Q x"
  shows "{q. q < 256 \<and> P' q = Page_valid}
    = {q. q < 256 \<and> P q = Page_valid} \<union> {q. in_pages pg n q \<and> Q (P q)}"
proof (rule set_eqI)
  fix q
  show "q \<in> {q. q < 256 \<and> P' q = Page_valid}
      \<longleftrightarrow> q \<in> {q. q < 256 \<and> P q = Page_valid} \<union> {q. in_pages pg n q \<and> Q (P q)}"
    using assms(1,2) tr [of "P q"] by (cases "in_pages pg n q") (auto simp: move_pages_def)
qed

lemma pending_bitmap_None [simp]: "pending_awt a fl = None \<Longrightarrow> pending_bitmap a fl = replicate 8 0"
  by (simp add: pending_bitmap_def)

lemma length_pending [simp]: "pool_ok a \<Longrightarrow> length (pending_bitmap a fl) = 8"
  by (cases "pending_awt a fl") (auto simp: pending_bitmap_def elim!: pool_okD)

lemma awt_bitmap_pending: "pool_ok a \<Longrightarrow> pending_awt a fl = Some q \<Longrightarrow> awt_bitmap a q = Some (pending_bitmap a fl)"
  by (auto simp: pending_bitmap_def elim!: pool_okD)

lemma pending_set_awt_bitmap:
  assumes "pool_ok a" "pending_awt a fl = Some q"
  shows "pending_bitmap (set_awt_bitmap q bm a) fl' = (if fl' = fl then bm else pending_bitmap a fl')"
proof (cases "fl' = fl")
  case True
  then show ?thesis using assms(2) by (simp add: pending_bitmap_def set_awt_bitmap_def)
next
  case False
  have "pending_awt a fl' \<noteq> Some q" using False pool_ok_inj [OF assms, of fl'] by blast
  then show ?thesis
    using False by (cases "pending_awt a fl'") (simp_all add: pending_bitmap_def set_awt_bitmap_def)
qed

lemma fold_counts:
  "fold (\<lambda>q (nv, vw). (if P q then nv - 1 else nv, vw + of_bool (Q q))) [a..<a + n] (nv :: 'a::comm_ring_1, vw :: int)
    = (nv - of_nat (card {q. in_pages a n q \<and> P q}), vw + int (card {q. in_pages a n q \<and> Q q}))"
proof (induction n)
  case 0
  have "{q. in_pages a 0 q \<and> R q} = {}" for R by auto
  then show ?case by (simp only:) simp
next
  case (Suc n)
  have c: "{q. in_pages a (Suc n) q \<and> R q} = {q. in_pages a n q \<and> R q} \<union> (if R (a + n) then {a + n} else {})" for R
    by (auto simp: less_Suc_eq)
  have f: "finite {q. in_pages a n q \<and> R q}" for R by (rule finite_subset [of _ "{..<a + n}"]) auto
  have k: "card {q. in_pages a (Suc n) q \<and> R q} = card {q. in_pages a n q \<and> R q} + of_bool (R (a + n))" for R
    unfolding c using f [of R] by simp
  show ?case using Suc.IH by (simp only: k) (simp add: algebra_simps)
qed

lemma fold_count_up:
  "fold (\<lambda>q nv. if P q then nv + 1 else nv) [a..<a + n] (nv :: 'a::comm_ring_1)
    = nv + of_nat (card {q. in_pages a n q \<and> P q})"
proof (induction n)
  case 0
  have "{q. in_pages a 0 q \<and> R q} = {}" for R by auto
  then show ?case by (simp only:) simp
next
  case (Suc n)
  have c: "{q. in_pages a (Suc n) q \<and> P q} = {q. in_pages a n q \<and> P q} \<union> (if P (a + n) then {a + n} else {})"
    by (auto simp: less_Suc_eq)
  have f: "finite {q. in_pages a n q \<and> P q}" by (rule finite_subset [of _ "{..<a + n}"]) auto
  have k: "card {q. in_pages a (Suc n) q \<and> P q} = card {q. in_pages a n q \<and> P q} + of_bool (P (a + n))"
    unfolding c using f by simp
  show ?case using Suc.IH by (simp only: k) (simp add: algebra_simps)
qed

lemma fold_count_int:
  "fold (\<lambda>q c. c + of_bool (P q)) [a..<a + n] (c :: int) = c + int (card {q. in_pages a n q \<and> P q})"
proof -
  have "(\<lambda>q c :: int. c + of_bool (P q)) = (\<lambda>q c. if P q then c + 1 else c)" by (intro ext) simp
  then show ?thesis using fold_count_up [of P a n c] by simp
qed

lemma count_minus:
  assumes "unat (nv :: u16) = card V" "K \<subseteq> V" "finite V"
  shows "unat (nv - of_nat (card K)) = card (V - K)" "card K \<le> unat nv"
proof -
  show le: "card K \<le> unat nv" using assms card_mono [OF assms(3,2)] by simp
  have "unat nv < 2 ^ LENGTH(16)" by (rule unsigned_less)
  then have "unat (of_nat (card K) :: u16) = card K" using le by (simp add: unat_of_nat)
  then show "unat (nv - of_nat (card K)) = card (V - K)"
    using le assms card_Diff_subset [OF finite_subset [OF assms(2,3)] assms(2)]
    by (subst unat_sub) (simp_all add: word_le_nat_alt)
qed

lemma count_plus:
  assumes "unat (nv :: u16) = card (V :: nat set)" "V \<inter> K = {}" "V \<union> K \<subseteq> {..<256}"
  shows "unat (nv + of_nat (card K)) = card (V \<union> K)"
proof -
  have fin: "finite V" "finite K" using assms(3) by (auto intro: finite_subset)
  have "card (V \<union> K) \<le> 256" using card_mono [OF _ assms(3)] by simp
  moreover have "card (V \<union> K) = card V + card K" using fin assms(2) by (rule card_Un_disjoint)
  ultimately show ?thesis using assms(1) by (simp add: unat_word_ariths unat_of_nat)
qed

interpretation set4awt: page_walk set4awt_page page_inval "\<lambda>pg c. c + of_bool (pg = Page_valid)" "\<lambda>_. True"
  by unfold_locales (rule set4awt_page_eq)

interpretation writestart: page_walk writestart_page page_begin
  "\<lambda>pg (nv, vw). (if pg = Page_valid then nv - 1 else nv, vw + of_bool (pg = Page_valid \<or> pg = Page_invalid))" "\<lambda>_. True"
  by unfold_locales (rule writestart_page_eq)

interpretation writeend: page_walk "writeend_page failed" "page_end failed"
  "\<lambda>pg nv. if pg = Page_writing \<and> \<not> failed then nv + 1 else nv" "\<lambda>pg. pg = Page_writing \<or> pg = Page_dirty" for failed
  by unfold_locales (rule writeend_page_eq)

lemma awt_range_bugs:
  "0 < (pgcnt :: u32) \<Longrightarrow> unat pgnum + unat pgcnt \<le> 256 \<Longrightarrow> bug_on (pgcnt = 0) = Some ()"
  "unat (pgnum :: u32) + unat pgcnt \<le> 256 \<Longrightarrow> bug_on (pgnum + pgcnt > 256) = Some ()"
  using unat_pgsum [of pgnum pgcnt] by (simp_all add: bug_on_def word_gt_0)

lemma frag_isvalid_awt_eq:
  assumes "pool_ok a" "awt_ok a fl fr" "0 < pgcnt" "unat pgnum + unat pgcnt \<le> 256"
  shows "frag_isvalid_awt a fl fr pgnum pgcnt = Some
    (if \<forall>p. in_pages (unat pgnum) (unat pgcnt) p \<longrightarrow> awt_page a fl fr p = Page_valid then SCE_SUCCESS else SCE_ERROR)"
proof -
  have l: "length (f_bitmap fr) = 8" using assms(2) by (simp add: awt_ok_def)
  note bugs = awt_range_bugs(1) [OF assms(3,4)] awt_range_bugs(2) [OF assms(4)]
  show ?thesis
  proof (cases "pending_awt a fl")
    case None
    have z: "\<not> pagebit (replicate 8 0) p" if "in_pages (unat pgnum) (unat pgcnt) p" for p
      using that assms(4) by simp
    show ?thesis
      using None check_bitmap_correct [OF l assms(4)] z
      by (auto simp: frag_isvalid_awt_def bugs awt_page_def page_bits_cases)
  next
    case (Some q)
    then show ?thesis
      using check_bitmap_correct [OF l assms(4)] awt_bitmap_pending [OF assms(1) Some]
        check_bitmap_correct [OF length_pending [OF assms(1)] assms(4), of fl]
      by (auto simp: frag_isvalid_awt_def bugs awt_page_def page_bits_cases)
  qed
qed

text \<open>Nothing changes for the other fragments.\<close>

definition awt_frame :: "floc \<Rightarrow> awt \<Rightarrow> awt \<Rightarrow> bool" where
  "awt_frame fl a a' \<longleftrightarrow> (\<forall>fl'. fl' \<noteq> fl \<longrightarrow> pending_awt a' fl' = pending_awt a fl'
     \<and> nr_awt a' fl' = nr_awt a fl' \<and> pending_bitmap a' fl' = pending_bitmap a fl')"

lemma awt_frame_refl [simp]: "awt_frame fl a a"
  by (simp add: awt_frame_def)

lemma awt_frame_trans: "awt_frame fl a b \<Longrightarrow> awt_frame fl b c \<Longrightarrow> awt_frame fl a c"
  by (simp add: awt_frame_def)

lemma awt_frame_set: "pool_ok a \<Longrightarrow> pending_awt a fl = Some q \<Longrightarrow> awt_frame fl a (set_awt_bitmap q bm a)"
  by (simp add: awt_frame_def pending_set_awt_bitmap) (simp add: set_awt_bitmap_def)

lemma set_awt_bitmap_fields [simp]:
  "pending_awt (set_awt_bitmap q bm a) = pending_awt a" "nr_awt (set_awt_bitmap q bm a) = nr_awt a"
  by (simp_all add: set_awt_bitmap_def)

lemma pending_bitmap_nr_awt [simp]: "pending_bitmap (a\<lparr>nr_awt := n\<rparr>) = pending_bitmap a"
  by (rule ext) (simp add: pending_bitmap_def split: option.split)

lemma awt_page_nr_awt [simp]: "awt_page (a\<lparr>nr_awt := n\<rparr>) = awt_page a"
  by (simp add: awt_page_def fun_eq_iff)

lemma awt_ok_nr_awt [simp]: "awt_ok (a\<lparr>nr_awt := n\<rparr>) = awt_ok a"
  by (simp add: awt_ok_def fun_eq_iff)

lemma awt_page_service [simp]: "awt_page a fl (fr\<lparr>f_nr_service := n\<rparr>) = awt_page a fl fr"
  by (simp add: awt_page_def)

lemma awt_ok_service [simp]: "awt_ok a fl (fr\<lparr>f_nr_service := n\<rparr>) = awt_ok a fl fr"
  by (simp add: awt_ok_def)

lemma no_pending_pages:
  "pending_awt a fl = None \<Longrightarrow> p < 256 \<Longrightarrow> awt_page a fl fr p = (if pagebit (f_bitmap fr) p then Page_invalid else Page_valid)"
  using pagebit_zero [of p 8] by (simp add: awt_page_def page_of_def)

lemma frag_invalidate_awt_eq:
  assumes "pool_ok a" "awt_ok a fl fr" "0 < pgcnt" "unat pgnum + unat pgcnt \<le> 256"
  obtains fr' where "frag_invalidate_awt a fl fr pgnum pgcnt
      = Some (int (card {q. in_pages (unat pgnum) (unat pgcnt) q \<and> awt_page a fl fr q = Page_valid}), fr')"
    "awt_ok a fl fr'" "f_nr_service fr' = f_nr_service fr"
    "move_pages (unat pgnum) (unat pgcnt) page_inval (awt_page a fl fr) (awt_page a fl fr')"
proof -
  let ?R = "{q. in_pages (unat pgnum) (unat pgcnt) q \<and> awt_page a fl fr q = Page_valid}"
  let ?V = "{q. q < 256 \<and> awt_page a fl fr q = Page_valid}"
  have l: "length (f_bitmap fr) = 8" "unat (f_nr_valid fr) = card ?V" using assms(2) by (simp_all add: awt_ok_def)
  note bugs = awt_range_bugs(1) [OF assms(3,4)] awt_range_bugs(2) [OF assms(4)]
  have sub: "?R \<subseteq> ?V" using assms(4) by auto
  have "finite ?V" by simp
  note cm = count_minus [OF l(2) sub this]
  have "\<exists>bm. length bm = 8 \<and> move_pages (unat pgnum) (unat pgcnt) page_inval (awt_page a fl fr) (awt_page a fl (fr\<lparr>f_bitmap := bm\<rparr>))
      \<and> (case pending_awt a fl of
        None \<Rightarrow> set_bitmap (f_bitmap fr) pgnum pgcnt
      | Some p \<Rightarrow> do { bm1 \<leftarrow> awt_bitmap a p; set_bitmap4awt (f_bitmap fr) bm1 pgnum pgcnt }) = Some (int (card ?R), bm)"
  proof (cases "pending_awt a fl")
    case None
    obtain bm where bm: "set_bitmap (f_bitmap fr) pgnum pgcnt
        = Some (int (card {p. in_pages (unat pgnum) (unat pgcnt) p \<and> \<not> pagebit (f_bitmap fr) p}), bm)"
        "length bm = 8" "\<forall>p < 256. pagebit bm p \<longleftrightarrow> pagebit (f_bitmap fr) p \<or> in_pages (unat pgnum) (unat pgcnt) p"
      using set_bitmap_correct [OF l(1) assms(4)] by blast
    have "{p. in_pages (unat pgnum) (unat pgcnt) p \<and> \<not> pagebit (f_bitmap fr) p} = ?R"
      using assms(4) by (auto simp: no_pending_pages [OF None])
    moreover have "move_pages (unat pgnum) (unat pgcnt) page_inval (awt_page a fl fr) (awt_page a fl (fr\<lparr>f_bitmap := bm\<rparr>))"
      using bm(3) by (simp add: move_pages_def no_pending_pages [OF None])
    ultimately show ?thesis using bm(1,2) None by auto
  next
    case (Some q)
    have "fold (\<lambda>q c. c + of_bool (awt_page a fl fr q = Page_valid)) [unat pgnum..<unat pgnum + unat pgcnt] (0 :: int) = int (card ?R)"
      by (simp add: fold_count_int)
    then obtain bm0 bm1 where w: "page_loop set4awt_page (f_bitmap fr, pending_bitmap a fl, 0) pgnum pgcnt = Some (bm0, bm1, int (card ?R))"
        "length bm0 = 8"
        "\<forall>q < 256. page_of bm0 bm1 q = (if in_pages (unat pgnum) (unat pgcnt) q then page_inval (awt_page a fl fr q) else awt_page a fl fr q)"
      using set4awt.loop_pages [OF l(1) length_pending [OF assms(1)] assms(4), of fl 0] unfolding awt_page_def by auto
    have "page_of bm0 (pending_bitmap a fl) q = page_of bm0 bm1 q" if "q < 256" for q
    proof -
      have "pagebit bm1 q = pagebit (pending_bitmap a fl) q"
        using w(3) that unfolding awt_page_def
        by (cases "pagebit (f_bitmap fr) q"; cases "pagebit (pending_bitmap a fl) q"; cases "pagebit bm0 q"; cases "pagebit bm1 q")
          (auto simp: page_of_def split: if_splits)
      then show ?thesis by (simp add: page_of_def)
    qed
    then have "move_pages (unat pgnum) (unat pgcnt) page_inval (awt_page a fl fr) (awt_page a fl (fr\<lparr>f_bitmap := bm0\<rparr>))"
      using w(3) by (simp add: move_pages_def awt_page_def)
    moreover have "set_bitmap4awt (f_bitmap fr) (pending_bitmap a fl) pgnum pgcnt = Some (int (card ?R), bm0)"
      using w(1) by (simp add: set_bitmap4awt_def)
    ultimately show ?thesis
      using w(2) Some awt_bitmap_pending [OF assms(1) Some] by auto
  qed
  then obtain bm where bm: "length bm = 8"
      "move_pages (unat pgnum) (unat pgcnt) page_inval (awt_page a fl fr) (awt_page a fl (fr\<lparr>f_bitmap := bm\<rparr>))"
      "(case pending_awt a fl of
        None \<Rightarrow> set_bitmap (f_bitmap fr) pgnum pgcnt
      | Some p \<Rightarrow> do { bm1 \<leftarrow> awt_bitmap a p; set_bitmap4awt (f_bitmap fr) bm1 pgnum pgcnt }) = Some (int (card ?R), bm)"
    by blast
  let ?fr = "fr\<lparr>f_bitmap := bm, f_nr_valid := f_nr_valid fr - of_nat (card ?R)\<rparr>"
  have pages: "awt_page a fl ?fr = awt_page a fl (fr\<lparr>f_bitmap := bm\<rparr>)" by (simp add: awt_page_def)
  have "page_inval pg \<noteq> Page_valid" for pg by (cases pg) simp_all
  then have "{q. q < 256 \<and> awt_page a fl ?fr q = Page_valid} = ?V - ?R"
    unfolding pages by (rule move_pages_none [OF bm(2) assms(4)])
  then have ok: "awt_ok a fl ?fr" using cm(1) bm(1) by (simp add: awt_ok_def)
  have nobug: "\<not> uint (f_nr_valid fr) < int (card ?R)"
    using cm(2) by (simp only: uint_nat not_less of_nat_le_iff)
  have "frag_invalidate_awt a fl fr pgnum pgcnt = Some (int (card ?R), ?fr)"
    using bm(3) nobug unfolding frag_invalidate_awt_def bugs by (simp add: bug_on_def)
  then show ?thesis by (rule that) (use ok bm(2) pages in simp_all)
qed

lemma frag_writestart_eq:
  assumes "pool_ok a" "awt_ok a fl fr" "0 < pgcnt" "unat pgnum + unat pgcnt \<le> 256" "pending_awt a fl = Some p"
  obtains fr' a' where "frag_writestart a fl fr pgnum pgcnt = Some
      (if \<exists>q. in_pages (unat pgnum) (unat pgcnt) q \<and> (awt_page a fl fr q = Page_valid \<or> awt_page a fl fr q = Page_invalid)
       then SCE_SUCCESS else SCE_ERROR, fr', a')"
    "pool_ok a'" "awt_ok a' fl fr'" "f_nr_service fr' = f_nr_service fr"
    "pending_awt a' = pending_awt a" "nr_awt a' = nr_awt a" "awt_frame fl a a'"
    "move_pages (unat pgnum) (unat pgcnt) page_begin (awt_page a fl fr) (awt_page a' fl fr')"
proof -
  let ?R = "{q. in_pages (unat pgnum) (unat pgcnt) q \<and> awt_page a fl fr q = Page_valid}"
  let ?W = "{q. in_pages (unat pgnum) (unat pgcnt) q \<and> (awt_page a fl fr q = Page_valid \<or> awt_page a fl fr q = Page_invalid)}"
  let ?V = "{q. q < 256 \<and> awt_page a fl fr q = Page_valid}"
  have l: "length (f_bitmap fr) = 8" "unat (f_nr_valid fr) = card ?V" using assms(2) by (simp_all add: awt_ok_def)
  note bugs = awt_range_bugs(1) [OF assms(3,4)] awt_range_bugs(2) [OF assms(4)]
  have sub: "?R \<subseteq> ?V" using assms(4) by auto
  have fin: "finite ?W" by (rule finite_subset [of _ "{..<unat pgnum + unat pgcnt}"]) auto
  obtain bm0 bm1 where w: "page_loop writestart_page (f_bitmap fr, pending_bitmap a fl, f_nr_valid fr, 0) pgnum pgcnt
        = Some (bm0, bm1, f_nr_valid fr - of_nat (card ?R), int (card ?W))"
      "length bm0 = 8" "length bm1 = 8"
      "\<forall>q < 256. page_of bm0 bm1 q = (if in_pages (unat pgnum) (unat pgcnt) q then page_begin (awt_page a fl fr q) else awt_page a fl fr q)"
    using writestart.loop_pages [OF l(1) length_pending [OF assms(1)] assms(4), of fl "(f_nr_valid fr, 0)"]
    unfolding fold_counts awt_page_def by auto
  let ?fr = "fr\<lparr>f_bitmap := bm0, f_nr_valid := f_nr_valid fr - of_nat (card ?R)\<rparr>"
  let ?a = "set_awt_bitmap p bm1 a"
  have pb: "pending_bitmap ?a fl = bm1" by (simp add: pending_set_awt_bitmap [OF assms(1,5)])
  have mv: "move_pages (unat pgnum) (unat pgcnt) page_begin (awt_page a fl fr) (awt_page ?a fl ?fr)"
    unfolding move_pages_def using w(4) pb by (simp add: awt_page_def)
  have "page_begin pg \<noteq> Page_valid" for pg by (cases pg) simp_all
  then have "{q. q < 256 \<and> awt_page ?a fl ?fr q = Page_valid} = ?V - ?R"
    by (rule move_pages_none [OF mv assms(4)])
  then have ok: "awt_ok ?a fl ?fr" using w(2) count_minus(1) [OF l(2) sub] by (simp add: awt_ok_def)
  have "int (card ?W) \<noteq> 0 \<longleftrightarrow> (\<exists>q. in_pages (unat pgnum) (unat pgcnt) q \<and> (awt_page a fl fr q = Page_valid \<or> awt_page a fl fr q = Page_invalid))"
    using fin by auto
  then have "frag_writestart a fl fr pgnum pgcnt = Some
      (if \<exists>q. in_pages (unat pgnum) (unat pgcnt) q \<and> (awt_page a fl fr q = Page_valid \<or> awt_page a fl fr q = Page_invalid)
       then SCE_SUCCESS else SCE_ERROR, ?fr, ?a)"
    unfolding frag_writestart_def bugs using assms(5) w(1) awt_bitmap_pending [OF assms(1,5)] by simp
  then show ?thesis
    by (rule that) (use ok mv w(3) pool_ok_set [OF assms(1,5)] awt_frame_set [OF assms(1,5)] in simp_all)
qed

lemma frag_writeend_eq:
  assumes "pool_ok a" "awt_ok a fl fr" "0 < pgcnt" "unat pgnum + unat pgcnt \<le> 256" "pending_awt a fl = Some p"
    and "\<forall>q. in_pages (unat pgnum) (unat pgcnt) q \<longrightarrow> awt_page a fl fr q = Page_writing \<or> awt_page a fl fr q = Page_dirty"
  obtains fr' a' where "frag_writeend a fl fr pgnum pgcnt failed = Some (fr', a')"
    "pool_ok a'" "awt_ok a' fl fr'" "f_nr_service fr' = f_nr_service fr"
    "pending_awt a' = pending_awt a" "nr_awt a' = nr_awt a" "awt_frame fl a a'"
    "move_pages (unat pgnum) (unat pgcnt) (page_end failed) (awt_page a fl fr) (awt_page a' fl fr')"
proof -
  let ?R = "{q. in_pages (unat pgnum) (unat pgcnt) q \<and> awt_page a fl fr q = Page_writing \<and> \<not> failed}"
  let ?V = "{q. q < 256 \<and> awt_page a fl fr q = Page_valid}"
  have l: "length (f_bitmap fr) = 8" "unat (f_nr_valid fr) = card ?V" using assms(2) by (simp_all add: awt_ok_def)
  note bugs = awt_range_bugs(1) [OF assms(3,4)] awt_range_bugs(2) [OF assms(4)]
  obtain bm0 bm1 where w: "page_loop (writeend_page failed) (f_bitmap fr, pending_bitmap a fl, f_nr_valid fr) pgnum pgcnt
        = Some (bm0, bm1, f_nr_valid fr + of_nat (card ?R))"
      "length bm0 = 8" "length bm1 = 8"
      "\<forall>q < 256. page_of bm0 bm1 q = (if in_pages (unat pgnum) (unat pgcnt) q then page_end failed (awt_page a fl fr q) else awt_page a fl fr q)"
    using writeend.loop_pages [where failed = failed and c = "f_nr_valid fr", OF l(1) length_pending [OF assms(1), of fl] assms(4)] assms(6)
    unfolding fold_count_up awt_page_def by auto
  let ?fr = "fr\<lparr>f_bitmap := bm0, f_nr_valid := f_nr_valid fr + of_nat (card ?R)\<rparr>"
  let ?a = "set_awt_bitmap p bm1 a"
  have pb: "pending_bitmap ?a fl = bm1" by (simp add: pending_set_awt_bitmap [OF assms(1,5)])
  have mv: "move_pages (unat pgnum) (unat pgcnt) (page_end failed) (awt_page a fl fr) (awt_page ?a fl ?fr)"
    unfolding move_pages_def using w(4) pb by (simp add: awt_page_def)
  have "page_end failed pg = Page_valid \<longleftrightarrow> pg = Page_valid \<or> pg = Page_writing \<and> \<not> failed" for pg by (cases pg) simp_all
  then have "{q. q < 256 \<and> awt_page ?a fl ?fr q = Page_valid} = ?V \<union> ?R"
    by (rule move_pages_some [OF mv assms(4)])
  moreover have "?V \<inter> ?R = {}" "?V \<union> ?R \<subseteq> {..<256}" using assms(4) by auto
  ultimately have ok: "awt_ok ?a fl ?fr" using w(2) count_plus [OF l(2)] by (simp add: awt_ok_def)
  have "frag_writeend a fl fr pgnum pgcnt failed = Some (?fr, ?a)"
    unfolding frag_writeend_def bugs using assms(5) w(1) awt_bitmap_pending [OF assms(1,5)] by (simp add: bug_on_def)
  then show ?thesis
    by (rule that) (use ok mv w(3) pool_ok_set [OF assms(1,5)] awt_frame_set [OF assms(1,5)] in simp_all)
qed

lemma merge_loop:
  assumes "length bm = n" "length bm1 = n"
  shows "for_each [0..<n] (\<lambda>i bm. do { w0 \<leftarrow> rd bm i; w1 \<leftarrow> rd bm1 i; Some (bm[i := w0 OR w1]) }) bm
    = Some (map (\<lambda>i. bm ! i OR bm1 ! i) [0..<n])"
proof -
  have main: "for_each [k..<n] (\<lambda>i bm. do { w0 \<leftarrow> rd bm i; w1 \<leftarrow> rd bm1 i; Some (bm[i := w0 OR w1]) })
      (map (\<lambda>i. if i < k then bm ! i OR bm1 ! i else bm ! i) [0..<n])
    = Some (map (\<lambda>i. bm ! i OR bm1 ! i) [0..<n])" if "k \<le> n" for k
    using that
  proof (induction k rule: inc_induct)
    case base
    then show ?case by (auto intro: map_cong)
  next
    case (step k)
    have "(map (\<lambda>i. if i < k then bm ! i OR bm1 ! i else bm ! i) [0..<n])[k := bm ! k OR bm1 ! k]
        = map (\<lambda>i. if i < Suc k then bm ! i OR bm1 ! i else bm ! i) [0..<n]"
      using step.hyps by (intro nth_equalityI) (auto simp: nth_list_update less_Suc_eq)
    moreover have "map (\<lambda>i. if i < k then bm ! i OR bm1 ! i else bm ! i) [0..<n] ! k = bm ! k"
      using step.hyps by simp
    moreover have "[k..<n] = k # [Suc k..<n]" using step.hyps by (simp add: upt_conv_Cons)
    ultimately show ?case using step.IH step.hyps assms by (simp only: for_each.simps) simp
  qed
  have "map (\<lambda>i. if i < 0 then bm ! i OR bm1 ! i else bm ! i) [0..<n] = bm"
    using assms(1) by (auto simp: map_nth)
  with main [OF le0] show ?thesis by (simp only:)
qed

lemma frag_mergebitmap_eq:
  assumes "pool_ok a" "length (f_bitmap fr) = 8" "pending_awt a fl = Some p"
  obtains bm where "frag_mergebitmap a fl fr = Some (fr\<lparr>f_bitmap := bm\<rparr>)" "length bm = 8"
    "\<And>q. q < 256 \<Longrightarrow> pagebit bm q \<longleftrightarrow> awt_page a fl fr q \<noteq> Page_valid"
proof -
  let ?bm = "map (\<lambda>i. f_bitmap fr ! i OR pending_bitmap a fl ! i) [0..<8]"
  have 1: "frag_mergebitmap a fl fr = Some (fr\<lparr>f_bitmap := ?bm\<rparr>)"
    using assms(3) merge_loop [OF assms(2) length_pending [OF assms(1)], of fl]
    by (simp only: frag_mergebitmap_def awt_bitmap_pending [OF assms(1,3)] bind.simps)
  have 2: "pagebit ?bm q \<longleftrightarrow> awt_page a fl fr q \<noteq> Page_valid" if "q < 256" for q
  proof -
    have "pagebit ?bm q \<longleftrightarrow> pagebit (f_bitmap fr) q \<or> pagebit (pending_bitmap a fl) q"
    proof -
      have "q div 32 < 8" using that by simp
      then show ?thesis by (simp add: pagebit_def bit_or_iff del: upt_rec_numeral)
    qed
    then show ?thesis by (auto simp: awt_page_def page_bits_cases)
  qed
  show ?thesis by (rule that [OF 1 _ 2]) simp
qed

lemma awt_release_eq:
  assumes "pool_ok a" "awt_ok a fl fr" "pending_awt a fl = Some p"
  obtains fr' a' where "awt_release a fl fr = Some (fr', a')"
    "pool_ok a'" "awt_ok a' fl fr'" "f_nr_service fr' = f_nr_service fr"
    "pending_awt a' = (pending_awt a)(fl := None)" "nr_awt a' = nr_awt a" "awt_frame fl a a'"
    "move_pages 0 256 page_merge (awt_page a fl fr) (awt_page a' fl fr')"
proof -
  have l: "length (f_bitmap fr) = 8" using assms(2) by (simp add: awt_ok_def)
  obtain bm where bm: "frag_mergebitmap a fl fr = Some (fr\<lparr>f_bitmap := bm\<rparr>)" "length bm = 8"
    "\<And>q. q < 256 \<Longrightarrow> pagebit bm q \<longleftrightarrow> awt_page a fl fr q \<noteq> Page_valid"
    by (rule frag_mergebitmap_eq [OF assms(1) l assms(3)]) blast
  let ?a = "(awtbt_put (pending_awt a fl) a)\<lparr>pending_awt := (pending_awt a)(fl := None)\<rparr>"
  have none: "pending_awt ?a fl = None" by simp
  have mv: "move_pages 0 256 page_merge (awt_page a fl fr) (awt_page ?a fl (fr\<lparr>f_bitmap := bm\<rparr>))"
    unfolding move_pages_def
  proof (intro allI impI)
    fix q :: nat assume q: "q < 256"
    show "awt_page ?a fl (fr\<lparr>f_bitmap := bm\<rparr>) q
        = (if in_pages 0 256 q then page_merge (awt_page a fl fr q) else awt_page a fl fr q)"
      using q bm(3) [OF q] by (cases "awt_page a fl fr q") (simp_all add: no_pending_pages [OF none q])
  qed
  have "page_merge pg = Page_valid \<longleftrightarrow> pg = Page_valid" for pg by (cases pg) simp_all
  then have "{q. q < 256 \<and> awt_page ?a fl (fr\<lparr>f_bitmap := bm\<rparr>) q = Page_valid} = {q. q < 256 \<and> awt_page a fl fr q = Page_valid}"
    using mv unfolding move_pages_def by auto
  then have ok: "awt_ok ?a fl (fr\<lparr>f_bitmap := bm\<rparr>)" using assms(2) bm(2) by (simp add: awt_ok_def)
  have pool: "pool_ok ?a" using awtbt_put_ok [OF assms(1,3)] assms(3) by simp
  have frame: "awt_frame fl a ?a"
    unfolding awt_frame_def
  proof (intro allI impI)
    fix fl' assume n: "fl' \<noteq> fl"
    have "pending_awt a fl' \<noteq> Some p" using n pool_ok_inj [OF assms(1,3), of fl'] by blast
    then show "pending_awt ?a fl' = pending_awt a fl' \<and> nr_awt ?a fl' = nr_awt a fl' \<and> pending_bitmap ?a fl' = pending_bitmap a fl'"
      using n assms(3) by (cases "pending_awt a fl'") (simp_all add: pending_bitmap_def awtbt_put_def)
  qed
  have "awt_release a fl fr = Some (fr\<lparr>f_bitmap := bm\<rparr>, ?a)" by (simp add: awt_release_def bm(1))
  then show ?thesis
    by (rule that) (use ok mv pool frame assms(3) in \<open>simp_all add: awtbt_put_def\<close>)
qed

text \<open>
  The two parts of a write. A write begins when some page of its range was valid or invalid; then
  every such page is being written, and the others are dirty. When it does not begin, no page of
  the range is valid afterwards.
\<close>

definition begins :: "(nat \<Rightarrow> page) \<Rightarrow> nat \<Rightarrow> nat \<Rightarrow> bool" where
  "begins P pg n \<longleftrightarrow> (\<exists>q. in_pages pg n q \<and> (P q = Page_valid \<or> P q = Page_invalid))"

lemma awt_begin_pending:
  assumes "pool_ok a" "awt_ok a fl fr" "0 < pgcnt" "unat pgoff + unat pgcnt \<le> 256" "pending_awt a fl = Some p"
    and "nr_awt a fl \<noteq> 0 \<or> begins (awt_page a fl fr) (unat pgoff) (unat pgcnt)"
  obtains fr' a' where "awt_begin a fl fr pgoff pgcnt
      = Some (if begins (awt_page a fl fr) (unat pgoff) (unat pgcnt) then SCE_SUCCESS else SCE_ERROR, fr', a')"
    "pool_ok a'" "awt_ok a' fl fr'" "pending_awt a' = pending_awt a" "awt_frame fl a a'"
    "nr_awt a' fl = nr_awt a fl + of_bool (begins (awt_page a fl fr) (unat pgoff) (unat pgcnt))"
    "f_nr_service fr' = f_nr_service fr + of_bool (begins (awt_page a fl fr) (unat pgoff) (unat pgcnt))"
    "move_pages (unat pgoff) (unat pgcnt) page_begin (awt_page a fl fr) (awt_page a' fl fr')"
proof -
  obtain fr1 a1 where w: "frag_writestart a fl fr pgoff pgcnt
      = Some (if begins (awt_page a fl fr) (unat pgoff) (unat pgcnt) then SCE_SUCCESS else SCE_ERROR, fr1, a1)"
    "pool_ok a1" "awt_ok a1 fl fr1" "f_nr_service fr1 = f_nr_service fr"
    "pending_awt a1 = pending_awt a" "nr_awt a1 = nr_awt a" "awt_frame fl a a1"
    "move_pages (unat pgoff) (unat pgcnt) page_begin (awt_page a fl fr) (awt_page a1 fl fr1)"
    by (rule frag_writestart_eq [OF assms(1-5)]) (unfold begins_def, blast)
  show ?thesis
  proof (cases "begins (awt_page a fl fr) (unat pgoff) (unat pgcnt)")
    case True
    have "awt_begin a fl fr pgoff pgcnt = Some (SCE_SUCCESS, fr1\<lparr>f_nr_service := f_nr_service fr1 + 1\<rparr>,
        a1\<lparr>nr_awt := (nr_awt a1)(fl := nr_awt a1 fl + 1)\<rparr>)"
      using w(1) True assms(5) by (simp add: awt_begin_def)
    moreover have "awt_frame fl a (a1\<lparr>nr_awt := (nr_awt a1)(fl := nr_awt a1 fl + 1)\<rparr>)"
      using w(7) by (simp add: awt_frame_def)
    ultimately show ?thesis using that w True by simp
  next
    case False
    have "awt_begin a fl fr pgoff pgcnt = Some (SCE_ERROR, fr1, a1)"
      using w(1,5,6) False assms(5,6) by (simp add: awt_begin_def)
    then show ?thesis using that w False by simp
  qed
qed

lemma awt_begin_eq:
  assumes "pool_ok a" "awt_ok a fl fr" "0 < pgcnt" "unat pgoff + unat pgcnt \<le> 256"
    and "nr_awt a fl = 0 \<longleftrightarrow> pending_awt a fl = None"
  obtains r fr' a' where "awt_begin a fl fr pgoff pgcnt = Some (r, fr', a')" "r = SCE_SUCCESS \<or> r = SCE_ERROR"
    "pool_ok a'" "awt_ok a' fl fr'" "awt_frame fl a a'"
    "nr_awt a' fl = nr_awt a fl + of_bool (r = SCE_SUCCESS)"
    "f_nr_service fr' = f_nr_service fr + of_bool (r = SCE_SUCCESS)"
    "pending_awt a' fl = None \<longleftrightarrow> pending_awt a fl = None \<and> r = SCE_ERROR"
    "if pending_awt a' fl = None
     then r = SCE_ERROR \<and> move_pages (unat pgoff) (unat pgcnt) page_inval (awt_page a fl fr) (awt_page a' fl fr')
     else (r = SCE_SUCCESS \<longleftrightarrow> begins (awt_page a fl fr) (unat pgoff) (unat pgcnt))
          \<and> move_pages (unat pgoff) (unat pgcnt) page_begin (awt_page a fl fr) (awt_page a' fl fr')"
    "free_awtbt a \<noteq> None \<longrightarrow> pending_awt a' fl \<noteq> None"
proof (cases "pending_awt a fl")
  case (Some p)
  obtain fr' a' where b: "awt_begin a fl fr pgoff pgcnt
      = Some (if begins (awt_page a fl fr) (unat pgoff) (unat pgcnt) then SCE_SUCCESS else SCE_ERROR, fr', a')"
    "pool_ok a'" "awt_ok a' fl fr'" "pending_awt a' = pending_awt a" "awt_frame fl a a'"
    "nr_awt a' fl = nr_awt a fl + of_bool (begins (awt_page a fl fr) (unat pgoff) (unat pgcnt))"
    "f_nr_service fr' = f_nr_service fr + of_bool (begins (awt_page a fl fr) (unat pgoff) (unat pgcnt))"
    "move_pages (unat pgoff) (unat pgcnt) page_begin (awt_page a fl fr) (awt_page a' fl fr')"
    by (rule awt_begin_pending [OF assms(1-4) Some]) (use assms(5) Some in auto)
  show ?thesis by (rule that [OF b(1)]) (use b Some in auto)
next
  case None
  consider "free_awtbt a = None" "awtbt_get a = Some (None, a)"
    | q a1 where "awtbt_get a = Some (Some q, a1)" "nr_awt a1 = nr_awt a" "pending_awt a1 = pending_awt a"
      "awtbt_pool a1 = (awtbt_pool a)(q := AwtBitmap (replicate 8 0))"
      "pool_ok (a1\<lparr>pending_awt := (pending_awt a1)(fl := Some q)\<rparr>)" "\<forall>fl'. pending_awt a fl' \<noteq> Some q"
    using awtbt_get_ok [OF assms(1) None] by (elim disjE exE conjE) simp_all
  then show ?thesis
  proof cases
    case 1
    obtain n fr' where i: "frag_invalidate_awt a fl fr pgoff pgcnt = Some (n, fr')" "awt_ok a fl fr'"
      "f_nr_service fr' = f_nr_service fr"
      "move_pages (unat pgoff) (unat pgcnt) page_inval (awt_page a fl fr) (awt_page a fl fr')"
      by (rule frag_invalidate_awt_eq [OF assms(1-4)]) blast
    have same: "a\<lparr>pending_awt := (pending_awt a)(fl := None)\<rparr> = a" using None by (simp add: fun_upd_idem)
    have "awt_begin a fl fr pgoff pgcnt = Some (SCE_ERROR, fr', a)"
      using 1 None i(1) awt_range_bugs(1) [OF assms(3,4)] awt_range_bugs(2) [OF assms(4)]
      by (simp add: awt_begin_def same frag_writestart_def)
    then show ?thesis by (rule that) (use i None assms(1) 1 in simp_all)
  next
    case 2
    let ?a = "a1\<lparr>pending_awt := (pending_awt a1)(fl := Some q)\<rparr>"
    have pend: "pending_awt ?a fl = Some q" by simp
    have pb: "pending_bitmap ?a fl = pending_bitmap a fl" using 2(4) None by (simp add: pending_bitmap_def)
    then have pages: "awt_page ?a fl fr = awt_page a fl fr" by (simp add: awt_page_def)
    have ok: "awt_ok ?a fl fr" using assms(2) by (simp add: awt_ok_def pages)
    have frame: "awt_frame fl a ?a"
      unfolding awt_frame_def
    proof (intro allI impI)
      fix fl' assume "fl' \<noteq> fl"
      then show "pending_awt ?a fl' = pending_awt a fl' \<and> nr_awt ?a fl' = nr_awt a fl' \<and> pending_bitmap ?a fl' = pending_bitmap a fl'"
        using 2(2-4,6) by (cases "pending_awt a fl'") (auto simp: pending_bitmap_def)
    qed
    have beg: "begins (awt_page a fl fr) (unat pgoff) (unat pgcnt)"
      unfolding begins_def using assms(3,4) no_pending_pages [OF None, of "unat pgoff"]
      by (intro exI [of _ "unat pgoff"]) (auto simp: word_less_nat_alt)
    obtain fr' a' where b: "awt_begin ?a fl fr pgoff pgcnt = Some (SCE_SUCCESS, fr', a')"
      "pool_ok a'" "awt_ok a' fl fr'" "pending_awt a' = pending_awt ?a" "awt_frame fl ?a a'"
      "nr_awt a' fl = nr_awt ?a fl + 1" "f_nr_service fr' = f_nr_service fr + 1"
      "move_pages (unat pgoff) (unat pgcnt) page_begin (awt_page ?a fl fr) (awt_page a' fl fr')"
      by (rule awt_begin_pending [OF 2(5) ok assms(3,4) pend]) (use beg pages in auto)
    have "awt_begin a fl fr pgoff pgcnt = awt_begin ?a fl fr pgoff pgcnt"
      using 2(1) None by (simp add: awt_begin_def)
    with b(1) have "awt_begin a fl fr pgoff pgcnt = Some (SCE_SUCCESS, fr', a')" by simp
    then show ?thesis
      by (rule that) (use b 2(2) beg pages awt_frame_trans [OF frame b(5)] in simp_all)
  qed
qed

lemma awt_end_eq:
  assumes "pool_ok a" "awt_ok a fl fr" "0 < pgcnt" "unat pgoff + unat pgcnt \<le> 256" "pending_awt a fl \<noteq> None"
    and "\<forall>q. in_pages (unat pgoff) (unat pgcnt) q \<longrightarrow> awt_page a fl fr q = Page_writing \<or> awt_page a fl fr q = Page_dirty"
  obtains P fr' a' where "awt_end a fl fr pgoff pgcnt failed = Some (fr', a')"
    "pool_ok a'" "awt_ok a' fl fr'" "awt_frame fl a a'" "nr_awt a' fl = nr_awt a fl - 1"
    "f_nr_service fr' = f_nr_service fr - 1"
    "pending_awt a' fl = (if nr_awt a fl = 1 then None else pending_awt a fl)"
    "move_pages (unat pgoff) (unat pgcnt) (page_end failed) (awt_page a fl fr) P"
    "if nr_awt a fl = 1 then move_pages 0 256 page_merge P (awt_page a' fl fr') else P = awt_page a' fl fr'"
proof -
  obtain p where p: "pending_awt a fl = Some p" using assms(5) by blast
  obtain fr1 a1 where w: "frag_writeend a fl fr pgoff pgcnt failed = Some (fr1, a1)"
    "pool_ok a1" "awt_ok a1 fl fr1" "f_nr_service fr1 = f_nr_service fr"
    "pending_awt a1 = pending_awt a" "nr_awt a1 = nr_awt a" "awt_frame fl a a1"
    "move_pages (unat pgoff) (unat pgcnt) (page_end failed) (awt_page a fl fr) (awt_page a1 fl fr1)"
    by (rule frag_writeend_eq [OF assms(1-4) p assms(6)]) blast
  let ?a = "a1\<lparr>nr_awt := (nr_awt a1)(fl := nr_awt a1 fl - 1)\<rparr>"
  have frame: "awt_frame fl a ?a" using w(7) by (simp add: awt_frame_def)
  show ?thesis
  proof (cases "nr_awt a fl = 1")
    case True
    obtain fr2 a2 where r: "awt_release ?a fl fr1 = Some (fr2, a2)" "pool_ok a2" "awt_ok a2 fl fr2"
      "f_nr_service fr2 = f_nr_service fr1" "pending_awt a2 = (pending_awt ?a)(fl := None)" "nr_awt a2 = nr_awt ?a"
      "awt_frame fl ?a a2" "move_pages 0 256 page_merge (awt_page ?a fl fr1) (awt_page a2 fl fr2)"
      by (rule awt_release_eq [of ?a fl fr1 p]) (use w p in simp_all)
    have "awt_end a fl fr pgoff pgcnt failed = Some (fr2\<lparr>f_nr_service := f_nr_service fr2 - 1\<rparr>, a2)"
      using w(1,6) True r(1) by (simp add: awt_end_def Let_def)
    then show ?thesis
      by (rule that [where P = "awt_page a1 fl fr1"]) (use r w True awt_frame_trans [OF frame r(7)] in simp_all)
  next
    case False
    then have "nr_awt a fl - 1 \<noteq> 0" by simp
    then have "awt_end a fl fr pgoff pgcnt failed = Some (fr1\<lparr>f_nr_service := f_nr_service fr1 - 1\<rparr>, ?a)"
      using w(1,6) by (simp add: awt_end_def Let_def)
    then show ?thesis
      by (rule that [where P = "awt_page a1 fl fr1"]) (use w False frame in simp_all)
  qed
qed

end
