(* ===== verification/Sce_Protocol.thy ===== *)
theory Sce_Protocol
  imports Sce_Awt
begin

text \<open>
  The asynchronous write-through as a protocol: any number of writes to the mapped fragments are
  under way at the same time, and their parts (the call that begins them, the transfer to the disk,
  the transfer to the SSD, the call that ends them) interleave in any order. Every page of the disk
  and of the SSD holds the number of the write that stored its content. A write that the engine does
  not take, because its range is dirty, no buffer is free, or it is not aligned to pages, only goes
  to the disk and is not followed by the engine.

  The invariant says what the state of a page means: a valid page has no write under way and the
  same content on both devices, a page being written has exactly one.
\<close>

section \<open>Writes that are under way\<close>

record wflight =
  w_loc :: floc
  w_page :: u32
  w_cnt :: u32
  w_taken :: bool
  w_disk_done :: bool
  w_ssd_done :: bool

record wsys =
  y_awt :: awt
  y_frag :: "floc \<Rightarrow> frag"
  y_disk :: "floc \<Rightarrow> nat \<Rightarrow> nat"
  y_ssd :: "floc \<Rightarrow> nat \<Rightarrow> nat"
  y_flight :: "nat \<Rightarrow> wflight option"
  y_next :: nat

definition covers :: "wflight \<Rightarrow> floc \<Rightarrow> nat \<Rightarrow> bool" where
  "covers w fl p \<longleftrightarrow> w_loc w = fl \<and> in_pages (unat (w_page w)) (unat (w_cnt w)) p"

text \<open>The writes under way that cover a page, those the engine has taken, and those of a fragment.\<close>

definition cov :: "wsys \<Rightarrow> floc \<Rightarrow> nat \<Rightarrow> nat set" where
  "cov y fl p = {i. \<exists>w. y_flight y i = Some w \<and> covers w fl p}"

definition tcov :: "wsys \<Rightarrow> floc \<Rightarrow> nat \<Rightarrow> nat set" where
  "tcov y fl p = {i. \<exists>w. y_flight y i = Some w \<and> w_taken w \<and> covers w fl p}"

definition taken :: "wsys \<Rightarrow> floc \<Rightarrow> nat set" where
  "taken y fl = {i. \<exists>w. y_flight y i = Some w \<and> w_taken w \<and> w_loc w = fl}"

definition store :: "wflight \<Rightarrow> nat \<Rightarrow> (floc \<Rightarrow> nat \<Rightarrow> nat) \<Rightarrow> floc \<Rightarrow> nat \<Rightarrow> nat" where
  "store w i m = (\<lambda>fl p. if covers w fl p then i else m fl p)"

definition range_ok :: "u32 \<Rightarrow> u32 \<Rightarrow> bool" where
  "range_ok pg n \<longleftrightarrow> 0 < n \<and> unat pg + unat n \<le> 256"

text \<open>
  The steps. With \<open>ser\<close>, no write begins while one that the engine does not follow is under way to
  the same pages. The counter of a fragment has 16 bits: fewer than 65535 writes are under way to it.
\<close>

inductive wstep :: "bool \<Rightarrow> wsys \<Rightarrow> wsys \<Rightarrow> bool" for ser where
  Begin: "range_ok pg n \<Longrightarrow> card (taken y fl) < 65535
    \<Longrightarrow> (ser \<Longrightarrow> \<forall>p. in_pages (unat pg) (unat n) p \<longrightarrow> cov y fl p = tcov y fl p)
    \<Longrightarrow> awt_begin (y_awt y) fl (y_frag y fl) pg n = Some (r, fr', a')
    \<Longrightarrow> wstep ser y (y\<lparr>y_awt := a', y_frag := (y_frag y)(fl := fr'), y_next := y_next y + 1,
          y_flight := (y_flight y)(y_next y \<mapsto>
            \<lparr>w_loc = fl, w_page = pg, w_cnt = n, w_taken = (r = SCE_SUCCESS), w_disk_done = False, w_ssd_done = False\<rparr>)\<rparr>)"
| Unaligned: "range_ok pg n \<Longrightarrow> frag_invalidate_awt (y_awt y) fl (y_frag y fl) pg n = Some (k, fr')
    \<Longrightarrow> wstep ser y (y\<lparr>y_frag := (y_frag y)(fl := fr'), y_next := y_next y + 1,
          y_flight := (y_flight y)(y_next y \<mapsto>
            \<lparr>w_loc = fl, w_page = pg, w_cnt = n, w_taken = False, w_disk_done = False, w_ssd_done = False\<rparr>)\<rparr>)"
| Disk: "y_flight y i = Some w \<Longrightarrow> \<not> w_disk_done w
    \<Longrightarrow> wstep ser y (y\<lparr>y_disk := store w i (y_disk y), y_flight := (y_flight y)(i \<mapsto> w\<lparr>w_disk_done := True\<rparr>)\<rparr>)"
| Ssd: "y_flight y i = Some w \<Longrightarrow> w_taken w \<Longrightarrow> \<not> w_ssd_done w
    \<Longrightarrow> wstep ser y (y\<lparr>y_ssd := store w i (y_ssd y), y_flight := (y_flight y)(i \<mapsto> w\<lparr>w_ssd_done := True\<rparr>)\<rparr>)"
| End: "y_flight y i = Some w \<Longrightarrow> w_taken w \<Longrightarrow> (\<not> failed \<Longrightarrow> w_disk_done w \<and> w_ssd_done w)
    \<Longrightarrow> awt_end (y_awt y) (w_loc w) (y_frag y (w_loc w)) (w_page w) (w_cnt w) failed = Some (fr', a')
    \<Longrightarrow> wstep ser y (y\<lparr>y_awt := a', y_frag := (y_frag y)(w_loc w := fr'), y_flight := (y_flight y)(i := None)\<rparr>)"
| Land: "y_flight y i = Some w \<Longrightarrow> \<not> w_taken w \<Longrightarrow> w_disk_done w
    \<Longrightarrow> wstep ser y (y\<lparr>y_flight := (y_flight y)(i := None)\<rparr>)"

text \<open>Nothing is under way, and the valid pages of every fragment agree with the disk.\<close>

definition wstart :: "wsys \<Rightarrow> bool" where
  "wstart y \<longleftrightarrow> pool_ok (y_awt y) \<and> (\<forall>i. y_flight y i = None)
     \<and> (\<forall>fl. pending_awt (y_awt y) fl = None \<and> nr_awt (y_awt y) fl = 0 \<and> awt_ok (y_awt y) fl (y_frag y fl)
        \<and> (\<forall>p < 256. awt_page (y_awt y) fl (y_frag y fl) p = Page_valid \<longrightarrow> y_disk y fl p = y_ssd y fl p))"

inductive wreach :: "bool \<Rightarrow> wsys \<Rightarrow> wsys \<Rightarrow> bool" for ser y0 where
  Start: "wreach ser y0 y0"
| Step: "wreach ser y0 y \<Longrightarrow> wstep ser y y' \<Longrightarrow> wreach ser y0 y'"

section \<open>The invariant\<close>

definition stored :: "wsys \<Rightarrow> floc \<Rightarrow> nat \<Rightarrow> nat \<Rightarrow> bool" where
  "stored y fl p i \<longleftrightarrow> (\<forall>w. y_flight y i = Some w \<longrightarrow>
     (w_disk_done w \<longrightarrow> y_disk y fl p = i) \<and> (w_ssd_done w \<longrightarrow> y_ssd y fl p = i))"

fun page_inv :: "bool \<Rightarrow> wsys \<Rightarrow> floc \<Rightarrow> nat \<Rightarrow> page \<Rightarrow> bool" where
  "page_inv ser y fl p Page_valid \<longleftrightarrow> tcov y fl p = {} \<and> (ser \<longrightarrow> cov y fl p = {} \<and> y_disk y fl p = y_ssd y fl p)"
| "page_inv ser y fl p Page_invalid \<longleftrightarrow> tcov y fl p = {}"
| "page_inv ser y fl p Page_writing \<longleftrightarrow> (\<exists>i. tcov y fl p = {i} \<and> (ser \<longrightarrow> cov y fl p = {i} \<and> stored y fl p i))"
| "page_inv ser y fl p Page_dirty \<longleftrightarrow> True"

definition winv :: "bool \<Rightarrow> wsys \<Rightarrow> bool" where
  "winv ser y \<longleftrightarrow> pool_ok (y_awt y)
     \<and> (\<forall>i w. y_flight y i = Some w \<longrightarrow> i < y_next y \<and> range_ok (w_page w) (w_cnt w))
     \<and> (\<forall>fl. awt_ok (y_awt y) fl (y_frag y fl) \<and> card (taken y fl) < 65536
          \<and> nr_awt (y_awt y) fl = of_nat (card (taken y fl))
          \<and> (pending_awt (y_awt y) fl = None \<longleftrightarrow> taken y fl = {})
          \<and> (\<forall>p < 256. page_inv ser y fl p (awt_page (y_awt y) fl (y_frag y fl) p)))"

lemma winv_parts:
  assumes "winv ser y"
  shows "pool_ok (y_awt y)" "y_flight y i = Some w \<Longrightarrow> i < y_next y"
    "y_flight y i = Some w \<Longrightarrow> range_ok (w_page w) (w_cnt w)"
    "awt_ok (y_awt y) fl (y_frag y fl)" "card (taken y fl) < 65536" "nr_awt (y_awt y) fl = of_nat (card (taken y fl))"
    "pending_awt (y_awt y) fl = None \<longleftrightarrow> taken y fl = {}"
    "p < 256 \<Longrightarrow> page_inv ser y fl p (awt_page (y_awt y) fl (y_frag y fl) p)"
  using assms unfolding winv_def by blast+

lemma finite_taken: "winv ser y \<Longrightarrow> finite (taken y fl)"
  by (rule finite_subset [of _ "{..<y_next y}"]) (auto simp: taken_def dest: winv_parts(2))

lemma winv_start: "wstart y \<Longrightarrow> winv ser y"
proof -
  assume s: "wstart y"
  then have e: "cov y fl p = {}" "tcov y fl p = {}" "taken y fl = {}" for fl p
    by (auto simp: wstart_def cov_def tcov_def taken_def)
  have "page_inv ser y fl p (awt_page (y_awt y) fl (y_frag y fl) p)" if "p < 256" for fl p
  proof -
    have "pending_awt (y_awt y) fl = None" using s by (simp add: wstart_def)
    from no_pending_pages [OF this that, of "y_frag y fl"] s that show ?thesis
      by (auto simp: e wstart_def split: if_splits)
  qed
  then show ?thesis unfolding winv_def using s by (intro conjI allI impI) (simp_all add: wstart_def e)
qed

lemma nr_awt_zero: "winv ser y \<Longrightarrow> nr_awt (y_awt y) fl = 0 \<longleftrightarrow> pending_awt (y_awt y) fl = None"
proof -
  assume inv: "winv ser y"
  have "(of_nat (card (taken y fl)) :: u16) = 0 \<longleftrightarrow> card (taken y fl) = 0"
    using winv_parts(5) [OF inv, of fl] by (simp add: unat_of_nat flip: unat_eq_zero)
  then show ?thesis using winv_parts(6,7) [OF inv] finite_taken [OF inv] by simp
qed

lemma taken_covers: "y_flight y i = Some w \<Longrightarrow> w_taken w \<Longrightarrow> covers w fl p \<Longrightarrow> i \<in> tcov y fl p"
  by (auto simp: tcov_def)

text \<open>The pages a write under way covers are being written or dirty: the condition of the last \<^verbatim>\<open>BUG_ON\<close>.\<close>

lemma taken_pages:
  assumes "winv ser y" "y_flight y i = Some w" "w_taken w" "in_pages (unat (w_page w)) (unat (w_cnt w)) q"
  shows "awt_page (y_awt y) (w_loc w) (y_frag y (w_loc w)) q = Page_writing
    \<or> awt_page (y_awt y) (w_loc w) (y_frag y (w_loc w)) q = Page_dirty"
proof -
  have q: "q < 256" using winv_parts(3) [OF assms(1,2)] assms(4) by (simp add: range_ok_def)
  have "i \<in> tcov y (w_loc w) q" by (rule taken_covers [OF assms(2,3)]) (simp add: covers_def assms(4))
  with winv_parts(8) [OF assms(1) q, of "w_loc w"] show ?thesis
    by (cases "awt_page (y_awt y) (w_loc w) (y_frag y (w_loc w)) q") auto
qed

lemma pending_taken:
  assumes "winv ser y" "y_flight y i = Some w" "w_taken w"
  shows "pending_awt (y_awt y) (w_loc w) \<noteq> None"
  using winv_parts(7) [OF assms(1), of "w_loc w"] assms(2,3) by (auto simp: taken_def)

lemma other_pages:
  "awt_frame fl a a' \<Longrightarrow> fl' \<noteq> fl \<Longrightarrow> awt_page a' fl' fr = awt_page a fl' fr"
  "awt_frame fl a a' \<Longrightarrow> fl' \<noteq> fl \<Longrightarrow> awt_ok a' fl' fr = awt_ok a fl' fr"
  by (simp_all add: awt_frame_def awt_page_def awt_ok_def)

text \<open>The sets of writes when one is added, one is removed, and one makes progress.\<close>

lemma flights_add:
  assumes "y_flight y' = (y_flight y)(i \<mapsto> w)" "y_flight y i = None"
  shows "cov y' fl p = (if covers w fl p then insert i (cov y fl p) else cov y fl p)"
    "tcov y' fl p = (if w_taken w \<and> covers w fl p then insert i (tcov y fl p) else tcov y fl p)"
    "taken y' fl = (if w_taken w \<and> w_loc w = fl then insert i (taken y fl) else taken y fl)"
  using assms by (auto simp: cov_def tcov_def taken_def)

lemma flights_remove:
  assumes "y_flight y' = (y_flight y)(i := None)"
  shows "cov y' fl p = cov y fl p - {i}" "tcov y' fl p = tcov y fl p - {i}" "taken y' fl = taken y fl - {i}"
  using assms by (auto simp: cov_def tcov_def taken_def)

lemma flights_move:
  assumes "y_flight y' = (y_flight y)(i \<mapsto> w')" "y_flight y i = Some w"
    "w_loc w' = w_loc w" "w_page w' = w_page w" "w_cnt w' = w_cnt w" "w_taken w' = w_taken w"
  shows "cov y' = cov y" "tcov y' = tcov y" "taken y' = taken y"
proof -
  have "covers w' = covers w" by (intro ext) (simp add: covers_def assms(3-5))
  then show "cov y' = cov y" "tcov y' = tcov y" "taken y' = taken y"
    using assms by (intro ext; auto simp: cov_def tcov_def taken_def)+
qed

lemma winvI:
  assumes "pool_ok (y_awt y)"
    and "\<And>i w. y_flight y i = Some w \<Longrightarrow> i < y_next y \<and> range_ok (w_page w) (w_cnt w)"
    and "\<And>fl. awt_ok (y_awt y) fl (y_frag y fl)"
    and "\<And>fl. card (taken y fl) < 65536" "\<And>fl. nr_awt (y_awt y) fl = of_nat (card (taken y fl))"
    and "\<And>fl. pending_awt (y_awt y) fl = None \<longleftrightarrow> taken y fl = {}"
    and "\<And>fl p. p < 256 \<Longrightarrow> page_inv ser y fl p (awt_page (y_awt y) fl (y_frag y fl) p)"
  shows "winv ser y"
  unfolding winv_def using assms by blast

text \<open>The condition of a page only depends on the writes that cover it and on its two contents.\<close>

lemma page_inv_cong:
  assumes "tcov y' fl p = tcov y fl p" "cov y' fl p = cov y fl p"
    "y_disk y' fl p = y_disk y fl p" "y_ssd y' fl p = y_ssd y fl p"
    "\<And>i. i \<in> cov y fl p \<Longrightarrow> y_flight y' i = y_flight y i"
  shows "page_inv ser y' fl p pg = page_inv ser y fl p pg"
proof (cases pg)
  case Page_writing
  have "stored y' fl p i = stored y fl p i" if "cov y fl p = {i}" for i
    using assms(3-5) that by (simp add: stored_def)
  then show ?thesis using assms(1,2) Page_writing by auto
qed (use assms in simp_all)

text \<open>A write whose invalidation is all the engine does: the third result is not taken.\<close>

lemma page_inval_inv:
  assumes "page_inv ser y fl p pg" "tcov y' fl p = tcov y fl p"
  shows "page_inv ser y' fl p (page_inval pg)"
  using assms by (cases pg) auto

lemma page_begin_inv:
  assumes "page_inv ser y fl p pg" "pg = Page_valid \<or> pg = Page_invalid \<Longrightarrow> tcov y' fl p = insert i (tcov y fl p)"
    "ser \<Longrightarrow> cov y fl p = tcov y fl p" "cov y' fl p = insert i (cov y fl p)"
    "\<And>w. y_flight y' i = Some w \<Longrightarrow> \<not> w_disk_done w \<and> \<not> w_ssd_done w"
  shows "page_inv ser y' fl p (page_begin pg)"
proof -
  have "stored y' fl p i" using assms(5) by (auto simp: stored_def)
  then show ?thesis using assms(1-4) by (cases pg) auto
qed

lemma winv_begin:
  assumes inv: "winv ser y" and "range_ok pg n" "card (taken y fl) < 65535"
    and ser: "ser \<Longrightarrow> \<forall>p. in_pages (unat pg) (unat n) p \<longrightarrow> cov y fl p = tcov y fl p"
    and b: "awt_begin (y_awt y) fl (y_frag y fl) pg n = Some (r, fr', a')"
    and y': "y' = y\<lparr>y_awt := a', y_frag := (y_frag y)(fl := fr'), y_next := y_next y + 1,
          y_flight := (y_flight y)(y_next y \<mapsto>
            \<lparr>w_loc = fl, w_page = pg, w_cnt = n, w_taken = (r = SCE_SUCCESS), w_disk_done = False, w_ssd_done = False\<rparr>)\<rparr>"
  shows "winv ser y'"
proof -
  have y: "y_awt y' = a'" "y_frag y' = (y_frag y)(fl := fr')" "y_next y' = y_next y + 1" "y_disk y' = y_disk y" "y_ssd y' = y_ssd y"
    "y_flight y' = (y_flight y)(y_next y \<mapsto>
       \<lparr>w_loc = fl, w_page = pg, w_cnt = n, w_taken = (r = SCE_SUCCESS), w_disk_done = False, w_ssd_done = False\<rparr>)"
    by (simp_all add: y')
  let ?i = "y_next y"
  let ?w = "\<lparr>w_loc = fl, w_page = pg, w_cnt = n, w_taken = (r = SCE_SUCCESS), w_disk_done = False, w_ssd_done = False\<rparr>"
  have rng: "0 < n" "unat pg + unat n \<le> 256" using assms(2) by (simp_all add: range_ok_def)
  have free: "y_flight y ?i = None"
    using winv_parts(2) [OF inv, of ?i] by (cases "y_flight y ?i") auto
  have fl': "y_flight y' = (y_flight y)(?i \<mapsto> ?w)" by (simp add: y)
  note sets = flights_add [OF fl' free]
  obtain r1 fr1 a1 where 1: "awt_begin (y_awt y) fl (y_frag y fl) pg n = Some (r1, fr1, a1)" "r1 = SCE_SUCCESS \<or> r1 = SCE_ERROR"
    "pool_ok a1" "awt_ok a1 fl fr1" "awt_frame fl (y_awt y) a1"
    "nr_awt a1 fl = nr_awt (y_awt y) fl + of_bool (r1 = SCE_SUCCESS)"
    "f_nr_service fr1 = f_nr_service (y_frag y fl) + of_bool (r1 = SCE_SUCCESS)"
    "pending_awt a1 fl = None \<longleftrightarrow> pending_awt (y_awt y) fl = None \<and> r1 = SCE_ERROR"
    "if pending_awt a1 fl = None
     then r1 = SCE_ERROR \<and> move_pages (unat pg) (unat n) page_inval (awt_page (y_awt y) fl (y_frag y fl)) (awt_page a1 fl fr1)
     else (r1 = SCE_SUCCESS \<longleftrightarrow> begins (awt_page (y_awt y) fl (y_frag y fl)) (unat pg) (unat n))
          \<and> move_pages (unat pg) (unat n) page_begin (awt_page (y_awt y) fl (y_frag y fl)) (awt_page a1 fl fr1)"
    "free_awtbt (y_awt y) \<noteq> None \<longrightarrow> pending_awt a1 fl \<noteq> None"
    by (rule awt_begin_eq [where fl = fl, OF winv_parts(1,4) [OF inv] rng nr_awt_zero [OF inv]])
  have "r1 = r" "fr1 = fr'" "a1 = a'" using 1(1) b by simp_all
  note a = 1(3-6,8,2,9) [unfolded this]
  have i: "?i \<notin> taken y fl" using free by (auto simp: taken_def)
  show ?thesis
  proof (rule winvI)
    show "pool_ok (y_awt y')" using a(1) by (simp add: y)
    show "j < y_next y' \<and> range_ok (w_page w) (w_cnt w)" if "y_flight y' j = Some w" for j w
      using that winv_parts(2,3) [OF inv, of j w] assms(2) by (auto simp: y split: if_splits)
    show "awt_ok (y_awt y') fl' (y_frag y' fl')" for fl'
      using a(2) winv_parts(4) [OF inv, of fl'] other_pages(2) [OF a(3), of fl'] by (cases "fl' = fl") (simp_all add: y)
    show "card (taken y' fl') < 65536" for fl'
      using winv_parts(5) [OF inv, of fl'] assms(3) i finite_taken [OF inv, of fl'] by (cases "fl' = fl") (simp_all add: sets(3))
    show "nr_awt (y_awt y') fl' = of_nat (card (taken y' fl'))" for fl'
      unfolding sets(3) using winv_parts(6) [OF inv, of fl'] a(3,4) i finite_taken [OF inv, of fl']
      by (cases "fl' = fl") (simp_all add: y awt_frame_def)
    show "pending_awt (y_awt y') fl' = None \<longleftrightarrow> taken y' fl' = {}" for fl'
      unfolding sets(3) using winv_parts(7) [OF inv, of fl'] a(3,5,6) by (cases "fl' = fl") (auto simp: y awt_frame_def)
    show "page_inv ser y' fl' p (awt_page (y_awt y') fl' (y_frag y' fl') p)" if p: "p < 256" for fl' p
    proof (cases "fl' = fl \<and> in_pages (unat pg) (unat n) p")
      case True
      let ?pg = "awt_page (y_awt y) fl (y_frag y fl) p"
      have old: "page_inv ser y fl p ?pg" using winv_parts(8) [OF inv p] .
      have c: "covers ?w fl p" using True by (simp add: covers_def)
      show ?thesis
      proof (cases "pending_awt a' fl = None")
        case none: True
        then have "awt_page a' fl fr' p = page_inval ?pg" "r = SCE_ERROR"
          using a(7) True p by (auto simp: move_pages_def)
        then show ?thesis using page_inval_inv [OF old, of y'] True by (simp add: sets(2) y)
      next
        case False
        then have m: "awt_page a' fl fr' p = page_begin ?pg"
          and beg: "r = SCE_SUCCESS \<longleftrightarrow> begins (awt_page (y_awt y) fl (y_frag y fl)) (unat pg) (unat n)"
          using a(7) True p by (auto simp: move_pages_def)
        have "page_inv ser y' fl p (page_begin ?pg)"
        proof (rule page_begin_inv [OF old, where i = ?i])
          assume "?pg = Page_valid \<or> ?pg = Page_invalid"
          then have "r = SCE_SUCCESS" using beg True unfolding begins_def by blast
          then show "tcov y' fl p = insert ?i (tcov y fl p)" using c by (simp add: sets(2))
        next
          show "cov y fl p = tcov y fl p" if ser using ser [OF that] True by blast
          show "cov y' fl p = insert ?i (cov y fl p)" using c by (simp add: sets(1))
          show "\<not> w_disk_done w \<and> \<not> w_ssd_done w" if "y_flight y' ?i = Some w" for w using that by (auto simp: y)
        qed
        then show ?thesis using True m by (simp add: y)
      qed
    next
      case False
      then have c: "\<not> covers ?w fl' p" by (auto simp: covers_def)
      have pg: "awt_page (y_awt y') fl' (y_frag y' fl') p = awt_page (y_awt y) fl' (y_frag y fl') p"
      proof (cases "fl' = fl")
        case True
        then show ?thesis using False a(7) p by (auto simp: move_pages_def y split: if_splits)
      next
        case ne: False
        then show ?thesis using other_pages(1) [OF a(3) ne] by (simp add: y)
      qed
      have "page_inv ser y' fl' p pg' = page_inv ser y fl' p pg'" for pg'
      proof (rule page_inv_cong)
        show "y_flight y' j = y_flight y j" if "j \<in> cov y fl' p" for j
          using that free by (auto simp: y cov_def)
      qed (use c in \<open>simp_all add: sets(1,2)\<close>, simp_all add: y)
      then show ?thesis using winv_parts(8) [OF inv p, of fl'] pg by simp
    qed
  qed
qed

text \<open>A fragment in which only the states of pages change.\<close>

lemma winv_unaligned:
  assumes inv: "winv ser y" and "range_ok pg n"
    and b: "frag_invalidate_awt (y_awt y) fl (y_frag y fl) pg n = Some (k, fr')"
    and y': "y' = y\<lparr>y_frag := (y_frag y)(fl := fr'), y_next := y_next y + 1,
          y_flight := (y_flight y)(y_next y \<mapsto>
            \<lparr>w_loc = fl, w_page = pg, w_cnt = n, w_taken = False, w_disk_done = False, w_ssd_done = False\<rparr>)\<rparr>"
  shows "winv ser y'"
proof -
  have y: "y_awt y' = y_awt y" "y_frag y' = (y_frag y)(fl := fr')" "y_next y' = y_next y + 1" "y_disk y' = y_disk y" "y_ssd y' = y_ssd y"
    "y_flight y' = (y_flight y)(y_next y \<mapsto>
       \<lparr>w_loc = fl, w_page = pg, w_cnt = n, w_taken = False, w_disk_done = False, w_ssd_done = False\<rparr>)"
    by (simp_all add: y')
  let ?i = "y_next y"
  let ?w = "\<lparr>w_loc = fl, w_page = pg, w_cnt = n, w_taken = False, w_disk_done = False, w_ssd_done = False\<rparr>"
  have rng: "0 < n" "unat pg + unat n \<le> 256" using assms(2) by (simp_all add: range_ok_def)
  have free: "y_flight y ?i = None"
    using winv_parts(2) [OF inv, of ?i] by (cases "y_flight y ?i") auto
  have fl': "y_flight y' = (y_flight y)(?i \<mapsto> ?w)" by (simp add: y)
  note sets = flights_add [OF fl' free, simplified]
  obtain fr1 where 1: "frag_invalidate_awt (y_awt y) fl (y_frag y fl) pg n
      = Some (int (card {q. in_pages (unat pg) (unat n) q \<and> awt_page (y_awt y) fl (y_frag y fl) q = Page_valid}), fr1)"
    "awt_ok (y_awt y) fl fr1"
    "move_pages (unat pg) (unat n) page_inval (awt_page (y_awt y) fl (y_frag y fl)) (awt_page (y_awt y) fl fr1)"
    by (rule frag_invalidate_awt_eq [OF winv_parts(1,4) [OF inv] rng]) blast
  have "fr1 = fr'" using 1(1) b by simp
  note a = 1(2,3) [unfolded this]
  show ?thesis
  proof (rule winvI)
    show "pool_ok (y_awt y')" using winv_parts(1) [OF inv] by (simp add: y)
    show "j < y_next y' \<and> range_ok (w_page w) (w_cnt w)" if "y_flight y' j = Some w" for j w
      using that winv_parts(2,3) [OF inv, of j w] assms(2) by (auto simp: y split: if_splits)
    show "awt_ok (y_awt y') fl' (y_frag y' fl')" for fl'
      using a(1) winv_parts(4) [OF inv, of fl'] by (cases "fl' = fl") (simp_all add: y)
    show "card (taken y' fl') < 65536" for fl' using winv_parts(5) [OF inv] by (simp add: sets(3))
    show "nr_awt (y_awt y') fl' = of_nat (card (taken y' fl'))" for fl'
      using winv_parts(6) [OF inv] by (simp only: sets(3)) (simp add: y)
    show "pending_awt (y_awt y') fl' = None \<longleftrightarrow> taken y' fl' = {}" for fl'
      using winv_parts(7) [OF inv] by (simp only: sets(3)) (simp add: y)
    show "page_inv ser y' fl' p (awt_page (y_awt y') fl' (y_frag y' fl') p)" if p: "p < 256" for fl' p
    proof (cases "fl' = fl \<and> in_pages (unat pg) (unat n) p")
      case True
      then have "awt_page (y_awt y') fl' (y_frag y' fl') p = page_inval (awt_page (y_awt y) fl (y_frag y fl) p)"
        using a(2) p by (simp add: move_pages_def y)
      then show ?thesis
        using page_inval_inv [OF winv_parts(8) [OF inv p, of fl], of y'] True by (simp add: sets(2))
    next
      case False
      then have c: "\<not> covers ?w fl' p" by (auto simp: covers_def)
      have pg: "awt_page (y_awt y') fl' (y_frag y' fl') p = awt_page (y_awt y) fl' (y_frag y fl') p"
        using False a(2) p by (cases "fl' = fl") (auto simp: move_pages_def y)
      have "page_inv ser y' fl' p pg' = page_inv ser y fl' p pg'" for pg'
      proof (rule page_inv_cong)
        show "y_flight y' j = y_flight y j" if "j \<in> cov y fl' p" for j
          using that free by (auto simp: y cov_def)
      qed (use c in \<open>simp_all add: sets(1,2)\<close>, simp_all add: y)
      then show ?thesis using winv_parts(8) [OF inv p, of fl'] pg by simp
    qed
  qed
qed

text \<open>A transfer stores the number of its write in the pages it covers.\<close>

lemma winv_transfer:
  assumes inv: "winv ser y" and w: "y_flight y i = Some w"
    and y': "y' = y\<lparr>y_disk := (if dk then store w i (y_disk y) else y_disk y),
        y_ssd := (if dk then y_ssd y else store w i (y_ssd y)), y_flight := (y_flight y)(i \<mapsto> w')\<rparr>"
    and dk: "dk \<longrightarrow> w' = w\<lparr>w_disk_done := True\<rparr>" "\<not> dk \<longrightarrow> w_taken w \<and> w' = w\<lparr>w_ssd_done := True\<rparr>"
  shows "winv ser y'"
proof -
  have fl': "y_flight y' = (y_flight y)(i \<mapsto> w')" by (simp add: y')
  have same: "w_loc w' = w_loc w" "w_page w' = w_page w" "w_cnt w' = w_cnt w" "w_taken w' = w_taken w"
    using dk by (cases dk; simp)+
  note sets = flights_move [OF fl' w same]
  have keep: "y_awt y' = y_awt y" "y_frag y' = y_frag y" "y_next y' = y_next y" by (simp_all add: y')
  show ?thesis
  proof (rule winvI)
    show "j < y_next y' \<and> range_ok (w_page v) (w_cnt v)" if "y_flight y' j = Some v" for j v
      using that winv_parts(2,3) [OF inv, of j] w same by (auto simp: y' split: if_splits)
    show "page_inv ser y' fl p (awt_page (y_awt y') fl (y_frag y' fl) p)" if p: "p < 256" for fl p
    proof (cases "i \<in> cov y fl p")
      case False
      then have nc: "\<not> covers w fl p" using w by (auto simp: cov_def)
      have "page_inv ser y' fl p pg = page_inv ser y fl p pg" for pg
      proof (rule page_inv_cong)
        show "y_flight y' j = y_flight y j" if "j \<in> cov y fl p" for j using that False by (auto simp: y')
        show "y_disk y' fl p = y_disk y fl p" "y_ssd y' fl p = y_ssd y fl p"
          using nc by (simp_all add: y' store_def)
      qed (simp_all add: sets(1,2))
      then show ?thesis using winv_parts(8) [OF inv p, of fl] keep by simp
    next
      case True
      then have c: "covers w fl p" using w by (auto simp: cov_def)
      have st: "stored y' fl p i" if "stored y fl p i"
        using that w dk c by (cases dk) (auto simp: stored_def y' store_def)
      show ?thesis
      proof (cases "awt_page (y_awt y) fl (y_frag y fl) p")
        case Page_writing
        then obtain k where k: "tcov y fl p = {k}" "ser \<Longrightarrow> cov y fl p = {k} \<and> stored y fl p k"
          using winv_parts(8) [OF inv p, of fl] by auto
        have "cov y' fl p = {k} \<and> stored y' fl p k" if ser using k(2) [OF that] True st by (simp add: sets(1))
        then show ?thesis using Page_writing k(1) keep by (simp add: sets(2))
      qed (use winv_parts(8) [OF inv p, of fl] True keep sets(1,2) in auto)
    qed
  qed (use winv_parts [OF inv] keep sets(3) in simp_all)
qed

lemma winv_land:
  assumes inv: "winv ser y" and w: "y_flight y i = Some w" "\<not> w_taken w"
    and y': "y' = y\<lparr>y_flight := (y_flight y)(i := None)\<rparr>"
  shows "winv ser y'"
proof -
  have fl': "y_flight y' = (y_flight y)(i := None)" by (simp add: y')
  note sets = flights_remove [OF fl']
  have ni: "i \<notin> tcov y fl p" "i \<notin> taken y fl" for fl p using w by (auto simp: tcov_def taken_def)
  have keep: "y_awt y' = y_awt y" "y_frag y' = y_frag y" "y_next y' = y_next y" "y_disk y' = y_disk y" "y_ssd y' = y_ssd y"
    by (simp_all add: y')
  show ?thesis
  proof (rule winvI)
    show "j < y_next y' \<and> range_ok (w_page v) (w_cnt v)" if "y_flight y' j = Some v" for j v
      using that winv_parts(2,3) [OF inv, of j] by (auto simp: y' split: if_splits)
    show "page_inv ser y' fl p (awt_page (y_awt y') fl (y_frag y' fl) p)" if p: "p < 256" for fl p
    proof (cases "awt_page (y_awt y) fl (y_frag y fl) p")
      case Page_writing
      then obtain k where k: "tcov y fl p = {k}" "ser \<Longrightarrow> cov y fl p = {k} \<and> stored y fl p k"
        using winv_parts(8) [OF inv p, of fl] by auto
      then have "k \<noteq> i" using ni(1) [of fl p] by auto
      have "cov y' fl p = {k} \<and> stored y' fl p k" if ser
      proof
        show "cov y' fl p = {k}" unfolding sets(1) using k(2) [OF that] \<open>k \<noteq> i\<close> by auto
        show "stored y' fl p k" using k(2) [OF that] by (simp add: stored_def y')
      qed
      then show ?thesis using Page_writing k(1) \<open>k \<noteq> i\<close> keep by (simp add: sets(2))
    qed (use winv_parts(8) [OF inv p, of fl] keep sets(1,2) in auto)
  qed (use winv_parts [OF inv] keep sets(3) ni(2) in simp_all)
qed

text \<open>The end of a write: its pages, and then the merge when it is the last one.\<close>

lemma page_end_inv:
  assumes "page_inv ser y fl p pg" "i \<in> tcov y fl p" "y_flight y i = Some w"
    "\<not> failed \<Longrightarrow> w_disk_done w \<and> w_ssd_done w"
    "tcov y' fl p = tcov y fl p - {i}" "cov y' fl p = cov y fl p - {i}"
    "y_disk y' = y_disk y" "y_ssd y' = y_ssd y"
  shows "page_inv ser y' fl p (page_end failed pg)"
proof (cases pg)
  case Page_writing
  then have "tcov y fl p = {i}" "ser \<longrightarrow> cov y fl p = {i} \<and> stored y fl p i" using assms(1,2) by auto
  then show ?thesis
    using Page_writing assms(3-8) by (cases failed) (auto simp: stored_def)
qed (use assms(1,2) in auto)

lemma page_merge_inv:
  assumes "page_inv ser y fl p pg" "tcov y fl p = {}" shows "page_inv ser y fl p (page_merge pg)"
  using assms by (cases pg) auto

lemma winv_end:
  assumes inv: "winv ser y" and w: "y_flight y i = Some w" "w_taken w"
    and okd: "\<not> failed \<Longrightarrow> w_disk_done w \<and> w_ssd_done w"
    and e: "awt_end (y_awt y) (w_loc w) (y_frag y (w_loc w)) (w_page w) (w_cnt w) failed = Some (fr', a')"
    and y': "y' = y\<lparr>y_awt := a', y_frag := (y_frag y)(w_loc w := fr'), y_flight := (y_flight y)(i := None)\<rparr>"
  shows "winv ser y'"
proof -
  define fl where "fl = w_loc w"
  have y: "y_awt y' = a'" "y_frag y' = (y_frag y)(fl := fr')" "y_next y' = y_next y" "y_disk y' = y_disk y" "y_ssd y' = y_ssd y"
    "y_flight y' = (y_flight y)(i := None)"
    by (simp_all add: y' fl_def)
  note sets = flights_remove [OF y(6)]
  have rng: "0 < w_cnt w" "unat (w_page w) + unat (w_cnt w) \<le> 256"
    using winv_parts(3) [OF inv w(1)] by (simp_all add: range_ok_def)
  obtain P fr1 a1 where 1: "awt_end (y_awt y) fl (y_frag y fl) (w_page w) (w_cnt w) failed = Some (fr1, a1)"
    "pool_ok a1" "awt_ok a1 fl fr1" "awt_frame fl (y_awt y) a1" "nr_awt a1 fl = nr_awt (y_awt y) fl - 1"
    "f_nr_service fr1 = f_nr_service (y_frag y fl) - 1"
    "pending_awt a1 fl = (if nr_awt (y_awt y) fl = 1 then None else pending_awt (y_awt y) fl)"
    "move_pages (unat (w_page w)) (unat (w_cnt w)) (page_end failed) (awt_page (y_awt y) fl (y_frag y fl)) P"
    "if nr_awt (y_awt y) fl = 1 then move_pages 0 256 page_merge P (awt_page a1 fl fr1) else P = awt_page a1 fl fr1"
    unfolding fl_def
    by (rule awt_end_eq [OF winv_parts(1,4) [OF inv] rng pending_taken [OF inv w], of failed])
      (use taken_pages [OF inv w] in blast)+
  have "fr1 = fr'" "a1 = a'" using 1(1) e by (simp_all add: fl_def)
  note a = 1(2-5,7-9) [unfolded this]
  have it: "i \<in> taken y fl" using w by (auto simp: taken_def fl_def)
  have ni: "i \<notin> taken y fl'" if "fl' \<noteq> fl" for fl' using that w by (auto simp: taken_def fl_def)
  have cpos: "0 < card (taken y fl)" using it finite_taken [OF inv, of fl] by (simp add: card_gt_0_iff) blast
  have cdiff: "card (taken y fl - {i}) = card (taken y fl) - 1" using it by simp
  have one: "nr_awt (y_awt y) fl = 1 \<longleftrightarrow> taken y fl = {i}"
  proof -
    have "unat (of_nat (card (taken y fl)) :: u16) = card (taken y fl)"
      using winv_parts(5) [OF inv, of fl] by (simp add: unat_of_nat)
    then have "nr_awt (y_awt y) fl = 1 \<longleftrightarrow> card (taken y fl) = 1"
      using winv_parts(6) [OF inv, of fl] by (metis unat_1 word_unat_eq_iff)
    then show ?thesis using it by (auto simp: card_1_singleton_iff)
  qed
  show ?thesis
  proof (rule winvI)
    show "pool_ok (y_awt y')" using a(1) by (simp add: y)
    show "j < y_next y' \<and> range_ok (w_page v) (w_cnt v)" if "y_flight y' j = Some v" for j v
      using that winv_parts(2,3) [OF inv, of j v] by (auto simp: y split: if_splits)
    show "awt_ok (y_awt y') fl' (y_frag y' fl')" for fl'
      using a(2) winv_parts(4) [OF inv, of fl'] other_pages(2) [OF a(3), of fl'] by (cases "fl' = fl") (simp_all add: y)
    show "card (taken y' fl') < 65536" for fl'
      using winv_parts(5) [OF inv, of fl'] card_mono [OF finite_taken [OF inv, of fl'], of "taken y fl' - {i}"]
      unfolding sets(3) by simp
    show "nr_awt (y_awt y') fl' = of_nat (card (taken y' fl'))" for fl'
      unfolding sets(3) using winv_parts(6) [OF inv, of fl'] a(3,4) cdiff cpos ni [of fl']
      by (cases "fl' = fl") (simp_all add: y awt_frame_def of_nat_diff)
    show "pending_awt (y_awt y') fl' = None \<longleftrightarrow> taken y' fl' = {}" for fl'
    proof (cases "fl' = fl")
      case True
      then show ?thesis
        unfolding sets(3) using winv_parts(7) [OF inv, of fl] a(5) one it by (auto simp: y split: if_splits)
    next
      case False
      then show ?thesis
        unfolding sets(3) using winv_parts(7) [OF inv, of fl'] a(3) ni [OF False] by (simp add: y awt_frame_def)
    qed
    show "page_inv ser y' fl' p (awt_page (y_awt y') fl' (y_frag y' fl') p)" if p: "p < 256" for fl' p
    proof (cases "fl' = fl")
      case False
      then have "i \<notin> cov y fl' p" using w by (auto simp: cov_def covers_def fl_def)
      moreover have "tcov y fl' p \<subseteq> cov y fl' p" by (auto simp: cov_def tcov_def)
      ultimately have "page_inv ser y' fl' p pg = page_inv ser y fl' p pg" for pg
        by (intro page_inv_cong) (auto simp: sets(1,2) y)
      then show ?thesis
        using winv_parts(8) [OF inv p, of fl'] other_pages(1) [OF a(3) False] False by (simp add: y)
    next
      case True
      have old: "page_inv ser y fl p (awt_page (y_awt y) fl (y_frag y fl) p)" by (rule winv_parts(8) [OF inv p])
      have P: "page_inv ser y' fl p (P p)"
      proof (cases "in_pages (unat (w_page w)) (unat (w_cnt w)) p")
        case True
        then have "i \<in> tcov y fl p" using w by (auto simp: tcov_def covers_def fl_def)
        from page_end_inv [OF old this w(1) okd sets(2,1) y(4,5)] show ?thesis
          using a(6) True p by (simp add: move_pages_def)
      next
        case False
        then have "i \<notin> cov y fl p" using w by (auto simp: cov_def covers_def fl_def)
        moreover have "tcov y fl p \<subseteq> cov y fl p" by (auto simp: cov_def tcov_def)
        ultimately have "page_inv ser y' fl p pg = page_inv ser y fl p pg" for pg
          by (intro page_inv_cong) (auto simp: sets(1,2) y)
        moreover have "P p = awt_page (y_awt y) fl (y_frag y fl) p" using a(6) False p unfolding move_pages_def by metis
        ultimately show ?thesis using old by simp
      qed
      show ?thesis
      proof (cases "taken y fl = {i}")
        case last: True
        have "tcov y' fl p = {}" using last unfolding sets(2) by (auto simp: tcov_def taken_def covers_def)
        from page_merge_inv [OF P this] show ?thesis
          using a(7) one last p True by (simp add: move_pages_def y)
      next
        case False
        then show ?thesis using P a(7) one True by (simp add: y)
      qed
    qed
  qed
qed

lemma winv_step: "wstep ser y y' \<Longrightarrow> winv ser y \<Longrightarrow> winv ser y'"
proof (induction rule: wstep.induct)
  case (Begin pg n y fl r fr' a')
  show ?case by (rule winv_begin [OF Begin.prems Begin.hyps(1,2) Begin.hyps(3) Begin.hyps(4) refl])
next
  case (Unaligned pg n y fl k fr')
  show ?case by (rule winv_unaligned [OF Unaligned.prems Unaligned.hyps refl])
next
  case (Disk y i w)
  show ?case by (rule winv_transfer [where dk = True and w' = "w\<lparr>w_disk_done := True\<rparr>", OF Disk.prems Disk.hyps(1)]) simp_all
next
  case (Ssd y i w)
  show ?case by (rule winv_transfer [where dk = False and w' = "w\<lparr>w_ssd_done := True\<rparr>", OF Ssd.prems Ssd.hyps(1)]) (simp_all add: Ssd.hyps)
next
  case (End y i w failed fr' a')
  show ?case by (rule winv_end [OF End.prems End.hyps(1,2) End.hyps(3) End.hyps(4) refl])
next
  case (Land y i w)
  show ?case by (rule winv_land [OF Land.prems Land.hyps(1,2) refl])
qed

lemma winv_reach: "wreach ser y0 y \<Longrightarrow> wstart y0 \<Longrightarrow> winv ser y"
  by (induction rule: wreach.induct) (auto intro: winv_start winv_step)

section \<open>A write that meets no other\<close>

lemma wreach_trans: "wreach ser y1 y2 \<Longrightarrow> wreach ser y0 y1 \<Longrightarrow> wreach ser y0 y2"
  by (induction rule: wreach.induct) (auto intro: wreach.Step)

lemma write_run:
  assumes inv: "winv ser y" and idle: "taken y fl = {}" and buf: "free_awtbt (y_awt y) \<noteq> None" and rng: "range_ok pg n"
    and ser: "ser \<Longrightarrow> \<forall>p. in_pages (unat pg) (unat n) p \<longrightarrow> cov y fl p = {}"
  obtains y' where "wreach ser y y'" "y_flight y' = y_flight y"
    "\<And>fl' p. y_disk y' fl' p = (if fl' = fl \<and> in_pages (unat pg) (unat n) p then y_next y else y_disk y fl' p)"
    "\<And>fl' p. y_ssd y' fl' p = (if fl' = fl \<and> in_pages (unat pg) (unat n) p then y_next y else y_ssd y fl' p)"
    "\<And>p. in_pages (unat pg) (unat n) p \<Longrightarrow> awt_page (y_awt y') fl (y_frag y' fl) p = Page_valid"
proof -
  let ?i = "y_next y"
  have r: "0 < n" "unat pg + unat n \<le> 256" using rng by (simp_all add: range_ok_def)
  have none: "pending_awt (y_awt y) fl = None" using winv_parts(7) [OF inv] idle by simp
  have nr: "nr_awt (y_awt y) fl = 0" using winv_parts(6) [OF inv, of fl] idle by simp
  have free: "y_flight y ?i = None"
    using winv_parts(2) [OF inv, of ?i] by (cases "y_flight y ?i") auto
  have tc: "tcov y fl p = {}" for p using idle by (auto simp: tcov_def taken_def covers_def)
  obtain r1 fr1 a1 where b: "awt_begin (y_awt y) fl (y_frag y fl) pg n = Some (r1, fr1, a1)" "r1 = SCE_SUCCESS \<or> r1 = SCE_ERROR"
    "pool_ok a1" "awt_ok a1 fl fr1" "awt_frame fl (y_awt y) a1"
    "nr_awt a1 fl = nr_awt (y_awt y) fl + of_bool (r1 = SCE_SUCCESS)"
    "f_nr_service fr1 = f_nr_service (y_frag y fl) + of_bool (r1 = SCE_SUCCESS)"
    "pending_awt a1 fl = None \<longleftrightarrow> pending_awt (y_awt y) fl = None \<and> r1 = SCE_ERROR"
    "if pending_awt a1 fl = None
     then r1 = SCE_ERROR \<and> move_pages (unat pg) (unat n) page_inval (awt_page (y_awt y) fl (y_frag y fl)) (awt_page a1 fl fr1)
     else (r1 = SCE_SUCCESS \<longleftrightarrow> begins (awt_page (y_awt y) fl (y_frag y fl)) (unat pg) (unat n))
          \<and> move_pages (unat pg) (unat n) page_begin (awt_page (y_awt y) fl (y_frag y fl)) (awt_page a1 fl fr1)"
    "free_awtbt (y_awt y) \<noteq> None \<longrightarrow> pending_awt a1 fl \<noteq> None"
    by (rule awt_begin_eq [where fl = fl, OF winv_parts(1,4) [OF inv] r nr_awt_zero [OF inv]])
  have s: "r1 = SCE_SUCCESS" "pending_awt a1 fl \<noteq> None" using b(2,8,10) buf none by auto
  have writing: "awt_page a1 fl fr1 p = Page_writing" if "in_pages (unat pg) (unat n) p" for p
    using b(9) s(2) that r(2) no_pending_pages [OF none, of p "y_frag y fl"] by (auto simp: move_pages_def)
  let ?w = "\<lparr>w_loc = fl, w_page = pg, w_cnt = n, w_taken = True, w_disk_done = False, w_ssd_done = False\<rparr>"
  define y1 where "y1 = y\<lparr>y_awt := a1, y_frag := (y_frag y)(fl := fr1), y_next := ?i + 1, y_flight := (y_flight y)(?i \<mapsto> ?w)\<rparr>"
  define y2 where "y2 = y1\<lparr>y_disk := store ?w ?i (y_disk y1), y_flight := (y_flight y1)(?i \<mapsto> ?w\<lparr>w_disk_done := True\<rparr>)\<rparr>"
  define w2 where "w2 = ?w\<lparr>w_disk_done := True\<rparr>"
  define y3 where "y3 = y2\<lparr>y_ssd := store w2 ?i (y_ssd y2), y_flight := (y_flight y2)(?i \<mapsto> w2\<lparr>w_ssd_done := True\<rparr>)\<rparr>"
  define w3 where "w3 = w2\<lparr>w_ssd_done := True\<rparr>"
  have 1: "wstep ser y y1"
    using wstep.Begin [where ser = ser, OF rng _ _ b(1)] idle ser tc s(1) by (simp add: y1_def)
  have 2: "wstep ser y1 y2" unfolding y2_def by (rule wstep.Disk) (simp_all add: y1_def)
  have 3: "wstep ser y2 y3" unfolding y3_def by (rule wstep.Ssd) (simp_all add: y2_def w2_def)
  have f3: "y_flight y3 = (y_flight y)(?i \<mapsto> w3)" "y_awt y3 = a1" "y_frag y3 = (y_frag y)(fl := fr1)"
    by (simp_all add: y3_def y2_def y1_def w3_def)
  obtain P fr4 a4 where e: "awt_end a1 fl fr1 pg n False = Some (fr4, a4)"
    "pool_ok a4" "awt_ok a4 fl fr4" "awt_frame fl a1 a4" "nr_awt a4 fl = nr_awt a1 fl - 1"
    "f_nr_service fr4 = f_nr_service fr1 - 1"
    "pending_awt a4 fl = (if nr_awt a1 fl = 1 then None else pending_awt a1 fl)"
    "move_pages (unat pg) (unat n) (page_end False) (awt_page a1 fl fr1) P"
    "if nr_awt a1 fl = 1 then move_pages 0 256 page_merge P (awt_page a4 fl fr4) else P = awt_page a4 fl fr4"
    by (rule awt_end_eq [OF b(3,4) r s(2), of False]) (use writing in blast)+
  define y4 where "y4 = y3\<lparr>y_awt := a4, y_frag := (y_frag y3)(fl := fr4), y_flight := (y_flight y3)(?i := None)\<rparr>"
  have w3: "w_loc w3 = fl" "w_page w3 = pg" "w_cnt w3 = n" "w_taken w3" "w_disk_done w3" "w_ssd_done w3"
    by (simp_all add: w3_def w2_def)
  have 4: "wstep ser y3 y4"
    using wstep.End [where ser = ser and y = y3 and i = ?i and w = w3 and failed = False and fr' = fr4 and a' = a4] e(1) f3 w3
    by (simp add: y4_def)
  show ?thesis
  proof (rule that)
    show "wreach ser y y4" by (rule wreach.Step [OF wreach.Step [OF wreach.Step [OF wreach.Step [OF wreach.Start 1] 2] 3] 4])
    show "y_flight y4 = y_flight y" using free by (simp add: y4_def f3 fun_upd_idem)
    show "y_disk y4 fl' p = (if fl' = fl \<and> in_pages (unat pg) (unat n) p then ?i else y_disk y fl' p)" for fl' p
      by (auto simp: y4_def y3_def y2_def y1_def store_def covers_def)
    show "y_ssd y4 fl' p = (if fl' = fl \<and> in_pages (unat pg) (unat n) p then ?i else y_ssd y fl' p)" for fl' p
      by (auto simp: y4_def y3_def y2_def y1_def store_def covers_def w2_def)
    show "awt_page (y_awt y4) fl (y_frag y4 fl) p = Page_valid" if "in_pages (unat pg) (unat n) p" for p
    proof -
      have "p < 256" using that r(2) by simp
      have "nr_awt a1 fl = 1" using b(6) nr s(1) by simp
      moreover have "P p = Page_valid" using e(8) writing [OF that] \<open>p < 256\<close> that by (auto simp: move_pages_def)
      ultimately have "awt_page a4 fl fr4 p = Page_valid" using e(9) \<open>p < 256\<close> by (auto simp: move_pages_def)
      then show ?thesis by (simp add: y4_def)
    qed
  qed
qed

text \<open>An engine that has just been created, with every fragment valid.\<close>

definition wsys0 :: wsys where
  "wsys0 = \<lparr>y_awt = awt_create, y_frag = \<lambda>_. frag_init frag_zero, y_disk = \<lambda>_ _. 0, y_ssd = \<lambda>_ _. 0,
     y_flight = \<lambda>_. None, y_next = 1\<rparr>"

lemma free_wsys0: "free_awtbt (y_awt wsys0) \<noteq> None"
  by (simp only: wsys0_def wsys.select_convs awt_create_simps(3)) simp

lemma wstart_wsys0: "wstart wsys0"
proof -
  have p: "awt_page awt_create fl (frag_init frag_zero) p = Page_valid" if "p < 256" for fl p
    using no_pending_pages [of awt_create fl p] page_valid_init [OF that] that by (simp add: page_valid_def)
  have "{p. p < 256 \<and> awt_page awt_create fl (frag_init frag_zero) p = Page_valid} = {..<256}" for fl
    using p [of _ fl] by auto
  then have "awt_ok awt_create fl (frag_init frag_zero)" for fl
    by (simp add: awt_ok_def frag_init_def)
  then show ?thesis by (simp add: wstart_def wsys0_def pool_ok_create)
qed

text \<open>
  A write that has reached the disk but not the SSD: if it is ended as if nothing had failed, its page
  is valid with the old content.
\<close>

lemma half_write:
  obtains y w fr' a' where "wreach True wsys0 y" "y_flight y 1 = Some w" "w_disk_done w" "\<not> w_ssd_done w"
    "awt_end (y_awt y) (w_loc w) (y_frag y (w_loc w)) (w_page w) (w_cnt w) False = Some (fr', a')"
    "frag_isvalid_awt a' (w_loc w) fr' (w_page w) (w_cnt w) = Some SCE_SUCCESS"
    "y_ssd y (w_loc w) (unat (w_page w)) \<noteq> y_disk y (w_loc w) (unat (w_page w))"
proof -
  let ?l = "(0, 0) :: floc"
  have inv: "winv True wsys0" by (rule winv_start [OF wstart_wsys0])
  have rng: "range_ok 0 1" by (simp add: range_ok_def)
  have r: "(0 :: u32) < 1" "unat (0 :: u32) + unat (1 :: u32) \<le> 256" by simp_all
  have sets: "taken wsys0 ?l = {}" "cov wsys0 ?l p = {}" "tcov wsys0 ?l p = {}" for p
    by (simp_all add: taken_def cov_def tcov_def wsys0_def)
  have none: "pending_awt (y_awt wsys0) ?l = None" "nr_awt (y_awt wsys0) ?l = 0" by (simp_all add: wsys0_def)
  obtain r1 fr1 a1 where b: "awt_begin (y_awt wsys0) ?l (y_frag wsys0 ?l) 0 1 = Some (r1, fr1, a1)" "r1 = SCE_SUCCESS \<or> r1 = SCE_ERROR"
    "pool_ok a1" "awt_ok a1 ?l fr1" "awt_frame ?l (y_awt wsys0) a1"
    "nr_awt a1 ?l = nr_awt (y_awt wsys0) ?l + of_bool (r1 = SCE_SUCCESS)"
    "f_nr_service fr1 = f_nr_service (y_frag wsys0 ?l) + of_bool (r1 = SCE_SUCCESS)"
    "pending_awt a1 ?l = None \<longleftrightarrow> pending_awt (y_awt wsys0) ?l = None \<and> r1 = SCE_ERROR"
    "if pending_awt a1 ?l = None
     then r1 = SCE_ERROR \<and> move_pages (unat (0 :: u32)) (unat (1 :: u32)) page_inval (awt_page (y_awt wsys0) ?l (y_frag wsys0 ?l)) (awt_page a1 ?l fr1)
     else (r1 = SCE_SUCCESS \<longleftrightarrow> begins (awt_page (y_awt wsys0) ?l (y_frag wsys0 ?l)) (unat (0 :: u32)) (unat (1 :: u32)))
          \<and> move_pages (unat (0 :: u32)) (unat (1 :: u32)) page_begin (awt_page (y_awt wsys0) ?l (y_frag wsys0 ?l)) (awt_page a1 ?l fr1)"
    "free_awtbt (y_awt wsys0) \<noteq> None \<longrightarrow> pending_awt a1 ?l \<noteq> None"
    by (rule awt_begin_eq [where fl = ?l, OF winv_parts(1,4) [OF inv] r nr_awt_zero [OF inv]])
  have s: "r1 = SCE_SUCCESS" "pending_awt a1 ?l \<noteq> None" "nr_awt a1 ?l = 1"
    using b(2,6,8,10) free_wsys0 none by auto
  let ?w = "\<lparr>w_loc = ?l, w_page = 0, w_cnt = 1, w_taken = True, w_disk_done = False, w_ssd_done = False\<rparr>"
  define y1 where "y1 = wsys0\<lparr>y_awt := a1, y_frag := (y_frag wsys0)(?l := fr1), y_next := y_next wsys0 + 1,
    y_flight := (y_flight wsys0)(y_next wsys0 \<mapsto> ?w)\<rparr>"
  define y2 where "y2 = y1\<lparr>y_disk := store ?w 1 (y_disk y1), y_flight := (y_flight y1)(1 \<mapsto> ?w\<lparr>w_disk_done := True\<rparr>)\<rparr>"
  have 1: "wstep True wsys0 y1"
    using wstep.Begin [where ser = True, OF rng _ _ b(1)] sets s(1) by (simp add: y1_def)
  have 2: "wstep True y1 y2" unfolding y2_def by (rule wstep.Disk) (simp_all add: y1_def wsys0_def)
  have writing: "awt_page a1 ?l fr1 0 = Page_writing"
    using b(9) s(2) no_pending_pages [OF none(1), of 0 "y_frag wsys0 ?l"] by (auto simp: move_pages_def)
  obtain P fr2 a2 where e: "awt_end a1 ?l fr1 0 1 False = Some (fr2, a2)"
    "pool_ok a2" "awt_ok a2 ?l fr2" "awt_frame ?l a1 a2" "nr_awt a2 ?l = nr_awt a1 ?l - 1"
    "f_nr_service fr2 = f_nr_service fr1 - 1"
    "pending_awt a2 ?l = (if nr_awt a1 ?l = 1 then None else pending_awt a1 ?l)"
    "move_pages (unat (0 :: u32)) (unat (1 :: u32)) (page_end False) (awt_page a1 ?l fr1) P"
    "if nr_awt a1 ?l = 1 then move_pages 0 256 page_merge P (awt_page a2 ?l fr2) else P = awt_page a2 ?l fr2"
    by (rule awt_end_eq [OF b(3,4) r s(2), of False]) (use writing in auto)
  have "awt_page a2 ?l fr2 0 = Page_valid" using e(8,9) s(3) writing by (auto simp: move_pages_def)
  then have valid: "frag_isvalid_awt a2 ?l fr2 0 1 = Some SCE_SUCCESS"
    by (simp add: frag_isvalid_awt_eq [OF e(2,3) r])
  show ?thesis
  proof (rule that [of y2 "?w\<lparr>w_disk_done := True\<rparr>" fr2 a2])
    show "wreach True wsys0 y2" by (rule wreach.Step [OF wreach.Step [OF wreach.Start 1] 2])
  qed (use e(1) valid in \<open>simp_all add: y2_def y1_def wsys0_def store_def covers_def\<close>)
qed

section \<open>Properties\<close>



text \<open>
  Without that assumption the pages go stale. A write that is not aligned to pages only
  invalidates the pages of its range when it is submitted; when another write to them begins and ends
  before it reaches the disk, they are valid again and stay so while the disk changes.
\<close>

theorem awt_late_write_stale:
  "\<exists>y. wreach False wsys0 y \<and> frag_isvalid_awt (y_awt y) (0, 0) (y_frag y (0, 0)) 0 1 = Some SCE_SUCCESS
     \<and> y_ssd y (0, 0) 0 \<noteq> y_disk y (0, 0) 0"
proof -
  let ?l = "(0, 0) :: floc"
  have start: "winv False wsys0" by (rule winv_start [OF wstart_wsys0])
  have rng: "range_ok 0 1" by (simp add: range_ok_def)
  have r: "(0 :: u32) < 1" "unat (0 :: u32) + unat (1 :: u32) \<le> 256" by simp_all
  obtain k fr' where i: "frag_invalidate_awt (y_awt wsys0) ?l (y_frag wsys0 ?l) 0 1 = Some (k, fr')"
    by (rule frag_invalidate_awt_eq [OF winv_parts(1,4) [OF start] r]) blast
  let ?w = "\<lparr>w_loc = ?l, w_page = 0, w_cnt = 1, w_taken = False, w_disk_done = False, w_ssd_done = False\<rparr>"
  define y1 where "y1 = wsys0\<lparr>y_frag := (y_frag wsys0)(?l := fr'), y_next := y_next wsys0 + 1,
    y_flight := (y_flight wsys0)(y_next wsys0 \<mapsto> ?w)\<rparr>"
  have 1: "wstep False wsys0 y1" unfolding y1_def by (rule wstep.Unaligned [OF rng i])
  have inv1: "winv False y1" by (rule winv_step [OF 1 start])
  have t1: "taken y1 ?l = {}" by (auto simp: taken_def y1_def wsys0_def split: if_splits)
  obtain y2 where 2: "wreach False y1 y2" "y_flight y2 = y_flight y1"
    "\<And>fl' p. y_disk y2 fl' p = (if fl' = ?l \<and> in_pages (unat (0 :: u32)) (unat (1 :: u32)) p then y_next y1 else y_disk y1 fl' p)"
    "\<And>fl' p. y_ssd y2 fl' p = (if fl' = ?l \<and> in_pages (unat (0 :: u32)) (unat (1 :: u32)) p then y_next y1 else y_ssd y1 fl' p)"
    "\<And>p. in_pages (unat (0 :: u32)) (unat (1 :: u32)) p \<Longrightarrow> awt_page (y_awt y2) ?l (y_frag y2 ?l) p = Page_valid"
    by (rule write_run [OF inv1 t1 _ rng]) (simp_all add: y1_def wsys0_def)
  define y3 where "y3 = y2\<lparr>y_disk := store ?w 1 (y_disk y2), y_flight := (y_flight y2)(1 \<mapsto> ?w\<lparr>w_disk_done := True\<rparr>)\<rparr>"
  have 3: "wstep False y2 y3" unfolding y3_def by (rule wstep.Disk) (simp_all add: 2(2) y1_def wsys0_def)
  have reach: "wreach False wsys0 y3"
    by (rule wreach.Step [OF wreach_trans [OF 2(1) wreach.Step [OF wreach.Start 1]] 3])
  have inv3: "winv False y3" by (rule winv_reach [OF reach wstart_wsys0])
  have "awt_page (y_awt y3) ?l (y_frag y3 ?l) 0 = Page_valid" using 2(5) [of 0] by (simp add: y3_def)
  then have "frag_isvalid_awt (y_awt y3) ?l (y_frag y3 ?l) 0 1 = Some SCE_SUCCESS"
    by (simp add: frag_isvalid_awt_eq [OF winv_parts(1,4) [OF inv3] r])
  moreover have "y_ssd y3 ?l 0 = 2" "y_disk y3 ?l 0 = 1"
    using 2(4) [of ?l 0] by (simp_all add: y3_def y1_def wsys0_def store_def covers_def)
  ultimately show ?thesis using reach by (intro exI [of _ y3]) simp
qed

text \<open>
  C23: no call of the write-through code stops the kernel, in any interleaving: a write can begin
  while fewer than 65535 are under way to its fragment, every write that has begun can end, an
  invalidation and the check of a read return, and the counter of valid pages counts exactly the
  pages with both bits clear.
\<close>

theorem awt_calls_return:
  assumes "wstart y0" "wreach ser y0 y" "range_ok pg n"
  shows "awt_begin (y_awt y) fl (y_frag y fl) pg n \<noteq> None
    \<and> (y_flight y i = Some w \<and> w_taken w \<longrightarrow>
         awt_end (y_awt y) (w_loc w) (y_frag y (w_loc w)) (w_page w) (w_cnt w) failed \<noteq> None)
    \<and> frag_invalidate_awt (y_awt y) fl (y_frag y fl) pg n \<noteq> None
    \<and> frag_isvalid_awt (y_awt y) fl (y_frag y fl) pg n \<noteq> None
    \<and> unat (f_nr_valid (y_frag y fl)) = card {p. p < 256 \<and> awt_page (y_awt y) fl (y_frag y fl) p = Page_valid}
    \<and> nr_awt (y_awt y) fl = of_nat (card (taken y fl))"
proof -
  have inv: "winv ser y" by (rule winv_reach [OF assms(2,1)])
  have r: "0 < n" "unat pg + unat n \<le> 256" using assms(3) by (simp_all add: range_ok_def)
  have "awt_begin (y_awt y) fl (y_frag y fl) pg n \<noteq> None"
    by (rule awt_begin_eq [where fl = fl, OF winv_parts(1,4) [OF inv] r nr_awt_zero [OF inv]]) simp
  moreover have "awt_end (y_awt y) (w_loc w) (y_frag y (w_loc w)) (w_page w) (w_cnt w) failed \<noteq> None"
    if w: "y_flight y i = Some w" "w_taken w"
  proof -
    have rw: "0 < w_cnt w" "unat (w_page w) + unat (w_cnt w) \<le> 256"
      using winv_parts(3) [OF inv w(1)] by (simp_all add: range_ok_def)
    show ?thesis
      by (rule awt_end_eq [OF winv_parts(1,4) [OF inv] rw pending_taken [OF inv w], of failed])
        (use taken_pages [OF inv w] in auto)
  qed
  moreover have "frag_invalidate_awt (y_awt y) fl (y_frag y fl) pg n \<noteq> None"
    by (rule frag_invalidate_awt_eq [where fl = fl, OF winv_parts(1,4) [OF inv] r]) simp
  moreover have "frag_isvalid_awt (y_awt y) fl (y_frag y fl) pg n \<noteq> None"
    by (simp add: frag_isvalid_awt_eq [OF winv_parts(1,4) [OF inv] r])
  ultimately show ?thesis
    using winv_parts(4,6) [OF inv, of fl] by (simp add: awt_ok_def)
qed

lemma awt_calls_return_witness:
  "awt_begin (y_awt wsys0) (0, 0) (y_frag wsys0 (0, 0)) 3 7 \<noteq> None
    \<and> nr_awt (y_awt wsys0) (0, 0) = of_nat (card (taken wsys0 (0, 0)))"
  using awt_calls_return [where ser = False and pg = 3 and n = 7 and fl = "(0, 0)", OF wstart_wsys0 wreach.Start]
  by (simp add: range_ok_def)

text \<open>
  C24: the union of a buffer is always read as what was stored in it: the buffer of a fragment holds a
  bitmap of 256 pages and belongs to no other fragment, the buffer at the head of the free list holds a
  link, and a fragment has a buffer exactly while a write to it is under way.
\<close>

theorem awt_buffers_typed:
  assumes "wstart y0" "wreach ser y0 y"
  shows "(case pending_awt (y_awt y) fl of
      None \<Rightarrow> taken y fl = {}
    | Some q \<Rightarrow> taken y fl \<noteq> {} \<and> (\<exists>bm. awtbt_pool (y_awt y) q = AwtBitmap bm \<and> length bm = 8)
        \<and> free_awtbt (y_awt y) \<noteq> Some q \<and> (\<forall>fl'. pending_awt (y_awt y) fl' = Some q \<longrightarrow> fl' = fl))
    \<and> (case free_awtbt (y_awt y) of None \<Rightarrow> True | Some q \<Rightarrow> \<exists>n. awtbt_pool (y_awt y) q = AwtNext n)"
proof -
  have inv: "winv ser y" by (rule winv_reach [OF assms(2,1)])
  obtain xs where xs: "awt_chain (awtbt_pool (y_awt y)) (free_awtbt (y_awt y)) xs"
    "\<forall>fl q. pending_awt (y_awt y) fl = Some q \<longrightarrow>
       q \<notin> set xs \<and> (\<exists>bm. awtbt_pool (y_awt y) q = AwtBitmap bm \<and> length bm = 8)
       \<and> (\<forall>fl'. pending_awt (y_awt y) fl' = Some q \<longrightarrow> fl' = fl)"
    using winv_parts(1) [OF inv] unfolding pool_ok_def by blast
  have head: "q \<in> set xs \<and> (\<exists>n. awtbt_pool (y_awt y) q = AwtNext n)" if "free_awtbt (y_awt y) = Some q" for q
    using xs(1) that by (cases xs) auto
  then have "case free_awtbt (y_awt y) of None \<Rightarrow> True | Some q \<Rightarrow> \<exists>n. awtbt_pool (y_awt y) q = AwtNext n"
    by (simp split: option.split)
  moreover have "free_awtbt (y_awt y) \<noteq> Some q" if "pending_awt (y_awt y) fl = Some q" for q
    using head xs(2) that by blast
  ultimately show ?thesis
    using xs(2) winv_parts(7) [OF inv, of fl] by (cases "pending_awt (y_awt y) fl") auto
qed

lemma awt_buffers_typed_witness:
  "\<exists>n. awtbt_pool (y_awt wsys0) (the (free_awtbt (y_awt wsys0))) = AwtNext n"
  using awt_buffers_typed [where ser = False, OF wstart_wsys0 wreach.Start] free_wsys0 by auto

end
