(* ===== verification/Sce_Getwrite.thy ===== *)
theory Sce_Getwrite
  imports Sce_Io Sce_Protocol Sce_Example
begin

text \<open>
  \<^verbatim>\<open>sce_get4write\<close> and \<^verbatim>\<open>sce_put4write\<close> of \<^verbatim>\<open>src/sce_interface.c\<close>, the calls around a write that
  goes to the disk and to the SSD (macro \<^verbatim>\<open>SCE_AWT\<close>). The parts that concern one fragment are
  \<open>awt_begin\<close> and \<open>awt_end\<close> of \<open>Sce_Awt\<close>, whose interleavings \<open>Sce_Protocol\<close> follows; here they are
  reached through the LUN and its fragment map. The source of \<^verbatim>\<open>sce_put4write\<close> reads a field
  \<^verbatim>\<open>fragmaps\<close> that does not exist; the model reads \<^verbatim>\<open>fragmap\<close>.
\<close>

section \<open>The code\<close>

definition sce_get4write :: "sce \<Rightarrow> awt \<Rightarrow> nat option \<Rightarrow> sector_t \<Rightarrow> u32 \<Rightarrow> sce_fmap_t option
    \<Rightarrow> (rc \<times> sce_fmap_t option \<times> sce \<times> awt) option" where
  "sce_get4write s a lunhndl sctrnum nr_sctr out_fmap =
     (case out_fmap of
        None \<Rightarrow> Some (SCE_ERROR, None, s, a)
      | Some out \<Rightarrow>
     (case lock_lun s lunhndl sctrnum nr_sctr True of
        None \<Rightarrow> Some (SCE_ERROR, Some out, s, a)
      | Some li \<Rightarrow> do {
          let firstpg = first_page sctrnum;
          let lastpg = last_page sctrnum nr_sctr;
          let fragn = (ucast (firstpg div SCE_PAGEPERFRAG) :: u32);
          let pgoff = (ucast (firstpg mod SCE_PAGEPERFRAG) :: u32);
          let pgcnt = (ucast (lastpg - firstpg + 1) :: u32);
          bug_on (pgoff + pgcnt > SCE_PAGEPERFRAG);
          m \<leftarrow> l_fragmap (luntbl s li);
          fdesc \<leftarrow> rd m (unat fragn);
          if fdesc AND FRAGDESC_MAPPED = 0
          then Some (SCE_ERROR, Some out, s\<lparr>luntbl := set_fdesc (luntbl s) li (unat fragn) (FRAGDESC_INC fdesc)\<rparr>, a)
          else do {
            fl \<leftarrow> pfid2frag (cdevtbl s) fdesc;
            fr \<leftarrow> get_frag (cdevtbl s) fl;
            let out1 = pfid2fmap (cdevtbl s) fdesc out;
            if sctrnum mod SCE_SCTRPERPAGE \<noteq> 0 \<or> nr_sctr mod SCE_SCTRPERPAGE \<noteq> 0
            then do {
              (_, fr1) \<leftarrow> frag_invalidate_awt a fl fr pgoff pgcnt;
              Some (SCE_ERROR, Some out1, s\<lparr>cdevtbl := put_frag (cdevtbl s) fl fr1\<rparr>, a)
            }
            else do {
              (r, fr1, a1) \<leftarrow> awt_begin a fl fr pgoff pgcnt;
              let s1 = s\<lparr>cdevtbl := put_frag (cdevtbl s) fl fr1\<rparr>;
              if r \<noteq> SCE_SUCCESS then Some (SCE_ERROR, Some out1, s1, a1)
              else Some (SCE_SUCCESS, Some out1,
                     s1\<lparr>luntbl := upd_lun (luntbl s1) li (\<lambda>l. l\<lparr>l_nr_service := l_nr_service l + 1\<rparr>)\<rparr>, a1)
            }
          }
        }))"

definition sce_put4write :: "sce \<Rightarrow> awt \<Rightarrow> nat option \<Rightarrow> sector_t \<Rightarrow> u32 \<Rightarrow> bool \<Rightarrow> (rc \<times> sce \<times> awt) option" where
  "sce_put4write s a lunhndl sctrnum nr_sctr failed =
     (case lock_lun s lunhndl sctrnum nr_sctr False of
        None \<Rightarrow> Some (SCE_ERROR, s, a)
      | Some li \<Rightarrow> do {
          let firstpg = first_page sctrnum;
          let lastpg = last_page sctrnum nr_sctr;
          let fragn = (ucast (firstpg div SCE_PAGEPERFRAG) :: u32);
          let pgoff = (ucast (firstpg mod SCE_PAGEPERFRAG) :: u32);
          let pgcnt = (ucast (lastpg - firstpg + 1) :: u32);
          if (sctrnum + ucast nr_sctr - 1) div SCE_SCTRPERFRAG \<noteq> ucast fragn then Some (SCE_ERROR, s, a)
          else do {
            m \<leftarrow> l_fragmap (luntbl s li);
            fdesc \<leftarrow> rd m (unat fragn);
            if fdesc AND FRAGDESC_MAPPED = 0 \<or> fdesc AND FRAGDESC_VALID = 0 then Some (SCE_ERROR, s, a)
            else case pfid2frag (cdevtbl s) fdesc of
                   None \<Rightarrow> Some (SCE_ERROR, s, a)
                 | Some fl \<Rightarrow> do {
                     fr \<leftarrow> get_frag (cdevtbl s) fl;
                     bug_on (pending_awt a fl = None);
                     if f_nr_service fr = 0 \<or> nr_awt a fl = 0 \<or> l_nr_service (luntbl s li) = 0 then Some (SCE_ERROR, s, a)
                     else do {
                       (fr1, a1) \<leftarrow> awt_end a fl fr pgoff pgcnt failed;
                       let s1 = s\<lparr>cdevtbl := put_frag (cdevtbl s) fl fr1,
                                  luntbl := upd_lun (luntbl s) li (\<lambda>l. l\<lparr>l_nr_service := l_nr_service l - 1\<rparr>)\<rparr>;
                       s2 \<leftarrow> (if f_nr_service fr1 = 0 then map_option snd (lun_gc s1 li fl) else Some s1);
                       Some (SCE_SUCCESS, s2, a1)
                     }
                   }
          }
        })"

section \<open>A write to a mapped fragment\<close>

text \<open>
  A request within one fragment of a LUN in use; the fragment is mapped by the descriptor \<open>d\<close>, and
  its place and its bitmaps are well-formed.
\<close>

definition write_at :: "sce \<Rightarrow> awt \<Rightarrow> nat \<Rightarrow> sector_t \<Rightarrow> u32 \<Rightarrow> fragdesc_t \<Rightarrow> bool" where
  "write_at s a li sctr nr d \<longleftrightarrow> dev_inv (cdevtbl s) \<and> lun_ok (luntbl s li) \<and> l_scehndl (luntbl s li)
     \<and> req_ok (luntbl s li) sctr nr \<and> req_one sctr nr
     \<and> fdesc_at (luntbl s) li (req_frag sctr) = Some d \<and> is_mapped d \<and> loc_of d \<in> flocs (cdevtbl s)
     \<and> pool_ok a \<and> awt_ok a (loc_of d) (frag_at (cdevtbl s) (loc_of d))
     \<and> (nr_awt a (loc_of d) = 0 \<longleftrightarrow> pending_awt a (loc_of d) = None)"

definition aligned :: "sector_t \<Rightarrow> u32 \<Rightarrow> bool" where
  "aligned sctr nr \<longleftrightarrow> sctr mod 8 = 0 \<and> nr mod 8 = 0"

text \<open>The states of the pages of the fragment that \<open>d\<close> names.\<close>

definition frag_pages :: "sce \<Rightarrow> awt \<Rightarrow> fragdesc_t \<Rightarrow> nat \<Rightarrow> page" where
  "frag_pages s a d = awt_page a (loc_of d) (frag_at (cdevtbl s) (loc_of d))"

abbreviation (input) pg_off :: "sector_t \<Rightarrow> u32" where
  "pg_off sctr \<equiv> ucast (first_page sctr mod 256)"

abbreviation (input) pg_cnt :: "sector_t \<Rightarrow> u32 \<Rightarrow> u32" where
  "pg_cnt sctr nr \<equiv> ucast (last_page sctr nr - first_page sctr + 1)"

lemma write_at_facts:
  assumes "write_at s a li sctr nr d"
  shows "pfid2frag (cdevtbl s) d = Some (loc_of d)" "get_frag (cdevtbl s) (loc_of d) = Some (frag_at (cdevtbl s) (loc_of d))"
    "d AND FRAGDESC_MAPPED \<noteq> 0" "0 < pg_cnt sctr nr" "unat (pg_off sctr) + unat (pg_cnt sctr nr) \<le> 256"
    "\<not> pg_off sctr + pg_cnt sctr nr > 256"
    "{q. in_pages (unat (pg_off sctr)) (unat (pg_cnt sctr nr)) q} = req_range sctr nr"
    "\<exists>m. l_fragmap (luntbl s li) = Some m \<and> rd m (unat (ucast (first_page sctr div 256) :: u32)) = Some d"
    "lock_lun s (Some li) sctr nr svc = Some li \<longleftrightarrow> (svc \<longrightarrow> \<not> l_waiting4deletion (luntbl s li))"
    "(sctr + ucast nr - 1) div 2048 = ucast (ucast (first_page sctr div 256) :: u32)"
proof -
  note w = assms [unfolded write_at_def]
  obtain m where m: "l_fragmap (luntbl s li) = Some m" using w by (auto simp: fdesc_at_eq_Some)
  have len: "unat (l_nr_sctr (luntbl s li)) \<le> 2048 * length m" "length m \<le> 2 ^ 32"
    using w m by (simp_all add: lun_ok_def)
  have req: "req_ok (luntbl s li) sctr nr" using w by simp
  note rp = req_pages [OF req len]
  show "pfid2frag (cdevtbl s) d = Some (loc_of d)" using w by (simp add: pfid2frag_loc)
  show "get_frag (cdevtbl s) (loc_of d) = Some (frag_at (cdevtbl s) (loc_of d))" using w by simp
  show "d AND FRAGDESC_MAPPED \<noteq> 0" using w by (simp add: is_mapped_def)
  show c0: "0 < pg_cnt sctr nr" using rp(3,6) by (simp only: word_less_nat_alt) simp
  show le: "unat (pg_off sctr) + unat (pg_cnt sctr nr) \<le> 256"
    unfolding rp(2,3) using w by (simp add: req_one_def)
  show "\<not> pg_off sctr + pg_cnt sctr nr > 256" by (rule unat_pgsum [OF le])
  show "{q. in_pages (unat (pg_off sctr)) (unat (pg_cnt sctr nr)) q} = req_range sctr nr"
    unfolding rp(2,3) req_range_def ..
  show "\<exists>m. l_fragmap (luntbl s li) = Some m \<and> rd m (unat (ucast (first_page sctr div 256) :: u32)) = Some d"
    unfolding rp(1) using w m by (auto simp: fdesc_at_def req_frag_def)
  show "lock_lun s (Some li) sctr nr svc = Some li \<longleftrightarrow> (svc \<longrightarrow> \<not> l_waiting4deletion (luntbl s li))"
    using lock_lun_req [of sctr nr s li svc li] w m by (simp add: req_ok_def)
  show "(sctr + ucast nr - 1) div 2048 = ucast (ucast (first_page sctr div 256) :: u32)"
  proof -
    have ov: "unat sctr + unat nr < 2 ^ 64" "nr \<noteq> 0" using w by (simp_all add: req_ok_def)
    have e: "unat (sctr + ucast nr :: u64) = unat sctr + unat nr" by (rule req_sum [OF ov(1)])
    have "0 < unat nr" using ov(2) by (simp add: unat_gt_0)
    then have "sctr + ucast nr \<noteq> (0 :: u64)" using e by (metis add_gr_0 less_not_refl unat_0)
    then have "unat (sctr + ucast nr - 1 :: u64) = unat sctr + unat nr - 1" using e by (simp add: unat_dec)
    then have "unat ((sctr + ucast nr - 1) div 2048 :: u64) = unat sctr div 2048"
      using req_one_frag [of sctr nr] w ov(2) by (simp add: unat_div_distrib)
    moreover have "unat (ucast (ucast (first_page sctr div 256) :: u32) :: u64) = unat sctr div 2048"
      using rp(1) by (simp add: req_first_def flip: div_mult2_eq)
    ultimately show ?thesis by (simp add: word_unat_eq_iff)
  qed
qed

lemma frag_at_upd [simp]: "frag_at (cdevtbl (s\<lparr>luntbl := t\<rparr>)) l = frag_at (cdevtbl s) l"
  by simp

text \<open>Both ways through \<^verbatim>\<open>sce_get4write\<close> for such a request.\<close>

lemma get4write_run:
  assumes w: "write_at s a li sctr nr d" and "\<not> l_waiting4deletion (luntbl s li)"
  shows "sce_get4write s a (Some li) sctr nr (Some out) =
    (if \<not> aligned sctr nr
     then do {
       (_, fr1) \<leftarrow> frag_invalidate_awt a (loc_of d) (frag_at (cdevtbl s) (loc_of d)) (pg_off sctr) (pg_cnt sctr nr);
       Some (SCE_ERROR, Some (pfid2fmap (cdevtbl s) d out), s\<lparr>cdevtbl := put_frag (cdevtbl s) (loc_of d) fr1\<rparr>, a)
     }
     else do {
       (r, fr1, a1) \<leftarrow> awt_begin a (loc_of d) (frag_at (cdevtbl s) (loc_of d)) (pg_off sctr) (pg_cnt sctr nr);
       Some (if r \<noteq> SCE_SUCCESS then SCE_ERROR else SCE_SUCCESS, Some (pfid2fmap (cdevtbl s) d out),
         s\<lparr>cdevtbl := put_frag (cdevtbl s) (loc_of d) fr1,
           luntbl := (if r \<noteq> SCE_SUCCESS then luntbl s
             else upd_lun (luntbl s) li (\<lambda>l. l\<lparr>l_nr_service := l_nr_service l + 1\<rparr>))\<rparr>, a1)
     })"
proof -
  obtain m where m: "l_fragmap (luntbl s li) = Some m" "rd m (unat (ucast (first_page sctr div 256) :: u32)) = Some d"
    using write_at_facts(8) [OF w] by blast
  note facts = write_at_facts(1-3,6) [OF w]
  have lk: "lock_lun s (Some li) sctr nr True = Some li" using write_at_facts(9) [OF w, of True] assms(2) by simp
  show ?thesis
  proof (cases "aligned sctr nr")
    case True
    then show ?thesis
      using m facts lk
      by (cases "awt_begin a (loc_of d) (frag_at (cdevtbl s) (loc_of d)) (pg_off sctr) (pg_cnt sctr nr)")
        (auto simp: sce_get4write_def Let_def bug_on_def aligned_def)
  next
    case False
    then show ?thesis
      using m facts lk by (auto simp: sce_get4write_def Let_def bug_on_def aligned_def)
  qed
qed

lemma put4write_run:
  assumes w: "write_at s a li sctr nr d"
  shows "sce_put4write s a (Some li) sctr nr failed =
    (if \<not> is_valid d then Some (SCE_ERROR, s, a)
     else do {
       bug_on (pending_awt a (loc_of d) = None);
       if f_nr_service (frag_at (cdevtbl s) (loc_of d)) = 0 \<or> nr_awt a (loc_of d) = 0 \<or> l_nr_service (luntbl s li) = 0
       then Some (SCE_ERROR, s, a)
       else do {
         (fr1, a1) \<leftarrow> awt_end a (loc_of d) (frag_at (cdevtbl s) (loc_of d)) (pg_off sctr) (pg_cnt sctr nr) failed;
         let s1 = s\<lparr>cdevtbl := put_frag (cdevtbl s) (loc_of d) fr1,
                    luntbl := upd_lun (luntbl s) li (\<lambda>l. l\<lparr>l_nr_service := l_nr_service l - 1\<rparr>)\<rparr>;
         s2 \<leftarrow> (if f_nr_service fr1 = 0 then map_option snd (lun_gc s1 li (loc_of d)) else Some s1);
         Some (SCE_SUCCESS, s2, a1)
       }
     })"
proof -
  obtain m where m: "l_fragmap (luntbl s li) = Some m" "rd m (unat (ucast (first_page sctr div 256) :: u32)) = Some d"
    using write_at_facts(8) [OF w] by blast
  note facts = write_at_facts(1-3) [OF w]
  have lk: "lock_lun s (Some li) sctr nr False = Some li" using write_at_facts(9) [OF w, of False] by simp
  show ?thesis
    using m facts lk write_at_facts(10) [OF w] by (simp add: sce_put4write_def Let_def is_valid_def)
qed

lemma request_pages:
  assumes "write_at s a li sctr nr d" "q < 256"
  shows "in_pages (unat (pg_off sctr)) (unat (pg_cnt sctr nr)) q \<longleftrightarrow> q \<in> req_range sctr nr"
  using write_at_facts(7) [OF assms(1)] by blast

lemma range_bound: "write_at s a li sctr nr d \<Longrightarrow> q \<in> req_range sctr nr \<Longrightarrow> q < 256"
  by (auto simp: write_at_def req_one_def req_range_def)

lemma write_at_frag:
  assumes "write_at s a li sctr nr d"
  shows "loc_of d \<in> flocs (cdevtbl s)" "pool_ok a" "awt_ok a (loc_of d) (frag_at (cdevtbl s) (loc_of d))"
    "nr_awt a (loc_of d) = 0 \<longleftrightarrow> pending_awt a (loc_of d) = None" "fdesc_at (luntbl s) li (req_frag sctr) = Some d"
  using assms by (simp_all add: write_at_def)

text \<open>The request still fits after its own call, whose counters are those of the second part.\<close>

lemma write_at_after:
  assumes w: "write_at s a li sctr nr d" and "pool_ok a'" "awt_ok a' (loc_of d) fr"
    and "nr_awt a' (loc_of d) = 0 \<longleftrightarrow> pending_awt a' (loc_of d) = None"
    and "s' = s\<lparr>cdevtbl := put_frag (cdevtbl s) (loc_of d) fr, luntbl := upd_lun (luntbl s) li (\<lambda>l. l\<lparr>l_nr_service := k\<rparr>)\<rparr>"
  shows "write_at s' a' li sctr nr d"
proof -
  note old = w [unfolded write_at_def]
  obtain m where m: "l_fragmap (luntbl s li) = Some m" using old by (auto simp: fdesc_at_eq_Some)
  have "dev_inv (cdevtbl s')" using old assms(5) same_devs_dev_inv [OF same_devs_put_frag] by simp
  moreover have "lun_ok (luntbl s' li)" "req_ok (luntbl s' li) sctr nr" "l_scehndl (luntbl s' li)"
    using old assms(5) m by (simp_all add: lun_ok_def req_ok_def)
  moreover have "fdesc_at (luntbl s') li (req_frag sctr) = Some d"
    using old assms(5) by (simp add: fdesc_at_upd_lun)
  ultimately show ?thesis using old assms by (simp add: write_at_def)
qed

text \<open>What a successful \<open>awt_begin\<close> leaves.\<close>

lemma awt_begin_result:
  assumes "pool_ok a" "awt_ok a fl fr" "0 < pgcnt" "unat pgoff + unat pgcnt \<le> 256"
    and "nr_awt a fl = 0 \<longleftrightarrow> pending_awt a fl = None"
    and b: "awt_begin a fl fr pgoff pgcnt = Some (SCE_SUCCESS, fr', a')"
  shows "pool_ok a'" "awt_ok a' fl fr'" "nr_awt a' fl = nr_awt a fl + 1" "f_nr_service fr' = f_nr_service fr + 1"
    "pending_awt a' fl \<noteq> None"
  by (rule awt_begin_eq [OF assms(1-5)], use b in simp)+

text \<open>What \<^verbatim>\<open>sce_get4write\<close> does to the pages and to the counters.\<close>

lemma get4write_effect:
  assumes w: "write_at s a li sctr nr d" and "\<not> l_waiting4deletion (luntbl s li)"
  shows "returns (sce_get4write s a (Some li) sctr nr (Some out)) (\<lambda>(r, out', s', a').
    (\<forall>p \<in> req_range sctr nr. frag_pages s' a' d p \<noteq> Page_valid)
    \<and> pool_ok a' \<and> awt_ok a' (loc_of d) (frag_at (cdevtbl s') (loc_of d))
    \<and> (r = SCE_SUCCESS \<longrightarrow> aligned sctr nr)
    \<and> nr_awt a' (loc_of d) = nr_awt a (loc_of d) + of_bool (r = SCE_SUCCESS)
    \<and> f_nr_service (frag_at (cdevtbl s') (loc_of d)) = f_nr_service (frag_at (cdevtbl s) (loc_of d)) + of_bool (r = SCE_SUCCESS)
    \<and> l_nr_service (luntbl s' li) = l_nr_service (luntbl s li) + of_bool (r = SCE_SUCCESS))"
proof -
  let ?fr = "frag_at (cdevtbl s) (loc_of d)"
  note wf = write_at_frag [OF w]
  have new: "x \<noteq> Page_valid \<Longrightarrow> page_inval x \<noteq> Page_valid" "page_inval x \<noteq> Page_valid" "page_begin x \<noteq> Page_valid" for x
    by (cases x; simp)+
  have hide: "frag_pages (s\<lparr>cdevtbl := put_frag (cdevtbl s) (loc_of d) fr1, luntbl := t\<rparr>) a1 d p \<noteq> Page_valid"
    if "move_pages (unat (pg_off sctr)) (unat (pg_cnt sctr nr)) tr (awt_page a (loc_of d) ?fr) (awt_page a1 (loc_of d) fr1)"
      "p \<in> req_range sctr nr" "\<And>x. tr x \<noteq> Page_valid" for fr1 a1 tr p t
    using that(1,3) request_pages [OF w range_bound [OF w that(2)]] range_bound [OF w that(2)] that(2) wf(1)
    by (simp add: move_pages_def frag_pages_def)
  show ?thesis
  proof (cases "aligned sctr nr")
    case False
    obtain n fr1 where 1: "frag_invalidate_awt a (loc_of d) ?fr (pg_off sctr) (pg_cnt sctr nr) = Some (n, fr1)"
      "awt_ok a (loc_of d) fr1" "f_nr_service fr1 = f_nr_service ?fr"
      "move_pages (unat (pg_off sctr)) (unat (pg_cnt sctr nr)) page_inval (awt_page a (loc_of d) ?fr) (awt_page a (loc_of d) fr1)"
      by (rule frag_invalidate_awt_eq [OF wf(2,3) write_at_facts(4,5) [OF w]]) blast
    have "frag_pages (s\<lparr>cdevtbl := put_frag (cdevtbl s) (loc_of d) fr1\<rparr>) a d p \<noteq> Page_valid" if "p \<in> req_range sctr nr" for p
      using hide [OF 1(4) that new(2), of "luntbl s"] by simp
    then show ?thesis
      using False 1(1-3) wf by (simp add: get4write_run [OF assms])
  next
    case True
    obtain r fr1 a1 where b: "awt_begin a (loc_of d) ?fr (pg_off sctr) (pg_cnt sctr nr) = Some (r, fr1, a1)"
      "r = SCE_SUCCESS \<or> r = SCE_ERROR"
      "pool_ok a1" "awt_ok a1 (loc_of d) fr1" "awt_frame (loc_of d) a a1"
      "nr_awt a1 (loc_of d) = nr_awt a (loc_of d) + of_bool (r = SCE_SUCCESS)"
      "f_nr_service fr1 = f_nr_service ?fr + of_bool (r = SCE_SUCCESS)"
      "pending_awt a1 (loc_of d) = None \<longleftrightarrow> pending_awt a (loc_of d) = None \<and> r = SCE_ERROR"
      "if pending_awt a1 (loc_of d) = None
       then r = SCE_ERROR \<and> move_pages (unat (pg_off sctr)) (unat (pg_cnt sctr nr)) page_inval (awt_page a (loc_of d) ?fr) (awt_page a1 (loc_of d) fr1)
       else (r = SCE_SUCCESS \<longleftrightarrow> begins (awt_page a (loc_of d) ?fr) (unat (pg_off sctr)) (unat (pg_cnt sctr nr)))
            \<and> move_pages (unat (pg_off sctr)) (unat (pg_cnt sctr nr)) page_begin (awt_page a (loc_of d) ?fr) (awt_page a1 (loc_of d) fr1)"
      "free_awtbt a \<noteq> None \<longrightarrow> pending_awt a1 (loc_of d) \<noteq> None"
      by (rule awt_begin_eq [where fl = "loc_of d", OF wf(2,3) write_at_facts(4,5) [OF w] wf(4)])
    have h: "frag_pages (s\<lparr>cdevtbl := put_frag (cdevtbl s) (loc_of d) fr1, luntbl := t\<rparr>) a1 d p \<noteq> Page_valid"
      if "p \<in> req_range sctr nr" for p t
      using b(9) hide [OF _ that new(2)] hide [OF _ that new(3)] by (auto split: if_splits)
    show ?thesis
      using True b(1-4,6,7) wf h by (auto simp: get4write_run [OF assms])
  qed
qed

section \<open>Properties\<close>

text \<open>
  C21: after \<^verbatim>\<open>sce_get4write\<close>, whatever its result, no page of the request can be read from the cache;
  it succeeds only for a request aligned to pages, and then counts as one request in service of the
  LUN and of the fragment and as one write under way.
\<close>

theorem get4write_hides:
  assumes w: "write_at s a li sctr nr d" and "\<not> l_waiting4deletion (luntbl s li)"
  shows "returns (sce_get4write s a (Some li) sctr nr (Some out)) (\<lambda>(r, out', s', a').
    (\<forall>p \<in> req_range sctr nr. frag_pages s' a' d p \<noteq> Page_valid)
    \<and> pool_ok a' \<and> awt_ok a' (loc_of d) (frag_at (cdevtbl s') (loc_of d))
    \<and> (r = SCE_SUCCESS \<longrightarrow> aligned sctr nr)
    \<and> nr_awt a' (loc_of d) = nr_awt a (loc_of d) + of_bool (r = SCE_SUCCESS)
    \<and> f_nr_service (frag_at (cdevtbl s') (loc_of d)) = f_nr_service (frag_at (cdevtbl s) (loc_of d)) + of_bool (r = SCE_SUCCESS)
    \<and> l_nr_service (luntbl s' li) = l_nr_service (luntbl s li) + of_bool (r = SCE_SUCCESS))"
  by (rule get4write_effect [OF assms])

text \<open>The calls applied to a fragment that no other write is using.\<close>

lemma get4write_taken:
  assumes w: "write_at s a li sctr nr d" and wait: "\<not> l_waiting4deletion (luntbl s li)" and al: "aligned sctr nr"
    and idle: "nr_awt a (loc_of d) = 0" and buf: "free_awtbt a \<noteq> None"
  obtains fr1 a1 s1 where
    "sce_get4write s a (Some li) sctr nr (Some out) = Some (SCE_SUCCESS, Some (pfid2fmap (cdevtbl s) d out), s1, a1)"
    "s1 = s\<lparr>cdevtbl := put_frag (cdevtbl s) (loc_of d) fr1,
       luntbl := upd_lun (luntbl s) li (\<lambda>l. l\<lparr>l_nr_service := l_nr_service (luntbl s li) + 1\<rparr>)\<rparr>"
    "write_at s1 a1 li sctr nr d" "pool_ok a1" "awt_ok a1 (loc_of d) fr1" "pending_awt a1 (loc_of d) \<noteq> None"
    "nr_awt a1 (loc_of d) = 1" "f_nr_service fr1 = f_nr_service (frag_at (cdevtbl s) (loc_of d)) + 1"
    "\<And>p. p < 256 \<Longrightarrow> awt_page a1 (loc_of d) fr1 p = (if p \<in> req_range sctr nr then Page_writing else frag_pages s a d p)"
proof -
  let ?l = "loc_of d"
  let ?fr = "frag_at (cdevtbl s) ?l"
  note wf = write_at_frag [OF w]
  note rng = write_at_facts(4,5) [OF w]
  have none: "pending_awt a ?l = None" using wf(4) idle by simp
  obtain r fr1 a1 where b: "awt_begin a ?l ?fr (pg_off sctr) (pg_cnt sctr nr) = Some (r, fr1, a1)"
    "r = SCE_SUCCESS \<or> r = SCE_ERROR" "pool_ok a1" "awt_ok a1 ?l fr1" "awt_frame ?l a a1"
    "nr_awt a1 ?l = nr_awt a ?l + of_bool (r = SCE_SUCCESS)"
    "f_nr_service fr1 = f_nr_service ?fr + of_bool (r = SCE_SUCCESS)"
    "pending_awt a1 ?l = None \<longleftrightarrow> pending_awt a ?l = None \<and> r = SCE_ERROR"
    "if pending_awt a1 ?l = None
     then r = SCE_ERROR \<and> move_pages (unat (pg_off sctr)) (unat (pg_cnt sctr nr)) page_inval (awt_page a ?l ?fr) (awt_page a1 ?l fr1)
     else (r = SCE_SUCCESS \<longleftrightarrow> begins (awt_page a ?l ?fr) (unat (pg_off sctr)) (unat (pg_cnt sctr nr)))
          \<and> move_pages (unat (pg_off sctr)) (unat (pg_cnt sctr nr)) page_begin (awt_page a ?l ?fr) (awt_page a1 ?l fr1)"
    "free_awtbt a \<noteq> None \<longrightarrow> pending_awt a1 ?l \<noteq> None"
    by (rule awt_begin_eq [where fl = ?l, OF wf(2,3) rng wf(4)])
  have p1: "r = SCE_SUCCESS" "pending_awt a1 ?l \<noteq> None" "nr_awt a1 ?l = 1" "f_nr_service fr1 = f_nr_service ?fr + 1"
    using b(2,6,7,8,10) buf none idle by auto
  have begun: "awt_page a1 ?l fr1 p = (if p \<in> req_range sctr nr then Page_writing else frag_pages s a d p)" if "p < 256" for p
    using b(9) p1(2) that no_pending_pages [OF none that, of ?fr] request_pages [OF w that]
    by (auto simp: move_pages_def frag_pages_def)
  let ?s1 = "s\<lparr>cdevtbl := put_frag (cdevtbl s) ?l fr1, luntbl := upd_lun (luntbl s) li (\<lambda>l. l\<lparr>l_nr_service := l_nr_service (luntbl s li) + 1\<rparr>)\<rparr>"
  have get: "sce_get4write s a (Some li) sctr nr (Some out) = Some (SCE_SUCCESS, Some (pfid2fmap (cdevtbl s) d out), ?s1, a1)"
    using al b(1) p1(1) by (simp add: get4write_run [OF w wait] upd_lun_def)
  have w1: "write_at ?s1 a1 li sctr nr d"
    by (rule write_at_after [OF w b(3,4) _ refl]) (use p1(2,3) in simp)
  show ?thesis by (rule that [OF get refl w1 b(3,4) p1(2-4) begun])
qed


text \<open>A write that is taken while its fragment is being populated.\<close>

lemma get4write_success:
  assumes w: "write_at s a li sctr nr d" and wait: "\<not> l_waiting4deletion (luntbl s li)"
    and ov: "nr_awt a (loc_of d) + 1 \<noteq> 0"
    and get: "sce_get4write s a (Some li) sctr nr (Some out) = Some (SCE_SUCCESS, out', s1, a1)"
  obtains fr1 where "write_at s1 a1 li sctr nr d" "pending_awt a1 (loc_of d) \<noteq> None"
    "s1 = s\<lparr>cdevtbl := put_frag (cdevtbl s) (loc_of d) fr1,
      luntbl := upd_lun (luntbl s) li (\<lambda>l. l\<lparr>l_nr_service := l_nr_service l + 1\<rparr>)\<rparr>"
    "f_nr_service fr1 = f_nr_service (frag_at (cdevtbl s) (loc_of d)) + 1"
proof -
  let ?l = "loc_of d"
  note wf = write_at_frag [OF w]
  note rng = write_at_facts(4,5) [OF w]
  have al: "aligned sctr nr" using get by (auto simp: get4write_run [OF w wait] split: if_splits Option.bind_splits)
  obtain fr1 where b: "awt_begin a ?l (frag_at (cdevtbl s) ?l) (pg_off sctr) (pg_cnt sctr nr) = Some (SCE_SUCCESS, fr1, a1)"
    and s1: "s1 = s\<lparr>cdevtbl := put_frag (cdevtbl s) ?l fr1,
      luntbl := upd_lun (luntbl s) li (\<lambda>l. l\<lparr>l_nr_service := l_nr_service l + 1\<rparr>)\<rparr>"
    using get al by (auto simp: get4write_run [OF w wait] split: if_splits Option.bind_splits)
  note br = awt_begin_result [OF wf(2,3) rng wf(4) b]
  have "nr_awt a1 ?l = 0 \<longleftrightarrow> pending_awt a1 ?l = None" using br(3,5) ov by simp
  then have w1: "write_at s1 a1 li sctr nr d"
    by (intro write_at_after [OF w br(1,2), where k = "l_nr_service (luntbl s li) + 1"]) (simp_all add: s1 upd_lun_def)
  show ?thesis by (rule that [OF w1 br(5) s1 br(4)])
qed

text \<open>
  While the fragment is being populated, \<^verbatim>\<open>sce_get4write\<close> takes a write and counts it, but
  \<^verbatim>\<open>sce_put4write\<close> refuses to end it until the population is complete: a write that ends earlier
  leaves its references of the LUN and of the fragment, and its pages stay in the state of being
  written.
\<close>

theorem put4write_population_leaks:
  assumes w: "write_at s a li sctr nr d" and wait: "\<not> l_waiting4deletion (luntbl s li)" and "\<not> is_valid d"
    and ov: "nr_awt a (loc_of d) + 1 \<noteq> 0"
    and get: "sce_get4write s a (Some li) sctr nr (Some out) = Some (SCE_SUCCESS, out', s1, a1)"
  shows "sce_put4write s1 a1 (Some li) sctr nr failed = Some (SCE_ERROR, s1, a1)
    \<and> l_nr_service (luntbl s1 li) = l_nr_service (luntbl s li) + 1
    \<and> f_nr_service (frag_at (cdevtbl s1) (loc_of d)) = f_nr_service (frag_at (cdevtbl s) (loc_of d)) + 1"
  by (rule get4write_success [OF w wait ov get])
    (use put4write_run [of s1 a1 li sctr nr d failed] assms(3) write_at_frag(1) [OF w] in simp)

text \<open>
  C26: a write that begins while its fragment is being populated stops both for good: the population can
  neither be completed nor cancelled, because the fragment has two requests in service, and the
  write cannot be ended, because the fragment is not valid. All three calls fail and change nothing,
  so the fragment stays mapped without being readable, and the counts of it and of the LUN stay up.
\<close>

theorem write_blocks_population:
  assumes w: "write_at s a li sctr nr d" and wait: "\<not> l_waiting4deletion (luntbl s li)" and "\<not> is_valid d"
    and pop: "f_nr_service (frag_at (cdevtbl s) (loc_of d)) = 1" and n: "unat n = req_frag sctr"
    and ov: "nr_awt a (loc_of d) + 1 \<noteq> 0"
    and get: "sce_get4write s a (Some li) sctr nr (Some out) = Some (SCE_SUCCESS, out', s1, a1)"
  shows "complete_population s1 li n = Some (SCE_ERROR, s1) \<and> cancel_population s1 li n = Some (SCE_ERROR, s1)
    \<and> sce_put4write s1 a1 (Some li) sctr nr failed = Some (SCE_ERROR, s1, a1)
    \<and> l_nr_service (luntbl s1 li) = l_nr_service (luntbl s li) + 1"
proof -
  obtain fr1 where w1: "write_at s1 a1 li sctr nr d" and s1: "s1 = s\<lparr>cdevtbl := put_frag (cdevtbl s) (loc_of d) fr1,
      luntbl := upd_lun (luntbl s) li (\<lambda>l. l\<lparr>l_nr_service := l_nr_service l + 1\<rparr>)\<rparr>"
    and srv: "f_nr_service fr1 = f_nr_service (frag_at (cdevtbl s) (loc_of d)) + 1"
    by (rule get4write_success [OF w wait ov get])
  have two: "f_nr_service (frag_at (cdevtbl s1) (loc_of d)) = 2"
    using srv pop write_at_frag(1) [OF w] by (simp add: s1)
  obtain m where m: "l_fragmap (luntbl s1 li) = Some m" "rd m (unat n) = Some d" "unat n < length m"
    using write_at_frag(5) [OF w1] n by (auto simp: fdesc_at_eq_Some rd_def)
  have "lun_ok (luntbl s1 li)" "l_scehndl (luntbl s1 li)" using w1 by (simp_all add: write_at_def)
  then have g: "\<not> l_nr_frag (luntbl s1 li) \<le> n" "l_scehndl (luntbl s1 li)"
    using m by (simp_all add: lun_ok_def word_le_nat_alt)
  have "complete_population s1 li n = Some (SCE_ERROR, s1)" "cancel_population s1 li n = Some (SCE_ERROR, s1)"
    using m g two assms(3) write_at_facts(1-3) [OF w1]
    by (simp_all add: complete_population_def cancel_population_def Let_def is_valid_def)
  then show ?thesis using put4write_population_leaks [OF w wait assms(3) ov get] by blast
qed

text \<open>The engine of \<open>Sce_Example\<close> with a pool that has just been created.\<close>

lemma example_write_at: "write_at (example v k) awt_create 0 2048 8 (if v then FRAGDESC_MAPPED OR FRAGDESC_VALID else FRAGDESC_MAPPED)"
proof -
  let ?d = "if v then FRAGDESC_MAPPED OR FRAGDESC_VALID else FRAGDESC_MAPPED"
  have d: "loc_of ?d = (0, 0)" "is_mapped ?d" by (cases v; simp)+
  have page: "awt_page awt_create (0, 0) fr p = Page_valid" if "p < 256" "f_bitmap fr = replicate 8 0" for fr p
    using no_pending_pages [of awt_create "(0, 0)" p fr] pagebit_zero [of p 8] that by simp
  have "{p. p < 256 \<and> awt_page awt_create (0, 0) (frag_at (cdevtbl (example v k)) (0, 0)) p = Page_valid} = {..<256}"
    using page [of _ "frag_at (cdevtbl (example v k)) (0, 0)"] by auto
  then have "awt_ok awt_create (0, 0) (frag_at (cdevtbl (example v k)) (0, 0))" by (simp add: awt_ok_def)
  moreover have "dev_inv (cdevtbl (example v k))" by (simp add: dev_inv_def dev_ok_def example_dev_def)
  moreover have "lun_ok (luntbl (example v k) 0)" by (simp add: lun_ok_def)
  ultimately show ?thesis
    unfolding write_at_def d
    by (simp add: d pool_ok_create req_ok_def req_one_def req_first_def req_count_def req_frag_def)
qed

lemma get4write_hides_witness:
  "returns (sce_get4write (example True 0) awt_create (Some 0) 2048 8 (Some \<lparr>fmap_cdevctx = 0, fmap_fragnum = 0\<rparr>))
    (\<lambda>(r, out', s', a'). \<forall>p \<in> req_range 2048 8. frag_pages s' a' (FRAGDESC_MAPPED OR FRAGDESC_VALID) p \<noteq> Page_valid)"
  by (rule returns_mono [OF get4write_hides [OF example_write_at [of True 0], where out = "\<lparr>fmap_cdevctx = 0, fmap_fragnum = 0\<rparr>"]])
    auto


lemma put4write_population_leaks_witness:
  "\<exists>s1 a1. sce_put4write s1 a1 (Some 0) 2048 8 False = Some (SCE_ERROR, s1, a1)
    \<and> l_nr_service (luntbl s1 0) = l_nr_service (luntbl (example False 0) 0) + 1"
proof -
  let ?out = "\<lparr>fmap_cdevctx = 0, fmap_fragnum = 0\<rparr>"
  note w = example_write_at [of False 0, simplified]
  obtain fr1 a1 s1 where "sce_get4write (example False 0) awt_create (Some 0) 2048 8 (Some ?out)
      = Some (SCE_SUCCESS, Some (pfid2fmap (cdevtbl (example False 0)) FRAGDESC_MAPPED ?out), s1, a1)"
    by (rule get4write_taken [OF w, of ?out]) (simp_all add: aligned_def)
  from put4write_population_leaks [OF w _ _ _ this, of False] show ?thesis
    by (intro exI [of _ s1] exI [of _ a1]) simp
qed

lemma write_blocks_population_witness:
  "\<exists>s1. complete_population s1 0 1 = Some (SCE_ERROR, s1) \<and> cancel_population s1 0 1 = Some (SCE_ERROR, s1)
    \<and> l_nr_service (luntbl s1 0) = l_nr_service (luntbl (example False 1) 0) + 1"
proof -
  let ?out = "\<lparr>fmap_cdevctx = 0, fmap_fragnum = 0\<rparr>"
  note w = example_write_at [of False 1, simplified]
  obtain fr1 a1 s1 where "sce_get4write (example False 1) awt_create (Some 0) 2048 8 (Some ?out)
      = Some (SCE_SUCCESS, Some (pfid2fmap (cdevtbl (example False 1)) FRAGDESC_MAPPED ?out), s1, a1)"
    by (rule get4write_taken [OF w, of ?out]) (simp_all add: aligned_def)
  from write_blocks_population [OF w _ _ _ _ _ this, of 1] show ?thesis
    by (intro exI [of _ s1]) (simp add: req_frag_def req_first_def)
qed

end
