(* ===== verification/Iostash_Awt.thy ===== *)
theory Iostash_Awt
  imports Iostash_Hook Sce_Getwrite
begin

text \<open>
  The requests that write through to the SSD, \<^verbatim>\<open>src/iostash_iohook.c\<close> with the macro \<^verbatim>\<open>SCE_AWT\<close>: the
  branch of \<^verbatim>\<open>iostash_mkrequest\<close> for writes, the write handling of \<^verbatim>\<open>_io_worker\<close> and \<^verbatim>\<open>_endio4write\<close>.
  The second part follows one write as a machine whose events are the parts of the worker and the
  ends of its two clones, in any order, until \<^verbatim>\<open>_dec_pending\<close> hands its result to \<^verbatim>\<open>sce_put4write\<close>.
\<close>

section \<open>What becomes of a request\<close>

text \<open>
  \<^verbatim>\<open>sce_get4read\<close> and \<^verbatim>\<open>sce_invalidate\<close> in this build: they go through \<open>frag_isvalid_awt\<close> and
  \<open>frag_invalidate_awt\<close>, and are the same otherwise.
\<close>

definition sce_get4read_awt ::
  "sce \<Rightarrow> awt \<Rightarrow> nat option \<Rightarrow> sector_t \<Rightarrow> u32 \<Rightarrow> sce_fmap_t option \<Rightarrow> (rc \<times> sce_fmap_t option \<times> sce) option" where
  "sce_get4read_awt s a lunhndl sctrnum nr_sctr out_fmap =
     (case out_fmap of
        None \<Rightarrow> Some (SCE_ERROR, None, s)
      | Some out \<Rightarrow>
     (case lock_lun s lunhndl sctrnum nr_sctr True of
        None \<Rightarrow> Some (SCE_ERROR, Some out, s)
      | Some li \<Rightarrow> do {
          let s1 = stats_upd li (\<lambda>st. st\<lparr>reads := reads st + 1, read_sctrs := read_sctrs st + ucast nr_sctr\<rparr>) s;
          let firstpg = first_page sctrnum;
          let lastpg = last_page sctrnum nr_sctr;
          let fragn = (ucast (firstpg div SCE_PAGEPERFRAG) :: u32);
          let pgoff = (ucast (firstpg mod SCE_PAGEPERFRAG) :: u32);
          let pgcnt = (ucast (lastpg - firstpg + 1) :: u32);
          if pgoff + pgcnt > SCE_PAGEPERFRAG then Some (SCE_ERROR, Some out, s1)
          else do {
            m \<leftarrow> l_fragmap (luntbl s1 li);
            fdesc \<leftarrow> rd m (unat fragn);
            (ret, out1, miss, s2) \<leftarrow>
              (if fdesc AND FRAGDESC_MAPPED = 0
               then Some (SCE_ERROR, out, True,
                      s1\<lparr>luntbl := set_fdesc (luntbl s1) li (unat fragn) (FRAGDESC_INC fdesc)\<rparr>)
               else do {
                 fl \<leftarrow> pfid2frag (cdevtbl s1) fdesc;
                 fr \<leftarrow> get_frag (cdevtbl s1) fl;
                 let out1 = pfid2fmap (cdevtbl s1) fdesc out;
                 v \<leftarrow> (if fdesc AND FRAGDESC_VALID \<noteq> 0 then frag_isvalid_awt a fl fr pgoff pgcnt else Some SCE_ERROR);
                 if v = SCE_SUCCESS
                 then Some (SCE_SUCCESS, out1, False,
                   s1\<lparr>cdevtbl := put_frag (cdevtbl s1) fl
                        (fr\<lparr>f_nr_hit := f_nr_hit fr + 1, f_nr_service := f_nr_service fr + 1,
                            f_nr_ref := (if f_nr_ref fr < SCE_REFCEILING then f_nr_ref fr + 1 else f_nr_ref fr)\<rparr>),
                      luntbl := upd_lun (luntbl s1) li (\<lambda>l. l\<lparr>l_nr_service := l_nr_service l + 1\<rparr>),
                      nr_hit := nr_hit s1 + 1\<rparr>)
                 else Some (SCE_ERROR, out1, True,
                   s1\<lparr>cdevtbl := put_frag (cdevtbl s1) fl (fr\<lparr>f_nr_miss := f_nr_miss fr + 1\<rparr>)\<rparr>)
               });
            if miss
            then do {
              (_, s3) \<leftarrow> misslog_put (s2\<lparr>nr_miss := nr_miss s2 + 1\<rparr>) (GET_LUNIDX li) fragn;
              Some (ret, Some out1, s3)
            }
            else Some (ret, Some out1, stats_upd li (\<lambda>st. st\<lparr>read_hits := read_hits st + 1\<rparr>) s2)
          }
        }))"

partial_function (option) inval_loop_awt :: "sce \<Rightarrow> awt \<Rightarrow> nat \<Rightarrow> u32 \<Rightarrow> u32 \<Rightarrow> u32 \<Rightarrow> nat \<Rightarrow> (nat \<times> sce) option" where
  [code]: "inval_loop_awt s a li fragn pgoff count wh =
     (if count > 0
      then do {
        let pgcnt = (if SCE_PAGEPERFRAG - pgoff > count then count else SCE_PAGEPERFRAG - pgoff);
        m \<leftarrow> l_fragmap (luntbl s li);
        fdesc \<leftarrow> rd m (unat fragn);
        if fdesc AND FRAGDESC_MAPPED \<noteq> 0
        then (case pfid2frag (cdevtbl s) fdesc of
                None \<Rightarrow> Some (wh, s)
              | Some fl \<Rightarrow> do {
                  fr \<leftarrow> get_frag (cdevtbl s) fl;
                  (n, fr1) \<leftarrow> frag_invalidate_awt a fl fr pgoff pgcnt;
                  let s1 = stats_upd li
                        (\<lambda>st. st\<lparr>valid_sctrs := valid_sctrs st - ucast ((word_of_int n :: u32) * SCE_SCTRPERPAGE)\<rparr>)
                        (s\<lparr>cdevtbl := put_frag (cdevtbl s) fl fr1\<rparr>);
                  s2 \<leftarrow> (if fdesc AND FRAGDESC_VALID \<noteq> 0 then map_option snd (lun_gc s1 li fl) else Some s1);
                  inval_loop_awt s2 a li (fragn + 1) 0 (count - pgcnt) (wh + 1)
                })
        else inval_loop_awt s a li (fragn + 1) 0 (count - pgcnt) wh
      }
      else Some (wh, s))"

definition sce_invalidate_awt :: "sce \<Rightarrow> awt \<Rightarrow> nat option \<Rightarrow> sector_t \<Rightarrow> u32 \<Rightarrow> (rc \<times> sce) option" where
  "sce_invalidate_awt s a lunhndl sctrnum nr_sctr =
     (case lunhndl of
        None \<Rightarrow> Some (SCE_ERROR, s)
      | Some li \<Rightarrow>
          if \<not> l_scehndl (luntbl s li) then Some (SCE_ERROR, s)
          else if l_fragmap (luntbl s li) = None \<or> nr_sctr = 0
                  \<or> sctrnum + ucast nr_sctr > l_nr_sctr (luntbl s li) then Some (SCE_ERROR, s)
          else if lun_is_serviceable (luntbl s li) \<noteq> SCE_SUCCESS then Some (SCE_ERROR, s)
          else do {
            let s1 = stats_upd li (\<lambda>st. st\<lparr>writes := writes st + 1, write_sctrs := write_sctrs st + ucast nr_sctr\<rparr>) s;
            let start = first_page sctrnum;
            let count = ucast (last_page sctrnum nr_sctr - start) + 1;
            (wh, s2) \<leftarrow> inval_loop_awt s1 a li (ucast (start div SCE_PAGEPERFRAG)) (ucast (start mod SCE_PAGEPERFRAG)) count 0;
            Some (SCE_SUCCESS,
              if wh \<noteq> 0 then stats_upd li (\<lambda>st. st\<lparr>write_hits := write_hits st + 1\<rparr>) s2 else s2)
          })"

definition mkrequest_write_awt :: "bool \<Rightarrow> (ptr \<Rightarrow> ssd_info) \<Rightarrow> hdd_info \<Rightarrow> sector_t \<Rightarrow> u32 \<Rightarrow> hook \<Rightarrow> awt
    \<Rightarrow> (route \<times> hook \<times> awt) option" where
  "mkrequest_write_awt alloc_ok ssds hdd psn nr_sctr k a =
     (if (psn + ucast nr_sctr - 1) div SCE_SCTRPERFRAG \<noteq> psn div SCE_SCTRPERFRAG
      then do {
        (_, s1) \<leftarrow> sce_invalidate_awt (k_sce k) a (h_lun hdd) psn nr_sctr;
        Some (Orig, hdd_put (k\<lparr>k_sce := s1\<rparr>), a)
      }
      else do {
        (r, out, s1, a1) \<leftarrow> sce_get4write (k_sce k) a (h_lun hdd) psn nr_sctr (Some \<lparr>fmap_cdevctx = 0, fmap_fragnum = 0\<rparr>);
        let k1 = k\<lparr>k_sce := s1\<rparr>;
        if r \<noteq> SCE_SUCCESS then Some (Orig, hdd_put k1, a1)
        else do {
          fmap \<leftarrow> out;
          let k2 = ssd_add (fmap_cdevctx fmap) 1 k1;
          if \<not> s_online (ssds (fmap_cdevctx fmap))
          then do {
            (_, s2, a2) \<leftarrow> sce_put4write s1 a1 (h_lun hdd) psn nr_sctr True;
            Some (Orig, hdd_put (ssd_add (fmap_cdevctx fmap) (-1) (k2\<lparr>k_sce := s2\<rparr>)), a2)
          }
          else if \<not> alloc_ok then Some (Orig, hdd_put (ssd_add (fmap_cdevctx fmap) (-1) k2), a1)
          else Some (Cached (fmap_cdevctx fmap) (fmap_fragnum fmap) psn nr_sctr, hdd_put k2, a1)
        }
      })"

definition mkrequest_read_awt :: "bool \<Rightarrow> (ptr \<Rightarrow> ssd_info) \<Rightarrow> hdd_info \<Rightarrow> sector_t \<Rightarrow> u32 \<Rightarrow> hook \<Rightarrow> awt
    \<Rightarrow> (route \<times> hook) option" where
  "mkrequest_read_awt alloc_ok ssds hdd psn nr_sctr k0 a = (let k = k0\<lparr>k_st_read := k_st_read k0 + 1\<rparr> in
     if (psn + ucast nr_sctr - 1) div SCE_SCTRPERFRAG \<noteq> psn div SCE_SCTRPERFRAG then Some (Orig, hdd_put k)
     else do {
       (r, out, s1) \<leftarrow> sce_get4read_awt (k_sce k) a (h_lun hdd) psn nr_sctr (Some \<lparr>fmap_cdevctx = 0, fmap_fragnum = 0\<rparr>);
       let k1 = k\<lparr>k_sce := s1\<rparr>;
       if r \<noteq> SCE_SUCCESS then Some (Orig, hdd_put k1)
       else do {
         fmap \<leftarrow> out;
         bug_on (fmap_cdevctx fmap = 0);
         let k2 = ssd_add (fmap_cdevctx fmap) 1 k1;
         let ssd = ssds (fmap_cdevctx fmap);
         if \<not> s_online ssd \<or> s_queue_max_hw_sectors ssd < nr_sctr
         then do {
           (_, s2) \<leftarrow> sce_put4read s1 (h_lun hdd) psn nr_sctr;
           Some (Orig, hdd_put (ssd_add (fmap_cdevctx fmap) (-1) (k2\<lparr>k_sce := s2\<rparr>)))
         }
         else if \<not> alloc_ok then Some (Orig, hdd_put (ssd_add (fmap_cdevctx fmap) (-1) k2))
         else Some (Cached (fmap_cdevctx fmap) (fmap_fragnum fmap) psn nr_sctr, hdd_put k2)
       }
     })"

definition iostash_mkrequest_awt :: "bool \<Rightarrow> (ptr \<Rightarrow> ssd_info) \<Rightarrow> hdd_info option \<Rightarrow> bio \<Rightarrow> hook \<Rightarrow> awt
    \<Rightarrow> (route \<times> hook \<times> awt) option" where
  "iostash_mkrequest_awt alloc_ok ssds hdd_search bio k0 a =
     (case hdd_search of
        None \<Rightarrow> Some (Dangling, k0, a)
      | Some hdd \<Rightarrow>
          let k = k0\<lparr>k_hdd_ref := k_hdd_ref k0 + 1\<rparr>;
              psn = bi_sector bio + bi_start_sect bio;
              nr_sctr = to_sector (bi_size bio)
          in if \<not> h_online hdd then Some (Orig, hdd_put k, a)
             else if to_sector (bi_size bio) = 0 then Some (Orig, hdd_put k, a)
             else if psn < h_part_start hdd \<or> psn + ucast nr_sctr > h_part_end hdd then Some (Orig, hdd_put k, a)
             else if bi_write bio
             then mkrequest_write_awt alloc_ok ssds hdd psn nr_sctr (k\<lparr>k_st_write := k_st_write k + 1\<rparr>) a
             else map_option (\<lambda>(rt, k1). (rt, k1, a)) (mkrequest_read_awt alloc_ok ssds hdd psn nr_sctr k a))"

section \<open>The two builds\<close>

text \<open>As long as no fragment has a second bitmap, the two builds serve and invalidate the same.\<close>

lemma frag_awt_idle:
  assumes "pending_awt a fl = None"
  shows "frag_isvalid_awt a fl fr pg n = frag_isvalid fr pg n"
    and "frag_invalidate_awt a fl fr pg n = frag_invalidate fr pg n"
  using assms by (simp_all add: frag_isvalid_awt_def frag_isvalid_def frag_invalidate_awt_def frag_invalidate_def)

lemma get4read_awt_idle: "\<forall>fl. pending_awt a fl = None \<Longrightarrow> sce_get4read_awt s a h sctr nr out = sce_get4read s h sctr nr out"
  by (simp only: sce_get4read_awt_def sce_get4read_def frag_awt_idle)

lemma inval_loop_awt_idle0:
  assumes "\<forall>fl. pending_awt a fl = None"
  shows "inval_loop_awt s a li fragn 0 count wh = inval_loop s li fragn 0 count wh"
proof (induction "unat count" arbitrary: s fragn count wh rule: less_induct)
  case less
  let ?n = "if SCE_PAGEPERFRAG - 0 > count then count else SCE_PAGEPERFRAG - 0"
  have ih: "inval_loop_awt s' a li fragn' 0 (count - ?n) wh' = inval_loop s' li fragn' 0 (count - ?n) wh'"
    if "count > 0" for s' fragn' wh'
    by (rule less) (use that in \<open>auto simp: word_less_nat_alt unat_sub_if_size word_size word_le_nat_alt split: if_splits\<close>)
  show ?case
    by (subst inval_loop_awt.simps, subst inval_loop.simps)
      (simp only: Let_def frag_awt_idle(2) [OF spec [OF assms]] ih cong: if_cong)
qed

lemma invalidate_awt_idle:
  assumes "\<forall>fl. pending_awt a fl = None"
  shows "sce_invalidate_awt s a h sctr nr = sce_invalidate s h sctr nr"
proof -
  have "inval_loop_awt s' a li fragn pgoff count wh = inval_loop s' li fragn pgoff count wh" for s' li fragn pgoff count wh
    by (subst inval_loop_awt.simps, subst inval_loop.simps)
      (simp only: Let_def frag_awt_idle(2) [OF spec [OF assms]] inval_loop_awt_idle0 [OF assms])
  then show ?thesis by (simp only: sce_invalidate_awt_def sce_invalidate_def)
qed

section \<open>A write that goes to both devices\<close>

text \<open>
  The counter of the I/O, its two errors, the clones that are out and the run of the worker.
  \<open>v_ssd_wrote\<close> and \<open>v_hdd_wrote\<close> tell that the transfer of a clone succeeded, \<open>v_puts\<close> holds the
  arguments \<^verbatim>\<open>failed\<close> of the calls of \<^verbatim>\<open>sce_put4write\<close>, \<open>v_ended\<close> counts how often the base request was
  ended, \<open>v_lost\<close> counts clones that are never given back, and \<open>v_uaf\<close> tells that the counter was
  touched after the structure had been freed.
\<close>

record iow =
  v_pending :: int
  v_error :: bool
  v_ssd_werr :: bool
  v_ssd :: bool
  v_hdd :: bool
  v_run :: phase
  v_ssd_wrote :: bool
  v_hdd_wrote :: bool
  v_puts :: "bool list"
  v_ended :: nat
  v_lost :: nat
  v_uaf :: bool

definition write_start :: iow where
  "write_start = \<lparr>v_pending = 0, v_error = False, v_ssd_werr = False, v_ssd = False, v_hdd = False,
     v_run = Queued, v_ssd_wrote = False, v_hdd_wrote = False, v_puts = [], v_ended = 0, v_lost = 0, v_uaf = False\<rparr>"

definition inc_pending_write :: "iow \<Rightarrow> iow" where
  "inc_pending_write io = io\<lparr>v_pending := v_pending io + 1, v_uaf := v_uaf io \<or> v_ended io > 0\<rparr>"

definition dec_pending_write :: "iow \<Rightarrow> iow" where
  "dec_pending_write io =
     (let io1 = io\<lparr>v_pending := v_pending io - 1, v_uaf := v_uaf io \<or> v_ended io > 0\<rparr>
      in if v_pending io1 = 0
         then io1\<lparr>v_puts := v_puts io1 @ [v_ssd_werr io1 \<or> v_error io1], v_ended := v_ended io1 + 1\<rparr>
         else io1)"

text \<open>The write handling of \<^verbatim>\<open>_io_worker_run\<close>, between its two changes of the counter.\<close>

definition worker_write :: "bool \<Rightarrow> bool \<Rightarrow> bool \<Rightarrow> iow \<Rightarrow> iow" where
  "worker_write ssd_alloc ssd_online hdd_alloc io =
     (let io1 = (if ssd_alloc
                 then if ssd_online then (inc_pending_write io)\<lparr>v_ssd := True\<rparr> else io\<lparr>v_lost := v_lost io + 1\<rparr>
                 else io)
      in if \<not> hdd_alloc then io1\<lparr>v_error := True\<rparr> else (inc_pending_write io1)\<lparr>v_hdd := True\<rparr>)"

text \<open>\<^verbatim>\<open>_endio4write\<close>, for the clone of the SSD and for that of the disk.\<close>

definition endio4write :: "bool \<Rightarrow> bool \<Rightarrow> iow \<Rightarrow> iow" where
  "endio4write is_ssd error io0 =
     (let io = (if is_ssd then io0\<lparr>v_ssd := False, v_ssd_wrote := \<not> error\<rparr> else io0\<lparr>v_hdd := False, v_hdd_wrote := \<not> error\<rparr>);
          io1 = (if error then if is_ssd then io\<lparr>v_ssd_werr := True\<rparr> else io\<lparr>v_error := True\<rparr> else io)
      in dec_pending_write io1)"

datatype wev = WBegin | WBody bool bool bool | WEnd | WSsdDone bool | WHddDone bool

fun write_step :: "wev \<Rightarrow> iow \<Rightarrow> iow option" where
  "write_step WBegin io = (if v_run io = Queued then Some ((inc_pending_write io)\<lparr>v_run := Begun\<rparr>) else None)"
| "write_step (WBody a ol h) io = (if v_run io = Begun then Some ((worker_write a ol h io)\<lparr>v_run := Ending\<rparr>) else None)"
| "write_step WEnd io = (if v_run io = Ending then Some ((dec_pending_write io)\<lparr>v_run := Done\<rparr>) else None)"
| "write_step (WSsdDone e) io = (if v_ssd io then Some (endio4write True e io) else None)"
| "write_step (WHddDone e) io = (if v_hdd io then Some (endio4write False e io) else None)"

definition write_events :: "wev list \<Rightarrow> iow \<Rightarrow> iow option" where
  "write_events evs io = for_each evs write_step io"

definition write_quiet :: "iow \<Rightarrow> bool" where
  "write_quiet io \<longleftrightarrow> \<not> v_ssd io \<and> \<not> v_hdd io \<and> v_run io = Done"

section \<open>The counter of a write\<close>

text \<open>Every part of the I/O that is under way holds one count.\<close>

definition write_counts :: "iow \<Rightarrow> int" where
  "write_counts io = of_bool (in_run (v_run io)) + of_bool (v_ssd io) + of_bool (v_hdd io)"

text \<open>
  With \<open>ol\<close>, the allocation of the clones succeeded and the SSD was online: then both devices have
  been written, or the error of the one that has not is kept.
\<close>

definition winv_io :: "bool \<Rightarrow> iow \<Rightarrow> bool" where
  "winv_io ol io \<longleftrightarrow> v_pending io = write_counts io \<and> \<not> v_uaf io \<and> v_run io \<noteq> Idle
     \<and> v_ended io = (if v_run io \<noteq> Queued \<and> write_counts io = 0 then 1 else 0)
     \<and> v_puts io = (if v_ended io = 1 then [v_ssd_werr io \<or> v_error io] else [])
     \<and> (v_run io = Queued \<or> v_run io = Begun \<longrightarrow> \<not> v_ssd io \<and> \<not> v_hdd io)
     \<and> (v_run io = Ending \<or> v_run io = Done \<longrightarrow> v_hdd io \<or> v_hdd_wrote io \<or> v_error io)
     \<and> (ol \<and> (v_run io = Ending \<or> v_run io = Done) \<longrightarrow> v_ssd io \<or> v_ssd_wrote io \<or> v_ssd_werr io)"

fun clones_made :: "wev \<Rightarrow> bool" where
  "clones_made (WBody a ol h) = (a \<and> ol)"
| "clones_made _ = True"

lemma winv_io_start: "winv_io ol write_start"
  by (simp add: winv_io_def write_start_def write_counts_def in_run_def)

lemma winv_io_step:
  assumes inv: "winv_io ol io" and st: "write_step ev io = Some io'" and ok: "ol \<longrightarrow> clones_made ev"
  shows "winv_io ol io'"
proof -
  note defs = winv_io_def write_counts_def in_run_def inc_pending_write_def dec_pending_write_def
  show ?thesis
  proof (cases ev)
    case WBegin
    then have h: "v_run io = Queued" "io' = (inc_pending_write io)\<lparr>v_run := Begun\<rparr>" using st by (auto split: if_splits)
    show ?thesis unfolding h(2) using inv h(1) by (simp add: defs)
  next
    case (WBody a o' h)
    then have h: "v_run io = Begun" "io' = (worker_write a o' h io)\<lparr>v_run := Ending\<rparr>" using st by (auto split: if_splits)
    show ?thesis unfolding h(2) using inv h(1) ok WBody
      by (cases a; cases o'; cases h; simp add: defs worker_write_def Let_def)
  next
    case WEnd
    then have h: "v_run io = Ending" "io' = (dec_pending_write io)\<lparr>v_run := Done\<rparr>" using st by (auto split: if_splits)
    show ?thesis unfolding h(2) using inv h(1)
      by (cases "v_ssd io"; cases "v_hdd io"; simp add: defs Let_def)
  next
    case (WSsdDone e)
    then have h: "v_ssd io" "io' = endio4write True e io" using st by (auto split: if_splits)
    show ?thesis unfolding h(2) using inv h(1)
      by (cases "v_run io"; cases "v_hdd io"; cases e; simp add: defs endio4write_def Let_def)
  next
    case (WHddDone e)
    then have h: "v_hdd io" "io' = endio4write False e io" using st by (auto split: if_splits)
    show ?thesis unfolding h(2) using inv h(1)
      by (cases "v_run io"; cases "v_ssd io"; cases e; simp add: defs endio4write_def Let_def)
  qed
qed

lemma winv_io_events:
  "winv_io ol io \<Longrightarrow> ol \<longrightarrow> (\<forall>ev \<in> set evs. clones_made ev) \<Longrightarrow> write_events evs io = Some io' \<Longrightarrow> winv_io ol io'"
proof (induction evs arbitrary: io)
  case Nil
  then show ?case by (simp add: write_events_def)
next
  case (Cons ev evs)
  then obtain io1 where "write_step ev io = Some io1" "write_events evs io1 = Some io'"
    by (auto simp: write_events_def split: Option.bind_splits)
  then show ?case using Cons.IH [of io1] Cons.prems winv_io_step [of ol io ev io1] by auto
qed

lemma req_one_word:
  assumes w: "write_at s a li sctr nr d"
  shows "(sctr + ucast nr - 1) div 2048 = sctr div 2048"
proof -
  have req: "req_ok (luntbl s li) sctr nr" "req_one sctr nr" using w by (simp_all add: write_at_def)
  then have ov: "unat sctr + unat nr < 2 ^ 64" "nr \<noteq> 0" by (simp_all add: req_ok_def)
  have e: "unat (sctr + ucast nr :: u64) = unat sctr + unat nr" by (rule req_sum [OF ov(1)])
  have "0 < unat nr" using ov(2) by (simp add: unat_gt_0)
  then have "sctr + ucast nr \<noteq> (0 :: u64)" using e by (metis add_gr_0 less_not_refl unat_0)
  then have "unat (sctr + ucast nr - 1 :: u64) = unat sctr + unat nr - 1" using e by (simp add: unat_dec)
  then show ?thesis using req_one_frag [OF req(2) ov(2)] by (simp add: word_unat_eq_iff unat_div_distrib)
qed

section \<open>Properties\<close>

text \<open>
  C19: a write that goes to both devices, its worker and the ends of its clones in any order and with
  any failed allocation, device or transfer: once nothing of it is under way, the base request has
  been ended once, the counter is 0 and was never touched after the end, and \<^verbatim>\<open>sce_put4write\<close> was called
  once. When it was told that nothing failed, the disk has been written; the SSD as well, if its
  clone was made.
\<close>

theorem write_io_ends_once:
  assumes "write_events evs write_start = Some io" "write_quiet io"
  shows "v_ended io = 1 \<and> v_pending io = 0 \<and> \<not> v_uaf io \<and> v_puts io = [v_ssd_werr io \<or> v_error io]
    \<and> (v_puts io = [False] \<longrightarrow> v_hdd_wrote io)
    \<and> (v_puts io = [False] \<and> (\<forall>ev \<in> set evs. clones_made ev) \<longrightarrow> v_ssd_wrote io)"
proof -
  have "winv_io ol io" if "ol \<longrightarrow> (\<forall>ev \<in> set evs. clones_made ev)" for ol
    by (rule winv_io_events [OF winv_io_start that assms(1)])
  from this [of False] this [of "\<forall>ev \<in> set evs. clones_made ev"] show ?thesis
    using assms(2) by (auto simp: winv_io_def write_quiet_def write_counts_def in_run_def)
qed

lemma write_io_ends_once_witness:
  "\<exists>io. write_events [WBegin, WBody True True True, WHddDone False, WEnd, WSsdDone True] write_start = Some io
    \<and> v_ended io = 1 \<and> v_puts io = [True]"
proof -
  let ?evs = "[WBegin, WBody True True True, WHddDone False, WEnd, WSsdDone True]"
  obtain io where io: "write_events ?evs write_start = Some io" "write_quiet io" "v_ssd_werr io"
    by (simp add: write_events_def write_start_def inc_pending_write_def dec_pending_write_def worker_write_def
        endio4write_def write_quiet_def Let_def)
  from write_io_ends_once [OF io(1,2)] io(1,3) show ?thesis by (intro exI [of _ io]) simp
qed






end
