(* ===== verification/Spec2Isabelle.thy ===== *)
theory Spec2Isabelle
  imports Iostash_Show Iostash_Pdm Iostash_Awt
begin

text \<open>
  iostash is a Linux kernel module that caches hard disks on solid state drives. Requests to a cached
  disk pass through a hook: reads are served from an SSD when they can be, writes go to the disk and
  invalidate what the cache holds. A daemon populates the cache with the fragments that are missed
  most. Disks and SSDs are added and removed at run time. This development models the cache engine,
  \<^verbatim>\<open>src/sce_*.c\<close>, and the module around it, \<^verbatim>\<open>src/iostash_*.c\<close>, \<^verbatim>\<open>src/pdm.c\<close> and \<^verbatim>\<open>src/helpers.c\<close>,
  for kernels from 4.4 on: the default build (\<^verbatim>\<open>SCE_AWT\<close> not set, population by heat), and in theories
  of its own the code that \<^verbatim>\<open>SCE_AWT\<close> adds, asynchronous write-through, with which a write to a cached
  fragment goes to the disk and to the SSD.

  The engine, in the order the theories build on each other:

  \<^item> \<^verbatim>\<open>Sce_Prelude\<close>, \<^verbatim>\<open>Sce_Types\<close>: machine types, constants and macros, the structures of
    \<^verbatim>\<open>sce.h\<close> and \<^verbatim>\<open>sce_internal.h\<close>; partial functions (\<open>None\<close>: a \<^verbatim>\<open>BUG_ON\<close>, an access out of
    bounds, a loop that does not end) and \<open>returns\<close>, total correctness.
  \<^item> \<^verbatim>\<open>Sce_Fragment\<close> (\<^verbatim>\<open>sce_fragment.c\<close>): page bitmaps.
  \<^item> \<^verbatim>\<open>Sce_Util\<close>, \<^verbatim>\<open>Sce_Freelist\<close> (\<^verbatim>\<open>sce_util.c\<close>, \<^verbatim>\<open>sce_freefraglist.c\<close>): fragment ids and the free
    list through the fragment tables.
  \<^item> \<^verbatim>\<open>Sce_Invariant\<close>: the invariant \<open>sce_wf\<close> of the engine; \<^verbatim>\<open>Sce_Example\<close>: a concrete engine
    that satisfies it, used by the witnesses.
  \<^item> \<^verbatim>\<open>Sce_Mapping\<close> (\<^verbatim>\<open>sce_mapping.c\<close>), \<^verbatim>\<open>Sce_Contents\<close>: mapping and unmapping, and the abstract
    state \<open>view\<close>: which pages of which LUN the cache holds, and where.
  \<^item> \<^verbatim>\<open>Sce_Lun\<close>, \<^verbatim>\<open>Sce_Misslog\<close>, \<^verbatim>\<open>Sce_Eviction\<close>, \<^verbatim>\<open>Sce_Population\<close>, \<^verbatim>\<open>Sce_Cachedev\<close>: one theory per
    file of the same name.
  \<^item> \<^verbatim>\<open>Sce_Interface\<close> (\<^verbatim>\<open>sce_interface.c\<close>): the calls of the module. \<^verbatim>\<open>Sce_Config\<close> (devices and LUNs),
    \<^verbatim>\<open>Sce_Io\<close> (reads), \<^verbatim>\<open>Sce_Write\<close> (invalidation) and \<^verbatim>\<open>Sce_Pop\<close> (handing out a population) prove what
    each does to the invariant and to the abstract state; \<^verbatim>\<open>Sce_Safe\<close> collects what every call
    keeps, also outside its intended use, and treats the end of a population.
  \<^item> \<^verbatim>\<open>Sce_System\<close>, \<^verbatim>\<open>Sce_Trace\<close>: the engine together with the contents of the disks, the SSDs and the
    buffers of the copies under way, as a step relation; its invariant \<open>coh\<close> and what follows for
    every reachable world: served reads are coherent, and no call stops the kernel.

  The engine with \<^verbatim>\<open>SCE_AWT\<close>:

  \<^item> \<^verbatim>\<open>Sce_Awt\<close> (\<^verbatim>\<open>sce_fragment.c\<close>, \<^verbatim>\<open>sce_freefraglist.c\<close>): the second bitmap of a fragment and the pool it
    comes from. Two bits make a page valid, invalid, being written or dirty; the locale \<open>page_walk\<close>,
    interpreted on the three loops over pages, turns a loop over bits into a transition of pages.
  \<^item> \<^verbatim>\<open>Sce_Protocol\<close>: all interleavings of writes to the fragments as a step relation, with the contents
    of disk and SSD. Its invariant gives that pages let through to a read agree with the disk, that no
    call stops the kernel and that the buffers are never confused; and it shows what goes wrong when a
    write that the engine does not follow is still under way.
  \<^item> \<^verbatim>\<open>Sce_Getwrite\<close> (\<^verbatim>\<open>sce_interface.c\<close>): \<^verbatim>\<open>sce_get4write\<close> and \<^verbatim>\<open>sce_put4write\<close>. The latter names a field
    \<^verbatim>\<open>fragmaps\<close> that the structures do not have; the model reads \<^verbatim>\<open>fragmap\<close>.
    A write hides its pages, and when it ends well they are cached; a write that begins while its
    fragment is being populated blocks itself and the population.
  \<^item> \<^verbatim>\<open>Iostash_Awt\<close> (\<^verbatim>\<open>iostash_iohook.c\<close>): the hook in this build, the life of a write that goes to both
    devices, and that the two builds are the same while no such write is under way.

  The module:

  \<^item> \<^verbatim>\<open>Iostash_Types\<close> (\<^verbatim>\<open>iostash.h\<close>): disks, SSDs and requests.
  \<^item> \<^verbatim>\<open>Iostash_Pdm\<close> (\<^verbatim>\<open>pdm.c\<close>): the rates, a pass of a daemon thread, creation and end of the threads.
  \<^item> \<^verbatim>\<open>Iostash_Hook\<close> (\<^verbatim>\<open>iostash_iohook.c\<close>, \<^verbatim>\<open>iostash_population.c\<close>): addresses on disk and SSD; what
    becomes of a request; and the life of an I/O from the cache as a machine whose events are the
    parts of \<^verbatim>\<open>_io_worker\<close> and the ends of its clones, in any order. \<^verbatim>\<open>Iostash_Request\<close> relates the hook
    to the engine: counters, invalidation, coherence.
  \<^item> \<^verbatim>\<open>Iostash_Table\<close>: the hash tables, and the locale \<open>registry\<close>, the contract of a registry; the
    theories \<^verbatim>\<open>Iostash_Hdd\<close> (\<^verbatim>\<open>iostash_hdd.c\<close>) and \<^verbatim>\<open>Iostash_Ssd\<close> (\<^verbatim>\<open>iostash_ssd.c\<close>) interpret it on
    the tables of the disks and of the SSDs, and prove that registration and removal keep the tables,
    the hooked queues, the counters and the devices of the engine in step.
  \<^item> \<^verbatim>\<open>Iostash_Module\<close> (\<^verbatim>\<open>iostash_module.c\<close>, \<^verbatim>\<open>helpers.c\<close>): the commands of the control files, and the
    order in which the module takes its objects and gives them back. \<^verbatim>\<open>Iostash_Show\<close>: the names of the
    objects in sysfs, the attribute files and their texts.

  Every call of the engine is one step: it runs under the engine's or the LUN's spin lock, and every
  operation of the registries under \<^verbatim>\<open>ctl_mtx\<close>. The results of allocations, the block layer, \<^verbatim>\<open>dm_io\<close>,
  \<^verbatim>\<open>kthread_run\<close> and the hash function are parameters. Loops of the code are recursive functions; those
  whose end is not structural are \<open>partial_function (option)\<close>, and that they end is proved. A wait for
  other threads is modelled from the moment on at which it is over.

  Bounds: no fuel is used. The loops that search (the clock arm, the miss log) are given with their
  limits in the code. The step relations have no bound on the number of steps; a fragment takes a
  further write-through write while fewer than 65535 are under way to it, because its counter has 16
  bits.

  Not modelled: the branches for kernels before 4.4; \<^verbatim>\<open>rcu\<close>, memory barriers and sleeping; the
  registration of the sysfs objects with the kernel, of which only the results are parameters; the
  counter \<^verbatim>\<open>st_awt\<close>; the messages to the log; and that a device is removed, a fragment evicted or
  populated in the middle of a write-through write, for which only the engine calls themselves are
  given.
\<close>

end
